(* ===== verification/Kernel_Prelude.thy ===== *)
theory Kernel_Prelude
  imports Main "HOL-Library.Word"
begin

unbundle bit_operations_syntax

text \<open>
  Shared vocabulary of the development: the faults that end a kernel run (a failed
  \<^verbatim>\<open>assert\<close>, a dereferenced null pointer, a loop that never ends, a divide error), results that
  are a fault or a value, C's 32-bit integers, a byte-addressed memory with little-endian words,
  and the list facts that the components use.
\<close>

section \<open>Faults and results\<close>

text \<open>
  \<^item> \<open>AssertFail\<close>: the macro \<^verbatim>\<open>assert\<close> of \<^verbatim>\<open>shared/debug.h\<close> calls \<^verbatim>\<open>panic\<close>, which writes to address 0.
  \<^item> \<open>NullDeref\<close>: an access through a null pointer; page 0 is not mapped, so this is a page fault.
  \<^item> \<open>Hang\<close>: a loop of the kernel that never ends.
  \<^item> \<open>DivideError\<close>: the processor's exception 0.
  \<^item> \<open>OutOfBounds\<close>: an array is read or written outside its bounds.
  \<^item> \<open>BadArgument\<close>: a \<^verbatim>\<open>va_arg\<close> of another type than the argument passed, or of none.
\<close>

datatype fault = AssertFail | NullDeref | Hang | DivideError | OutOfBounds | BadArgument | PageFault

type_synonym 'a result = "fault + 'a"

text \<open>Sequencing: the next statement runs on the value of the one before, a fault stops the run.\<close>

definition bnd :: "'e + 'a \<Rightarrow> ('a \<Rightarrow> 'e + 'b) \<Rightarrow> 'e + 'b" where
  "bnd r f = (case r of Inl e \<Rightarrow> Inl e | Inr x \<Rightarrow> f x)"

lemma bnd_Inl [simp]: "bnd (Inl e) f = Inl e"
  by (simp add: bnd_def)

lemma bnd_Inr [simp]: "bnd (Inr x) f = f x"
  by (simp add: bnd_def)

lemma bnd_eq_Inr: "bnd r f = Inr y \<longleftrightarrow> (\<exists>x. r = Inr x \<and> f x = Inr y)"
  by (cases r) auto

lemma bnd_eq_Inl: "bnd r f = Inl e \<longleftrightarrow> r = Inl e \<or> (\<exists>x. r = Inr x \<and> f x = Inl e)"
  by (cases r) auto

lemma bnd_InrE [elim]:
  assumes "bnd r f = Inr y"
  obtains x where "r = Inr x" and "f x = Inr y"
  using assms by (auto simp: bnd_eq_Inr)

lemma bnd_fundef_cong [fundef_cong]:
  "r = r' \<Longrightarrow> (\<And>x. r' = Inr x \<Longrightarrow> f x = f' x) \<Longrightarrow> bnd r f = bnd r' f'"
  by (cases r') auto

lemma bnd_assoc: "bnd (bnd r f) g = bnd r (\<lambda>x. bnd (f x) g)"
  by (cases r) auto

text \<open>A loop over a list of values, stopped by a fault.\<close>

fun mfold :: "('a \<Rightarrow> 's \<Rightarrow> 'e + 's) \<Rightarrow> 'a list \<Rightarrow> 's \<Rightarrow> 'e + 's" where
  "mfold f [] s = Inr s"
| "mfold f (x # xs) s = bnd (f x s) (mfold f xs)"

lemma mfold_append: "mfold f (xs @ ys) s = bnd (mfold f xs s) (mfold f ys)"
proof (induction xs arbitrary: s)
  case (Cons x xs)
  then have "mfold f (xs @ ys) = (\<lambda>s. bnd (mfold f xs s) (mfold f ys))" by (intro ext)
  then show ?case by (simp add: bnd_assoc)
qed simp

section \<open>C integers\<close>

type_synonym u8 = "8 word"
type_synonym u16 = "16 word"
type_synonym u32 = "32 word"

text \<open>The conversion of a value to \<^verbatim>\<open>int\<close> and to \<^verbatim>\<open>short\<close>: two's complement, as gcc does it.\<close>

definition to_int :: "u32 \<Rightarrow> int" where
  "to_int w = sint w"

definition to_short :: "int \<Rightarrow> int" where
  "to_short i = sint (word_of_int i :: u16)"

definition of_int32 :: "int \<Rightarrow> u32" where
  "of_int32 i = word_of_int i"

lemma to_short_bounds: "- 32768 \<le> to_short i \<and> to_short i \<le> 32767"
  using sint_ge [of "word_of_int i :: u16"] sint_lt [of "word_of_int i :: u16"]
  by (simp add: to_short_def)

lemma to_int_bounds: "- (2 ^ 31) \<le> to_int w \<and> to_int w < 2 ^ 31"
  using sint_ge [of w] sint_lt [of w] by (simp add: to_int_def)

lemma to_int_small: "uint w < 2 ^ 31 \<Longrightarrow> to_int w = uint w"
  using signed_take_bit_int_eq_self [of 31 "uint w"]
  by (simp add: to_int_def sint_uint order_trans [OF _ uint_ge_0])

lemma unat_ucast_8_32 [simp]: "unat (ucast (w :: u8) :: u32) = unat w"
  using unsigned_less [of w, where 'a = nat] by (simp add: unsigned_ucast_eq take_bit_nat_eq_self)

section \<open>Byte memory\<close>

type_synonym addr = u32
type_synonym mem = "addr \<Rightarrow> u8"

definition store32 :: "mem \<Rightarrow> addr \<Rightarrow> u32 \<Rightarrow> mem" where
  "store32 m a w = m(a := ucast w, a + 1 := ucast (drop_bit 8 w),
     a + 2 := ucast (drop_bit 16 w), a + 3 := ucast (drop_bit 24 w))"

definition load32 :: "mem \<Rightarrow> addr \<Rightarrow> u32" where
  "load32 m a = ucast (m a) OR push_bit 8 (ucast (m (a + 1)))
     OR push_bit 16 (ucast (m (a + 2))) OR push_bit 24 (ucast (m (a + 3)))"

lemma ucast_bytes_u32:
  "(ucast (ucast w :: u8) :: u32) OR push_bit 8 (ucast (ucast (drop_bit 8 w) :: u8))
     OR push_bit 16 (ucast (ucast (drop_bit 16 w) :: u8))
     OR push_bit 24 (ucast (ucast (drop_bit 24 w) :: u8)) = (w :: u32)"
proof (rule bit_word_eqI)
  fix n :: nat
  assume "n < LENGTH(32)"
  then have "n < 8 \<or> (8 \<le> n \<and> n < 16) \<or> (16 \<le> n \<and> n < 24) \<or> (24 \<le> n \<and> n < 32)"
    by auto
  then show "bit ((ucast (ucast w :: u8) :: u32) OR push_bit 8 (ucast (ucast (drop_bit 8 w) :: u8))
     OR push_bit 16 (ucast (ucast (drop_bit 16 w) :: u8))
     OR push_bit 24 (ucast (ucast (drop_bit 24 w) :: u8))) n = bit w n"
    by (elim disjE conjE) (auto simp: bit_simps)
qed

text \<open>What a 32-bit store writes, a 32-bit load reads back.\<close>

lemma load32_store32 [simp]: "load32 (store32 m a w) a = w"
  by (simp add: load32_def store32_def ucast_bytes_u32)

text \<open>Stores at least four bytes apart (in both directions, modulo wrap-around) do not interfere.\<close>

definition apart4 :: "addr \<Rightarrow> addr \<Rightarrow> bool" where
  "apart4 a b \<longleftrightarrow> 4 \<le> b - a \<and> 4 \<le> a - b"

lemma apart4_offsets:
  assumes "apart4 a b" and "i < 4" and "j < (4 :: u32)"
  shows "a + i \<noteq> b + j"
proof
  assume eq: "a + i = b + j"
  then have ba: "b - a = i - j" and ab: "a - b = j - i"
    by (simp_all add: algebra_simps)
  show False
  proof (cases "j \<le> i")
    case True
    then have "i - j \<le> i" by (simp add: word_sub_le)
    with assms ba show False by (auto simp: apart4_def)
  next
    case False
    then have "j - i \<le> j" by (simp add: word_sub_le)
    with assms ab show False by (auto simp: apart4_def)
  qed
qed

lemma load32_store32_apart:
  assumes "apart4 b a"
  shows "load32 (store32 m b w) a = load32 m a"
proof -
  have ne: "b + i \<noteq> a + j" if "i < 4" "j < 4" for i j :: u32
    using apart4_offsets [OF assms that] .
  show ?thesis
    using ne [of 0 0] ne [of 0 1] ne [of 0 2] ne [of 0 3] ne [of 1 0] ne [of 1 1] ne [of 1 2] ne [of 1 3]
      ne [of 2 0] ne [of 2 1] ne [of 2 2] ne [of 2 3] ne [of 3 0] ne [of 3 1] ne [of 3 2] ne [of 3 3]
    by (simp add: load32_def store32_def)
qed

text \<open>The bytes \<open>bs\<close> written from address \<open>a\<close> on.\<close>

fun write_bytes :: "mem \<Rightarrow> addr \<Rightarrow> u8 list \<Rightarrow> mem" where
  "write_bytes m a [] = m"
| "write_bytes m a (b # bs) = write_bytes (m(a := b)) (a + 1) bs"

fun read_bytes :: "mem \<Rightarrow> addr \<Rightarrow> nat \<Rightarrow> u8 list" where
  "read_bytes m a 0 = []"
| "read_bytes m a (Suc n) = m a # read_bytes m (a + 1) n"

section \<open>Lists\<close>

text \<open>The elements before the first one that does not satisfy \<open>P\<close>, then \<open>x\<close>, then the rest.\<close>

definition insert_after_while :: "('a \<Rightarrow> bool) \<Rightarrow> 'a \<Rightarrow> 'a list \<Rightarrow> 'a list" where
  "insert_after_while P x xs = takeWhile P xs @ x # dropWhile P xs"

lemma insert_after_while_simps [simp]:
  "insert_after_while P x [] = [x]"
  "insert_after_while P x (y # ys) = (if P y then y # insert_after_while P x ys else x # y # ys)"
  by (simp_all add: insert_after_while_def)

lemma set_insert_after_while [simp]: "set (insert_after_while P x xs) = insert x (set xs)"
  by (induction xs) auto

lemma length_insert_after_while [simp]: "length (insert_after_while P x xs) = Suc (length xs)"
  by (induction xs) auto

lemma distinct_insert_after_while [simp]:
  "distinct (insert_after_while P x xs) \<longleftrightarrow> x \<notin> set xs \<and> distinct xs"
  by (induction xs) auto

lemma map_insert_after_while:
  "map f (insert_after_while (P \<circ> f) x xs) = insert_after_while P (f x) (map f xs)"
  by (induction xs) auto

lemma set_butlast_distinct: "distinct xs \<Longrightarrow> xs \<noteq> [] \<Longrightarrow> set (butlast xs) = set xs - {last xs}"
  by (induction xs rule: rev_induct) auto

lemma find_map: "find P (map f xs) = map_option f (find (\<lambda>x. P (f x)) xs)"
  by (induction xs) auto

lemma remove1_middle: "distinct (xs @ x # ys) \<Longrightarrow> remove1 x (xs @ x # ys) = xs @ ys"
  by (simp add: remove1_append)

end
