(* ===== verification/Link_Queue.thy ===== *)
theory Link_Queue
  imports Kernel_Prelude
begin

text \<open>
  \<^verbatim>\<open>shared/queue.h\<close>: circular doubly linked lists of \<^verbatim>\<open>link\<close> fields embedded in the elements,
  sorted on insertion. A type of link locations stands for the addresses of the \<^verbatim>\<open>link\<close> fields;
  the heap of links gives each location its \<^verbatim>\<open>prev\<close> and \<^verbatim>\<open>next\<close> pointer. The macros are modelled
  statement by statement, asserts included, on any heap, well formed or not.
  The second half relates a well-formed heap to plain lists, and the locale \<open>link_family\<close> states
  what a table of queue heads with one link field per element promises to its clients.
\<close>

section \<open>The macros of queue.h\<close>

record 'l link =
  lprev :: "'l option"
  lnext :: "'l option"

type_synonym 'l links = "'l \<Rightarrow> 'l link"

definition INIT_LINK :: "'l links \<Rightarrow> 'l \<Rightarrow> 'l links" where
  "INIT_LINK h l = h(l := \<lparr>lprev = None, lnext = None\<rparr>)"

definition INIT_LIST_HEAD :: "'l links \<Rightarrow> 'l \<Rightarrow> 'l links" where
  "INIT_LIST_HEAD h l = h(l := \<lparr>lprev = Some l, lnext = Some l\<rparr>)"

definition set_next :: "'l links \<Rightarrow> 'l \<Rightarrow> 'l option \<Rightarrow> 'l links" where
  "set_next h l v = h(l := (h l)\<lparr>lnext := v\<rparr>)"

definition set_prev :: "'l links \<Rightarrow> 'l \<Rightarrow> 'l option \<Rightarrow> 'l links" where
  "set_prev h l v = h(l := (h l)\<lparr>lprev := v\<rparr>)"

text \<open>
  The search loop of \<^verbatim>\<open>queue_add\<close>: move to the next link while it is not the head and its key is
  smaller than the key of the element. The first argument bounds the number of links followed;
  a client passes the number of its links, so that using it up means going round a cycle that
  misses the head, for ever.
\<close>

fun queue_add_scan :: "nat \<Rightarrow> 'l links \<Rightarrow> ('l \<Rightarrow> int) \<Rightarrow> 'l \<Rightarrow> 'l \<Rightarrow> 'l \<Rightarrow> 'l result" where
  "queue_add_scan 0 h key head e cur = Inl Hang"
| "queue_add_scan (Suc n) h key head e cur =
     (case lnext (h cur) of
        None \<Rightarrow> Inl NullDeref
      | Some c \<Rightarrow> if c \<noteq> head \<and> key c < key e then queue_add_scan n h key head e c else Inr c)"

definition queue_add :: "nat \<Rightarrow> 'l links \<Rightarrow> ('l \<Rightarrow> int) \<Rightarrow> 'l \<Rightarrow> 'l \<Rightarrow> 'l links result" where
  "queue_add n h key head e =
     (if \<not> (lprev (h e) = None \<and> lnext (h e) = None) then Inl AssertFail
      else bnd (queue_add_scan n h key head e head) (\<lambda>cur.
        let h1 = set_next h e (Some cur);
            h2 = set_prev h1 e (lprev (h1 cur))
        in case lprev (h2 cur) of
             None \<Rightarrow> Inl NullDeref
           | Some p \<Rightarrow> (let h3 = set_next h2 p (Some e) in Inr (set_prev h3 cur (Some e)))))"

definition queue_empty :: "'l links \<Rightarrow> 'l \<Rightarrow> bool" where
  "queue_empty h head = (lnext (h head) = Some head)"

definition queue_out :: "'l links \<Rightarrow> 'l \<Rightarrow> ('l option \<times> 'l links) result" where
  "queue_out h head =
     (if queue_empty h head then Inr (None, h)
      else case lprev (h head) of
        None \<Rightarrow> Inl NullDeref
      | Some r \<Rightarrow>
         (let h1 = set_prev h head (lprev (h r)) in
          case lprev (h1 head) of
            None \<Rightarrow> Inl NullDeref
          | Some q \<Rightarrow> (let h2 = set_next h1 q (Some head)
                       in Inr (Some r, set_next (set_prev h2 r None) r None))))"

definition queue_del :: "'l links \<Rightarrow> 'l \<Rightarrow> 'l links result" where
  "queue_del h e =
     (case (lprev (h e), lnext (h e)) of
        (Some p, Some n) \<Rightarrow>
          (let h1 = set_next h p (lnext (h e)) in
           case lnext (h1 e) of
             None \<Rightarrow> Inl NullDeref
           | Some n' \<Rightarrow> (let h2 = set_prev h1 n' (lprev (h1 e))
                         in Inr (set_prev (set_next h2 e None) e None)))
      | _ \<Rightarrow> Inl AssertFail)"

text \<open>
  \<^verbatim>\<open>queue_for_each\<close> (following \<^verbatim>\<open>next\<close>) and \<^verbatim>\<open>queue_for_each_prev\<close> (following \<^verbatim>\<open>prev\<close>), whose body
  leaves the loop at the first link that satisfies \<open>P\<close>; \<open>cur\<close> is the iterator.
\<close>

fun queue_find :: "nat \<Rightarrow> ('l \<Rightarrow> 'l option) \<Rightarrow> 'l \<Rightarrow> ('l \<Rightarrow> bool) \<Rightarrow> 'l option \<Rightarrow> 'l option result" where
  "queue_find 0 nx head P cur = Inl Hang"
| "queue_find (Suc n) nx head P cur =
     (case cur of
        None \<Rightarrow> Inl NullDeref
      | Some c \<Rightarrow> if c = head then Inr None
                  else if P c then Inr (Some c) else queue_find n nx head P (nx c))"

definition queue_for_each :: "nat \<Rightarrow> 'l links \<Rightarrow> 'l \<Rightarrow> ('l \<Rightarrow> bool) \<Rightarrow> 'l option result" where
  "queue_for_each n h head P = queue_find n (\<lambda>l. lnext (h l)) head P (lnext (h head))"

definition queue_for_each_prev :: "nat \<Rightarrow> 'l links \<Rightarrow> 'l \<Rightarrow> ('l \<Rightarrow> bool) \<Rightarrow> 'l option result" where
  "queue_for_each_prev n h head P = queue_find n (\<lambda>l. lprev (h l)) head P (lprev (h head))"

text \<open>\<^verbatim>\<open>queue_for_each\<close> with a body that neither leaves the loop nor changes the links: the links visited.\<close>

fun queue_visit :: "nat \<Rightarrow> ('l \<Rightarrow> 'l option) \<Rightarrow> 'l \<Rightarrow> 'l option \<Rightarrow> 'l list result" where
  "queue_visit 0 nx head cur = Inl Hang"
| "queue_visit (Suc n) nx head cur =
     (case cur of
        None \<Rightarrow> Inl NullDeref
      | Some c \<Rightarrow> if c = head then Inr []
                  else bnd (queue_visit n nx head (nx c)) (\<lambda>ls. Inr (c # ls)))"

definition queue_elems :: "nat \<Rightarrow> 'l links \<Rightarrow> 'l \<Rightarrow> 'l list result" where
  "queue_elems n h head = queue_visit n (\<lambda>l. lnext (h l)) head (lnext (h head))"

definition queue_top :: "'l links \<Rightarrow> 'l \<Rightarrow> 'l option" where
  "queue_top h head = (if queue_empty h head then None else lprev (h head))"

definition queue_bottom :: "'l links \<Rightarrow> 'l \<Rightarrow> 'l option" where
  "queue_bottom h head = (if queue_empty h head then None else lnext (h head))"

definition queue_out_bot :: "'l links \<Rightarrow> 'l \<Rightarrow> ('l option \<times> 'l links) result" where
  "queue_out_bot h head =
     (if queue_empty h head then Inr (None, h)
      else case lnext (h head) of
        None \<Rightarrow> Inl NullDeref
      | Some r \<Rightarrow>
         (let h1 = set_next h head (lnext (h r)) in
          case lnext (h1 head) of
            None \<Rightarrow> Inl NullDeref
          | Some q \<Rightarrow> (let h2 = set_prev h1 q (Some head)
                       in Inr (Some r, set_next (set_prev h2 r None) r None))))"

section \<open>Well-formed queues\<close>

text \<open>
  \<open>seg h a xs b\<close>: from \<open>a\<close>, the \<^verbatim>\<open>next\<close> pointers lead through \<open>xs\<close> to \<open>b\<close> and the \<^verbatim>\<open>prev\<close>
  pointers lead back. A queue is a segment from its head to its head without repetition.
\<close>

fun seg :: "'l links \<Rightarrow> 'l \<Rightarrow> 'l list \<Rightarrow> 'l \<Rightarrow> bool" where
  "seg h a [] b \<longleftrightarrow> lnext (h a) = Some b \<and> lprev (h b) = Some a"
| "seg h a (x # xs) b \<longleftrightarrow> lnext (h a) = Some x \<and> lprev (h x) = Some a \<and> seg h x xs b"

definition dll :: "'l links \<Rightarrow> 'l \<Rightarrow> 'l list \<Rightarrow> bool" where
  "dll h head xs \<longleftrightarrow> seg h head xs head \<and> distinct (head # xs)"

definition unlinked :: "'l links \<Rightarrow> 'l \<Rightarrow> bool" where
  "unlinked h l \<longleftrightarrow> lprev (h l) = None \<and> lnext (h l) = None"

lemma seg_append: "seg h a (xs @ y # ys) b \<longleftrightarrow> seg h a xs y \<and> seg h y ys b"
  by (induction xs arbitrary: a) auto

lemma seg_snoc: "seg h a (xs @ [y]) b \<longleftrightarrow> seg h a xs y \<and> lnext (h y) = Some b \<and> lprev (h b) = Some y"
  by (simp add: seg_append)

text \<open>A segment only depends on the \<^verbatim>\<open>next\<close> of its first links and the \<^verbatim>\<open>prev\<close> of its last ones.\<close>

lemma seg_cong:
  assumes "\<And>l. l \<in> set (a # xs) \<Longrightarrow> lnext (h' l) = lnext (h l)"
    and "\<And>l. l \<in> set (xs @ [b]) \<Longrightarrow> lprev (h' l) = lprev (h l)"
  shows "seg h' a xs b = seg h a xs b"
  using assms by (induction xs arbitrary: a) auto

lemma dll_cong:
  assumes "\<And>l. l \<in> set (head # xs) \<Longrightarrow> h' l = h l"
  shows "dll h' head xs = dll h head xs"
  unfolding dll_def by (rule arg_cong2 [where f = "(\<and>)"]) (auto intro!: seg_cong simp: assms)

lemma seg_linked:
  "seg h a xs b \<Longrightarrow> x \<in> set xs \<Longrightarrow> lprev (h x) \<noteq> None \<and> lnext (h x) \<noteq> None"
proof (induction xs arbitrary: a)
  case (Cons y ys)
  then show ?case by (cases ys) auto
qed simp

lemma dll_linked: "dll h head xs \<Longrightarrow> x \<in> set xs \<Longrightarrow> \<not> unlinked h x"
  unfolding dll_def unlinked_def by (auto dest: seg_linked)

lemma seg_first: "seg h a xs b \<Longrightarrow> lnext (h a) = Some (hd (xs @ [b]))"
  by (cases xs) auto

lemma seg_last: "seg h a xs b \<Longrightarrow> lprev (h b) = Some (last (a # xs))"
  by (induction xs arbitrary: a) auto

lemma dll_empty: "dll h head xs \<Longrightarrow> queue_empty h head \<longleftrightarrow> xs = []"
  by (cases xs) (auto simp: dll_def queue_empty_def)

lemma dll_init: "dll (INIT_LIST_HEAD h l) l []"
  by (simp add: dll_def INIT_LIST_HEAD_def)

subsection \<open>Insertion\<close>

text \<open>The links strictly inside a segment, for reasoning about a change at its end.\<close>

fun chain :: "'l links \<Rightarrow> 'l \<Rightarrow> 'l list \<Rightarrow> bool" where
  "chain h a [] \<longleftrightarrow> True"
| "chain h a (x # xs) \<longleftrightarrow> lnext (h a) = Some x \<and> lprev (h x) = Some a \<and> chain h x xs"

lemma seg_chain:
  "seg h a xs b \<longleftrightarrow> chain h a xs \<and> lnext (h (last (a # xs))) = Some b \<and> lprev (h b) = Some (last (a # xs))"
  by (induction xs arbitrary: a) auto

lemma chain_cong:
  assumes "\<And>l. l \<in> set (butlast (a # xs)) \<Longrightarrow> lnext (h' l) = lnext (h l)"
    and "\<And>l. l \<in> set xs \<Longrightarrow> lprev (h' l) = lprev (h l)"
  shows "chain h' a xs = chain h a xs"
  using assms
proof (induction xs arbitrary: a)
  case (Cons x xs)
  then have "chain h' x xs = chain h x xs" by (intro Cons.IH) auto
  with Cons.prems show ?case by simp
qed simp

lemma chain_append: "chain h a (xs @ y # ys) \<longleftrightarrow> chain h a (xs @ [y]) \<and> chain h y ys"
  by (induction xs arbitrary: a) auto

lemma chain_snoc:
  "chain h a (xs @ [y]) \<longleftrightarrow> chain h a xs \<and> lnext (h (last (a # xs))) = Some y \<and> lprev (h y) = Some (last (a # xs))"
  by (induction xs arbitrary: a) auto

lemma last_notin_butlast: "distinct xs \<Longrightarrow> xs \<noteq> [] \<Longrightarrow> last xs \<notin> set (butlast xs)"
  by (induction xs) auto

lemmas link_upd = set_next_def set_prev_def

lemma dll_insert:
  assumes dll: "dll h head (ys @ zs)"
    and fresh: "e \<noteq> head" "e \<notin> set (ys @ zs)"
    and p: "p = last (head # ys)" and c: "c = hd (zs @ [head])"
    and h': "h' = set_prev (set_next (set_prev (set_next h e (Some c)) e (Some p)) p (Some e)) c (Some e)"
  shows "dll h' head (ys @ e # zs)"
proof -
  have p_in: "p \<in> set (head # ys)" and c_in: "c \<in> set (zs @ [head])"
    unfolding p c by (rule last_in_set, simp) (rule hd_in_set, simp)
  have dist: "distinct (head # ys @ zs)" using dll by (simp add: dll_def)
  have ep: "e \<noteq> p" and ec: "e \<noteq> c" using p_in c_in fresh by auto
  have nxt: "lnext (h' l) = (if l = e then Some c else if l = p then Some e else lnext (h l))" for l
    using ep ec by (auto simp: h' link_upd)
  have prv: "lprev (h' l) = (if l = e then Some p else if l = c then Some e else lprev (h l))" for l
    using ep ec by (auto simp: h' link_upd)
  have pb: "p \<notin> set (butlast (head # ys))"
    using dist last_notin_butlast [of "head # ys"] by (simp add: p)
  have c_ys: "c \<notin> set ys" using c_in dist by auto
  have sg: "seg h head (ys @ zs) head" using dll by (simp add: dll_def)
  have hz: "seg h z zs' head" if "zs = z # zs'" for z zs'
    using sg that by (simp add: seg_append)
  have "\<exists>b. seg h head ys b"
    using sg by (cases zs) (auto simp: seg_append)
  then have hy: "chain h head ys" by (auto simp: seg_chain)
  have butlast_e: "l \<noteq> e" if "l \<in> set (butlast (head # ys))" for l
    using in_set_butlastD [OF that] fresh by auto
  have "chain h' head ys \<longleftrightarrow> chain h head ys"
  proof (rule chain_cong)
    fix l assume l: "l \<in> set (butlast (head # ys))"
    then have "l \<noteq> e" "l \<noteq> p" using butlast_e pb by blast+
    then show "lnext (h' l) = lnext (h l)" by (simp add: nxt)
  next
    fix l assume "l \<in> set ys"
    then have "l \<noteq> e" "l \<noteq> c" using fresh c_ys by auto
    then show "lprev (h' l) = lprev (h l)" by (simp add: prv)
  qed
  then have seg1: "seg h' head ys e"
    using hy ep unfolding seg_chain p [symmetric] by (simp add: nxt prv)
  have seg2: "seg h' e zs head"
  proof (cases zs)
    case Nil
    then show ?thesis using ec by (simp add: c nxt prv)
  next
    case (Cons z zs')
    have "seg h' z zs' head \<longleftrightarrow> seg h z zs' head"
    proof (rule seg_cong)
      fix l assume "l \<in> set (z # zs')"
      then show "lnext (h' l) = lnext (h l)"
        using fresh p_in dist Cons by (auto simp: nxt)
    next
      fix l assume "l \<in> set (zs' @ [head])"
      then show "lprev (h' l) = lprev (h l)"
        using fresh dist Cons c by (auto simp: prv)
    qed
    then show ?thesis using Cons hz [OF Cons] ec c by (simp add: nxt prv)
  qed
  show ?thesis
    using seg1 seg2 dist fresh by (auto simp: dll_def seg_append)
qed

lemma queue_add_scan_seg:
  "seg h a xs head \<Longrightarrow> head \<notin> set xs \<Longrightarrow> length xs < n \<Longrightarrow>
   queue_add_scan n h key head e a = Inr (hd (dropWhile (\<lambda>x. key x < key e) xs @ [head]))"
proof (induction xs arbitrary: a n)
  case Nil
  then show ?case by (cases n) auto
next
  case (Cons x xs)
  then show ?case by (cases n) auto
qed

abbreviation key_insert :: "('a \<Rightarrow> int) \<Rightarrow> 'a \<Rightarrow> 'a list \<Rightarrow> 'a list" where
  "key_insert key e \<equiv> insert_after_while (\<lambda>x. key x < key e) e"

lemma queue_add_dll:
  assumes dll: "dll h head xs" and fresh: "unlinked h e" and n: "length xs < n"
  shows "\<exists>h'. queue_add n h key head e = Inr h' \<and> dll h' head (key_insert key e xs)
           \<and> (\<forall>l. l \<notin> set (head # e # xs) \<longrightarrow> h' l = h l)"
proof -
  define ys zs where "ys = takeWhile (\<lambda>x. key x < key e) xs"
    and "zs = dropWhile (\<lambda>x. key x < key e) xs"
  define p c where "p = last (head # ys)" and "c = hd (zs @ [head])"
  have xs: "xs = ys @ zs" by (simp add: ys_def zs_def)
  have sg: "seg h head xs head" and dist: "distinct (head # xs)" using dll by (simp_all add: dll_def)
  have e_head: "e \<noteq> head" using seg_first [OF sg] fresh by (auto simp: unlinked_def)
  have e_xs: "e \<notin> set xs" using dll_linked [OF dll] fresh by blast
  have p_in: "p \<in> set (head # ys)" and c_in: "c \<in> set (zs @ [head])"
    unfolding p_def c_def by (rule last_in_set, simp) (rule hd_in_set, simp)
  have ec: "e \<noteq> c" using c_in e_head e_xs xs by auto
  have pc: "lprev (h c) = Some p"
  proof (cases zs)
    case Nil
    then show ?thesis using seg_last [OF sg] xs by (simp add: p_def c_def)
  next
    case (Cons z zs')
    then have "seg h head ys z" using sg xs by (simp add: seg_append)
    from seg_last [OF this] show ?thesis using Cons by (simp add: p_def c_def)
  qed
  have scan: "queue_add_scan n h key head e head = Inr c"
    using queue_add_scan_seg [OF sg _ n] dist by (simp add: c_def zs_def)
  define h' where
    "h' = set_prev (set_next (set_prev (set_next h e (Some c)) e (Some p)) p (Some e)) c (Some e)"
  have add: "queue_add n h key head e = Inr h'"
    using scan fresh pc ec
    by (simp add: queue_add_def unlinked_def h'_def set_next_def [of h] set_prev_def [of "h(_ := _)"])
  have "dll h' head (ys @ e # zs)"
    using dll_insert [OF _ e_head _ p_def c_def h'_def] dll e_xs xs by simp
  then have "dll h' head (key_insert key e xs)"
    by (simp add: insert_after_while_def ys_def zs_def)
  moreover have "h' l = h l" if "l \<notin> set (head # e # xs)" for l
  proof -
    have "l \<noteq> e" "l \<noteq> p" "l \<noteq> c" using that p_in c_in xs by auto
    then show ?thesis by (simp add: h'_def link_upd)
  qed
  ultimately show ?thesis using add by blast
qed

subsection \<open>Removal\<close>

text \<open>
  All three removals (\<^verbatim>\<open>queue_del\<close>, \<^verbatim>\<open>queue_out\<close>, \<^verbatim>\<open>queue_out_bot\<close>) end in the same heap: the
  neighbours of the element point to each other and its own links are null.
\<close>

definition bypass :: "'l links \<Rightarrow> 'l \<Rightarrow> 'l \<Rightarrow> 'l \<Rightarrow> 'l links" where
  "bypass h p n e = (\<lambda>l. \<lparr>lprev = (if l = e then None else if l = n then Some p else lprev (h l)),
                         lnext = (if l = e then None else if l = p then Some n else lnext (h l))\<rparr>)"

lemma dll_neighbours:
  assumes "dll h head (ys @ e # zs)"
  shows "lprev (h e) = Some (last (head # ys))" and "lnext (h e) = Some (hd (zs @ [head]))"
    and "e \<noteq> last (head # ys)" and "e \<noteq> hd (zs @ [head])"
proof -
  from assms have s: "seg h head ys e" "seg h e zs head" and d: "distinct (head # ys @ e # zs)"
    by (simp_all add: dll_def seg_append)
  show "lprev (h e) = Some (last (head # ys))" by (rule seg_last [OF s(1)])
  show "lnext (h e) = Some (hd (zs @ [head]))" by (rule seg_first [OF s(2)])
  show "e \<noteq> last (head # ys)" using d last_in_set [of "head # ys"] by auto
  show "e \<noteq> hd (zs @ [head])" using d by (cases zs) auto
qed

lemma dll_bypass:
  assumes dll: "dll h head (ys @ e # zs)"
    and p: "p = last (head # ys)" and n: "n = hd (zs @ [head])"
  shows "dll (bypass h p n e) head (ys @ zs)"
proof -
  let ?h = "bypass h p n e"
  have s: "seg h head ys e" "seg h e zs head" and d: "distinct (head # ys @ e # zs)"
    using dll by (simp_all add: dll_def seg_append)
  have p_in: "p \<in> set (head # ys)" and n_in: "n \<in> set (zs @ [head])"
    unfolding p n by (rule last_in_set, simp) (rule hd_in_set, simp)
  have pe: "p \<noteq> e" and ne: "n \<noteq> e" using p_in n_in d by auto
  have pb: "p \<notin> set (butlast (head # ys))"
    using d last_notin_butlast [of "head # ys"] by (simp add: p)
  have "chain ?h head ys \<longleftrightarrow> chain h head ys"
  proof (rule chain_cong)
    fix l assume l: "l \<in> set (butlast (head # ys))"
    then have "l \<noteq> p" using pb by blast
    moreover have "l \<noteq> e" using in_set_butlastD [OF l] d by auto
    ultimately show "lnext (?h l) = lnext (h l)" by (simp add: bypass_def)
  next
    fix l assume "l \<in> set ys"
    then have "l \<noteq> e" "l \<noteq> n" using d n_in by auto
    then show "lprev (?h l) = lprev (h l)" by (simp add: bypass_def)
  qed
  then have c1: "chain ?h head ys" using s(1) by (simp add: seg_chain)
  have seg1: "seg ?h head ys n"
    using c1 pe ne unfolding seg_chain p [symmetric] by (simp add: bypass_def)
  show ?thesis
  proof (cases zs)
    case Nil
    then show ?thesis using seg1 d by (auto simp: dll_def n)
  next
    case (Cons z zs')
    then have nz: "n = z" by (simp add: n)
    have "seg ?h z zs' head \<longleftrightarrow> seg h z zs' head"
    proof (rule seg_cong)
      fix l assume "l \<in> set (z # zs')"
      then show "lnext (?h l) = lnext (h l)" using p_in d Cons by (auto simp: bypass_def)
    next
      fix l assume "l \<in> set (zs' @ [head])"
      then show "lprev (?h l) = lprev (h l)" using d Cons nz by (auto simp: bypass_def)
    qed
    then have "seg ?h n zs' head" using s(2) Cons nz by simp
    then show ?thesis using seg1 d Cons nz by (auto simp: dll_def seg_append)
  qed
qed

lemma bypass_frame:
  "l \<noteq> e \<Longrightarrow> l \<noteq> p \<Longrightarrow> l \<noteq> n \<Longrightarrow> bypass h p n e l = h l"
  by (simp add: bypass_def)

lemma bypass_unlinked: "unlinked (bypass h p n e) e"
  by (simp add: bypass_def unlinked_def)

text \<open>What a client learns of a removal of \<open>e\<close> that leaves the list \<open>xs\<close>.\<close>

definition removed :: "'l links \<Rightarrow> 'l links \<Rightarrow> 'l \<Rightarrow> 'l \<Rightarrow> 'l list \<Rightarrow> bool" where
  "removed h h' head e xs \<longleftrightarrow>
     dll h' head xs \<and> unlinked h' e \<and> (\<forall>l. l \<notin> set (head # e # xs) \<longrightarrow> h' l = h l)"

lemma bypass_removed:
  assumes dll: "dll h head (ys @ e # zs)"
    and p: "p = last (head # ys)" and n: "n = hd (zs @ [head])"
  shows "removed h (bypass h p n e) head e (ys @ zs)"
proof -
  have "p \<in> set (head # ys)" "n \<in> set (zs @ [head])"
    unfolding p n by (rule last_in_set, simp) (rule hd_in_set, simp)
  then have "bypass h p n e l = h l" if "l \<notin> set (head # e # ys @ zs)" for l
    using that by (intro bypass_frame) auto
  then show ?thesis
    using dll_bypass [OF assms] bypass_unlinked [of h p n e] by (simp add: removed_def)
qed

lemma queue_del_bypass:
  assumes "lprev (h e) = Some p" "lnext (h e) = Some n" "e \<noteq> p" "e \<noteq> n"
  shows "queue_del h e = Inr (bypass h p n e)"
  using assms by (auto simp: queue_del_def link_upd bypass_def fun_eq_iff)

lemma queue_del_dll:
  assumes "dll h head (ys @ e # zs)"
  shows "\<exists>h'. queue_del h e = Inr h' \<and> removed h h' head e (ys @ zs)"
  using queue_del_bypass [of h e, OF dll_neighbours [OF assms]] bypass_removed [OF assms refl refl]
  by blast

lemma queue_out_dll:
  assumes dll: "dll h head (xs @ [e])"
  shows "\<exists>h'. queue_out h head = Inr (Some e, h') \<and> removed h h' head e xs"
proof -
  note nb = dll_neighbours [of h head xs e "[]", OF dll]
  have hp: "lprev (h head) = Some e" and he: "e \<noteq> head" and nq: "\<not> queue_empty h head"
    using dll dll_empty [OF dll] by (auto simp: dll_def seg_append)
  have "queue_out h head = Inr (Some e, bypass h (last (head # xs)) head e)"
    using hp he nq nb by (auto simp: queue_out_def link_upd bypass_def fun_eq_iff)
  with bypass_removed [of h head xs e "[]", OF dll refl refl] show ?thesis by simp
qed

lemma queue_out_bot_dll:
  assumes dll: "dll h head (e # xs)"
  shows "\<exists>h'. queue_out_bot h head = Inr (Some e, h') \<and> removed h h' head e xs"
proof -
  note nb = dll_neighbours [of h head "[]" e xs, simplified, OF dll]
  have hp: "lnext (h head) = Some e" and he: "e \<noteq> head" and nq: "\<not> queue_empty h head"
    using dll dll_empty [OF dll] by (auto simp: dll_def)
  have "queue_out_bot h head = Inr (Some e, bypass h head (hd (xs @ [head])) e)"
    using hp he nq nb by (auto simp: queue_out_bot_def link_upd bypass_def fun_eq_iff)
  with bypass_removed [of h head "[]" e xs, simplified, OF dll refl] show ?thesis by simp
qed

lemma queue_out_dll_empty: "dll h head [] \<Longrightarrow> queue_out h head = Inr (None, h)"
  using dll_empty [of h head "[]"] by (simp add: queue_out_def)

lemma queue_out_bot_dll_empty: "dll h head [] \<Longrightarrow> queue_out_bot h head = Inr (None, h)"
  using dll_empty [of h head "[]"] by (simp add: queue_out_bot_def)

subsection \<open>Reading\<close>

lemma queue_top_dll: "dll h head xs \<Longrightarrow> queue_top h head = (if xs = [] then None else Some (last xs))"
  using dll_empty seg_last by (fastforce simp: queue_top_def dll_def)

lemma queue_bottom_dll: "dll h head xs \<Longrightarrow> queue_bottom h head = (if xs = [] then None else Some (hd xs))"
  using dll_empty seg_first by (fastforce simp: queue_bottom_def dll_def)

lemma queue_find_next:
  "seg h a xs head \<Longrightarrow> head \<notin> set xs \<Longrightarrow> length xs < n \<Longrightarrow>
   queue_find n (\<lambda>l. lnext (h l)) head P (lnext (h a)) = Inr (find P xs)"
proof (induction xs arbitrary: a n)
  case Nil
  then show ?case by (cases n) auto
next
  case (Cons x xs)
  then show ?case by (cases n) auto
qed

lemma queue_find_prev:
  "seg h head xs b \<Longrightarrow> head \<notin> set xs \<Longrightarrow> length xs < n \<Longrightarrow>
   queue_find n (\<lambda>l. lprev (h l)) head P (lprev (h b)) = Inr (find P (rev xs))"
proof (induction xs arbitrary: b n rule: rev_induct)
  case Nil
  then show ?case by (cases n) auto
next
  case (snoc x xs)
  then show ?case by (cases n) (auto simp: seg_append)
qed

lemma queue_visit_next:
  "seg h a xs head \<Longrightarrow> head \<notin> set xs \<Longrightarrow> length xs < n \<Longrightarrow>
   queue_visit n (\<lambda>l. lnext (h l)) head (lnext (h a)) = Inr xs"
proof (induction xs arbitrary: a n)
  case Nil
  then show ?case by (cases n) auto
next
  case (Cons x xs)
  then show ?case by (cases n) auto
qed

lemma queue_for_each_dll:
  "dll h head xs \<Longrightarrow> length xs < n \<Longrightarrow> queue_for_each n h head P = Inr (find P xs)"
  by (simp add: queue_for_each_def dll_def queue_find_next)

lemma queue_for_each_prev_dll:
  "dll h head xs \<Longrightarrow> length xs < n \<Longrightarrow> queue_for_each_prev n h head P = Inr (find P (rev xs))"
  by (simp add: queue_for_each_prev_def dll_def queue_find_prev)

lemma queue_elems_dll: "dll h head xs \<Longrightarrow> length xs < n \<Longrightarrow> queue_elems n h head = Inr xs"
  by (simp add: queue_elems_def dll_def queue_visit_next)

section \<open>A table of queues over one link field\<close>

text \<open>
  The kernel keeps tables of queue heads (\<^verbatim>\<open>queue_table\<close> in process_handler.c, sem.c and kbd.c) and
  gives each element one link field for all queues of a table, so an element is in at most one of
  them. \<open>queues hdl ell h U Q\<close>: the head of queue \<open>t\<close> is at \<open>hdl t\<close>, the link field of element
  \<open>p\<close> at \<open>ell p\<close>, the elements are those of \<open>U\<close>, queue \<open>t\<close> holds \<open>Q t\<close> in this order, no element
  is in two queues, and the link field of an element in none is null.
\<close>

definition queues :: "('t \<Rightarrow> 'l) \<Rightarrow> ('e \<Rightarrow> 'l) \<Rightarrow> 'l links \<Rightarrow> 'e set \<Rightarrow> ('t \<Rightarrow> 'e list) \<Rightarrow> bool" where
  "queues hdl ell h U Q \<longleftrightarrow>
     (\<forall>t. dll h (hdl t) (map ell (Q t)) \<and> set (Q t) \<subseteq> U) \<and>
     (\<forall>t t'. t \<noteq> t' \<longrightarrow> set (Q t) \<inter> set (Q t') = {}) \<and>
     (\<forall>p\<in>U. (\<forall>t. p \<notin> set (Q t)) \<longrightarrow> unlinked h (ell p))"

definition in_no_queue :: "('t \<Rightarrow> 'e list) \<Rightarrow> 'e \<Rightarrow> bool" where
  "in_no_queue Q p \<longleftrightarrow> (\<forall>t. p \<notin> set (Q t))"

lemma queuesD:
  assumes "queues hdl ell h U Q"
  shows "dll h (hdl t) (map ell (Q t))" and "set (Q t) \<subseteq> U"
    and "t \<noteq> t' \<Longrightarrow> set (Q t) \<inter> set (Q t') = {}"
    and "p \<in> U \<Longrightarrow> in_no_queue Q p \<Longrightarrow> unlinked h (ell p)"
  using assms by (auto simp: queues_def in_no_queue_def)

text \<open>
  The same when only the heads of the queues in \<open>T\<close> are initialised; the other queues count as empty.
\<close>

definition queues_on :: "'t set \<Rightarrow> ('t \<Rightarrow> 'l) \<Rightarrow> ('e \<Rightarrow> 'l) \<Rightarrow> 'l links \<Rightarrow> 'e set \<Rightarrow> ('t \<Rightarrow> 'e list) \<Rightarrow> bool" where
  "queues_on T hdl ell h U Q \<longleftrightarrow>
     (\<forall>t\<in>T. dll h (hdl t) (map ell (Q t))) \<and> (\<forall>t. t \<notin> T \<longrightarrow> Q t = []) \<and> (\<forall>t. set (Q t) \<subseteq> U) \<and>
     (\<forall>t t'. t \<noteq> t' \<longrightarrow> set (Q t) \<inter> set (Q t') = {}) \<and>
     (\<forall>p\<in>U. (\<forall>t. p \<notin> set (Q t)) \<longrightarrow> unlinked h (ell p))"

lemma queues_on_UNIV: "queues_on UNIV hdl ell h U Q \<longleftrightarrow> queues hdl ell h U Q"
  by (auto simp: queues_on_def queues_def)

lemma queues_onD:
  assumes "queues_on T hdl ell h U Q"
  shows "t \<in> T \<Longrightarrow> dll h (hdl t) (map ell (Q t))" and "set (Q t) \<subseteq> U"
    and "t \<noteq> t' \<Longrightarrow> set (Q t) \<inter> set (Q t') = {}"
    and "p \<in> U \<Longrightarrow> in_no_queue Q p \<Longrightarrow> unlinked h (ell p)"
    and "t \<notin> T \<Longrightarrow> Q t = []" and "p \<in> set (Q t) \<Longrightarrow> t \<in> T"
  using assms by (auto simp: queues_on_def in_no_queue_def)

lemma queues_on_distinct: "queues_on T hdl ell h U Q \<Longrightarrow> distinct (Q t)"
  using queues_onD(1,5) [of T hdl ell h U Q t] by (cases "t \<in> T") (auto simp: dll_def distinct_map)

lemma queues_on_length:
  assumes "queues_on T hdl ell h U Q" and "finite U"
  shows "length (Q t) \<le> card U"
  using queues_onD(2) [OF assms(1), of t] queues_on_distinct [OF assms(1), of t] assms(2)
  by (metis card_mono distinct_card)

lemma queues_on_unique:
  "queues_on T hdl ell h U Q \<Longrightarrow> p \<in> set (Q t) \<Longrightarrow> p \<in> set (Q t') \<Longrightarrow> t = t'"
  using queues_onD(3) by fastforce

lemma queues_on_frame:
  assumes "\<And>t. t \<in> T \<Longrightarrow> h' (hdl t) = h (hdl t)" and "\<And>p. h' (ell p) = h (ell p)"
  shows "queues_on T hdl ell h' U Q \<longleftrightarrow> queues_on T hdl ell h U Q"
proof -
  have "dll h' (hdl t) (map ell (Q t)) = dll h (hdl t) (map ell (Q t))" if "t \<in> T" for t
    by (rule dll_cong) (use assms that in auto)
  then show ?thesis by (simp add: queues_on_def unlinked_def assms)
qed

lemma queues_distinct: "queues hdl ell h U Q \<Longrightarrow> distinct (Q t)"
  using queuesD(1) [of hdl ell h U Q t] by (simp add: dll_def distinct_map)

lemma queues_length:
  assumes "queues hdl ell h U Q" and "finite U"
  shows "length (Q t) \<le> card U"
  using queuesD(2) [OF assms(1), of t] queues_distinct [OF assms(1), of t] assms(2)
  by (metis card_mono distinct_card)

lemma queues_unique_queue:
  "queues hdl ell h U Q \<Longrightarrow> p \<in> set (Q t) \<Longrightarrow> p \<in> set (Q t') \<Longrightarrow> t = t'"
  using queuesD(3) by fastforce

text \<open>The table only depends on the links of its family.\<close>

lemma queues_frame:
  assumes "\<And>t. h' (hdl t) = h (hdl t)" and "\<And>p. h' (ell p) = h (ell p)"
  shows "queues hdl ell h' U Q \<longleftrightarrow> queues hdl ell h U Q"
proof -
  have "dll h' (hdl t) (map ell (Q t)) = dll h (hdl t) (map ell (Q t))" for t
    by (rule dll_cong) (use assms in auto)
  then show ?thesis by (simp add: queues_def unlinked_def assms)
qed

text \<open>
  The contract of a struct layout: heads and link fields are at different places. Everything a
  client needs of the queue macros follows from it once and for all; \<open>outside\<close> is the set of link
  locations of other tables, which no operation touches.
\<close>

locale link_family =
  fixes hdl :: "'t \<Rightarrow> 'l" and ell :: "'e \<Rightarrow> 'l"
  assumes inj_hdl [simp]: "hdl t = hdl t' \<longleftrightarrow> t = t'"
    and inj_ell [simp]: "ell p = ell p' \<longleftrightarrow> p = p'"
    and hdl_ell [simp]: "hdl t \<noteq> ell p"
begin

lemma ell_hdl [simp]: "ell p \<noteq> hdl t"
  using hdl_ell by metis

lemma ell_in_map [simp]: "ell p \<in> ell ` A \<longleftrightarrow> p \<in> A"
  by auto

lemma hdl_in_map [simp]: "hdl t \<notin> ell ` A"
  by auto

definition outside :: "'l set" where
  "outside = - (range hdl \<union> range ell)"

lemma notin_other_queue:
  assumes "queues_on T hdl ell h U Q" and "t' \<noteq> t" and "l \<in> set (hdl t' # map ell (Q t'))"
    and "set xs \<subseteq> set (Q t)"
  shows "l \<notin> set (hdl t # map ell xs)"
  using assms(2,3,4) queues_onD(3) [OF assms(1) assms(2)] by auto

lemma other_dll:
  assumes q: "queues_on T hdl ell h U Q" and t': "t' \<noteq> t" "t' \<in> T" and p: "in_no_queue Q p \<or> p \<in> set (Q t)"
    and fr: "\<forall>l. l \<notin> set (hdl t # ell p # map ell xs) \<longrightarrow> h' l = h l" and xs: "set xs \<subseteq> set (Q t)"
  shows "dll h' (hdl t') (map ell (Q t'))"
proof -
  have "h' l = h l" if l: "l \<in> set (hdl t' # map ell (Q t'))" for l
  proof -
    have "p \<notin> set (Q t')" using p queues_onD(3) [OF q t'(1)] by (auto simp: in_no_queue_def)
    then have "l \<noteq> ell p" using l by auto
    moreover have "l \<notin> set (hdl t # map ell xs)" by (rule notin_other_queue [OF q t'(1) l xs])
    ultimately show ?thesis using fr by auto
  qed
  then have "dll h' (hdl t') (map ell (Q t')) = dll h (hdl t') (map ell (Q t'))" by (rule dll_cong)
  then show ?thesis using queues_onD(1) [OF q t'(2)] by simp
qed

lemma other_unlinked:
  assumes q: "queues_on T hdl ell h U Q" and r: "r \<in> U" "in_no_queue Q r" "r \<noteq> p"
    and fr: "\<forall>l. l \<notin> set (hdl t # ell p # map ell xs) \<longrightarrow> h' l = h l" and xs: "set xs \<subseteq> set (Q t)"
  shows "unlinked h' (ell r)"
proof -
  have "ell r \<notin> set (hdl t # ell p # map ell xs)"
    using r xs by (auto simp: in_no_queue_def)
  then have "h' (ell r) = h (ell r)" using fr by blast
  then show ?thesis using queues_onD(4) [OF q r(1,2)] by (simp add: unlinked_def)
qed

lemma frame_outside:
  "\<forall>l. l \<notin> set (hdl t # ell p # map ell xs) \<longrightarrow> h' l = h l \<Longrightarrow> l \<in> outside \<Longrightarrow> h' l = h l"
  by (auto simp: outside_def)

lemma queues_on_add:
  assumes q: "queues_on T hdl ell h U Q" and U: "finite U" "card U < n"
    and p: "p \<in> U" "in_no_queue Q p" and t: "t \<in> T"
  shows "\<exists>h'. queue_add n h key (hdl t) (ell p) = Inr h'
           \<and> queues_on T hdl ell h' U (Q(t := key_insert (\<lambda>x. key (ell x)) p (Q t)))
           \<and> (\<forall>l\<in>outside. h' l = h l)"
proof -
  let ?ins = "key_insert (\<lambda>x. key (ell x)) p (Q t)"
  have "length (map ell (Q t)) < n" using queues_on_length [OF q U(1), of t] U(2) by simp
  with queue_add_dll [OF queues_onD(1) [OF q t] queues_onD(4) [OF q p]] obtain h' where
    add: "queue_add n h key (hdl t) (ell p) = Inr h'"
    and dll: "dll h' (hdl t) (key_insert key (ell p) (map ell (Q t)))"
    and fr: "\<forall>l. l \<notin> set (hdl t # ell p # map ell (Q t)) \<longrightarrow> h' l = h l" by metis
  have "map ell ?ins = key_insert key (ell p) (map ell (Q t))"
    using map_insert_after_while [of ell "\<lambda>x. key x < key (ell p)" p "Q t"] by (simp add: comp_def)
  with dll have dll: "dll h' (hdl t) (map ell ?ins)" by simp
  have "queues_on T hdl ell h' U (Q(t := ?ins))"
    unfolding queues_on_def
  proof (intro conjI allI ballI impI)
    fix t' assume "t' \<in> T"
    then show "dll h' (hdl t') (map ell ((Q(t := ?ins)) t'))"
      using dll other_dll [OF q _ _ disjI1 [OF p(2)] fr order_refl] by (cases "t' = t") auto
  next
    fix t' assume "t' \<notin> T"
    then show "(Q(t := ?ins)) t' = []" using t queues_onD(5) [OF q] by auto
  next
    fix t' show "set ((Q(t := ?ins)) t') \<subseteq> U" using queues_onD(2) [OF q] p(1) by auto
  next
    fix t1 t2 assume "t1 \<noteq> (t2 :: 't)"
    then show "set ((Q(t := ?ins)) t1) \<inter> set ((Q(t := ?ins)) t2) = {}"
      using queues_onD(3) [OF q] p(2) by (auto simp: in_no_queue_def)
  next
    fix r assume r: "r \<in> U" and no: "\<forall>t'. r \<notin> set ((Q(t := ?ins)) t')"
    have "r \<noteq> p" using no [rule_format, of t] by simp
    moreover have "r \<notin> set (Q t')" for t' using no [rule_format, of t'] by (cases "t' = t") auto
    then have "in_no_queue Q r" by (simp add: in_no_queue_def)
    ultimately show "unlinked h' (ell r)" using other_unlinked [OF q r _ _ fr] by blast
  qed
  with add fr show ?thesis using frame_outside by blast
qed

lemma removed_queues_on:
  assumes q: "queues_on T hdl ell h U Q" and p: "p \<in> set (Q t)" and set: "set xs = set (Q t) - {p}"
    and rem: "removed h h' (hdl t) (ell p) (map ell xs)"
  shows "queues_on T hdl ell h' U (Q(t := xs)) \<and> (\<forall>l\<in>outside. h' l = h l)"
proof -
  have dll: "dll h' (hdl t) (map ell xs)" and un: "unlinked h' (ell p)"
    and fr: "\<forall>l. l \<notin> set (hdl t # ell p # map ell xs) \<longrightarrow> h' l = h l"
    using rem by (simp_all add: removed_def)
  have sub: "set xs \<subseteq> set (Q t)" using set by blast
  have "queues_on T hdl ell h' U (Q(t := xs))"
    unfolding queues_on_def
  proof (intro conjI allI ballI impI)
    fix t' assume "t' \<in> T"
    then show "dll h' (hdl t') (map ell ((Q(t := xs)) t'))"
      using dll other_dll [OF q _ _ disjI2 [OF p] fr sub] by (cases "t' = t") auto
  next
    fix t' assume "t' \<notin> T"
    then show "(Q(t := xs)) t' = []" using queues_onD(6) [OF q p] queues_onD(5) [OF q] by auto
  next
    fix t' show "set ((Q(t := xs)) t') \<subseteq> U"
      using queues_onD(2) [OF q, of t'] queues_onD(2) [OF q, of t] sub by (cases "t' = t") auto
  next
    fix t1 t2 assume "t1 \<noteq> (t2 :: 't)"
    then show "set ((Q(t := xs)) t1) \<inter> set ((Q(t := xs)) t2) = {}"
      using queues_onD(3) [OF q, of t1 t2] sub by (cases "t1 = t"; cases "t2 = t") auto
  next
    fix r assume r: "r \<in> U" and no: "\<forall>t'. r \<notin> set ((Q(t := xs)) t')"
    show "unlinked h' (ell r)"
    proof (cases "r = p")
      case False
      have "r \<notin> set (Q t')" for t'
        using no [rule_format, of t'] False set by (cases "t' = t") auto
      then have "in_no_queue Q r" by (simp add: in_no_queue_def)
      then show ?thesis using other_unlinked [OF q r _ False fr sub] by blast
    qed (simp add: un)
  qed
  then show ?thesis using fr frame_outside by blast
qed

lemma queues_on_del:
  assumes q: "queues_on T hdl ell h U Q" and p: "p \<in> set (Q t)"
  shows "\<exists>h'. queue_del h (ell p) = Inr h' \<and> queues_on T hdl ell h' U (Q(t := remove1 p (Q t)))
           \<and> (\<forall>l\<in>outside. h' l = h l)"
proof -
  from p obtain ys zs where Qt: "Q t = ys @ p # zs" by (meson split_list)
  have "dll h (hdl t) (map ell ys @ ell p # map ell zs)" using queues_onD(1) [OF q queues_onD(6) [OF q p]] Qt by simp
  from queue_del_dll [OF this] obtain h' where
    del: "queue_del h (ell p) = Inr h'" and rem: "removed h h' (hdl t) (ell p) (map ell (ys @ zs))" by auto
  have d: "distinct (ys @ p # zs)" using queues_on_distinct [OF q, of t] Qt by simp
  then have "remove1 p (Q t) = ys @ zs" using Qt remove1_middle by metis
  moreover have "set (ys @ zs) = set (Q t) - {p}" using Qt d by auto
  ultimately show ?thesis using removed_queues_on [OF q p _ rem] del by simp
qed

lemma queues_on_empty:
  assumes "queues_on T hdl ell h U Q" and "t \<in> T"
  shows "queue_empty h (hdl t) \<longleftrightarrow> Q t = []"
  using dll_empty [OF queues_onD(1) [OF assms]] by simp

lemma queues_on_for_each:
  assumes q: "queues_on T hdl ell h U Q" and U: "finite U" "card U < n" and t: "t \<in> T"
  shows "queue_for_each n h (hdl t) P = Inr (map_option ell (find (\<lambda>p. P (ell p)) (Q t)))"
    and "queue_for_each_prev n h (hdl t) P = Inr (map_option ell (find (\<lambda>p. P (ell p)) (rev (Q t))))"
    and "queue_elems n h (hdl t) = Inr (map ell (Q t))"
proof -
  have len: "length (map ell (Q t)) < n" using queues_on_length [OF q U(1), of t] U(2) by simp
  show "queue_for_each n h (hdl t) P = Inr (map_option ell (find (\<lambda>p. P (ell p)) (Q t)))"
    using queue_for_each_dll [OF queues_onD(1) [OF q t] len] by (simp add: find_map)
  show "queue_for_each_prev n h (hdl t) P = Inr (map_option ell (find (\<lambda>p. P (ell p)) (rev (Q t))))"
    using queue_for_each_prev_dll [OF queues_onD(1) [OF q t] len] by (simp add: rev_map find_map)
  show "queue_elems n h (hdl t) = Inr (map ell (Q t))"
    using queue_elems_dll [OF queues_onD(1) [OF q t] len] .
qed

text \<open>The case of a table whose heads are all initialised.\<close>

lemma queues_add:
  assumes "queues hdl ell h U Q" and "finite U" "card U < n" and "p \<in> U" "in_no_queue Q p"
  shows "\<exists>h'. queue_add n h key (hdl t) (ell p) = Inr h'
           \<and> queues hdl ell h' U (Q(t := key_insert (\<lambda>x. key (ell x)) p (Q t)))
           \<and> (\<forall>l\<in>outside. h' l = h l)"
  using queues_on_add [of UNIV h U Q n p t key] assms by (simp add: queues_on_UNIV)

lemma removed_queues:
  assumes "queues hdl ell h U Q" and "p \<in> set (Q t)" and "set xs = set (Q t) - {p}"
    and "removed h h' (hdl t) (ell p) (map ell xs)"
  shows "queues hdl ell h' U (Q(t := xs)) \<and> (\<forall>l\<in>outside. h' l = h l)"
  using removed_queues_on [of UNIV h U Q p t xs h'] assms by (simp add: queues_on_UNIV)

lemma queues_del:
  assumes "queues hdl ell h U Q" and "p \<in> set (Q t)"
  shows "\<exists>h'. queue_del h (ell p) = Inr h' \<and> queues hdl ell h' U (Q(t := remove1 p (Q t)))
           \<and> (\<forall>l\<in>outside. h' l = h l)"
  using queues_on_del [of UNIV h U Q p t] assms by (simp add: queues_on_UNIV)

lemma queues_out:
  assumes q: "queues hdl ell h U Q" and ne: "Q t \<noteq> []"
  shows "\<exists>h'. queue_out h (hdl t) = Inr (Some (ell (last (Q t))), h')
           \<and> queues hdl ell h' U (Q(t := butlast (Q t))) \<and> (\<forall>l\<in>outside. h' l = h l)"
proof -
  let ?p = "last (Q t)"
  have Qt: "Q t = butlast (Q t) @ [?p]" using ne by simp
  have "dll h (hdl t) (map ell (butlast (Q t)) @ [ell ?p])"
    using queuesD(1) [OF q, of t] Qt by (metis list.simps(8) list.simps(9) map_append)
  from queue_out_dll [OF this] obtain h' where
    out: "queue_out h (hdl t) = Inr (Some (ell ?p), h')"
    and rem: "removed h h' (hdl t) (ell ?p) (map ell (butlast (Q t)))" by auto
  have "set (butlast (Q t)) = set (Q t) - {?p}"
    by (rule set_butlast_distinct [OF queues_distinct [OF q] ne])
  then show ?thesis using removed_queues [OF q last_in_set [OF ne] _ rem] out by blast
qed

lemma queues_out_bot:
  assumes q: "queues hdl ell h U Q" and ne: "Q t \<noteq> []"
  shows "\<exists>h'. queue_out_bot h (hdl t) = Inr (Some (ell (hd (Q t))), h')
           \<and> queues hdl ell h' U (Q(t := tl (Q t))) \<and> (\<forall>l\<in>outside. h' l = h l)"
proof -
  obtain p xs where Qt: "Q t = p # xs" using ne by (cases "Q t") auto
  have "dll h (hdl t) (ell p # map ell xs)" using queuesD(1) [OF q, of t] Qt by simp
  from queue_out_bot_dll [OF this] obtain h' where
    out: "queue_out_bot h (hdl t) = Inr (Some (ell p), h')"
    and rem: "removed h h' (hdl t) (ell p) (map ell xs)" by auto
  have "set xs = set (Q t) - {p}" and "p \<in> set (Q t)" using queues_distinct [OF q, of t] Qt by auto
  from removed_queues [OF q this(2) this(1) rem] show ?thesis
    unfolding Qt list.sel using out by blast
qed

lemma queues_empty:
  assumes "queues hdl ell h U Q"
  shows "queue_empty h (hdl t) \<longleftrightarrow> Q t = []"
  using queues_on_empty [of UNIV h U Q t] assms by (simp add: queues_on_UNIV)

lemma queues_top:
  assumes "queues hdl ell h U Q" and "Q t \<noteq> []"
  shows "queue_top h (hdl t) = Some (ell (last (Q t)))"
  using queue_top_dll [OF queuesD(1) [OF assms(1)], of t] assms(2) by (simp add: last_map)

lemma queues_bottom:
  assumes "queues hdl ell h U Q" and "Q t \<noteq> []"
  shows "queue_bottom h (hdl t) = Some (ell (hd (Q t)))"
  using queue_bottom_dll [OF queuesD(1) [OF assms(1)], of t] assms(2) by (simp add: hd_map)

lemma queues_for_each:
  assumes "queues hdl ell h U Q" and "finite U" "card U < n"
  shows "queue_for_each n h (hdl t) P = Inr (map_option ell (find (\<lambda>p. P (ell p)) (Q t)))"
    and "queue_for_each_prev n h (hdl t) P = Inr (map_option ell (find (\<lambda>p. P (ell p)) (rev (Q t))))"
    and "queue_elems n h (hdl t) = Inr (map ell (Q t))"
  using queues_on_for_each [of UNIV h U Q n t] assms by (simp_all add: queues_on_UNIV)

text \<open>Deleting an element that is in no queue, or adding one that is in a queue, trips the assert.\<close>

lemma queues_del_absent:
  assumes "queues hdl ell h U Q" and "p \<in> U" and "in_no_queue Q p"
  shows "queue_del h (ell p) = Inl AssertFail"
  using queuesD(4) [OF assms] by (simp add: unlinked_def queue_del_def)

lemma queues_add_present:
  assumes "queues hdl ell h U Q" and "p \<in> set (Q t)"
  shows "queue_add n h key (hdl t') (ell p) = Inl AssertFail"
  using dll_linked [OF queuesD(1) [OF assms(1)], of "ell p" t] assms(2)
  by (auto simp: unlinked_def queue_add_def)

end

section \<open>Order\<close>

text \<open>
  Insertion keeps a queue sorted by key; the new element goes before (so, leaves after) the
  elements with its key, which is the FIFO behaviour the header of queue.h promises.
\<close>

lemma sorted_key_insert:
  "sorted (map k xs) \<Longrightarrow> sorted (map k (key_insert k e xs))"
  by (induction xs) auto

lemma key_insert_end: "(\<And>x. x \<in> set xs \<Longrightarrow> k x < k e) \<Longrightarrow> key_insert k e xs = xs @ [e]"
  by (induction xs) auto

lemma key_insert_same: "(\<And>x. x \<in> set xs \<Longrightarrow> \<not> k x < k e) \<Longrightarrow> key_insert k e xs = e # xs"
  by (cases xs) auto

lemma fifo_key_insert:
  assumes "sorted (map k xs)"
  shows "filter (\<lambda>x. k x = k e) (key_insert k e xs) = e # filter (\<lambda>x. k x = k e) xs"
  using assms by (induction xs) auto

lemma filter_other_key_insert:
  "\<not> P e \<Longrightarrow> filter P (key_insert k e xs) = filter P xs"
  by (induction xs) auto

lemma sorted_last_max:
  "sorted (map k xs) \<Longrightarrow> x \<in> set xs \<Longrightarrow> k x \<le> k (last xs)"
  by (induction xs) auto

lemma sorted_hd_min:
  "sorted (map k xs) \<Longrightarrow> x \<in> set xs \<Longrightarrow> k (hd xs) \<le> k x"
  by (cases xs) auto

lemma sorted_map_remove1: "sorted (map k xs) \<Longrightarrow> sorted (map k (remove1 x xs))"
  by (induction xs) (auto dest: set_remove1_subset [THEN subsetD])

lemma sorted_map_butlast: "sorted (map k xs) \<Longrightarrow> sorted (map k (butlast xs))"
  by (simp add: map_butlast sorted_butlast)

end
