(* ===== verification/CString.thy ===== *)
theory CString
  imports Kernel_Prelude
begin

text \<open>
  \<^verbatim>\<open>shared/string.c\<close>: the memory and string functions over the byte memory, with pointers as 32-bit
  addresses and \<^verbatim>\<open>NULL\<close> as 0. The block functions follow the i386 code (\<^verbatim>\<open>rep movsl\<close>, \<^verbatim>\<open>rep movsb\<close>,
  \<^verbatim>\<open>rep stosl\<close>); a scan that stops at a NUL only is a partial function, whose value is \<open>None\<close> when the
  memory has no NUL to stop at.
\<close>

section \<open>Memory blocks\<close>

fun memccpy_loop :: "mem \<Rightarrow> addr \<Rightarrow> addr \<Rightarrow> u8 \<Rightarrow> nat \<Rightarrow> addr \<times> mem" where
  "memccpy_loop m q p c 0 = (0, m)"
| "memccpy_loop m q p c (Suc n) =
     (let ch = m p; m1 = m(q := ch) in if ch = c then (q + 1, m1) else memccpy_loop m1 (q + 1) (p + 1) c n)"

definition memccpy :: "mem \<Rightarrow> addr \<Rightarrow> addr \<Rightarrow> u32 \<Rightarrow> u32 \<Rightarrow> addr \<times> mem" where
  "memccpy m dst src c n = memccpy_loop m dst src (ucast c) (unat n)"

fun memchr_loop :: "mem \<Rightarrow> addr \<Rightarrow> u8 \<Rightarrow> nat \<Rightarrow> addr" where
  "memchr_loop m sp c 0 = 0"
| "memchr_loop m sp c (Suc n) = (if m sp = c then sp else memchr_loop m (sp + 1) c n)"

definition memchr :: "mem \<Rightarrow> addr \<Rightarrow> u32 \<Rightarrow> u32 \<Rightarrow> addr" where
  "memchr m s c n = memchr_loop m s (ucast c) (unat n)"

fun memrchr_loop :: "mem \<Rightarrow> addr \<Rightarrow> u8 \<Rightarrow> nat \<Rightarrow> addr" where
  "memrchr_loop m sp c 0 = 0"
| "memrchr_loop m sp c (Suc n) = (if m sp = c then sp else memrchr_loop m (sp - 1) c n)"

definition memrchr :: "mem \<Rightarrow> addr \<Rightarrow> u32 \<Rightarrow> u32 \<Rightarrow> addr" where
  "memrchr m s c n = memrchr_loop m (s + n - 1) (ucast c) (unat n)"

fun memcmp_loop :: "mem \<Rightarrow> addr \<Rightarrow> addr \<Rightarrow> nat \<Rightarrow> int" where
  "memcmp_loop m c1 c2 0 = 0"
| "memcmp_loop m c1 c2 (Suc n) =
     (let d = uint (m c1) - uint (m c2) in if d \<noteq> 0 then d else memcmp_loop m (c1 + 1) (c2 + 1) n)"

definition memcmp :: "mem \<Rightarrow> addr \<Rightarrow> addr \<Rightarrow> u32 \<Rightarrow> int" where
  "memcmp m s1 s2 n = memcmp_loop m s1 s2 (unat n)"

text \<open>\<^verbatim>\<open>rep movsb\<close> upwards and downwards, \<^verbatim>\<open>rep movsl\<close>, \<^verbatim>\<open>rep stosb\<close> and \<^verbatim>\<open>rep stosl\<close> with a count.\<close>

fun movsb_up :: "mem \<Rightarrow> addr \<Rightarrow> addr \<Rightarrow> nat \<Rightarrow> mem" where
  "movsb_up m q p 0 = m"
| "movsb_up m q p (Suc n) = movsb_up (m(q := m p)) (q + 1) (p + 1) n"

fun movsb_down :: "mem \<Rightarrow> addr \<Rightarrow> addr \<Rightarrow> nat \<Rightarrow> mem" where
  "movsb_down m q p 0 = m"
| "movsb_down m q p (Suc n) = movsb_down (m(q := m p)) (q - 1) (p - 1) n"

fun movsl :: "mem \<Rightarrow> addr \<Rightarrow> addr \<Rightarrow> nat \<Rightarrow> mem" where
  "movsl m q p 0 = m"
| "movsl m q p (Suc n) = movsl (store32 m q (load32 m p)) (q + 4) (p + 4) n"

fun stosb :: "mem \<Rightarrow> addr \<Rightarrow> u8 \<Rightarrow> nat \<Rightarrow> mem" where
  "stosb m q a 0 = m"
| "stosb m q a (Suc n) = stosb (m(q := a)) (q + 1) a n"

fun stosl :: "mem \<Rightarrow> addr \<Rightarrow> u32 \<Rightarrow> nat \<Rightarrow> mem" where
  "stosl m q a 0 = m"
| "stosl m q a (Suc n) = stosl (store32 m q a) (q + 4) a n"

definition memcpy :: "mem \<Rightarrow> addr \<Rightarrow> addr \<Rightarrow> u32 \<Rightarrow> mem" where
  "memcpy m dst src n =
     (let nl = drop_bit 2 n in
      movsb_up (movsl m dst src (unat nl)) (dst + 4 * nl) (src + 4 * nl) (unat (n AND 3)))"

definition memmove :: "mem \<Rightarrow> addr \<Rightarrow> addr \<Rightarrow> u32 \<Rightarrow> mem" where
  "memmove m dst src n =
     (if dst < src then movsb_up m dst src (unat n)
      else movsb_down m (dst + (n - 1)) (src + (n - 1)) (unat n))"

definition memset :: "mem \<Rightarrow> addr \<Rightarrow> u32 \<Rightarrow> u32 \<Rightarrow> mem" where
  "memset m dst c n =
     (let nl = drop_bit 2 n; a = ucast (ucast c :: u8) * 0x01010101 in
      stosb (stosl m dst a (unat nl)) (dst + 4 * nl) (ucast a) (unat (n AND 3)))"

text \<open>The search of \<^verbatim>\<open>memmem\<close> for needles of two bytes and more; it ends because both shifts are positive.\<close>

function memmem_loop :: "mem \<Rightarrow> addr \<Rightarrow> nat \<Rightarrow> addr \<Rightarrow> nat \<Rightarrow> nat \<Rightarrow> nat \<Rightarrow> nat \<Rightarrow> addr" where
  "memmem_loop m y n x len k l j =
     (if j \<le> n - len \<and> 0 < k \<and> 0 < l then
        if m (x + 1) \<noteq> m (y + of_nat j + 1) then memmem_loop m y n x len k l (j + k)
        else if memcmp_loop m (x + 2) (y + of_nat j + 2) (len - 2) = 0 \<and> m x = m (y + of_nat j) then y + of_nat j
        else memmem_loop m y n x len k l (j + l)
      else 0)"
  by auto

termination
  by (relation "measure (\<lambda>(m, y, n, x, len, k, l, j). Suc (n - len) - j)") auto

declare memmem_loop.simps [simp del]

definition memmem :: "mem \<Rightarrow> addr \<Rightarrow> u32 \<Rightarrow> addr \<Rightarrow> u32 \<Rightarrow> addr" where
  "memmem m haystack n needle len =
     (if n < len \<or> len = 0 \<or> n = 0 then 0
      else if len \<noteq> 1 then
        (let (k, l) = (if m needle = m (needle + 1) then (2, 1) else (1, 2))
         in memmem_loop m haystack (unat n) needle (unat len) k l 0)
      else memchr_loop m haystack (m needle) (unat n))"

fun memswap_loop :: "mem \<Rightarrow> addr \<Rightarrow> addr \<Rightarrow> nat \<Rightarrow> mem" where
  "memswap_loop m p q 0 = m"
| "memswap_loop m p q (Suc n) =
     (let tmp = m p; m1 = m(p := m q); m2 = m1(q := tmp) in memswap_loop m2 (p + 1) (q + 1) n)"

definition memswap :: "mem \<Rightarrow> addr \<Rightarrow> addr \<Rightarrow> u32 \<Rightarrow> mem" where
  "memswap m m1 m2 n = memswap_loop m m1 m2 (unat n)"

section \<open>Strings\<close>

partial_function (option) strlen_scan :: "mem \<Rightarrow> addr \<Rightarrow> addr option" where
  "strlen_scan m ss = (if m ss \<noteq> 0 then strlen_scan m (ss + 1) else Some ss)"

definition strlen :: "mem \<Rightarrow> addr \<Rightarrow> u32 option" where
  "strlen m s = map_option (\<lambda>ss. ss - s) (strlen_scan m s)"

fun strnlen_scan :: "mem \<Rightarrow> addr \<Rightarrow> nat \<Rightarrow> addr" where
  "strnlen_scan m ss 0 = ss"
| "strnlen_scan m ss (Suc n) = (if m ss \<noteq> 0 then strnlen_scan m (ss + 1) n else ss)"

definition strnlen :: "mem \<Rightarrow> addr \<Rightarrow> u32 \<Rightarrow> u32" where
  "strnlen m s maxlen = strnlen_scan m s (unat maxlen) - s"

partial_function (option) strchr_scan :: "mem \<Rightarrow> addr \<Rightarrow> u8 \<Rightarrow> addr option" where
  "strchr_scan m s c = (if m s \<noteq> c then if m s = 0 then Some 0 else strchr_scan m (s + 1) c else Some s)"

definition strchr :: "mem \<Rightarrow> addr \<Rightarrow> u32 \<Rightarrow> addr option" where
  "strchr m s c = strchr_scan m s (ucast c)"

partial_function (option) strrchr_scan :: "mem \<Rightarrow> addr \<Rightarrow> u8 \<Rightarrow> addr \<Rightarrow> addr option" where
  "strrchr_scan m s c found =
     (if m s \<noteq> 0 then strrchr_scan m (s + 1) c (if m s = c then s else found) else Some found)"

definition strrchr :: "mem \<Rightarrow> addr \<Rightarrow> u32 \<Rightarrow> addr option" where
  "strrchr m s c = strrchr_scan m s (ucast c) 0"

partial_function (option) strcmp :: "mem \<Rightarrow> addr \<Rightarrow> addr \<Rightarrow> int option" where
  "strcmp m c1 c2 =
     (let ch = m c1; d = uint ch - uint (m c2) in
      if d \<noteq> 0 \<or> ch = 0 then Some d else strcmp m (c1 + 1) (c2 + 1))"

partial_function (option) strcpy_loop :: "mem \<Rightarrow> addr \<Rightarrow> addr \<Rightarrow> mem option" where
  "strcpy_loop m q p =
     (let ch = m p; m1 = m(q := ch) in if ch \<noteq> 0 then strcpy_loop m1 (q + 1) (p + 1) else Some m1)"

definition strcpy :: "mem \<Rightarrow> addr \<Rightarrow> addr \<Rightarrow> mem option" where
  "strcpy m dst src = strcpy_loop m dst src"

definition strcat :: "mem \<Rightarrow> addr \<Rightarrow> addr \<Rightarrow> mem option" where
  "strcat m dst src = Option.bind (strchr m dst 0) (\<lambda>q. strcpy m q src)"

fun strncat_loop :: "mem \<Rightarrow> addr \<Rightarrow> addr \<Rightarrow> nat \<Rightarrow> mem" where
  "strncat_loop m q p 0 = m(q := 0)"
| "strncat_loop m q p (Suc n) =
     (let ch = m p; m1 = m(q := ch) in if ch = 0 then m1 else strncat_loop m1 (q + 1) (p + 1) n)"

definition strncat :: "mem \<Rightarrow> addr \<Rightarrow> addr \<Rightarrow> u32 \<Rightarrow> mem option" where
  "strncat m dst src n = map_option (\<lambda>q. strncat_loop m q src (unat n)) (strchr m dst 0)"

partial_function (option) strlcat_loop :: "mem \<Rightarrow> addr \<Rightarrow> addr \<Rightarrow> u32 \<Rightarrow> u32 \<Rightarrow> (u32 \<times> mem) option" where
  "strlcat_loop m q p bytes sz =
     (let ch = m p in
      if ch \<noteq> 0 then
        if bytes + 1 < sz then strlcat_loop (m(q := ch)) (q + 1) (p + 1) (bytes + 1) sz
        else strlcat_loop m q (p + 1) (bytes + 1) sz
      else Some (bytes, m(q := 0)))"

definition strlcat :: "mem \<Rightarrow> addr \<Rightarrow> addr \<Rightarrow> u32 \<Rightarrow> (u32 \<times> mem) option" where
  "strlcat m dst src sz =
     (let q = strnlen_scan m dst (unat sz); bytes = q - dst in
      if bytes = sz then map_option (\<lambda>l. (bytes + l, m)) (strlen m src)
      else strlcat_loop m q src bytes sz)"

fun strncmp_loop :: "mem \<Rightarrow> addr \<Rightarrow> addr \<Rightarrow> nat \<Rightarrow> int" where
  "strncmp_loop m c1 c2 0 = 0"
| "strncmp_loop m c1 c2 (Suc n) =
     (let ch = m c1; d = uint ch - uint (m c2) in
      if d \<noteq> 0 \<or> ch = 0 then d else strncmp_loop m (c1 + 1) (c2 + 1) n)"

definition strncmp :: "mem \<Rightarrow> addr \<Rightarrow> addr \<Rightarrow> u32 \<Rightarrow> int" where
  "strncmp m s1 s2 n = strncmp_loop m s1 s2 (unat n)"

fun strncpy_loop :: "mem \<Rightarrow> addr \<Rightarrow> addr \<Rightarrow> nat \<Rightarrow> mem" where
  "strncpy_loop m q p 0 = memset m q 0 0"
| "strncpy_loop m q p (Suc n) =
     (let ch = m p; m1 = m(q := ch) in
      if ch = 0 then memset m1 (q + 1) 0 (of_nat n) else strncpy_loop m1 (q + 1) (p + 1) n)"

definition strncpy :: "mem \<Rightarrow> addr \<Rightarrow> addr \<Rightarrow> u32 \<Rightarrow> mem" where
  "strncpy m dst src n = strncpy_loop m dst src (unat n)"

text \<open>\<^verbatim>\<open>__strxspn\<close>: its 256-entry match map is a function from bytes to flags.\<close>

partial_function (option) fill_matchmap :: "mem \<Rightarrow> addr \<Rightarrow> (u8 \<Rightarrow> bool) \<Rightarrow> (u8 \<Rightarrow> bool) option" where
  "fill_matchmap m map1 mm = (if m map1 \<noteq> 0 then fill_matchmap m (map1 + 1) (mm(m map1 := True)) else Some mm)"

partial_function (option) span_scan :: "mem \<Rightarrow> addr \<Rightarrow> (u8 \<Rightarrow> bool) \<Rightarrow> bool \<Rightarrow> u32 \<Rightarrow> u32 option" where
  "span_scan m s mm parity n = (if mm (m s) \<noteq> parity then span_scan m (s + 1) mm parity (n + 1) else Some n)"

definition strxspn :: "mem \<Rightarrow> addr \<Rightarrow> addr \<Rightarrow> bool \<Rightarrow> u32 option" where
  "strxspn m s map1 parity =
     Option.bind (fill_matchmap m map1 (\<lambda>_. False)) (\<lambda>mm. span_scan m s (mm(0 := parity)) parity 0)"

definition strcspn :: "mem \<Rightarrow> addr \<Rightarrow> addr \<Rightarrow> u32 option" where
  "strcspn m s reject = strxspn m s reject True"

definition strspn :: "mem \<Rightarrow> addr \<Rightarrow> addr \<Rightarrow> u32 option" where
  "strspn m s accept = strxspn m s accept False"

definition strpbrk :: "mem \<Rightarrow> addr \<Rightarrow> addr \<Rightarrow> addr option" where
  "strpbrk m s accept = map_option (\<lambda>n. let ss = s + n in if m ss \<noteq> 0 then ss else 0) (strxspn m s accept True)"

text \<open>\<^verbatim>\<open>strsep\<close> gets \<^verbatim>\<open>*stringp\<close> and returns the token, the new \<^verbatim>\<open>*stringp\<close> and the memory.\<close>

definition strsep :: "mem \<Rightarrow> addr \<Rightarrow> addr \<Rightarrow> (addr \<times> addr \<times> mem) option" where
  "strsep m s delim =
     (if s = 0 then Some (0, 0, m)
      else map_option (\<lambda>e. if e \<noteq> 0 then (s, e + 1, m(e := 0)) else (s, 0, m)) (strpbrk m s delim))"

definition strstr :: "mem \<Rightarrow> addr \<Rightarrow> addr \<Rightarrow> addr option" where
  "strstr m haystack needle =
     Option.bind (strlen m haystack) (\<lambda>n. map_option (\<lambda>len. memmem m haystack n needle len) (strlen m needle))"

text \<open>\<^verbatim>\<open>strtok\<close> with its static \<^verbatim>\<open>holder\<close>.\<close>

definition strtok :: "mem \<Rightarrow> addr \<Rightarrow> addr \<Rightarrow> addr \<Rightarrow> (addr \<times> addr \<times> mem) option" where
  "strtok m holder s delim = strsep m (if s \<noteq> 0 then s else holder) delim"

text \<open>The characters of the string at an address, as \<^verbatim>\<open>%s\<close> reads them.\<close>

partial_function (option) str_at :: "mem \<Rightarrow> addr \<Rightarrow> char list option" where
  "str_at m a = (if m a = 0 then Some []
     else Option.bind (str_at m (a + 1)) (\<lambda>cs. Some (char_of (unat (m a)) # cs)))"

section \<open>Blocks of bytes\<close>

text \<open>A block never meets itself: addresses at different offsets below \<open>2 ^ 32\<close> differ.\<close>

lemma unat_minus_1: "(x :: u32) \<noteq> 0 \<Longrightarrow> unat x = Suc (unat (x - 1))"
proof -
  assume "x \<noteq> 0"
  then have "unat x \<noteq> 0" by (simp add: unat_eq_zero)
  then have "1 \<le> x" by (simp add: word_le_nat_alt)
  with \<open>unat x \<noteq> 0\<close> show ?thesis by (simp add: unat_sub)
qed

lemma write_bytes_at:
  "length bs \<le> 2 ^ 32 \<Longrightarrow>
   write_bytes m a bs x = (if unat (x - a) < length bs then bs ! unat (x - a) else m x)"
proof (induction bs arbitrary: m a)
  case (Cons b bs)
  show ?case
  proof (cases "x = a")
    case True
    have "unat (a - (a + 1)) = 2 ^ 32 - 1" by (simp add: unsigned_minus_1_eq_mask mask_eq_exp_minus_1)
    with True Cons show ?thesis by simp
  next
    case False
    then have "unat (x - a) = Suc (unat (x - (a + 1)))"
      using unat_minus_1 [of "x - a"] by (simp add: diff_diff_eq)
    with False Cons show ?thesis by simp
  qed
qed simp

lemma length_read_bytes [simp]: "length (read_bytes m a n) = n"
  by (induction n arbitrary: a) auto

lemma nth_read_bytes: "i < n \<Longrightarrow> read_bytes m a n ! i = m (a + of_nat i)"
  by (induction n arbitrary: a i) (auto simp: nth_Cons algebra_simps split: nat.splits)

lemma read_bytes_cong:
  "(\<And>i. i < n \<Longrightarrow> m' (a + of_nat i) = m (a + of_nat i)) \<Longrightarrow> read_bytes m' a n = read_bytes m a n"
  by (simp add: list_eq_iff_nth_eq nth_read_bytes)

lemma write_bytes_append:
  "write_bytes m a (bs @ cs) = write_bytes (write_bytes m a bs) (a + of_nat (length bs)) cs"
  by (induction bs arbitrary: m a) (auto simp: algebra_simps)

lemma read_bytes_append: "read_bytes m a (k + n) = read_bytes m a k @ read_bytes m (a + of_nat k) n"
  by (induction k arbitrary: a) (auto simp: algebra_simps)

lemma movsb_up_copy:
  assumes "\<And>i j. i < n \<Longrightarrow> j < i \<Longrightarrow> q + of_nat j \<noteq> p + of_nat i"
  shows "movsb_up m q p n = write_bytes m q (read_bytes m p n)"
  using assms
proof (induction n arbitrary: m q p)
  case (Suc n)
  have keep: "read_bytes (m(q := m p)) (p + 1) n = read_bytes m (p + 1) n"
  proof (rule read_bytes_cong)
    fix i assume "i < n"
    then have "q + of_nat 0 \<noteq> p + of_nat (Suc i)" by (intro Suc.prems) auto
    then show "(m(q := m p)) (p + 1 + of_nat i) = m (p + 1 + of_nat i)" by (simp add: algebra_simps)
  qed
  have "movsb_up (m(q := m p)) (q + 1) (p + 1) n
      = write_bytes (m(q := m p)) (q + 1) (read_bytes (m(q := m p)) (p + 1) n)"
  proof (rule Suc.IH)
    fix i j assume "i < n" "j < i"
    then have "q + of_nat (Suc j) \<noteq> p + of_nat (Suc i)" by (intro Suc.prems) auto
    then show "q + 1 + of_nat j \<noteq> p + 1 + of_nat i" by (simp add: algebra_simps)
  qed
  with keep show ?case by simp
qed simp

lemma write_bytes_upd:
  assumes "\<And>i. i < length bs \<Longrightarrow> x \<noteq> a + of_nat i"
  shows "write_bytes (m(x := b)) a bs = (write_bytes m a bs)(x := b)"
  using assms
proof (induction bs arbitrary: m a)
  case (Cons c bs)
  have "x \<noteq> a" using Cons.prems [of 0] by simp
  moreover have "write_bytes ((m(a := c))(x := b)) (a + 1) bs = (write_bytes (m(a := c)) (a + 1) bs)(x := b)"
  proof (rule Cons.IH)
    fix i assume "i < length bs"
    then show "x \<noteq> a + 1 + of_nat i" using Cons.prems [of "Suc i"] by (simp add: algebra_simps)
  qed
  ultimately show ?case by (metis fun_upd_twist write_bytes.simps(2))
qed simp

lemma movsb_down_copy:
  assumes "n \<le> 2 ^ 32" and "\<And>i j. i < j \<Longrightarrow> j < n \<Longrightarrow> q + of_nat j \<noteq> p + of_nat i"
  shows "movsb_down m (q + (of_nat n - 1)) (p + (of_nat n - 1)) n = write_bytes m q (read_bytes m p n)"
  using assms
proof (induction n arbitrary: m)
  case (Suc n)
  let ?m = "m(q + of_nat n := m (p + of_nat n))"
  have ih: "movsb_down ?m (q + (of_nat n - 1)) (p + (of_nat n - 1)) n = write_bytes ?m q (read_bytes ?m p n)"
    using Suc.prems by (intro Suc.IH) auto
  have "read_bytes ?m p n = read_bytes m p n"
  proof (rule read_bytes_cong)
    fix i assume "i < n"
    then have "p + of_nat i \<noteq> q + of_nat n" using Suc.prems(2) [of i n] by auto
    then show "?m (p + of_nat i) = m (p + of_nat i)" by simp
  qed
  moreover have "write_bytes ?m q (read_bytes m p n) = (write_bytes m q (read_bytes m p n))(q + of_nat n := m (p + of_nat n))"
  proof (rule write_bytes_upd)
    fix i assume "i < length (read_bytes m p n)"
    then have "i < n" by simp
    then have "of_nat n \<noteq> (of_nat i :: u32)"
      using Suc.prems(1) by (simp add: of_nat_inverse word_unat_eq_iff unat_of_nat)
    then show "q + of_nat n \<noteq> q + of_nat i" by simp
  qed
  moreover have "read_bytes m p (Suc n) = read_bytes m p n @ [m (p + of_nat n)]"
    using read_bytes_append [of m p n 1] by simp
  ultimately show ?case using ih by (simp add: write_bytes_append add_diff_eq add.commute)
qed simp

text \<open>Without wrap-around, offsets into blocks compare like their addresses.\<close>

lemma unat_add_offset: "unat (a :: u32) + n \<le> 2 ^ 32 \<Longrightarrow> i < n \<Longrightarrow> unat (a + of_nat i) = unat a + i"
  by (simp add: unat_word_ariths unat_of_nat)

text \<open>
  \<^verbatim>\<open>memmove\<close> copies whatever the overlap. For blocks that do not wrap around the address space, the
  destination ends up with the bytes the source had before, and no other byte changes.
\<close>

theorem memmove_copies:
  assumes "unat dst + unat n \<le> 2 ^ 32" and "unat src + unat n \<le> 2 ^ 32"
  shows "memmove m dst src n = (\<lambda>x. if unat (x - dst) < unat n then m (src + (x - dst)) else m x)"
proof -
  have "memmove m dst src n = write_bytes m dst (read_bytes m src (unat n))"
  proof (cases "dst < src")
    case True
    have "movsb_up m dst src (unat n) = write_bytes m dst (read_bytes m src (unat n))"
    proof (rule movsb_up_copy)
      fix i j assume "i < unat n" "j < i"
      then have "unat (dst + of_nat j) < unat (src + of_nat i)"
        using assms True unat_add_offset [of dst "unat n" j] unat_add_offset [of src "unat n" i]
        by (simp add: word_less_nat_alt)
      then show "dst + of_nat j \<noteq> src + of_nat i" by auto
    qed
    with True show ?thesis by (simp add: memmove_def)
  next
    case False
    have "movsb_down m (dst + (of_nat (unat n) - 1)) (src + (of_nat (unat n) - 1)) (unat n)
        = write_bytes m dst (read_bytes m src (unat n))"
    proof (rule movsb_down_copy)
      fix i j assume "i < j" "j < unat n"
      then have "unat (src + of_nat i) < unat (dst + of_nat j)"
        using assms False unat_add_offset [of dst "unat n" j] unat_add_offset [of src "unat n" i]
        by (simp add: word_less_nat_alt)
      then show "dst + of_nat j \<noteq> src + of_nat i" by auto
    qed (use assms in simp)
    with False show ?thesis by (simp add: memmove_def)
  qed
  then show ?thesis
    using assms by (auto simp: fun_eq_iff write_bytes_at nth_read_bytes)
qed

text \<open>Moving four bytes one place up over themselves.\<close>

lemma memmove_copies_witness: "memmove (\<lambda>x. ucast x) 11 10 4 14 = 13 \<and> memmove (\<lambda>x. ucast x) 11 10 4 15 = 15"
  using memmove_copies [of 11 4 10 "\<lambda>x. ucast x"] by simp

section \<open>Copies and fills by double words\<close>

lemma load32_bytes:
  "ucast (load32 m a) = m a" "ucast (drop_bit 8 (load32 m a)) = m (a + 1)"
  "ucast (drop_bit 16 (load32 m a)) = m (a + 2)" "ucast (drop_bit 24 (load32 m a)) = m (a + 3)"
  unfolding load32_def by (rule bit_word_eqI, auto simp: bit_simps dest: bit_imp_le_length simp del: drop_bit_or)+

lemma store32_bytes:
  "store32 m a w = write_bytes m a [ucast w, ucast (drop_bit 8 w), ucast (drop_bit 16 w), ucast (drop_bit 24 w)]"
  by (simp add: store32_def algebra_simps)

lemma store32_load32: "store32 m q (load32 m p) = write_bytes m q (read_bytes m p 4)"
proof -
  have "read_bytes m p 4 = [m p, m (p + 1), m (p + 2), m (p + 3)]"
    by (simp add: eval_nat_numeral algebra_simps)
  then show ?thesis unfolding store32_bytes load32_bytes by simp
qed

text \<open>Two blocks of \<open>n\<close> bytes with no byte in common.\<close>

definition disjoint_blocks :: "addr \<Rightarrow> addr \<Rightarrow> nat \<Rightarrow> bool" where
  "disjoint_blocks q p n \<longleftrightarrow> (\<forall>i < n. \<forall>j < n. q + of_nat j \<noteq> p + of_nat i)"

lemma disjoint_blocks_shift:
  assumes "disjoint_blocks q p (k + n)"
  shows "disjoint_blocks (q + of_nat k) (p + of_nat k) n"
proof -
  have "q + of_nat (k + j) \<noteq> p + of_nat (k + i)" if "i < n" "j < n" for i j
    using assms that by (simp add: disjoint_blocks_def del: of_nat_add)
  then show ?thesis by (simp add: disjoint_blocks_def add.assoc)
qed

lemma read_bytes_disjoint:
  assumes "disjoint_blocks q p n" and "n \<le> 2 ^ 32" and "k + l \<le> n"
  shows "read_bytes (write_bytes m q (read_bytes m p k)) (p + of_nat k) l = read_bytes m (p + of_nat k) l"
proof (rule read_bytes_cong)
  fix i assume i: "i < l"
  have "\<not> unat (p + of_nat (k + i) - q) < k"
  proof
    assume lt: "unat (p + of_nat (k + i) - q) < k"
    have "q + of_nat (unat (p + of_nat (k + i) - q)) = p + of_nat (k + i)" by simp
    moreover have "k + i < n" "unat (p + of_nat (k + i) - q) < n" using assms(3) i lt by linarith+
    ultimately show False using assms(1) unfolding disjoint_blocks_def by blast
  qed
  then show "write_bytes m q (read_bytes m p k) (p + of_nat k + of_nat i) = m (p + of_nat k + of_nat i)"
    using assms(2,3) by (simp add: write_bytes_at add.assoc)
qed

lemma copy_append:
  assumes "disjoint_blocks q p n" and "n \<le> 2 ^ 32" and "k + l \<le> n"
  shows "write_bytes m q (read_bytes m p (k + l))
    = (let m1 = write_bytes m q (read_bytes m p k) in write_bytes m1 (q + of_nat k) (read_bytes m1 (p + of_nat k) l))"
  using read_bytes_disjoint [OF assms] by (simp add: read_bytes_append write_bytes_append Let_def)

lemma movsl_copy:
  assumes "disjoint_blocks q p (4 * k)" and "4 * k \<le> 2 ^ 32"
  shows "movsl m q p k = write_bytes m q (read_bytes m p (4 * k))"
  using assms
proof (induction k arbitrary: m q p)
  case (Suc k)
  have "disjoint_blocks q p (4 + 4 * k)" using Suc.prems(1) by simp
  from disjoint_blocks_shift [OF this] have d: "disjoint_blocks (q + 4) (p + 4) (4 * k)" by simp
  show ?case
    using Suc.IH [OF d] Suc.prems copy_append [OF Suc.prems, of 4 "4 * k" m]
    by (simp add: store32_load32 Let_def)
qed simp

lemma word_div4:
  fixes n :: u32
  shows "unat n = 4 * unat (drop_bit 2 n) + unat (n AND 3)" and "unat (n AND 3) < 4"
proof -
  have "n AND 3 = take_bit 2 n" by (simp add: take_bit_eq_mask mask_eq_exp_minus_1)
  then have a: "unat (n AND 3) = unat n mod 4" by (simp add: unsigned_take_bit_eq take_bit_nat_def)
  have "unat (drop_bit 2 n) = unat n div 4" by (simp add: drop_bit_eq_div unat_div)
  with a show "unat n = 4 * unat (drop_bit 2 n) + unat (n AND 3)" by simp
  show "unat (n AND 3) < 4" using a by simp
qed

text \<open>
  \<^verbatim>\<open>memcpy\<close>, double words first and the last bytes after, is the byte by byte copy on blocks that do
  not overlap.
\<close>

theorem memcpy_bytewise:
  assumes "\<forall>i < unat n. \<forall>j < unat n. dst + of_nat j \<noteq> src + of_nat i"
  shows "memcpy m dst src n = (\<lambda>x. if unat (x - dst) < unat n then m (src + (x - dst)) else m x)"
proof -
  define k l where "k = 4 * unat (drop_bit 2 n)" and "l = unat (n AND 3)"
  have kl: "unat n = k + l" using word_div4(1) [of n] by (simp add: k_def l_def)
  have le: "unat n \<le> 2 ^ 32" using unsigned_less [of n, where 'a = nat] by simp
  have d: "disjoint_blocks dst src (unat n)" using assms by (simp add: disjoint_blocks_def)
  then have dk: "disjoint_blocks dst src k" using kl by (simp add: disjoint_blocks_def)
  have w: "4 * drop_bit 2 n = of_nat k" by (simp add: k_def)
  let ?m = "write_bytes m dst (read_bytes m src k)"
  have "disjoint_blocks (dst + of_nat k) (src + of_nat k) l"
    using disjoint_blocks_shift [of dst src k l] d kl by simp
  then have "movsb_up ?m (dst + of_nat k) (src + of_nat k) l
      = write_bytes ?m (dst + of_nat k) (read_bytes ?m (src + of_nat k) l)"
    by (intro movsb_up_copy) (simp add: disjoint_blocks_def)
  moreover have "movsl m dst src (unat (drop_bit 2 n)) = ?m"
    using movsl_copy [of dst src "unat (drop_bit 2 n)" m] dk le kl by (simp add: k_def)
  ultimately have "memcpy m dst src n = write_bytes m dst (read_bytes m src (unat n))"
    using copy_append [OF d le, of k l m] kl by (simp add: memcpy_def Let_def w l_def)
  then show ?thesis using le by (auto simp: fun_eq_iff write_bytes_at nth_read_bytes)
qed

lemma memcpy_bytewise_witness: "memcpy (\<lambda>x. ucast x) 100 10 7 106 = 16 \<and> memcpy (\<lambda>x. ucast x) 100 10 7 107 = 107"
proof -
  have "\<forall>i < unat (7 :: u32). \<forall>j < unat (7 :: u32). (100 :: addr) + of_nat j \<noteq> 10 + of_nat i"
  proof (intro allI impI notI)
    fix i j assume "i < unat (7 :: u32)" "j < unat (7 :: u32)" and eq: "(100 :: addr) + of_nat j = 10 + of_nat i"
    then have "i < 7" "j < 7" by simp_all
    moreover from eq have "unat (100 + of_nat j :: addr) = unat (10 + of_nat i :: addr)" by (rule arg_cong)
    ultimately show False using unat_add_offset [of 100 7 j] unat_add_offset [of 10 7 i] by simp
  qed
  from memcpy_bytewise [OF this, of "\<lambda>x. ucast x"] show ?thesis by simp
qed

lemma stosb_fill: "stosb m q a n = write_bytes m q (replicate n a)"
  by (induction n arbitrary: m q) auto

lemma spread_byte:
  fixes c :: u8
  shows "ucast ((ucast c :: u32) * 0x01010101) = c" "ucast (drop_bit 8 ((ucast c :: u32) * 0x01010101)) = c"
    "ucast (drop_bit 16 ((ucast c :: u32) * 0x01010101)) = c" "ucast (drop_bit 24 ((ucast c :: u32) * 0x01010101)) = c"
proof -
  have c: "unat c < 256" using unsigned_less [of c, where 'a = nat] by simp
  then have u: "unat ((ucast c :: u32) * 0x01010101) = unat c * 0x01010101"
    by (simp add: unat_word_ariths)
  have "unat c * 0x01010101 mod 256 = unat c" "unat c * 0x01010101 div 2 ^ 8 mod 256 = unat c"
    "unat c * 0x01010101 div 2 ^ 16 mod 256 = unat c" "unat c * 0x01010101 div 2 ^ 24 mod 256 = unat c"
  proof -
    define x where "x = unat c"
    have d1: "x * 0x01010101 = x + 256 * (x * 0x010101)" and d2: "x * 0x010101 = x + 256 * (x * 0x0101)"
      and d3: "x * 0x0101 = x + 256 * x" by simp_all
    have x: "x < 256" using c by (simp add: x_def)
    have q1: "x * 0x01010101 div 256 = x * 0x010101" unfolding d1 using x by simp
    have q2: "x * 0x010101 div 256 = x * 0x0101" unfolding d2 using x by simp
    have q3: "x * 0x0101 div 256 = x" unfolding d3 using x by simp
    have p: "(2 :: nat) ^ 8 = 256" "(2 :: nat) ^ 16 = 256 * 256" "(2 :: nat) ^ 24 = 256 * (256 * 256)" by simp_all
    have "x * 0x01010101 mod 256 = x" "x * 0x010101 mod 256 = x" "x * 0x0101 mod 256 = x" "x mod 256 = x"
      using x by (simp_all only: d1 d2 d3 mod_mult_self2 mod_less)
    then show "unat c * 0x01010101 mod 256 = unat c" "unat c * 0x01010101 div 2 ^ 8 mod 256 = unat c"
      "unat c * 0x01010101 div 2 ^ 16 mod 256 = unat c" "unat c * 0x01010101 div 2 ^ 24 mod 256 = unat c"
      unfolding p div_mult2_eq x_def [symmetric] q1 q2 q3 by simp_all
  qed
  then show "ucast ((ucast c :: u32) * 0x01010101) = c" "ucast (drop_bit 8 ((ucast c :: u32) * 0x01010101)) = c"
    "ucast (drop_bit 16 ((ucast c :: u32) * 0x01010101)) = c" "ucast (drop_bit 24 ((ucast c :: u32) * 0x01010101)) = c"
    by (simp_all add: word_unat_eq_iff unsigned_ucast_eq take_bit_eq_mod unsigned_drop_bit_eq drop_bit_eq_div u unat_div)
qed

lemma stosl_fill:
  "stosl m q (ucast (c :: u8) * 0x01010101) n = write_bytes m q (replicate (4 * n) c)"
proof (induction n arbitrary: m q)
  case (Suc n)
  have "replicate (4 * Suc n) c = [c, c, c, c] @ replicate (4 * n) c" by (simp add: eval_nat_numeral)
  with Suc show ?case by (simp add: store32_bytes spread_byte write_bytes_append algebra_simps fun_upd_def del: replicate.simps)
qed simp

lemma memset_fill:
  "memset m dst c n = (\<lambda>x. if unat (x - dst) < unat n then ucast c else m x)"
proof -
  have "memset m dst c n = write_bytes m dst (replicate (unat n) (ucast c))"
    using word_div4(1) [of n]
    by (simp add: memset_def Let_def stosb_fill stosl_fill spread_byte replicate_add write_bytes_append)
  moreover have "unat n \<le> 2 ^ 32" using unsigned_less [of n, where 'a = nat] by simp
  ultimately show ?thesis by (simp add: fun_eq_iff write_bytes_at)
qed

section \<open>Searching a byte string\<close>

definition occurs :: "mem \<Rightarrow> addr \<Rightarrow> addr \<Rightarrow> nat \<Rightarrow> nat \<Rightarrow> bool" where
  "occurs m y x len j \<longleftrightarrow> (\<forall>i < len. m (x + of_nat i) = m (y + of_nat j + of_nat i))"

lemma memcmp_loop_zero: "memcmp_loop m a b n = 0 \<longleftrightarrow> (\<forall>i < n. m (a + of_nat i) = m (b + of_nat i))"
proof (induction n arbitrary: a b)
  case (Suc n)
  have "(\<forall>i < Suc n. m (a + of_nat i) = m (b + of_nat i))
      \<longleftrightarrow> m a = m b \<and> (\<forall>i < n. m (a + 1 + of_nat i) = m (b + 1 + of_nat i))"
    by (auto simp: All_less_Suc2 add.assoc)
  then show ?case by (simp add: Suc Let_def word_uint_eq_iff [symmetric])
qed simp

lemma occurs_split:
  "occurs m y x (Suc (Suc n)) j \<longleftrightarrow> m x = m (y + of_nat j) \<and> m (x + 1) = m (y + of_nat j + 1)
     \<and> memcmp_loop m (x + 2) (y + of_nat j + 2) n = 0"
  by (simp add: occurs_def memcmp_loop_zero All_less_Suc2 add.assoc)

text \<open>The first offset of the needle from \<open>j\<close> on, if there is one up to \<open>d\<close>.\<close>

definition first_from :: "(nat \<Rightarrow> bool) \<Rightarrow> nat \<Rightarrow> nat \<Rightarrow> nat option" where
  "first_from P j d = find P [j..<Suc d]"

lemma first_from_step: "\<not> P j \<Longrightarrow> first_from P j d = first_from P (Suc j) d"
  by (cases "j \<le> d") (auto simp: first_from_def upt_conv_Cons simp del: upt_Suc)

lemma first_from_hit: "P j \<Longrightarrow> j \<le> d \<Longrightarrow> first_from P j d = Some j"
  by (simp add: first_from_def upt_conv_Cons del: upt_Suc)

lemma first_from_beyond: "d < j \<Longrightarrow> first_from P j d = None"
  by (simp add: first_from_def)

lemma memmem_loop_first:
  assumes "2 \<le> len" and "(k, l) = (if m x = m (x + 1) then (2, 1) else (1, 2))"
  shows "memmem_loop m y n x len k l j
    = (case first_from (occurs m y x len) j (n - len) of None \<Rightarrow> 0 | Some i \<Rightarrow> y + of_nat i)"
  using assms
proof (induction m y n x len k l j rule: memmem_loop.induct)
  case (1 m y n x len k l j)
  let ?P = "occurs m y x len"
  obtain r where len: "len = Suc (Suc r)" using \<open>2 \<le> len\<close> by (metis add_2_eq_Suc le_Suc_ex)
  have kl: "0 < k" "0 < l" using 1(4) by (auto split: if_splits)
  have snd: "m (x + 1) = m (y + of_nat i + 1)" if "?P i" for i using that by (simp add: len occurs_split)
  have fst: "m x = m (y + of_nat i)" if "?P i" for i using that by (simp add: len occurs_split)
  show ?case
  proof (cases "j \<le> n - len")
    case False
    then show ?thesis by (subst memmem_loop.simps) (simp add: first_from_beyond)
  next
    case True
    note unfold = memmem_loop.simps [of m y n x len k l j]
    show ?thesis
    proof (cases "m (x + 1) = m (y + of_nat j + 1)")
      case False
      then have nj: "\<not> ?P j" using snd by blast
      have "first_from ?P j (n - len) = first_from ?P (j + k) (n - len)"
      proof (cases "m x = m (x + 1)")
        case True
        then have "\<not> ?P (Suc j)" using fst [of "Suc j"] False by (auto simp: algebra_simps)
        with nj True 1(4) show ?thesis by (simp add: first_from_step)
      qed (use nj 1(4) in \<open>simp add: first_from_step\<close>)
      with 1(1) [OF _ False] True False kl 1(3,4) show ?thesis by (simp add: unfold)
    next
      case eq: True
      show ?thesis
      proof (cases "?P j")
        case hit: True
        then show ?thesis
          using True eq kl by (simp add: memmem_loop.simps [of m y n x "Suc (Suc r)"] first_from_hit occurs_split len)
      next
        case nj: False
        have "first_from ?P j (n - len) = first_from ?P (j + l) (n - len)"
        proof (cases "m x = m (x + 1)")
          case False
          then have "\<not> ?P (Suc j)" using fst [of "Suc j"] eq by (auto simp: algebra_simps)
          with nj False 1(4) show ?thesis by (simp add: first_from_step)
        qed (use nj 1(4) in \<open>simp add: first_from_step\<close>)
        moreover have "\<not> (memcmp_loop m (x + 2) (y + of_nat j + 2) (len - 2) = 0 \<and> m x = m (y + of_nat j))"
          using nj eq by (auto simp: len occurs_split)
        ultimately show ?thesis using 1(2) True eq kl 1(3,4) by (auto simp: unfold)
      qed
    qed
  qed
qed

lemma memchr_loop_first:
  "memchr_loop m y c n = (case find (\<lambda>i. m (y + of_nat i) = c) [0..<n] of None \<Rightarrow> 0 | Some i \<Rightarrow> y + of_nat i)"
proof (induction n arbitrary: y)
  case (Suc n)
  have "[0..<Suc n] = 0 # map Suc [0..<n]" by (simp add: map_Suc_upt upt_conv_Cons)
  then show ?case
    using Suc [of "y + 1"] by (auto simp: find_map add.assoc simp del: upt_Suc split: option.splits)
qed simp

text \<open>
  C40: \<^verbatim>\<open>memmem\<close>, the \<^emph>\<open>not so naive\<close> search with its shifts of two, finds what the naive search finds: the
  first occurrence of the needle, or \<^verbatim>\<open>NULL\<close> when there is none.
\<close>

theorem memmem_first_occurrence:
  assumes "0 < len" and "len \<le> n"
  shows "memmem m y n x len = (case find (occurs m y x (unat len)) [0..<Suc (unat n - unat len)] of
           None \<Rightarrow> 0 | Some i \<Rightarrow> y + of_nat i)"
proof (cases "len = 1")
  case True
  have "0 < unat n" using assms True by (simp add: word_le_nat_alt)
  then show ?thesis
    using assms True
    by (simp add: memmem_def memchr_loop_first occurs_def [abs_def] eq_commute [of "m x"] not_less del: upt_Suc)
next
  case False
  then have "2 \<le> unat len" using assms(1) 
    using word_unat_eq_iff [of len 1] by (simp add: word_less_nat_alt)
  from memmem_loop_first [OF this] show ?thesis
    using assms False by (auto simp: memmem_def first_from_def not_less del: upt_Suc)
qed

lemma memmem_first_occurrence_witness:
  "memmem ((\<lambda>_. 0)(11 := 7, 12 := 7, 13 := 8, 50 := 7, 51 := 8)) 10 6 50 2 = 12" (is "memmem ?m _ _ _ _ = _")
proof -
  have "(0 :: u32) < 2" "(2 :: u32) \<le> 6" by simp_all
  from memmem_first_occurrence [OF this, of ?m 10 50] have "memmem ?m 10 6 50 2 = (case find (occurs ?m 10 50 2) [0..<5] of None \<Rightarrow> 0 | Some i \<Rightarrow> 10 + of_nat i)"
    by simp
  moreover have "[0..<5] = [0, 1, 2, 3, 4]" by (simp add: upt_rec)
  moreover have "occurs ?m 10 50 2 j \<longleftrightarrow> 7 = ?m (10 + of_nat j) \<and> 8 = ?m (11 + of_nat j)" for j
    by (auto simp: occurs_def less_2_cases_iff algebra_simps)
  ultimately show ?thesis by simp
qed

section \<open>Strings\<close>

text \<open>The string at an address: bytes other than NUL, then a NUL.\<close>

fun cstr :: "mem \<Rightarrow> addr \<Rightarrow> u8 list \<Rightarrow> bool" where
  "cstr m a [] \<longleftrightarrow> m a = 0"
| "cstr m a (c # cs) \<longleftrightarrow> c \<noteq> 0 \<and> m a = c \<and> cstr m (a + 1) cs"

lemma cstr_unique: "cstr m a cs \<Longrightarrow> cstr m a ds \<Longrightarrow> cs = ds"
proof (induction cs arbitrary: a ds)
  case (Cons c cs)
  then show ?case by (cases ds) auto
qed (metis cstr.elims(2) list.distinct(1) cstr.simps(2) cstr.simps(1))

lemma strlen_scan_cstr: "cstr m a cs \<Longrightarrow> strlen_scan m a = Some (a + of_nat (length cs))"
  by (induction cs arbitrary: a) (subst strlen_scan.simps, simp add: algebra_simps)+

lemma strlen_cstr: "cstr m a cs \<Longrightarrow> strlen m a = Some (of_nat (length cs))"
  by (simp add: strlen_def strlen_scan_cstr)

lemma strnlen_scan_cstr:
  "cstr m a cs \<Longrightarrow> strnlen_scan m a n = a + of_nat (min n (length cs))"
proof (induction n arbitrary: a cs)
  case (Suc n)
  then show ?case by (cases cs) (auto simp: min_def algebra_simps)
qed simp

lemma strnlen_cstr: "cstr m a cs \<Longrightarrow> strnlen m a n = of_nat (min (unat n) (length cs))"
  by (simp add: strnlen_def strnlen_scan_cstr)

text \<open>
  \<^verbatim>\<open>strcmp\<close> orders strings. It returns on any two strings; the result is 0 exactly on equal strings
  and its sign is their lexicographic order by unsigned bytes.
\<close>

theorem strcmp_orders:
  assumes "cstr m a cs" and "cstr m b ds"
  shows "\<exists>d. strcmp m a b = Some d \<and> (d = 0 \<longleftrightarrow> cs = ds)
    \<and> (d < 0 \<longleftrightarrow> (cs, ds) \<in> lexord {(x, y). x < y}) \<and> \<bar>d\<bar> < 256"
  using assms
proof (induction cs arbitrary: a b ds)
  case Nil
  have "uint (m b) < 256" using uint_bounded [of "m b"] by simp
  then show ?case using Nil
    by (cases ds) (auto simp: strcmp.simps [of m a b] Let_def word_uint_eq_iff word_less_def order_less_le)
next
  case (Cons c cs)
  have bounds: "uint (m b) < 256" "0 \<le> uint (m b)" "uint c < 256" "0 \<le> uint c"
    using uint_bounded [of "m b"] uint_bounded [of c] by simp_all
  then have "\<bar>uint c - uint (m b)\<bar> < 256" by linarith
  show ?case
  proof (cases "m b = c")
    case True
    then obtain ds' where ds: "ds = c # ds'" "cstr m (b + 1) ds'" using Cons.prems by (cases ds) auto
    from Cons.IH [of "a + 1" "b + 1" ds'] Cons.prems ds show ?thesis
      by (auto simp: strcmp.simps [of m a b] Let_def)
  next
    case False
    then have "uint c - uint (m b) \<noteq> 0" by (simp add: word_uint_eq_iff)
    then show ?thesis
      using Cons.prems False \<open>\<bar>uint c - uint (m b)\<bar> < 256\<close>
      by (cases ds) (auto simp: strcmp.simps [of m a b] Let_def word_less_def)
  qed
qed

lemma strcmp_orders_witness:
  "\<exists>d. strcmp ((\<lambda>_. 0)(1 := 97, 5 := 97, 6 := 98)) 1 5 = Some d \<and> d < 0"
proof -
  have "cstr ((\<lambda>_. 0)(1 := 97, 5 := 97, 6 := 98)) 1 [97]" "cstr ((\<lambda>_. 0)(1 := 97, 5 := 97, 6 := 98)) 5 [97, 98]"
    by simp_all
  from strcmp_orders [OF this] show ?thesis by auto
qed

text \<open>Storing a string: its bytes and the NUL.\<close>

lemma cstr_frame:
  "cstr m a cs \<Longrightarrow> (\<And>i. i \<le> length cs \<Longrightarrow> m' (a + of_nat i) = m (a + of_nat i)) \<Longrightarrow> cstr m' a cs"
proof (induction cs arbitrary: a)
  case (Cons c cs)
  have "m' a = m a" using Cons.prems(2) [of 0] by simp
  moreover have "cstr m' (a + 1) cs"
  proof (rule Cons.IH)
    fix i assume "i \<le> length cs"
    then show "m' (a + 1 + of_nat i) = m (a + 1 + of_nat i)"
      using Cons.prems(2) [of "Suc i"] by (simp add: algebra_simps)
  qed (use Cons.prems in simp)
  ultimately show ?case using Cons.prems by simp
qed (use spec in force)

lemma strcpy_loop_cstr:
  assumes "cstr m p cs" and "\<And>i j. i \<le> length cs \<Longrightarrow> j < i \<Longrightarrow> q + of_nat j \<noteq> p + of_nat i"
  shows "strcpy_loop m q p = Some (write_bytes m q (cs @ [0]))"
  using assms
proof (induction cs arbitrary: m q p)
  case Nil
  then show ?case by (simp add: strcpy_loop.simps [of m q p] fun_upd_def)
next
  case (Cons c cs)
  have "strcpy_loop (m(q := c)) (q + 1) (p + 1) = Some (write_bytes (m(q := c)) (q + 1) (cs @ [0]))"
  proof (rule Cons.IH)
    show "cstr (m(q := c)) (p + 1) cs"
    proof (rule cstr_frame)
      fix i assume "i \<le> length cs"
      then show "(m(q := c)) (p + 1 + of_nat i) = m (p + 1 + of_nat i)"
        using Cons.prems(2) [of "Suc i" 0] by (auto simp: algebra_simps)
    qed (use Cons.prems in simp)
    fix i j assume "i \<le> length cs" "j < i"
    then show "q + 1 + of_nat j \<noteq> p + 1 + of_nat i"
      using Cons.prems(2) [of "Suc i" "Suc j"] by (simp add: algebra_simps)
  qed
  with Cons.prems(1) show ?case by (simp add: strcpy_loop.simps [of m q p])
qed

lemma cstr_write_bytes:
  assumes "0 \<notin> set cs" and "length cs < 2 ^ 32"
  shows "cstr (write_bytes m a (cs @ [0])) a cs"
proof -
  have "cstr m' a cs" if "\<And>i. i \<le> length cs \<Longrightarrow> m' (a + of_nat i) = (cs @ [0]) ! i" for m' a
    using assms(1) that
  proof (induction cs arbitrary: a)
    case (Cons c cs)
    have "m' a = c" using Cons.prems(2) [of 0] by simp
    moreover have "cstr m' (a + 1) cs"
    proof (rule Cons.IH)
      fix i assume "i \<le> length cs"
      then show "m' (a + 1 + of_nat i) = (cs @ [0]) ! i" using Cons.prems(2) [of "Suc i"] by (simp add: add.assoc)
    qed (use Cons.prems in simp)
    ultimately show ?case using Cons.prems(1) by auto
  qed (use spec in force)
  then show ?thesis using assms(2) by (simp add: write_bytes_at unat_of_nat)
qed

lemma cstr_nz: "cstr m a cs \<Longrightarrow> 0 \<notin> set cs"
  by (induction cs arbitrary: a) auto

lemma cstr_nth: "cstr m a cs \<Longrightarrow> i < length cs \<Longrightarrow> m (a + of_nat i) = cs ! i"
  by (induction cs arbitrary: a i) (auto simp: nth_Cons add.assoc [symmetric] split: nat.splits)

lemma strchr_nul_cstr: "cstr m a cs \<Longrightarrow> strchr m a 0 = Some (a + of_nat (length cs))"
  unfolding strchr_def
  by (induction cs arbitrary: a) (subst strchr_scan.simps, simp add: algebra_simps)+

lemma cstr_append_write:
  assumes "cstr m a cs" and "0 \<notin> set ds" and "length cs + length ds < 2 ^ 32"
  shows "cstr (write_bytes m (a + of_nat (length cs)) (ds @ [0])) a (cs @ ds)"
proof -
  have "write_bytes m a cs = m"
  proof
    fix x
    have "length cs \<le> 2 ^ 32" using assms(3) by simp
    from write_bytes_at [OF this, of m a x] show "write_bytes m a cs x = m x"
      using cstr_nth [OF assms(1), of "unat (x - a)"] by auto
  qed
  then have "write_bytes m (a + of_nat (length cs)) (ds @ [0]) = write_bytes m a ((cs @ ds) @ [0])"
    by (simp add: write_bytes_append)
  moreover have "cstr (write_bytes m a ((cs @ ds) @ [0])) a (cs @ ds)"
    using assms cstr_nz [OF assms(1)] by (intro cstr_write_bytes) auto
  ultimately show ?thesis by simp
qed

text \<open>
  \<^verbatim>\<open>strcat\<close> appends. When the source string and the room it goes to have no byte in common, \<^verbatim>\<open>strcat\<close>
  returns, the destination holds the two strings one after the other, and the source is intact.
\<close>

theorem strcat_appends:
  assumes dst: "cstr m dst cs" and src: "cstr m src ds" and len: "length cs + length ds < 2 ^ 32"
    and apart: "\<forall>i \<le> length ds. \<forall>j \<le> length ds. dst + of_nat (length cs + j) \<noteq> src + of_nat i"
  shows "\<exists>m'. strcat m dst src = Some m' \<and> cstr m' dst (cs @ ds) \<and> cstr m' src ds"
proof -
  let ?q = "dst + of_nat (length cs)" and ?m = "write_bytes m (dst + of_nat (length cs)) (ds @ [0])"
  have ne: "?q + of_nat j \<noteq> src + of_nat i" if "i \<le> length ds" "j \<le> length ds" for i j
    using apart that by (simp add: add.assoc)
  have "strcat m dst src = Some ?m"
    unfolding strcat_def strcpy_def strchr_nul_cstr [OF dst]
    by simp (intro strcpy_loop_cstr [OF src] ne; simp)
  moreover have "cstr ?m dst (cs @ ds)"
    using cstr_append_write [OF dst cstr_nz [OF src] len] .
  moreover have "cstr ?m src ds"
  proof (rule cstr_frame [OF src])
    fix i assume i: "i \<le> length ds"
    have "\<not> unat (src + of_nat i - ?q) \<le> length ds"
      using ne [OF i, of "unat (src + of_nat i - ?q)"] by auto
    then show "?m (src + of_nat i) = m (src + of_nat i)"
      using len by (simp add: write_bytes_at)
  qed
  ultimately show ?thesis by blast
qed

lemma strcat_appends_witness:
  "\<exists>m'. strcat ((\<lambda>_. 0)(1 := 65, 9 := 66)) 1 9 = Some m' \<and> cstr m' 1 [65, 66] \<and> cstr m' 9 [66]"
proof -
  have a: "\<forall>i \<le> length [66 :: u8]. \<forall>j \<le> length [66 :: u8]. (1 :: addr) + of_nat (length [65 :: u8] + j) \<noteq> 9 + of_nat i"
    by (auto simp: le_Suc_eq)
  show ?thesis
    using strcat_appends [of "(\<lambda>_. 0)(1 := 65, 9 := 66)" 1 "[65]" 9 "[66]", OF _ _ _ a] by simp
qed

subsection \<open>Tokens\<close>

lemma fill_matchmap_cstr: "cstr m a cs \<Longrightarrow> fill_matchmap m a mm = Some (\<lambda>b. mm b \<or> b \<in> set cs)"
  by (induction cs arbitrary: a mm) (subst fill_matchmap.simps, auto simp: fun_eq_iff)+

lemma span_scan_cstr:
  assumes "cstr m a cs" and "mm 0 = parity"
  shows "span_scan m a mm parity n = Some (n + of_nat (length (takeWhile (\<lambda>b. mm b \<noteq> parity) cs)))"
  using assms(1)
proof (induction cs arbitrary: a n)
  case Nil
  then show ?case by (subst span_scan.simps) (simp add: assms(2))
next
  case (Cons c cs)
  then show ?case by (subst span_scan.simps) (simp add: algebra_simps)
qed

lemma strpbrk_cstr:
  assumes s: "cstr m s cs" and d: "cstr m delim ds"
  shows "strpbrk m s delim = Some (let n = length (takeWhile (\<lambda>b. b \<notin> set ds) cs) in
           if n < length cs then s + of_nat n else 0)"
proof -
  have "takeWhile (\<lambda>b. ((\<lambda>b. b \<in> set ds)(0 := True)) b \<noteq> True) cs = takeWhile (\<lambda>b. b \<notin> set ds) cs"
    using cstr_nz [OF s] by (intro takeWhile_cong) auto
  moreover have "m (s + of_nat (length cs)) = 0" using s by (induction cs arbitrary: s) (auto simp: add.assoc [symmetric])
  moreover have "m (s + of_nat n) \<noteq> 0" if "n < length cs" for n
    using cstr_nth [OF s that] cstr_nz [OF s] that by (metis nth_mem)
  moreover have "length (takeWhile (\<lambda>b. b \<notin> set ds) cs) \<le> length cs" by (rule length_takeWhile_le)
  ultimately show ?thesis
    by (auto simp: strpbrk_def strxspn_def fill_matchmap_cstr [OF d] span_scan_cstr [OF s] Let_def le_less
        fun_upd_def)
qed

lemma cstr_append: "cstr m a (cs @ ds) \<longleftrightarrow> 0 \<notin> set cs \<and> (\<forall>i < length cs. m (a + of_nat i) = cs ! i)
    \<and> cstr m (a + of_nat (length cs)) ds"
  by (induction cs arbitrary: a) (auto simp: All_less_Suc2 add.assoc)

text \<open>
  \<^verbatim>\<open>strsep\<close> cuts a string at its first delimiter. On a string that does not reach the end of the
  address space, it returns the string cut before the first byte of \<^verbatim>\<open>delim\<close>, in place, and a pointer to
  what follows that byte, still a string; without a delimiter it returns the whole string and a null
  pointer, and the memory is unchanged.
\<close>

theorem strsep_cuts:
  assumes s: "cstr m s cs" and d: "cstr m delim ds" and room: "s \<noteq> 0" "unat s + length cs < 2 ^ 32"
    and tok: "tok = takeWhile (\<lambda>b. b \<notin> set ds) cs" and rest: "rest = dropWhile (\<lambda>b. b \<notin> set ds) cs"
  shows "if rest = [] then strsep m s delim = Some (s, 0, m)
    else \<exists>m'. strsep m s delim = Some (s, s + of_nat (length tok) + 1, m')
      \<and> cstr m' s tok \<and> cstr m' (s + of_nat (length tok) + 1) (tl rest)"
proof (cases rest)
  case Nil
  then have "tok = cs" unfolding tok rest by (metis append.right_neutral takeWhile_dropWhile_id)
  then show ?thesis using room Nil by (simp add: strsep_def strpbrk_cstr [OF s d] tok [symmetric])
next
  case (Cons c rs)
  have cs: "cs = tok @ c # rs" using Cons tok rest by (metis takeWhile_dropWhile_id)
  define e where "e = s + of_nat (length tok)"
  have un: "unat (s + of_nat i) = unat s + i" if "i \<le> length cs" for i
    using room(2) that by (simp add: unat_word_ariths unat_of_nat)
  have "unat e \<noteq> 0" using un [of "length tok"] room(1) cs by (simp add: e_def unat_eq_zero)
  then have "e \<noteq> 0" by (simp add: unat_eq_zero)
  have "length tok < length cs" using cs by simp
  then have "strpbrk m s delim = Some e"
    unfolding strpbrk_cstr [OF s d] tok [symmetric] e_def by simp
  with \<open>e \<noteq> 0\<close> have r: "strsep m s delim = Some (s, e + 1, m(e := 0))"
    using room by (simp add: strsep_def)
  have parts: "0 \<notin> set tok" "\<forall>i < length tok. m (s + of_nat i) = tok ! i" "cstr m (e + 1) rs"
    using s unfolding cs cstr_append by (simp_all add: e_def)
  have "s + of_nat i \<noteq> e" if "i \<le> length cs" "i \<noteq> length tok" for i
  proof
    assume "s + of_nat i = e"
    then have "unat (s + of_nat i) = unat e" by simp
    then show False using un [OF that(1)] un [of "length tok"] that(2) cs by (simp add: e_def)
  qed
  note ne = this
  have "cstr (m(e := 0)) s (tok @ [])"
    unfolding cstr_append using parts ne cs by (auto simp: e_def)
  moreover have "cstr (m(e := 0)) (e + 1) rs"
  proof (rule cstr_frame [OF parts(3)])
    fix i assume "i \<le> length rs"
    then have "s + of_nat (length tok + 1 + i) \<noteq> e" by (intro ne) (auto simp: cs)
    then have "e + 1 + of_nat i \<noteq> e" by (simp add: e_def algebra_simps)
    then show "(m(e := 0)) (e + 1 + of_nat i) = m (e + 1 + of_nat i)" by simp
  qed
  ultimately show ?thesis using r Cons by (simp add: e_def)
qed

lemma strsep_cuts_witness:
  "\<exists>m'. strsep ((\<lambda>_. 0)(4 := 97, 5 := 32, 6 := 98, 20 := 32)) 4 20 = Some (4, 6, m') \<and> cstr m' 4 [97] \<and> cstr m' 6 [98]"
  using strsep_cuts [of "(\<lambda>_. 0)(4 := 97, 5 := 32, 6 := 98, 20 := 32)" 4 "[97, 32, 98]" 20 "[32]" "[97]" "[32, 98]"]
  by simp

end
