(* ===== verification/Doprnt.thy ===== *)
theory Doprnt
  imports Kernel_Prelude
begin

text \<open>
  \<^verbatim>\<open>shared/doprnt.c\<close>, the formatter behind \<^verbatim>\<open>printf\<close>, and its two drivers \<^verbatim>\<open>shared/printf.c\<close>
  (buffered output to the console) and \<^verbatim>\<open>shared/sprintf.c\<close> (output to memory). \<open>doprnt\<close> gives the
  characters passed to \<^verbatim>\<open>putc\<close>, in order. The optional floating point conversions
  (\<^verbatim>\<open>DOPRNT_FLOATS\<close>, never defined) are left out.
\<close>

section \<open>Arguments\<close>

text \<open>
  A variadic argument is a 32-bit word or a pointer to a string, given by the characters before
  its terminating NUL (\<open>None\<close> for the null pointer).
\<close>

datatype va = VWord u32 | VStr "char list option"

fun va_word :: "va list \<Rightarrow> (u32 \<times> va list) result" where
  "va_word (VWord w # as) = Inr (w, as)"
| "va_word _ = Inl BadArgument"

fun va_str :: "va list \<Rightarrow> (char list option \<times> va list) result" where
  "va_str (VStr s # as) = Inr (s, as)"
| "va_str _ = Inl BadArgument"

section \<open>Conversion specifications\<close>

record spec =
  length_f :: int
  prec :: int
  ladjust :: bool
  padc :: char
  plus_sign :: "char option"
  altfmt :: bool

definition spec0 :: spec where
  "spec0 = \<lparr>length_f = 0, prec = -1, ladjust = False, padc = CHR '' '', plus_sign = None, altfmt = False\<rparr>"

fun parse_flags :: "spec \<Rightarrow> char list \<Rightarrow> spec \<times> char list" where
  "parse_flags sp [] = (sp, [])"
| "parse_flags sp (c # cs) =
     (if c = CHR ''#'' then parse_flags (sp\<lparr>altfmt := True\<rparr>) cs
      else if c = CHR ''-'' then parse_flags (sp\<lparr>ladjust := True\<rparr>) cs
      else if c = CHR ''+'' then parse_flags (sp\<lparr>plus_sign := Some (CHR ''+'')\<rparr>) cs
      else if c = CHR '' '' then
        parse_flags (if plus_sign sp = None then sp\<lparr>plus_sign := Some (CHR '' '')\<rparr> else sp) cs
      else (sp, c # cs))"

definition is_digit :: "char \<Rightarrow> bool" where
  "is_digit d \<longleftrightarrow> 48 \<le> (of_char d :: nat) \<and> (of_char d :: nat) \<le> 57"

definition Ctod :: "char \<Rightarrow> int" where
  "Ctod c = of_char c - 48"

text \<open>Field widths and precisions are \<^verbatim>\<open>int\<close>s: the accumulation wraps at 32 bits.\<close>

lemmas to_int_of_int32_literal = to_int_def of_int32_def

fun parse_digits :: "int \<Rightarrow> char list \<Rightarrow> int \<times> char list" where
  "parse_digits n [] = (n, [])"
| "parse_digits n (c # cs) =
     (if is_digit c then parse_digits (to_int (of_int32 (10 * n + Ctod c))) cs else (n, c # cs))"

definition parse_zero :: "spec \<Rightarrow> char list \<Rightarrow> spec \<times> char list" where
  "parse_zero sp cs = (case cs of c # ds \<Rightarrow> if c = CHR ''0'' then (sp\<lparr>padc := CHR ''0''\<rparr>, ds) else (sp, cs)
     | [] \<Rightarrow> (sp, cs))"

definition parse_length :: "spec \<Rightarrow> char list \<Rightarrow> va list \<Rightarrow> (spec \<times> char list \<times> va list) result" where
  "parse_length sp cs as =
     (case cs of
        [] \<Rightarrow> Inr (sp, cs, as)
      | c # ds \<Rightarrow>
         if is_digit c then (let (n, r) = parse_digits 0 cs in Inr (sp\<lparr>length_f := n\<rparr>, r, as))
         else if c = CHR ''*'' then
           bnd (va_word as) (\<lambda>(w, as').
             let n = to_int w in
             Inr (if n < 0 then sp\<lparr>length_f := to_int (- w), ladjust := \<not> ladjust sp\<rparr> else sp\<lparr>length_f := n\<rparr>, ds, as'))
         else Inr (sp, cs, as))"

definition parse_prec :: "spec \<Rightarrow> char list \<Rightarrow> va list \<Rightarrow> (spec \<times> char list \<times> va list) result" where
  "parse_prec sp cs as =
     (case cs of
        [] \<Rightarrow> Inr (sp, cs, as)
      | c # ds \<Rightarrow>
         if c = CHR ''.'' then
           (case ds of
              [] \<Rightarrow> Inr (sp, ds, as)
            | d # es \<Rightarrow>
               if is_digit d then (let (n, r) = parse_digits 0 ds in Inr (sp\<lparr>prec := n\<rparr>, r, as))
               else if d = CHR ''*'' then
                 bnd (va_word as) (\<lambda>(w, as'). Inr (sp\<lparr>prec := to_int w\<rparr>, es, as'))
               else Inr (sp, ds, as))
         else Inr (sp, cs, as))"

definition skip_l :: "char list \<Rightarrow> char list" where
  "skip_l cs = (case cs of c # ds \<Rightarrow> if c = CHR ''l'' then ds else cs | [] \<Rightarrow> cs)"

definition parse_spec :: "char list \<Rightarrow> va list \<Rightarrow> (spec \<times> char list \<times> va list) result" where
  "parse_spec cs as =
     (let (sp1, cs1) = parse_flags spec0 cs; (sp2, cs2) = parse_zero sp1 cs1 in
      bnd (parse_length sp2 cs2 as) (\<lambda>(sp3, cs3, as3).
      bnd (parse_prec sp3 cs3 as3) (\<lambda>(sp4, cs4, as4). Inr (sp4, skip_l cs4, as4))))"

section \<open>Numbers\<close>

text \<open>
  The digit loop of \<^verbatim>\<open>printnum\<close> and \<^verbatim>\<open>print_num\<close>: at least one digit, most significant first. A
  base of 0 is a divide error, base 1 never reaches 0; the 17 elements of \<^verbatim>\<open>digits[]\<close> are the sixteen
  digits and the NUL that ends the literal, and a larger index reads past it.
\<close>

definition digit_char :: "nat \<Rightarrow> char" where
  "digit_char d = (if d < 10 then char_of (48 + d) else if d < 16 then char_of (87 + d) else CHR 0x00)"

function digits_loop :: "nat \<Rightarrow> nat \<Rightarrow> char list \<Rightarrow> char list result" where
  "digits_loop base u acc =
     (if base = 0 then Inl DivideError
      else if 16 < u mod base then Inl OutOfBounds
      else if u div base = 0 then Inr (digit_char (u mod base) # acc)
      else if base = 1 then Inl Hang
      else digits_loop base (u div base) (digit_char (u mod base) # acc))"
  by pat_completeness auto
termination
  by (relation "measure (\<lambda>(base, u, acc). u)") (auto simp: div_greater_zero_iff intro!: div_less_dividend)

declare digits_loop.simps [simp del]

definition printnum :: "u32 \<Rightarrow> nat \<Rightarrow> char list result" where
  "printnum u base = digits_loop base (unat u) []"

definition spaces :: "int \<Rightarrow> char list" where
  "spaces n = replicate (nat n) (CHR '' '')"

definition zeros :: "int \<Rightarrow> char list" where
  "zeros n = replicate (nat n) (CHR ''0'')"

text \<open>The label \<^verbatim>\<open>print_num\<close>: padding, sign, prefix, precision zeros and digits.\<close>

definition print_num :: "spec \<Rightarrow> char option \<Rightarrow> u32 \<Rightarrow> nat \<Rightarrow> char list result" where
  "print_num sp sign u base =
     bnd (digits_loop base (unat u) []) (\<lambda>ds.
       let prefix = (if u \<noteq> 0 \<and> altfmt sp then
                       (if base = 8 then ''0'' else if base = 16 then ''0x'' else [])
                     else []);
           sgn = (case sign of None \<Rightarrow> [] | Some c \<Rightarrow> [c]);
           p = prec sp - int (length ds);
           n = length_f sp - int (length ds) - int (length sgn) - int (length prefix);
           n1 = (if 0 < p then n - p else n);
           left = (if padc sp = CHR '' '' \<and> \<not> ladjust sp then spaces n1 else []);
           zs = (if padc sp = CHR ''0'' then zeros n1 else []);
           right = (if ladjust sp \<and> padc sp \<noteq> CHR ''0'' then spaces n1 else [])
       in Inr (left @ sgn @ prefix @ zeros p @ zs @ ds @ right))"

text \<open>The label \<^verbatim>\<open>print_signed\<close>: the magnitude is computed on unsigned words, so \<^verbatim>\<open>LONG_MIN\<close> is right too.\<close>

definition print_signed :: "spec \<Rightarrow> u32 \<Rightarrow> nat \<Rightarrow> char list result" where
  "print_signed sp w base =
     (if 0 \<le> to_int w then print_num sp (plus_sign sp) w base
      else print_num sp (Some (CHR ''-'')) (- w) base)"

section \<open>Strings and bit fields\<close>

text \<open>Case \<^verbatim>\<open>'s'\<close>. The output loop counts one character too many when the precision cuts it short.\<close>

fun str_loop :: "int \<Rightarrow> int \<Rightarrow> char list \<Rightarrow> char list \<times> int" where
  "str_loop p n [] = ([], n)"
| "str_loop p n (c # cs) =
     (if n + 1 > p then ([], n + 1)
      else let (out, n') = str_loop p (n + 1) cs in (c # out, n'))"

definition print_str :: "spec \<Rightarrow> char list option \<Rightarrow> char list" where
  "print_str sp s =
     (let p = (if prec sp = -1 then 2147483647 else prec sp);
          cs = (case s of None \<Rightarrow> [] | Some x \<Rightarrow> x);
          n0 = min (int (length cs)) (max 0 p);
          left = (if 0 < length_f sp \<and> \<not> ladjust sp then spaces (length_f sp - n0) else []);
          (out, n) = str_loop p 0 cs;
          right = (if n < length_f sp \<and> ladjust sp then spaces (length_f sp - n) else [])
      in left @ out @ right)"

text \<open>
  Case \<^verbatim>\<open>'b'\<close>: the value in the base given by the first character, then the named bits
  that are set. A \<^verbatim>\<open>char\<close> is signed, and a 32-bit shift uses the low five bits of its count, as the
  processor does; \<^verbatim>\<open>base\<close> is an \<^verbatim>\<open>int\<close> that the division converts to \<^verbatim>\<open>unsigned long\<close>.
\<close>

definition schar :: "char \<Rightarrow> int" where
  "schar c = (let n = of_char c in if n < 128 then n else n - 256)"

definition shift_count :: "int \<Rightarrow> nat" where
  "shift_count n = nat (n mod 32)"

definition ctl :: "char \<Rightarrow> bool" where
  "ctl c \<longleftrightarrow> schar c \<le> 32"

fun bits_loop :: "nat \<Rightarrow> u32 \<Rightarrow> nat \<Rightarrow> bool \<Rightarrow> char list \<Rightarrow> char list result" where
  "bits_loop 0 u base any s = Inl Hang"
| "bits_loop (Suc k) u base any [] = Inr (if any then ''>'' else [])"
| "bits_loop (Suc k) u base any [i] =
     \<comment> \<open>the next character is the terminating NUL: a bit field whose low bit is 0, then the loop runs past it\<close>
     Inl OutOfBounds"
| "bits_loop (Suc k) u base any (i # j # s) =
     (let sep = (if any then '','' else ''<'');
          nm = takeWhile (\<lambda>c. \<not> ctl c);
          rest = dropWhile (\<lambda>c. \<not> ctl c)
      in if ctl j then
           bnd (printnum (drop_bit (shift_count (schar j - 1)) u
                  AND (push_bit (shift_count (schar i - schar j)) 2 - 1)) base) (\<lambda>v.
           bnd (bits_loop k u base True (rest s)) (\<lambda>o'. Inr (sep @ nm s @ v @ o')))
         else if bit u (shift_count (schar i - 1)) then
           bnd (bits_loop k u base True (rest (j # s))) (\<lambda>o'. Inr (sep @ nm (j # s) @ o'))
         else bits_loop k u base any (rest (j # s)))"

definition print_bits :: "u32 \<Rightarrow> char list option \<Rightarrow> char list result" where
  "print_bits u s =
     (case s of
        None \<Rightarrow> Inl NullDeref
      | Some [] \<Rightarrow> Inl DivideError
      | Some (b # p) \<Rightarrow>
          let base = unat (of_int32 (schar b)) in
          bnd (printnum u base) (\<lambda>v.
            if u = 0 then Inr v
            else bnd (bits_loop (Suc (length p)) u base False p) (\<lambda>o'. Inr (v @ o'))))"

section \<open>The formatter\<close>

text \<open>The \<^verbatim>\<open>switch\<close> on the conversion character: what it prints and the arguments left.\<close>

definition print_unsigned_arg :: "spec \<Rightarrow> nat \<Rightarrow> va list \<Rightarrow> (char list \<times> va list) result" where
  "print_unsigned_arg sp base as =
     bnd (va_word as) (\<lambda>(w, as'). bnd (print_num sp None w base) (\<lambda>o'. Inr (o', as')))"

definition print_signed_arg :: "spec \<Rightarrow> nat \<Rightarrow> va list \<Rightarrow> (char list \<times> va list) result" where
  "print_signed_arg sp base as =
     bnd (va_word as) (\<lambda>(w, as'). bnd (print_signed sp w base) (\<lambda>o'. Inr (o', as')))"

definition convert :: "nat \<Rightarrow> spec \<Rightarrow> char \<Rightarrow> va list \<Rightarrow> (char list \<times> va list) result" where
  "convert radix sp c as =
     (if c = CHR ''b'' \<or> c = CHR ''B'' then
        bnd (va_word as) (\<lambda>(u, as1). bnd (va_str as1) (\<lambda>(s, as2).
          bnd (print_bits u s) (\<lambda>o'. Inr (o', as2))))
      else if c = CHR ''c'' then
        bnd (va_word as) (\<lambda>(w, as'). Inr ([char_of (unat w)], as'))
      else if c = CHR ''s'' then
        bnd (va_str as) (\<lambda>(s, as'). Inr (print_str sp s, as'))
      else if c = CHR ''o'' \<or> c = CHR ''O'' then print_unsigned_arg sp 8 as
      else if c = CHR ''d'' \<or> c = CHR ''i'' \<or> c = CHR ''D'' then print_signed_arg sp 10 as
      else if c = CHR ''u'' \<or> c = CHR ''U'' then print_unsigned_arg sp 10 as
      else if c = CHR ''p'' then
        bnd (print_unsigned_arg (sp\<lparr>padc := CHR ''0'', length_f := 8\<rparr>) 16 as) (\<lambda>(o', as').
          Inr (''0x'' @ o', as'))
      else if c = CHR ''x'' \<or> c = CHR ''X'' then print_unsigned_arg sp 16 as
      else if c = CHR ''z'' \<or> c = CHR ''Z'' then print_signed_arg sp 16 as
      else if c = CHR ''r'' \<or> c = CHR ''R'' then print_signed_arg sp radix as
      else if c = CHR ''n'' \<or> c = CHR ''N'' then print_unsigned_arg sp radix as
      else Inr ([c], as))"

lemma parse_flags_length: "length (snd (parse_flags sp cs)) \<le> length cs"
  by (induction sp cs rule: parse_flags.induct) (auto intro: le_SucI)

lemma parse_digits_length: "length (snd (parse_digits n cs)) \<le> length cs"
  by (induction n cs rule: parse_digits.induct) (auto intro: le_SucI)

lemma parse_zero_length: "length (snd (parse_zero sp cs)) \<le> length cs"
  by (auto simp: parse_zero_def split: list.splits)

lemma parse_length_length: "parse_length sp cs as = Inr (sp', cs', as') \<Longrightarrow> length cs' \<le> length cs"
  using parse_digits_length [of 0 cs]
  by (auto simp: parse_length_def bnd_eq_Inr Let_def split: list.splits if_splits prod.splits)

lemma parse_prec_length: "parse_prec sp cs as = Inr (sp', cs', as') \<Longrightarrow> length cs' \<le> length cs"
  using parse_digits_length [of 0 "tl cs"]
  by (auto simp: parse_prec_def bnd_eq_Inr split: list.splits if_splits prod.splits)

lemma skip_l_length: "length (skip_l cs) \<le> length cs"
  by (auto simp: skip_l_def split: list.splits)

lemma parse_spec_length:
  assumes "parse_spec cs as = Inr (sp', cs', as')"
  shows "length cs' \<le> length cs"
proof -
  obtain sp1 cs1 where f: "parse_flags spec0 cs = (sp1, cs1)" by fastforce
  obtain sp2 cs2 where z: "parse_zero sp1 cs1 = (sp2, cs2)" by fastforce
  from assms f z obtain sp3 cs3 as3 sp4 cs4 as4
    where l: "parse_length sp2 cs2 as = Inr (sp3, cs3, as3)"
      and p: "parse_prec sp3 cs3 as3 = Inr (sp4, cs4, as4)" and c: "cs' = skip_l cs4"
    by (auto simp: parse_spec_def bnd_eq_Inr)
  show ?thesis
    using parse_flags_length [of spec0 cs] parse_zero_length [of sp1 cs1] f z
      parse_length_length [OF l] parse_prec_length [OF p] skip_l_length [of cs4] c
    by simp
qed

function doprnt :: "nat \<Rightarrow> char list \<Rightarrow> va list \<Rightarrow> char list result" where
  "doprnt radix [] as = Inr []"
| "doprnt radix (c # cs) as =
     (if c \<noteq> CHR ''%'' then bnd (doprnt radix cs as) (\<lambda>o'. Inr (c # o'))
      else bnd (parse_spec cs as) (\<lambda>(sp, rest, as1).
        case rest of
          [] \<Rightarrow> Inr []
        | d # ds \<Rightarrow> bnd (convert radix sp d as1) (\<lambda>(out, as2).
                      bnd (doprnt radix ds as2) (\<lambda>o'. Inr (out @ o')))))"
  by pat_completeness auto
termination
  by (relation "measure (\<lambda>(radix, fmt, as). length fmt)")
    (auto dest!: parse_spec_length)

section \<open>printf and sprintf\<close>

text \<open>
  \<^verbatim>\<open>struct printf_state\<close>: the array \<^verbatim>\<open>buf\<close> of 128 characters and the \<^verbatim>\<open>index\<close> of the first free one, with
  the console the characters go to. An access outside the array is a fault. The array is a local
  variable of \<^verbatim>\<open>vprintf\<close>; only elements stored before are read, so what it holds at first is no matter.
\<close>

definition PRINTF_BUFMAX :: nat where
  "PRINTF_BUFMAX = 128"

record 'c printf_state =
  pbuf :: "char list"
  index :: nat
  sink :: 'c

definition printf_store :: "nat \<Rightarrow> char \<Rightarrow> 'c printf_state \<Rightarrow> 'c printf_state result" where
  "printf_store i c st = (if i < length (pbuf st) then Inr (st\<lparr>pbuf := (pbuf st)[i := c]\<rparr>) else Inl OutOfBounds)"

definition flush_bytes :: "(char list \<Rightarrow> 'c \<Rightarrow> 'c) \<Rightarrow> nat \<Rightarrow> 'c printf_state \<Rightarrow> 'c printf_state result" where
  "flush_bytes putbytes n st =
     (if n \<le> length (pbuf st) then Inr (st\<lparr>sink := putbytes (take n (pbuf st)) (sink st)\<rparr>) else Inl OutOfBounds)"

definition flush :: "(char list \<Rightarrow> 'c \<Rightarrow> 'c) \<Rightarrow> 'c printf_state \<Rightarrow> 'c printf_state result" where
  "flush putbytes st = bnd (flush_bytes putbytes (index st) st) (\<lambda>st1. Inr (st1\<lparr>index := 0\<rparr>))"

definition printf_char :: "(char list \<Rightarrow> 'c \<Rightarrow> 'c) \<Rightarrow> char \<Rightarrow> 'c printf_state \<Rightarrow> 'c printf_state result" where
  "printf_char putbytes c st =
     (if c = CHR 0x00 \<or> c = CHR 0x0A \<or> PRINTF_BUFMAX \<le> index st then
        bnd (flush putbytes st) (\<lambda>st1. bnd (printf_store 0 c st1) (flush_bytes putbytes 1))
      else bnd (printf_store (index st) c st) (\<lambda>st1. Inr (st1\<lparr>index := index st1 + 1\<rparr>)))"

definition vprintf :: "(char list \<Rightarrow> 'c \<Rightarrow> 'c) \<Rightarrow> char list \<Rightarrow> va list \<Rightarrow> 'c \<Rightarrow> 'c result" where
  "vprintf putbytes fmt as con =
     bnd (doprnt 0 fmt as) (\<lambda>out.
     bnd (mfold (printf_char putbytes) out
            \<lparr>pbuf = replicate PRINTF_BUFMAX (CHR 0x00), index = 0, sink = con\<rparr>) (\<lambda>st.
     bnd (if index st \<noteq> 0 then flush putbytes st else Inr st) (\<lambda>st1. Inr (sink st1))))"

text \<open>\<^verbatim>\<open>putchar\<close> and \<^verbatim>\<open>puts\<close> write at once.\<close>

definition puts :: "(char list \<Rightarrow> 'c \<Rightarrow> 'c) \<Rightarrow> char list \<Rightarrow> 'c \<Rightarrow> 'c" where
  "puts putbytes s con = putbytes [CHR 0x0A] (fold (\<lambda>c. putbytes [c]) s con)"

text \<open>
  \<^verbatim>\<open>struct sprintf_state\<close> and \<^verbatim>\<open>savechar\<close>; \<^verbatim>\<open>SPRINTF_UNLIMITED\<close> is \<open>-1\<close> as an \<^verbatim>\<open>unsigned int\<close>.
\<close>

record sprintf_state =
  sbuf :: addr
  slen :: u32
  smax :: u32
  smem :: mem

definition savechar :: "char \<Rightarrow> sprintf_state \<Rightarrow> sprintf_state" where
  "savechar c st =
     (if smax st \<noteq> -1 \<and> slen st = smax st then st
      else st\<lparr>slen := slen st + 1, smem := (smem st)(sbuf st := of_char c), sbuf := sbuf st + 1\<rparr>)"

definition vsnprintf :: "mem \<Rightarrow> addr \<Rightarrow> u32 \<Rightarrow> char list \<Rightarrow> va list \<Rightarrow> (u32 \<times> mem) result" where
  "vsnprintf m s sz fmt as =
     bnd (doprnt 0 fmt as) (\<lambda>out.
       let st = fold savechar out \<lparr>sbuf = s, slen = 0, smax = sz, smem = m\<rparr>
       in Inr (slen st, (smem st)(sbuf st := 0)))"

definition vsprintf :: "mem \<Rightarrow> addr \<Rightarrow> char list \<Rightarrow> va list \<Rightarrow> (u32 \<times> mem) result" where
  "vsprintf m s fmt as = vsnprintf m s (-1) fmt as"

section \<open>Numbers print right\<close>

definition digit_val :: "char \<Rightarrow> nat" where
  "digit_val c = (let n = of_char c in if n < 58 then n - 48 else n - 87)"

definition digits_val :: "nat \<Rightarrow> char list \<Rightarrow> nat" where
  "digits_val base ds = foldl (\<lambda>v c. v * base + digit_val c) 0 ds"

lemma digit_val_char: "d < 16 \<Longrightarrow> digit_val (digit_char d) = d"
  by (auto simp: digit_val_def digit_char_def Let_def)

lemma foldl_digits: "foldl (\<lambda>v c. v * base + f c) (a :: nat) ds = a * base ^ length ds + foldl (\<lambda>v c. v * base + f c) 0 ds"
proof (induction ds arbitrary: a)
  case (Cons d ds)
  show ?case
    using Cons [of "a * base + f d"] Cons [of "f d"] by (simp add: algebra_simps)
qed simp

lemma digits_val_Cons: "digits_val base (d # ds) = digit_val d * base ^ length ds + digits_val base ds"
  using foldl_digits [of base digit_val "digit_val d" ds] by (simp add: digits_val_def)

text \<open>With a base from 2 to 16 the loop returns the digits of the number, and no more than needed.\<close>

lemma digits_loop_correct:
  assumes "2 \<le> base" and "base \<le> 16"
  shows "\<exists>ds. digits_loop base u acc = Inr (ds @ acc) \<and> ds \<noteq> []
          \<and> digits_val base ds = u \<and> (\<forall>c \<in> set ds. \<exists>d < base. c = digit_char d)
          \<and> (length ds = 1 \<or> base ^ (length ds - 1) \<le> u)"
  using assms
proof (induction base u acc rule: digits_loop.induct)
  case (1 base u acc)
  have m2: "u mod base < base" using "1.prems" by simp
  have m: "u mod base < 16" "u mod base < base" using m2 "1.prems"(2) by linarith+
  then have nm: "\<not> 16 < u mod base" by linarith
  show ?case
  proof (cases "u div base = 0")
    case True
    then have "u mod base = u" using "1.prems" by (simp add: div_eq_0_iff)
    with True m "1.prems" show ?thesis
      by (intro exI [of _ "[digit_char (u mod base)]"])
        (auto simp: digits_loop.simps [of base u] nm digits_val_def digit_val_char)
  next
    case False
    then have step: "digits_loop base u acc = digits_loop base (u div base) (digit_char (u mod base) # acc)"
      using "1.prems" by (simp add: digits_loop.simps [of base u] nm)
    obtain ds where ds: "digits_loop base (u div base) (digit_char (u mod base) # acc)
          = Inr (ds @ digit_char (u mod base) # acc)" "ds \<noteq> []" "digits_val base ds = u div base"
        "\<forall>c \<in> set ds. \<exists>d < base. c = digit_char d"
        "length ds = 1 \<or> base ^ (length ds - 1) \<le> u div base"
      using "1.IH" [OF _ nm False] "1.prems" by fastforce
    let ?ds = "ds @ [digit_char (u mod base)]"
    have v: "digits_val base ?ds = u"
      using ds(3) digit_val_char [OF m(1)] by (simp add: digits_val_def)
    have p: "base ^ (length ?ds - 1) \<le> u"
    proof -
      have "base ^ length ds = base ^ (length ds - 1) * base"
        using ds(2) by (cases ds) auto
      moreover have "base ^ (length ds - 1) \<le> u div base"
        using ds(5)
      proof
        assume "length ds = 1"
        with False show ?thesis by (simp add: Suc_le_eq)
      qed
      ultimately have "base ^ length ds \<le> (u div base) * base" by simp
      also have "\<dots> \<le> u" by (rule div_times_less_eq_dividend)
      finally show ?thesis by simp
    qed
    show ?thesis
      using step ds v p m by (intro exI [of _ ?ds]) auto
  qed
qed

section \<open>The drivers\<close>

text \<open>
  What \<^verbatim>\<open>printf\<close> relies on of \<^verbatim>\<open>console_putbytes\<close> (declared in \<^verbatim>\<open>shared/console.h\<close>, implemented by the
  kernel's console and by the user library): writing two pieces of text one after the other is
  writing their concatenation.
\<close>

locale byte_sink =
  fixes putbytes :: "char list \<Rightarrow> 'c \<Rightarrow> 'c"
  assumes putbytes_Nil: "putbytes [] con = con"
    and putbytes_append: "putbytes (xs @ ys) con = putbytes ys (putbytes xs con)"
begin

definition shown :: "'c printf_state \<Rightarrow> 'c" where
  "shown st = putbytes (take (index st) (pbuf st)) (sink st)"

definition pstate_ok :: "'c printf_state \<Rightarrow> bool" where
  "pstate_ok st \<longleftrightarrow> length (pbuf st) = PRINTF_BUFMAX \<and> index st \<le> PRINTF_BUFMAX"

text \<open>The array is never overrun, and the characters come out in order.\<close>

lemma printf_char_shown:
  assumes "pstate_ok st"
  shows "\<exists>st'. printf_char putbytes c st = Inr st' \<and> pstate_ok st' \<and> shown st' = putbytes [c] (shown st)"
proof (cases "c = CHR 0x00 \<or> c = CHR 0x0A \<or> PRINTF_BUFMAX \<le> index st")
  case True
  have "take 1 ((pbuf st)[0 := c]) = [c]"
    using assms by (cases "pbuf st") (auto simp: pstate_ok_def PRINTF_BUFMAX_def)
  with True assms show ?thesis
    by (auto simp: printf_char_def flush_def flush_bytes_def printf_store_def pstate_ok_def shown_def
        putbytes_Nil PRINTF_BUFMAX_def)
next
  case False
  with assms show ?thesis
    by (auto simp: printf_char_def printf_store_def pstate_ok_def shown_def take_Suc_conv_app_nth
        putbytes_append)
qed

lemma printf_fold_shown:
  assumes "pstate_ok st"
  shows "\<exists>st'. mfold (printf_char putbytes) out st = Inr st' \<and> pstate_ok st' \<and> shown st' = putbytes out (shown st)"
  using assms
proof (induction out arbitrary: st)
  case Nil
  then show ?case by (simp add: putbytes_Nil)
next
  case (Cons c out)
  obtain st1 where st1: "printf_char putbytes c st = Inr st1" "pstate_ok st1" "shown st1 = putbytes [c] (shown st)"
    using printf_char_shown [OF Cons.prems] by blast
  from Cons.IH [OF st1(2)] st1 putbytes_append [of "[c]" out] show ?case by auto
qed

text \<open>Buffering is invisible: the console gets exactly the formatted characters, in order.\<close>

lemma vprintf_unbuffered:
  "vprintf putbytes fmt as con = bnd (doprnt 0 fmt as) (\<lambda>out. Inr (putbytes out con))"
proof (cases "doprnt 0 fmt as")
  case (Inr out)
  define st where "st = \<lparr>pbuf = replicate PRINTF_BUFMAX (CHR 0x00), index = 0, sink = con\<rparr>"
  have "pstate_ok st" "shown st = con" by (simp_all add: st_def pstate_ok_def shown_def putbytes_Nil)
  then obtain st' where st': "mfold (printf_char putbytes) out st = Inr st'" "pstate_ok st'" "shown st' = putbytes out con"
    using printf_fold_shown by metis
  then have "bnd (if index st' \<noteq> 0 then flush putbytes st' else Inr st') (\<lambda>st1. Inr (sink st1)) = Inr (putbytes out con)"
    by (auto simp: flush_def flush_bytes_def pstate_ok_def shown_def putbytes_Nil)
  with Inr st'(1) show ?thesis by (simp add: vprintf_def st_def)
qed (simp add: vprintf_def)

lemma puts_sink: "puts putbytes s con = putbytes (s @ [CHR 0x0A]) con"
proof -
  have "fold (\<lambda>c. putbytes [c]) s con = putbytes s con"
  proof (induction s arbitrary: con)
    case (Cons c s)
    then show ?case using putbytes_append [of "[c]" s] by simp
  qed (simp add: putbytes_Nil)
  then show ?thesis by (simp add: puts_def putbytes_append)
qed

end

lemma unat_eq_diff: "a \<le> b \<Longrightarrow> a \<noteq> b \<Longrightarrow> unat b - unat a = Suc (unat b - unat (a + 1))" for a b :: u32
proof -
  assume "a \<le> b" "a \<noteq> b"
  then have "a < b" by simp
  then have lt: "unat a < unat b" by (simp add: word_less_nat_alt)
  have "unat (a + 1) = unat a + 1"
    using lt unsigned_less [of b, where 'a = nat] by (subst unat_word_ariths) simp
  with lt show ?thesis by simp
qed

lemma fold_savechar:
  assumes "slen st \<le> smax st" and "smax st \<noteq> -1"
  shows "fold savechar out st = (let k = min (length out) (unat (smax st) - unat (slen st)) in
     st\<lparr>slen := slen st + of_nat k, sbuf := sbuf st + of_nat k,
        smem := write_bytes (smem st) (sbuf st) (map of_char (take k out))\<rparr>)"
  using assms
proof (induction out arbitrary: st)
  case Nil
  then show ?case by simp
next
  case (Cons c out)
  show ?case
  proof (cases "slen st = smax st")
    case True
    then show ?thesis using Cons.IH [OF Cons.prems] Cons.prems by (simp add: savechar_def Let_def)
  next
    case False
    let ?st = "savechar c st"
    have st: "?st = st\<lparr>slen := slen st + 1, smem := (smem st)(sbuf st := of_char c), sbuf := sbuf st + 1\<rparr>"
      using False Cons.prems by (simp add: savechar_def)
    have d: "unat (smax st) - unat (slen st) = Suc (unat (smax st) - unat (slen st + 1))"
      by (rule unat_eq_diff [OF Cons.prems(1) False])
    have "slen st + 1 \<le> smax st"
      using Cons.prems(1) False by (simp add: inc_le order.strict_iff_order)
    then show ?thesis
      using Cons.IH [of ?st] Cons.prems d by (simp add: st Let_def ac_simps fun_upd_def)
  qed
qed

end
