(* ===== verification/Numeric.thy ===== *)
theory Numeric
  imports Doprnt
begin

text \<open>
  The number routines of \<^verbatim>\<open>shared/\<close>: \<^verbatim>\<open>strtol\<close> and \<^verbatim>\<open>strtoul\<close> (text to number) and \<^verbatim>\<open>do_div64\<close>
  (64-bit division built from the processor's 64-by-32 division).
\<close>

section \<open>strtol and strtoul\<close>

text \<open>
  The pointer \<^verbatim>\<open>p\<close> is the list of characters from it to the terminating NUL; the result is the
  value and the pointer stored through \<^verbatim>\<open>out_p\<close>. A \<^verbatim>\<open>long\<close> is 32 bits wide.
\<close>

definition isspace :: "char \<Rightarrow> bool" where
  "isspace c \<longleftrightarrow> (of_char c :: nat) \<in> {32, 12, 10, 13, 9, 11}"

definition c_digit :: "char \<Rightarrow> int \<Rightarrow> nat option" where
  "c_digit c base =
     (let n = of_char c :: nat in
      if 48 \<le> n \<and> n \<le> 57 \<and> int (n - 48) < base then Some (n - 48)
      else if 97 \<le> n \<and> n \<le> 122 \<and> int (n - 97 + 10) < base then Some (n - 97 + 10)
      else if 65 \<le> n \<and> n \<le> 90 \<and> int (n - 65 + 10) < base then Some (n - 65 + 10)
      else None)"

fun strtol_loop :: "int \<Rightarrow> u32 \<Rightarrow> char list \<Rightarrow> u32 \<times> char list" where
  "strtol_loop base v [] = (v, [])"
| "strtol_loop base v (c # p) =
     (case c_digit c base of
        Some d \<Rightarrow> strtol_loop base (v * of_int32 base + of_nat d) p
      | None \<Rightarrow> (v, c # p))"

text \<open>The prefix \<^verbatim>\<open>0x\<close> and the default base.\<close>

definition strtol_base :: "char list \<Rightarrow> int \<Rightarrow> char list \<times> int" where
  "strtol_base p base =
     (let hex = (base = 16 \<or> base = 0) \<and>
                (case p of a # b # _ \<Rightarrow> a = CHR ''0'' \<and> (b = CHR ''x'' \<or> b = CHR ''X'') | _ \<Rightarrow> False);
          p' = (if hex then drop 2 p else p);
          base' = (if hex then 16 else base)
      in (p', if base' = 0 then (case p' of c # _ \<Rightarrow> if c = CHR ''0'' then 8 else 10 | [] \<Rightarrow> 10) else base'))"

definition strtol :: "char list \<Rightarrow> int \<Rightarrow> int \<times> char list" where
  "strtol p base =
     (let p1 = dropWhile isspace p;
          is_neg = (case p1 of c # _ \<Rightarrow> c = CHR ''-'' | [] \<Rightarrow> False);
          p2 = (if is_neg then tl p1 else p1);
          (p3, b) = strtol_base p2 base;
          (v, p4) = strtol_loop b 0 p3
      in (to_int (if is_neg then - v else v), p4))"

definition strtoul :: "char list \<Rightarrow> int \<Rightarrow> u32 \<times> char list" where
  "strtoul p base =
     (let p1 = dropWhile isspace p; (p3, b) = strtol_base p1 base in strtol_loop b 0 p3)"

section \<open>64-bit division\<close>

text \<open>\<^verbatim>\<open>bsr\<close>: the position of the highest bit set.\<close>

fun hard_bsr :: "nat \<Rightarrow> nat" where
  "hard_bsr n = (if n < 2 then 0 else Suc (hard_bsr (n div 2)))"

declare hard_bsr.simps [simp del]

text \<open>
  \<^verbatim>\<open>shrdl\<close> shifts by the count modulo 32; the macros test bit 5 of the count for a shift by 32.
\<close>

definition shrd :: "u32 \<Rightarrow> u32 \<Rightarrow> nat \<Rightarrow> u32" where
  "shrd hi lo n = (let k = n mod 32 in if k = 0 then lo else drop_bit k lo OR push_bit (32 - k) hi)"

definition rshift64 :: "u32 \<Rightarrow> u32 \<Rightarrow> nat \<Rightarrow> u32 \<times> u32" where
  "rshift64 x1 x0 n =
     (let x0' = shrd x1 x0 n; x1' = drop_bit (n mod 32) x1
      in if bit n 5 then (0, x1') else (x1', x0'))"

definition rshift64_32 :: "u32 \<Rightarrow> u32 \<Rightarrow> nat \<Rightarrow> u32" where
  "rshift64_32 x1 x0 n = (let x0' = shrd x1 x0 n in if bit n 5 then x1 else x0')"

text \<open>\<^verbatim>\<open>divl\<close>: (remainder, quotient), or exception 0 if the quotient does not fit.\<close>

definition div64_32 :: "u32 \<Rightarrow> u32 \<Rightarrow> u32 \<Rightarrow> (u32 \<times> u32) result" where
  "div64_32 x1 x0 y =
     (if y = 0 \<or> y \<le> x1 then Inl DivideError
      else let n = unat x1 * 2 ^ 32 + unat x0 in Inr (of_nat (n mod unat y), of_nat (n div unat y)))"

text \<open>The correction loop: \<^verbatim>\<open>while (r >= y) \{ x0++; r -= y; \}\<close>.\<close>

function div64_fix :: "64 word \<Rightarrow> u32 \<Rightarrow> 64 word \<Rightarrow> u32 \<times> 64 word" where
  "div64_fix y x0 r = (if y \<noteq> 0 \<and> y \<le> r then div64_fix y (x0 + 1) (r - y) else (x0, r))"
  by pat_completeness auto
termination
proof (relation "measure (\<lambda>(y, x0, r). unat r)", simp, simp)
  fix y r :: "64 word"
  assume a: "y \<noteq> 0 \<and> y \<le> r"
  then have "0 < unat y" and "unat y \<le> unat r" and "unat (r - y) = unat r - unat y"
    by (simp_all add: unat_gt_0 word_le_nat_alt unat_sub)
  then show "unat (r - y) < unat r" by linarith
qed

declare div64_fix.simps [simp del]

text \<open>The quotient and the value stored through \<^verbatim>\<open>rem\<close>.\<close>

definition do_div64 :: "64 word \<Rightarrow> 64 word \<Rightarrow> (64 word \<times> 64 word) result" where
  "do_div64 x y =
     (let y1 = ucast (drop_bit 32 y) :: u32; y0 = ucast y :: u32;
          x1 = ucast (drop_bit 32 x) :: u32; x0 = ucast x :: u32
      in if y1 \<noteq> 0 then
           (let l = hard_bsr (unat y1) + 1;
                y0' = rshift64_32 y1 y0 l;
                (x1', x0') = rshift64 x1 x0 l
            in bnd (div64_32 x1' x0' (y0' + 1)) (\<lambda>(_, q).
                 let (q', r) = div64_fix y q (x - y * ucast q) in Inr (ucast q', r)))
         else if x1 < y0 then
           bnd (div64_32 x1 x0 y0) (\<lambda>(r, q). Inr (ucast q, ucast r))
         else if y0 \<noteq> 0 then
           bnd (div64_32 0 x1 y0) (\<lambda>(r2, q1).
           bnd (div64_32 r2 x0 y0) (\<lambda>(r, q0). Inr (push_bit 32 (ucast q1) + ucast q0, ucast r)))
         else Inr (0, x))"

section \<open>Division is right\<close>

lemma hard_bsr_bounds: "0 < n \<Longrightarrow> 2 ^ hard_bsr n \<le> n \<and> n < 2 ^ (hard_bsr n + 1)"
proof (induction n rule: hard_bsr.induct)
  case (1 n)
  show ?case
  proof (cases "n < 2")
    case True
    with 1 show ?thesis by (simp add: hard_bsr.simps)
  next
    case False
    then have "2 ^ hard_bsr (n div 2) \<le> n div 2 \<and> n div 2 < 2 ^ (hard_bsr (n div 2) + 1)"
      using 1 by simp
    with False show ?thesis by (simp add: hard_bsr.simps [of n]) linarith
  qed
qed

lemma hard_bsr_u32: "y1 \<noteq> 0 \<Longrightarrow> hard_bsr (unat (y1 :: u32)) < 32"
proof -
  assume "y1 \<noteq> 0"
  then have "2 ^ hard_bsr (unat y1) \<le> unat y1" using hard_bsr_bounds by (simp add: unat_gt_0)
  also have "\<dots> < 2 ^ 32" using unsigned_less [of y1, where 'a = nat] by simp
  finally show ?thesis by (rule power_less_imp_less_exp [rotated]) simp
qed

lemma bit_5_small: "0 < n \<Longrightarrow> n \<le> 32 \<Longrightarrow> bit (n :: nat) 5 \<longleftrightarrow> n = 32"
proof -
  assume "0 < n" "n \<le> 32"
  then have "n div 32 = (if n = 32 then 1 else 0)" by auto
  then show ?thesis by (simp add: bit_iff_odd)
qed

lemma rshift64_32_drop:
  assumes n: "0 < n" "n \<le> 32"
  shows "rshift64_32 (ucast (drop_bit 32 y)) (ucast y) n = ucast (drop_bit n (y :: 64 word))"
proof (rule bit_word_eqI)
  fix i assume i: "i < LENGTH(32)"
  show "bit (rshift64_32 (ucast (drop_bit 32 y)) (ucast y) n) i = bit (ucast (drop_bit n y) :: u32) i"
  proof (cases "n = 32")
    case True
    with i n show ?thesis by (simp add: rshift64_32_def bit_5_small bit_simps ac_simps)
  next
    case False
    with n have k: "n mod 32 = n" "n mod 32 \<noteq> 0" "\<not> bit n 5" by (simp_all add: bit_5_small)
    show ?thesis
    proof (cases "n + i < 32")
      case True
      with i k False n show ?thesis
        by (auto simp: rshift64_32_def shrd_def bit_simps Let_def)
    next
      case ge: False
      then have "i - (32 - n) + 32 = n + i" using n by linarith
      with ge i k False n show ?thesis
        by (auto simp: rshift64_32_def shrd_def bit_simps Let_def ac_simps)
    qed
  qed
qed

lemma rshift64_drop:
  assumes n: "0 < n" "n \<le> 32"
  shows "rshift64 (ucast (drop_bit 32 x)) (ucast x) n
    = (ucast (drop_bit (32 + n) x), ucast (drop_bit n (x :: 64 word)))"
proof -
  have lo: "snd (rshift64 (ucast (drop_bit 32 x)) (ucast x) n) = ucast (drop_bit n x)"
    using rshift64_32_drop [OF n, of x] n
    by (cases "n = 32") (auto simp: rshift64_def rshift64_32_def Let_def bit_5_small)
  have hi: "fst (rshift64 (ucast (drop_bit 32 x)) (ucast x) n) = ucast (drop_bit (32 + n) x)"
  proof (rule bit_word_eqI)
    fix i assume i: "i < LENGTH(32)"
    show "bit (fst (rshift64 (ucast (drop_bit 32 x)) (ucast x) n)) i
        = bit (ucast (drop_bit (32 + n) x) :: u32) i"
    proof (cases "n = 32")
      case True
      then show ?thesis
        using bit_imp_le_length [of x "64 + i"]
        by (auto simp: rshift64_def Let_def bit_5_small bit_simps)
    next
      case False
      with n have k: "n mod 32 = n" "\<not> bit n 5" by (simp_all add: bit_5_small)
      then show ?thesis
        using bit_imp_le_length [of x "32 + (n + i)"] i
        by (auto simp: rshift64_def Let_def bit_simps ac_simps)
    qed
  qed
  show ?thesis using lo hi by (cases "rshift64 (ucast (drop_bit 32 x)) (ucast x) n") simp
qed

lemma div64_fix_eq:
  "y \<noteq> 0 \<Longrightarrow> div64_fix y q r = (q + of_nat (unat r div unat y), of_nat (unat r mod unat y))"
proof (induction y q r rule: div64_fix.induct)
  case (1 y q r)
  show ?case
  proof (cases "y \<le> r")
    case True
    then have u: "unat (r - y) = unat r - unat y" "unat y \<le> unat r"
      by (simp_all add: unat_sub word_le_nat_alt)
    have y: "0 < unat y" using "1.prems" by (simp add: unat_gt_0)
    have "unat r div unat y = Suc ((unat r - unat y) div unat y)"
      "unat r mod unat y = (unat r - unat y) mod unat y"
      using u(2) y by (simp_all add: le_div_geq le_mod_geq)
    then show ?thesis
      using "1.IH" "1.prems" True u by (simp add: div64_fix.simps [of y q r])
  next
    case False
    then have "unat r < unat y" by (simp add: word_le_nat_alt)
    then show ?thesis using False by (simp add: div64_fix.simps [of y q r])
  qed
qed

text \<open>
  The divisors on which the normalised estimate \<^verbatim>\<open>y0 + 1\<close> wraps around to 0: the 32 leading bits
  of a divisor of more than 32 bits are all set.
\<close>

definition div64_trap :: "64 word \<Rightarrow> bool" where
  "div64_trap y \<longleftrightarrow> 2 ^ 32 \<le> unat y \<and>
     unat y div 2 ^ (hard_bsr (unat y div 2 ^ 32) + 1) = 2 ^ 32 - 1"

lemma unat_ucast_u32: "unat (ucast (w :: 64 word) :: u32) = unat w mod 2 ^ 32"
  by (simp add: unsigned_ucast_eq take_bit_eq_mod)

lemma unat_drop_bit64: "unat (drop_bit n (w :: 64 word)) = unat w div 2 ^ n"
  unfolding unat_drop_bit_eq by (rule drop_bit_eq_div)

lemma unat_high32: "unat (ucast (drop_bit 32 w) :: u32) = unat (w :: 64 word) div 2 ^ 32"
proof -
  have "unat w div 2 ^ 32 < 2 ^ 32"
    using unsigned_less [of w, where 'a = nat] by (simp add: less_mult_imp_div_less)
  then show ?thesis by (simp add: unat_ucast_u32 unat_drop_bit64)
qed

lemma ucast_of_nat_u64: "n < 2 ^ 32 \<Longrightarrow> ucast (of_nat n :: u32) = (of_nat n :: 64 word)"
  by (rule word_unat_eq_iff [THEN iffD2]) (simp add: unsigned_ucast_eq take_bit_eq_mod unat_of_nat)

lemma div_word_eq: "(of_nat (unat x div unat y) :: 64 word) = x div y"
  "(of_nat (unat x mod unat y) :: 64 word) = x mod y"
  by (simp_all add: word_arith_nat_div word_arith_nat_mod)

lemma quotient_estimate:
  fixes X Y D :: nat
  assumes "Y < (D + 1) * p" and "q = (X div p) div (D + 1)" and "0 < p"
  shows "Y * q \<le> X"
proof -
  have "q * (D + 1) \<le> X div p" unfolding assms(2) by (rule div_times_less_eq_dividend)
  then have "q * (D + 1) * p \<le> X"
    by (meson div_times_less_eq_dividend mult_le_mono1 order_trans)
  moreover have "Y * q \<le> (D + 1) * p * q" using assms(1) by (intro mult_le_mono1) simp
  moreover have "q * (D + 1) * p = (D + 1) * p * q" by (simp only: ac_simps)
  ultimately show ?thesis by linarith
qed

lemma do_div64_high:
  assumes y: "2 ^ 32 \<le> unat y" and nt: "\<not> div64_trap y"
  shows "do_div64 x y = Inr (x div y, x mod y)"
proof -
  define X Y l where "X = unat x" and "Y = unat y" and "l = hard_bsr (unat y div 2 ^ 32) + 1"
  define D q where "D = Y div 2 ^ l" and "q = (X div 2 ^ l) div (D + 1)"
  let ?y1 = "ucast (drop_bit 32 y) :: u32"
  have y1: "unat ?y1 = Y div 2 ^ 32" by (simp add: unat_high32 Y_def)
  have pos: "0 < Y div 2 ^ 32" using y by (simp add: Y_def div_greater_zero_iff)
  then have y1_nz: "?y1 \<noteq> 0" using y1 by (metis unat_0 less_irrefl)
  have l: "0 < l" "l \<le> 32" "l = hard_bsr (unat ?y1) + 1"
    using hard_bsr_u32 [OF y1_nz] y1 by (simp_all add: l_def Y_def)
  have bounds: "2 ^ (l - 1) \<le> Y div 2 ^ 32" "Y div 2 ^ 32 < 2 ^ l"
    using hard_bsr_bounds [OF pos] by (simp_all add: l_def Y_def)
  have X64: "X < 2 ^ 64" using unsigned_less [of x, where 'a = nat] by (simp add: X_def)
  have "2 ^ (31 + l) = 2 ^ (l - 1) * (2 ^ 32 :: nat)" using l(1) by (cases l) (simp_all add: power_add)
  also have "\<dots> \<le> (Y div 2 ^ 32) * 2 ^ 32" using bounds(1) by simp
  also have "\<dots> \<le> Y" by (rule div_times_less_eq_dividend)
  finally have Ylow: "2 ^ 31 * 2 ^ l \<le> Y" by (simp add: power_add)
  have "Y < (2 ^ l) * 2 ^ 32" using bounds(2) by (simp add: less_mult_imp_div_less div_less_iff_less_mult)
  then have D32: "D < 2 ^ 32" by (simp add: D_def div_less_iff_less_mult ac_simps)
  have D31: "2 ^ 31 \<le> D" using Ylow by (simp add: D_def less_eq_div_iff_mult_less_eq)
  have Dnt: "D + 1 < 2 ^ 32" using nt y D32 by (auto simp: div64_trap_def D_def Y_def l_def)
  define y0' where "y0' = rshift64_32 ?y1 (ucast y) l"
  have "unat y0' = D"
    using D32 by (simp add: y0'_def rshift64_32_drop l(1,2) unat_ucast_u32 unat_drop_bit64 D_def Y_def)
  then have y0'1: "unat (y0' + 1) = D + 1" using Dnt by (simp add: unat_word_ariths)
  let ?x1' = "ucast (drop_bit (32 + l) x) :: u32" and ?x0' = "ucast (drop_bit l x) :: u32"
  have sh: "rshift64 (ucast (drop_bit 32 x)) (ucast x) l = (?x1', ?x0')" by (rule rshift64_drop [OF l(1,2)])
  have x0': "unat ?x0' = (X div 2 ^ l) mod 2 ^ 32" by (simp add: unat_ucast_u32 unat_drop_bit64 X_def)
  have "X div 2 ^ (32 + l) < 2 ^ 31"
  proof -
    have "(2 :: nat) ^ 64 \<le> 2 ^ 31 * 2 ^ (32 + l)" using l(1) by (cases l) (simp_all add: power_add)
    with X64 show ?thesis by (simp add: div_less_iff_less_mult)
  qed
  then have x1': "unat ?x1' = X div 2 ^ l div 2 ^ 32" "unat ?x1' < 2 ^ 31"
    by (simp_all add: unat_ucast_u32 unat_drop_bit64 X_def power_add div_mult2_eq [symmetric] ac_simps)
  have N: "unat ?x1' * 2 ^ 32 + unat ?x0' = X div 2 ^ l" by (simp add: x0' x1'(1))
  have guard: "\<not> (y0' + 1 = 0 \<or> y0' + 1 \<le> ?x1')"
    using y0'1 x1'(2) D31 by (auto simp: word_le_nat_alt)
  have dv: "div64_32 ?x1' ?x0' (y0' + 1) = Inr (of_nat ((X div 2 ^ l) mod (D + 1)), of_nat q)"
    using guard N y0'1 by (simp add: div64_32_def Let_def q_def)
  have YD: "Y < (D + 1) * 2 ^ l"
    using dividend_less_div_times [of "2 ^ l" Y] by (simp add: D_def)
  have Yq: "Y * q \<le> X" by (rule quotient_estimate [OF YD q_def]) simp
  have XY: "X div Y < 2 ^ 32" and Ypos: "0 < Y"
  proof -
    show "0 < Y" using y by (simp add: Y_def) 
    have "(2 :: nat) ^ 64 = 2 ^ 32 * 2 ^ 32" by simp
    also have "\<dots> \<le> 2 ^ 32 * Y" using y by (simp add: Y_def)
    finally show "X div Y < 2 ^ 32" using X64 \<open>0 < Y\<close> by (simp add: div_less_iff_less_mult)
  qed
  have qXY: "q \<le> X div Y" using Yq Ypos by (simp add: less_eq_div_iff_mult_less_eq mult.commute)
  have q32: "q < 2 ^ 32" using qXY XY by simp
  have uq: "ucast (of_nat q :: u32) = (of_nat q :: 64 word)" by (rule ucast_of_nat_u64 [OF q32])
  have yq: "unat (y * of_nat q) = Y * q"
    using Yq X64 q32 by (simp add: unat_word_ariths unat_of_nat Y_def)
  have r: "unat (x - y * of_nat q) = X - Y * q"
    using Yq yq by (simp add: unat_sub word_le_nat_alt X_def)
  have y_nz: "y \<noteq> 0" using Ypos by (auto simp: Y_def)
  have "q + (X - Y * q) div Y = X div Y"
    using Yq Ypos by (metis add.commute div_mult_self2 le_add_diff_inverse2 mult.commute nat_neq_iff not_less0)
  moreover have "(X - Y * q) mod Y = X mod Y"
    using Yq by (metis mod_mult_self2 le_add_diff_inverse2)
  ultimately have fx: "div64_fix y (of_nat q) (x - y * of_nat q) = (of_nat (X div Y), x mod y)"
    using r div_word_eq(2) [of x y]
    by (simp add: div64_fix_eq [OF y_nz] of_nat_add [symmetric] X_def Y_def del: of_nat_add)
  show ?thesis
    using y1_nz dv fx uq ucast_of_nat_u64 [OF XY] div_word_eq(1) [of x y]
    unfolding do_div64_def Let_def l(3) [symmetric] y0'_def [symmetric] sh by (simp add: X_def Y_def)
qed

lemma do_div64_trap:
  assumes "div64_trap y"
  shows "do_div64 x y = Inl DivideError"
proof -
  let ?y1 = "ucast (drop_bit 32 y) :: u32"
  define l where "l = hard_bsr (unat ?y1) + 1"
  have y1: "unat ?y1 = unat y div 2 ^ 32" by (rule unat_high32)
  have "0 < unat y div 2 ^ 32" using assms by (simp add: div64_trap_def div_greater_zero_iff)
  then have nz: "?y1 \<noteq> 0" using y1 by (metis unat_0 less_irrefl)
  have l: "0 < l" "l \<le> 32" using hard_bsr_u32 [OF nz] by (simp_all add: l_def)
  have "unat (drop_bit l y) = 2 ^ 32 - 1" using assms by (simp add: unat_drop_bit64 l_def y1 div64_trap_def)
  then have "unat (rshift64_32 ?y1 (ucast y) l) = 2 ^ 32 - 1"
    by (simp only: rshift64_32_drop [OF l] unat_ucast_u32) simp
  then have "unat (rshift64_32 ?y1 (ucast y) l + 1) = 0" by (simp add: unat_word_ariths)
  then have wrap: "rshift64_32 ?y1 (ucast y) l + 1 = 0" by (simp add: unat_eq_zero)
  show ?thesis
    using nz unfolding do_div64_def Let_def l_def [symmetric] wrap by (simp add: div64_32_def split: prod.splits)
qed

lemma unat_div_word: "unat (x div y) = unat x div unat (y :: 'a :: len word)"
  "unat (x mod y) = unat x mod unat (y :: 'a :: len word)"
  by (simp_all add: unat_div unat_mod)

lemma div64_32_ok:
  assumes "x1 < y"
  shows "div64_32 x1 x0 y = Inr (of_nat ((unat x1 * 2 ^ 32 + unat x0) mod unat y),
           of_nat ((unat x1 * 2 ^ 32 + unat x0) div unat y))"
    and "(unat x1 * 2 ^ 32 + unat x0) mod unat y < 2 ^ 32"
    and "(unat x1 * 2 ^ 32 + unat x0) div unat y < 2 ^ 32"
proof -
  have lt: "unat x1 + 1 \<le> unat y" using assms by (simp add: word_less_nat_alt)
  have nz: "y \<noteq> 0" using assms by auto
  show "div64_32 x1 x0 y = Inr (of_nat ((unat x1 * 2 ^ 32 + unat x0) mod unat y),
           of_nat ((unat x1 * 2 ^ 32 + unat x0) div unat y))"
    using assms nz by (simp add: div64_32_def Let_def not_le)
  have "(unat x1 * 2 ^ 32 + unat x0) mod unat y < unat y" using lt by simp
  then show "(unat x1 * 2 ^ 32 + unat x0) mod unat y < 2 ^ 32"
    using unsigned_less [of y, where 'a = nat] by simp
  have "unat x1 * 2 ^ 32 + unat x0 < (unat x1 + 1) * 2 ^ 32"
    using unsigned_less [of x0, where 'a = nat] by simp
  also have "\<dots> \<le> unat y * 2 ^ 32" using lt by (rule mult_le_mono1)
  finally show "(unat x1 * 2 ^ 32 + unat x0) div unat y < 2 ^ 32"
    using lt by (simp add: div_less_iff_less_mult mult.commute)
qed

lemma unat_halves: "unat (ucast (drop_bit 32 x) :: u32) * 2 ^ 32 + unat (ucast x :: u32) = unat (x :: 64 word)"
  unfolding unat_high32 unfolding unat_ucast_u32 by (rule div_mult_mod_eq)

lemma do_div64_low:
  assumes y: "unat y < 2 ^ 32" "y \<noteq> 0"
  shows "do_div64 x y = Inr (x div y, x mod y)"
proof -
  let ?x1 = "ucast (drop_bit 32 x) :: u32" and ?x0 = "ucast x :: u32" and ?y0 = "ucast y :: u32"
  have y0: "unat ?y0 = unat y" using y by (simp add: unat_ucast_u32)
  have y0_nz: "?y0 \<noteq> 0" using y0 y(2) by (metis unat_0 unat_eq_zero)
  have y1: "(ucast (drop_bit 32 y) :: u32) = 0" using y unat_high32 [of y] by (simp add: unat_eq_zero)
  show ?thesis
  proof (cases "?x1 < ?y0")
    case True
    note d = div64_32_ok [OF True, of ?x0, unfolded unat_halves y0]
    show ?thesis
      using True d(1) ucast_of_nat_u64 [OF d(2)] ucast_of_nat_u64 [OF d(3)] y1
      by (simp add: do_div64_def Let_def div_word_eq)
  next
    case False
    define q1 r2 where "q1 = unat ?x1 div unat y" and "r2 = unat ?x1 mod unat y"
    have z: "0 < ?y0" using y0_nz by (simp add: word_gt_0)
    note a = div64_32_ok [OF z, of ?x1, unfolded y0 unat_0 mult_zero_left add_0, folded q1_def r2_def]
    have r2y: "r2 < unat y" using y(2) by (simp add: r2_def unat_gt_0)
    have ur2: "unat (of_nat r2 :: u32) = r2" using a(2) by (simp add: unat_of_nat)
    then have lt: "(of_nat r2 :: u32) < ?y0" using r2y y0 by (simp add: word_less_nat_alt)
    note b = div64_32_ok [OF lt, of ?x0, unfolded y0 ur2]
    let ?n = "r2 * 2 ^ 32 + unat ?x0"
    have "unat x = (q1 * unat y + r2) * 2 ^ 32 + unat ?x0"
      using unat_halves [of x] by (simp add: q1_def r2_def)
    then have X: "unat x = (q1 * 2 ^ 32) * unat y + ?n" by (simp add: algebra_simps)
    have dv: "unat x div unat y = q1 * 2 ^ 32 + ?n div unat y"
      unfolding X using r2y by simp
    have md: "unat x mod unat y = ?n mod unat y" unfolding X by simp
    have q: "push_bit 32 (of_nat q1) + of_nat (?n div unat y) = x div y"
      unfolding div_word_eq(1) [symmetric] dv by (simp add: push_bit_eq_mult)
    have r: "(of_nat (?n mod unat y) :: 64 word) = x mod y"
      unfolding div_word_eq(2) [symmetric] md ..
    have x1: "\<not> ?x1 < ?y0" using False .
    have "do_div64 x y = Inr (push_bit 32 (ucast (of_nat q1 :: u32)) + ucast (of_nat (?n div unat y) :: u32),
        ucast (of_nat (?n mod unat y) :: u32))"
      using x1 y1 y0_nz a(1) b(1) by (simp add: do_div64_def Let_def)
    then show ?thesis
      using ucast_of_nat_u64 [OF a(3)] ucast_of_nat_u64 [OF b(2)] ucast_of_nat_u64 [OF b(3)] q r
      by simp
  qed
qed

text \<open>
  C38: 64-bit division, on every input: for a divisor of 0 the quotient is 0 and the remainder the
  dividend; if the 32 leading bits of a divisor of more than 32 bits are all set, the estimate
  \<^verbatim>\<open>y0 + 1\<close> overflows and the processor raises a divide error; otherwise \<^verbatim>\<open>do_div64\<close> returns the quotient
  and the remainder of the 64-bit operands.
\<close>

theorem do_div64_complete:
  "do_div64 x y = (if y = 0 then Inr (0, x)
                   else if div64_trap y then Inl DivideError
                   else Inr (x div y, x mod y))"
proof (cases "y = 0")
  case True
  then show ?thesis by (simp add: do_div64_def Let_def)
next
  case False
  then show ?thesis
    using do_div64_trap [of y x] do_div64_high [of y x] do_div64_low [of y x]
    by (cases "2 ^ 32 \<le> unat y") (auto simp: div64_trap_def not_le)
qed

section \<open>Text to number and back\<close>

lemma c_digit_digit_char: "d < 10 \<Longrightarrow> c_digit (digit_char d) 10 = Some d"
  by (simp add: c_digit_def digit_char_def Let_def)

lemma strtol_loop_digits:
  "\<forall>c \<in> set ds. \<exists>d < 10. c = digit_char d \<Longrightarrow>
   strtol_loop 10 v ds = (v * 10 ^ length ds + of_nat (digits_val 10 ds), [])"
proof (induction ds arbitrary: v)
  case Nil
  then show ?case by (simp add: digits_val_def)
next
  case (Cons c ds)
  then obtain d where d: "d < 10" "c = digit_char d" by auto
  with Cons show ?case
    by (simp add: c_digit_digit_char digits_val_Cons digit_val_char of_int32_def algebra_simps)
qed

lemma digit_char_plain:
  "d < 10 \<Longrightarrow> \<not> isspace (digit_char d)" "d < 10 \<Longrightarrow> digit_char d \<noteq> CHR ''-''"
proof -
  assume "d < 10"
  then have n: "(of_char (digit_char d) :: nat) = 48 + d" by (simp add: digit_char_def)
  show "\<not> isspace (digit_char d)" by (simp add: isspace_def n)
  have "(of_char (CHR ''-'') :: nat) = 45" by simp
  with n show "digit_char d \<noteq> CHR ''-''" by (intro notI) simp
qed

lemma strtol_base_10: "strtol_base p 10 = (p, 10)"
  by (simp add: strtol_base_def)

lemma strtol_digits:
  assumes ds: "ds \<noteq> []" "\<forall>c \<in> set ds. \<exists>d < 10. c = digit_char d"
  shows "strtol ds 10 = (to_int (of_nat (digits_val 10 ds)), [])"
    and "strtol (CHR ''-'' # ds) 10 = (to_int (- of_nat (digits_val 10 ds)), [])"
proof -
  obtain c cs where c: "ds = c # cs" using ds(1) by (cases ds) auto
  with ds(2) obtain d where d: "d < 10" "c = digit_char d" by auto
  note pl = digit_char_plain [OF d(1), folded d(2)]
  have sp: "\<not> isspace (CHR ''-'')" by (simp add: isspace_def)
  show "strtol ds 10 = (to_int (of_nat (digits_val 10 ds)), [])"
    using pl strtol_loop_digits [OF ds(2), of 0] by (simp add: strtol_def strtol_base_10 c Let_def)
  show "strtol (CHR ''-'' # ds) 10 = (to_int (- of_nat (digits_val 10 ds)), [])"
    using sp strtol_loop_digits [OF ds(2), of 0] by (simp add: strtol_def strtol_base_10 Let_def)
qed

lemma doprnt_d:
  "doprnt 0 ''%d'' [VWord w] = print_signed spec0 w 10"
  by (cases "print_signed spec0 w 10")
    (simp_all add: parse_spec_def parse_zero_def parse_length_def parse_prec_def skip_l_def is_digit_def
      convert_def print_signed_arg_def)

lemma print_num_plain:
  assumes "digits_loop 10 (unat u) [] = Inr ds" and "ds \<noteq> []"
  shows "print_num spec0 sign u 10 = Inr ((case sign of None \<Rightarrow> [] | Some c \<Rightarrow> [c]) @ ds)"
  using assms by (simp add: print_num_def spec0_def spaces_def zeros_def Let_def split: option.split)

text \<open>
  C39: what \<^verbatim>\<open>printf("%d")\<close> prints for an \<^verbatim>\<open>int\<close>, \<^verbatim>\<open>strtol\<close> in base 10 reads back as the same number, to
  the end of the text, for all 32-bit values (\<^verbatim>\<open>INT_MIN\<close> included).
\<close>

theorem strtol_reads_back_printed:
  "\<exists>s. doprnt 0 ''%d'' [VWord w] = Inr s \<and> strtol s 10 = (to_int w, [])"
proof -
  define u where "u = (if 0 \<le> to_int w then w else - w)"
  obtain ds where ds: "digits_loop 10 (unat u) [] = Inr ds" "ds \<noteq> []" "digits_val 10 ds = unat u"
      "\<forall>c \<in> set ds. \<exists>d < 10. c = digit_char d"
    using digits_loop_correct [of 10 "unat u" "[]"] by auto
  note pr = doprnt_d [of w] print_num_plain [OF ds(1,2)]
  show ?thesis
  proof (cases "0 \<le> to_int w")
    case True
    then have "doprnt 0 ''%d'' [VWord w] = Inr ds" using pr by (simp add: print_signed_def u_def spec0_def)
    with strtol_digits(1) [OF ds(2,4)] ds(3) True show ?thesis by (simp add: u_def)
  next
    case False
    then have "doprnt 0 ''%d'' [VWord w] = Inr (CHR ''-'' # ds)" using pr by (simp add: print_signed_def u_def)
    with strtol_digits(2) [OF ds(2,4)] ds(3) False show ?thesis by (simp add: u_def)
  qed
qed

end
