(* ===== verification/Console.thy ===== *)
theory Console
  imports Doprnt
begin

unbundle bit_operations_syntax

text \<open>
  \<^verbatim>\<open>kernel/console.c\<close> and \<^verbatim>\<open>kernel/console_putbytes.c\<close>: the text console. The state is the file's static
  variables, the video memory at \<^verbatim>\<open>0xB8000\<close> as an array of 16-bit cells (cell \<open>80 * line + col\<close>,
  the cells after the screen included) and the bytes sent to I/O ports, latest first. The other
  components extend this record with their own variables, so console operations apply to all of them.
\<close>

section \<open>State\<close>

record console =
  line_cur :: int
  col_cur :: int
  ct_cur :: u8
  cf_cur :: u8
  col_min :: int
  vmem :: "int \<Rightarrow> u16"
  outs :: "(u16 \<times> u8) list"

abbreviation NB_LINES :: int where "NB_LINES \<equiv> 25"
abbreviation NB_COLUMNS :: int where "NB_COLUMNS \<equiv> 80"
abbreviation first_line :: int where "first_line \<equiv> 1"

text \<open>\<^verbatim>\<open>outb(value, port)\<close> of \<^verbatim>\<open>kernel/cpu.h\<close>.\<close>

definition outb :: "u8 \<Rightarrow> u16 \<Rightarrow> 'z console_scheme \<Rightarrow> 'z console_scheme" where
  "outb v p s = s\<lparr>outs := (p, v) # outs s\<rparr>"

section \<open>Operations\<close>

definition set_ct_cur :: "u8 \<Rightarrow> 'z console_scheme \<Rightarrow> 'z console_scheme" where
  "set_ct_cur ct s = s\<lparr>ct_cur := ct\<rparr>"

definition set_cf_cur :: "u8 \<Rightarrow> 'z console_scheme \<Rightarrow> 'z console_scheme" where
  "set_cf_cur cf s = s\<lparr>cf_cur := cf\<rparr>"

definition set_col_min :: "int \<Rightarrow> 'z console_scheme \<Rightarrow> 'z console_scheme" where
  "set_col_min limit s = (if 0 \<le> limit \<and> limit < 24 then s\<lparr>col_min := limit\<rparr> else s)"

definition ptr_mem :: "int \<Rightarrow> int \<Rightarrow> int" where
  "ptr_mem line col = line * NB_COLUMNS + col"

definition write_char :: "int \<Rightarrow> int \<Rightarrow> u8 \<Rightarrow> u8 \<Rightarrow> u8 \<Rightarrow> u8 \<Rightarrow> 'z console_scheme \<Rightarrow> 'z console_scheme" where
  "write_char line col c ct cf cl s =
     (let formatting = push_bit 7 cl OR push_bit 4 cf OR ct;
          cell = scast c OR push_bit 8 (scast formatting)
      in s\<lparr>vmem := (vmem s)(ptr_mem line col := cell)\<rparr>)"

definition move_cursor :: "int \<Rightarrow> int \<Rightarrow> 'z console_scheme \<Rightarrow> 'z console_scheme" where
  "move_cursor line col s =
     (let pos = word_of_int (col + line * NB_COLUMNS) :: u16;
          s1 = outb 0x0f 0x3d4 s;
          s2 = outb (ucast pos) 0x3d5 s1;
          s3 = outb 0x0e 0x3d4 s2;
          s4 = outb (ucast (signed_drop_bit 8 pos)) 0x3d5 s3
      in s4\<lparr>line_cur := line, col_cur := col\<rparr>)"

text \<open>The loops that fill a rectangle with spaces.\<close>

definition blank :: "int \<Rightarrow> int \<Rightarrow> 'z console_scheme \<Rightarrow> 'z console_scheme" where
  "blank i j s = write_char i j 32 (ct_cur s) (cf_cur s) 0 s"

definition blank_line :: "int \<Rightarrow> int \<Rightarrow> 'z console_scheme \<Rightarrow> 'z console_scheme" where
  "blank_line from_col i s = fold (blank i) [from_col..NB_COLUMNS - 1] s"

definition initialize_screen :: "'z console_scheme \<Rightarrow> 'z console_scheme" where
  "initialize_screen s =
     (let s1 = fold (blank_line 0) [0..NB_LINES - 1] s;
          s2 = s1\<lparr>line_cur := first_line, col_cur := 0, col_min := 0\<rparr>
      in move_cursor (line_cur s2) (col_cur s2) s2)"

definition clear_screen :: "'z console_scheme \<Rightarrow> 'z console_scheme" where
  "clear_screen s =
     (let s1 = fold (blank_line 0) [first_line..NB_LINES - 1] s;
          s2 = s1\<lparr>line_cur := first_line, col_cur := 0\<rparr>
      in move_cursor (line_cur s2) (col_cur s2) s2)"

text \<open>
  \<^verbatim>\<open>scroll\<close>: \<^verbatim>\<open>memmove\<close> of \<open>80 * (25 - 1)\<close> cells from line 2 to line 1; the last of them come from
  the line after the screen.
\<close>

definition scroll :: "'z console_scheme \<Rightarrow> 'z console_scheme" where
  "scroll s =
     (if first_line < line_cur s then
        (let dst = ptr_mem first_line 0; src = ptr_mem (first_line + 1) 0;
             n = NB_COLUMNS * (NB_LINES - first_line);
             s1 = s\<lparr>vmem := (\<lambda>i. if dst \<le> i \<and> i < dst + n then vmem s (i - dst + src) else vmem s i),
                    line_cur := line_cur s - 1\<rparr>;
             s2 = (if line_cur s1 = 0 then s1\<lparr>line_cur := first_line\<rparr> else s1)
         in move_cursor (line_cur s2) (col_min s2) s2)
      else s)"

definition next_line :: "'z console_scheme \<Rightarrow> 'z console_scheme" where
  "next_line s =
     (let s1 = (if line_cur s = 24 then scroll s else s)
      in s1\<lparr>line_cur := line_cur s1 + 1, col_cur := col_min s1\<rparr>)"

definition printable_char :: "char \<Rightarrow> 'z console_scheme \<Rightarrow> 'z console_scheme" where
  "printable_char c s =
     (if line_cur s < NB_LINES \<and> col_cur s < NB_COLUMNS then
        (let s1 = write_char (line_cur s) (col_cur s) (of_char c) (ct_cur s) (cf_cur s) 0 s in
         if col_cur s1 = NB_COLUMNS - 1 then
           (let s2 = s1\<lparr>col_cur := col_min s1\<rparr>;
                s3 = (if line_cur s2 = NB_LINES - 1 then scroll s2 else s2)
            in s3\<lparr>line_cur := line_cur s3 + 1\<rparr>)
         else s1\<lparr>col_cur := col_cur s1 + 1\<rparr>)
      else s)"

definition clear_console :: "'z console_scheme \<Rightarrow> 'z console_scheme" where
  "clear_console s =
     (let s1 = blank_line (col_min s) first_line s;
          s2 = fold (blank_line 0) [first_line + 1..NB_LINES - 1] s1;
          s3 = s2\<lparr>line_cur := first_line, col_cur := col_min s2\<rparr>
      in move_cursor (line_cur s3) (col_cur s3) s3)"

definition handle_char :: "char \<Rightarrow> 'z console_scheme \<Rightarrow> 'z console_scheme" where
  "handle_char c s =
     (let n = of_char c :: nat;
          s' = (if 32 \<le> n \<and> n \<le> 126 then printable_char c s
                else if n = 127 then
                  (let s1 = (if col_min s < col_cur s then s\<lparr>col_cur := col_cur s - 1\<rparr> else s)
                   in blank (line_cur s1) (col_cur s1) s1)
                else if n = 8 then
                  (let s1 = blank (line_cur s) (col_cur s) s
                   in if col_min s1 < col_cur s1 then s1\<lparr>col_cur := col_cur s1 - 1\<rparr> else s1)
                else if n = 9 then
                  (let t = (col_cur s div 8 + 1) * 8
                   in s\<lparr>col_cur := (if t < NB_COLUMNS then t else NB_COLUMNS - 1)\<rparr>)
                else if n = 10 \<or> n = 13 then next_line s
                else if n = 12 then clear_console s
                else s)
      in move_cursor (line_cur s') (col_cur s') s')"

definition console_putbytes :: "char list \<Rightarrow> 'z console_scheme \<Rightarrow> 'z console_scheme" where
  "console_putbytes cs s = fold handle_char cs s"

text \<open>The kernel's \<^verbatim>\<open>printf\<close>.\<close>

abbreviation kprintf :: "char list \<Rightarrow> va list \<Rightarrow> 'z console_scheme \<Rightarrow> 'z console_scheme result" where
  "kprintf fmt as s \<equiv> vprintf console_putbytes fmt as s"

section \<open>Invariant\<close>

text \<open>
  The cursor is on the screen and below the clock line, and the left margin is one of those
  \<^verbatim>\<open>set_col_min\<close> accepts. \<open>same_outside a b s s'\<close>: between \<open>s\<close> and \<open>s'\<close> only the cells from
  \<open>a\<close> to \<open>b - 1\<close> change.
\<close>

definition console_ok :: "'z console_scheme \<Rightarrow> bool" where
  "console_ok s \<longleftrightarrow> first_line \<le> line_cur s \<and> line_cur s < NB_LINES \<and>
     0 \<le> col_cur s \<and> col_cur s < NB_COLUMNS \<and> 0 \<le> col_min s \<and> col_min s < 24"

definition same_outside :: "int \<Rightarrow> int \<Rightarrow> 'z console_scheme \<Rightarrow> 'y console_scheme \<Rightarrow> bool" where
  "same_outside a b s s' \<longleftrightarrow> (\<forall>i. i < a \<or> b \<le> i \<longrightarrow> vmem s' i = vmem s i)"

named_theorems console_defs

lemmas [console_defs] = set_ct_cur_def set_cf_cur_def ptr_mem_def write_char_def move_cursor_def
  blank_def outb_def scroll_def next_line_def printable_char_def Let_def

text \<open>Everything but the record fields of the console is left alone: the extension is unchanged.\<close>

lemma move_cursor_sel [simp]:
  "line_cur (move_cursor l c s) = l" "col_cur (move_cursor l c s) = c"
  "col_min (move_cursor l c s) = col_min s" "vmem (move_cursor l c s) = vmem s"
  "ct_cur (move_cursor l c s) = ct_cur s" "cf_cur (move_cursor l c s) = cf_cur s"
  "console.more (move_cursor l c s) = console.more s"
  by (simp_all add: console_defs)

lemma blank_sel [simp]:
  "line_cur (blank i j s) = line_cur s" "col_cur (blank i j s) = col_cur s"
  "col_min (blank i j s) = col_min s" "ct_cur (blank i j s) = ct_cur s" "cf_cur (blank i j s) = cf_cur s"
  "console.more (blank i j s) = console.more s"
  by (simp_all add: console_defs)

lemma blank_vmem: "k \<noteq> 80 * i + j \<Longrightarrow> vmem (blank i j s) k = vmem s k"
  by (simp add: console_defs mult.commute)

lemma fold_blank_sel [simp]:
  "line_cur (fold (blank i) js s) = line_cur s" "col_cur (fold (blank i) js s) = col_cur s"
  "col_min (fold (blank i) js s) = col_min s" "ct_cur (fold (blank i) js s) = ct_cur s"
  "cf_cur (fold (blank i) js s) = cf_cur s" "console.more (fold (blank i) js s) = console.more s"
  by (induction js arbitrary: s) auto

lemma blank_line_sel [simp]:
  "line_cur (blank_line a i s) = line_cur s" "col_cur (blank_line a i s) = col_cur s"
  "col_min (blank_line a i s) = col_min s" "ct_cur (blank_line a i s) = ct_cur s"
  "cf_cur (blank_line a i s) = cf_cur s" "console.more (blank_line a i s) = console.more s"
  by (simp_all add: blank_line_def)

lemma fold_blank_vmem:
  "\<forall>j \<in> set js. k \<noteq> 80 * i + j \<Longrightarrow> vmem (fold (blank i) js s) k = vmem s k"
  by (induction js arbitrary: s) (auto simp: blank_vmem)

lemma blank_line_vmem:
  "0 \<le> a \<Longrightarrow> k < 80 * i \<or> 80 * i + 80 \<le> k \<Longrightarrow> vmem (blank_line a i s) k = vmem s k"
  unfolding blank_line_def by (rule fold_blank_vmem) auto

lemma blank_lines_sel [simp]:
  "line_cur (fold (blank_line a) ls s) = line_cur s" "col_cur (fold (blank_line a) ls s) = col_cur s"
  "ct_cur (fold (blank_line a) ls s) = ct_cur s" "cf_cur (fold (blank_line a) ls s) = cf_cur s"
  "col_min (fold (blank_line a) ls s) = col_min s" "console.more (fold (blank_line a) ls s) = console.more s"
  by (induction ls arbitrary: s) auto

lemma blank_lines_vmem:
  "0 \<le> a \<Longrightarrow> \<forall>i \<in> set ls. k < 80 * i \<or> 80 * i + 80 \<le> k \<Longrightarrow> vmem (fold (blank_line a) ls s) k = vmem s k"
  by (induction ls arbitrary: s) (auto simp: blank_line_vmem)

section \<open>Output stays on the screen\<close>

text \<open>
  What every console operation keeps: the invariant, the cells outside lines 1 to 24, the colours,
  the left margin, and the variables of the other components.
\<close>

definition confined :: "'z console_scheme \<Rightarrow> 'z console_scheme \<Rightarrow> bool" where
  "confined s s' \<longleftrightarrow> console_ok s' \<and> same_outside 80 2000 s s' \<and> col_min s' = col_min s \<and>
     ct_cur s' = ct_cur s \<and> cf_cur s' = cf_cur s \<and> console.more s' = console.more s"

lemma confined_refl: "console_ok s \<Longrightarrow> confined s s"
  by (simp add: confined_def same_outside_def)

lemma confined_trans: "confined s s1 \<Longrightarrow> confined s1 s2 \<Longrightarrow> confined s s2"
  by (simp add: confined_def same_outside_def)

lemma scroll_at_bottom:
  assumes "console_ok s" and "line_cur s = 24"
  shows "line_cur (scroll s) = 23" and "col_cur (scroll s) = col_min s"
    and "col_min (scroll s) = col_min s" and "same_outside 80 2000 s (scroll s)"
    and "ct_cur (scroll s) = ct_cur s" and "cf_cur (scroll s) = cf_cur s"
    and "console.more (scroll s) = console.more s"
  using assms by (auto simp: scroll_def same_outside_def ptr_mem_def Let_def)

lemma next_line_confined: "console_ok s \<Longrightarrow> confined s (next_line s)"
  using scroll_at_bottom [of s]
  by (cases "line_cur s = 24")
    (auto simp: next_line_def Let_def confined_def console_ok_def same_outside_def)

lemma cell_on_screen:
  "first_line \<le> l \<Longrightarrow> l < NB_LINES \<Longrightarrow> 0 \<le> c \<Longrightarrow> c < NB_COLUMNS \<Longrightarrow> 80 \<le> ptr_mem l c \<and> ptr_mem l c < 2000"
  by (simp add: ptr_mem_def)

lemma write_char_confined:
  assumes "console_ok s" and "first_line \<le> l" "l < NB_LINES" "0 \<le> k" "k < NB_COLUMNS"
  shows "confined s (write_char l k c ct cf cl s)"
  using assms cell_on_screen [OF assms(2-5)]
  by (auto simp: write_char_def confined_def console_ok_def same_outside_def Let_def)

lemma printable_char_confined:
  assumes ok: "console_ok s"
  shows "confined s (printable_char c s)"
proof -
  define s1 where "s1 = write_char (line_cur s) (col_cur s) (of_char c) (ct_cur s) (cf_cur s) 0 s"
  have c1: "confined s s1" unfolding s1_def by (rule write_char_confined) (use ok in \<open>auto simp: console_ok_def\<close>)
  have sel: "line_cur s1 = line_cur s" "col_cur s1 = col_cur s"
    by (simp_all add: s1_def write_char_def Let_def)
  let ?s2 = "s1\<lparr>col_cur := col_min s1\<rparr>"
  have ok2: "console_ok ?s2" using c1 by (simp add: confined_def console_ok_def)
  have "confined s1 (printable_char c s)"
    using ok c1 sel scroll_at_bottom [OF ok2]
    by (auto simp: printable_char_def s1_def [symmetric] Let_def confined_def console_ok_def same_outside_def)
  with c1 show ?thesis by (rule confined_trans)
qed

lemma blank_confined:
  "console_ok s \<Longrightarrow> confined s (blank (line_cur s) (col_cur s) s)"
  unfolding blank_def by (rule write_char_confined) (auto simp: console_ok_def)

lemma clear_console_confined:
  assumes ok: "console_ok s"
  shows "confined s (clear_console s)"
proof -
  let ?s1 = "blank_line (col_min s) first_line s"
  have m: "0 \<le> col_min s" using ok by (simp add: console_ok_def)
  have "vmem (fold (blank_line 0) [first_line + 1..NB_LINES - 1] ?s1) k = vmem s k"
    if "k < 80 \<or> 2000 \<le> k" for k
    using that m by (subst blank_lines_vmem) (auto simp: blank_line_vmem)
  then show ?thesis
    using ok by (auto simp: clear_console_def Let_def confined_def console_ok_def same_outside_def)
qed

lemma move_cursor_confined: "confined s s' \<Longrightarrow> confined s (move_cursor (line_cur s') (col_cur s') s')"
  by (simp add: confined_def console_ok_def same_outside_def)

lemma handle_char_confined:
  assumes ok: "console_ok s"
  shows "confined s (handle_char c s)"
proof -
  let ?n = "of_char c :: nat"
  have col: "confined s (s\<lparr>col_cur := k\<rparr>)" if "0 \<le> k" "k < NB_COLUMNS" for k
    using ok that by (simp add: confined_def console_ok_def same_outside_def)
  have bck: "confined t (if col_min t < col_cur t then t\<lparr>col_cur := col_cur t - 1\<rparr> else t)"
    if "console_ok t" for t :: "'a console_scheme"
    using that by (simp add: confined_def console_ok_def same_outside_def)
  have bk: "confined t (blank (line_cur t) (col_cur t) t)" if "console_ok t" for t :: "'a console_scheme"
    using blank_confined that by blast
  have del: "confined s (let s1 = (if col_min s < col_cur s then s\<lparr>col_cur := col_cur s - 1\<rparr> else s)
                   in blank (line_cur s1) (col_cur s1) s1)"
    using confined_trans [OF bck [OF ok] bk] bck [OF ok] unfolding Let_def confined_def by blast
  have bs: "confined s (let s1 = blank (line_cur s) (col_cur s) s
                   in if col_min s1 < col_cur s1 then s1\<lparr>col_cur := col_cur s1 - 1\<rparr> else s1)"
    using confined_trans [OF bk [OF ok] bck] bk [OF ok] unfolding Let_def confined_def by blast
  have tab: "confined s (let t = (col_cur s div 8 + 1) * 8
                   in s\<lparr>col_cur := (if t < NB_COLUMNS then t else NB_COLUMNS - 1)\<rparr>)"
    unfolding Let_def using ok by (intro col) (auto simp: console_ok_def)
  note cases = printable_char_confined [OF ok, of c] del bs tab next_line_confined [OF ok]
    clear_console_confined [OF ok] confined_refl [OF ok]
  show ?thesis
    unfolding handle_char_def Let_def [of "of_char c"]
    by (subst Let_def, rule move_cursor_confined) (simp only: cases if_split split: if_split, simp add: cases)
qed

interpretation kcon: byte_sink console_putbytes
  by unfold_locales (simp_all add: console_putbytes_def)

lemma console_putbytes_confined: "console_ok s \<Longrightarrow> confined s (console_putbytes cs s)"
proof (induction cs arbitrary: s)
  case Nil
  then show ?case by (simp add: console_putbytes_def confined_refl)
next
  case (Cons c cs)
  have c1: "confined s (handle_char c s)" by (rule handle_char_confined [OF Cons.prems])
  then have "confined (handle_char c s) (console_putbytes cs (handle_char c s))"
    by (intro Cons.IH) (simp add: confined_def)
  with c1 show ?case by (auto simp: console_putbytes_def intro: confined_trans)
qed

text \<open>
  C34: whatever text is written, the console keeps its cursor on the screen below the clock line
  (lines 1 to 24, columns 0 to 79) and changes no video memory cell of the clock line or after the
  end of the screen; colours, left margin and the state of the other components stay as they are.
\<close>

theorem console_output_confined:
  assumes "console_ok s"
  shows "console_ok (console_putbytes cs s)
    \<and> (\<forall>i. i < 80 \<or> 2000 \<le> i \<longrightarrow> vmem (console_putbytes cs s) i = vmem s i)
    \<and> col_min (console_putbytes cs s) = col_min s
    \<and> ct_cur (console_putbytes cs s) = ct_cur s \<and> cf_cur (console_putbytes cs s) = cf_cur s
    \<and> console.more (console_putbytes cs s) = console.more s"
  using console_putbytes_confined [OF assms, of cs] by (simp add: confined_def same_outside_def)

definition console_after_init :: console where
  "console_after_init = \<lparr>line_cur = 1, col_cur = 79, ct_cur = 15, cf_cur = 0, col_min = 0,
     vmem = (\<lambda>_. 0), outs = []\<rparr>"

lemma console_output_confined_witness:
  "console_ok console_after_init \<and> console_ok (console_putbytes ''ab'' console_after_init)
   \<and> vmem (console_putbytes ''ab'' console_after_init) 79 = 0"
proof -
  have ok: "console_ok console_after_init" by (simp add: console_ok_def console_after_init_def)
  show ?thesis
    using ok console_output_confined [OF ok, of "''ab''"] by (simp add: console_after_init_def)
qed

text \<open>
  C35: \<^verbatim>\<open>printf\<close> to the kernel console shows exactly the formatted characters in order, however many they are: the
  128-byte buffer, its flushes on newline, on NUL and when it is full, are invisible, and no access is outside the
  buffer (that would be the fault \<open>OutOfBounds\<close>).
\<close>

theorem kprintf_unbuffered:
  "vprintf console_putbytes fmt as s = bnd (doprnt 0 fmt as) (\<lambda>out. Inr (console_putbytes out s))"
  by (rule kcon.vprintf_unbuffered)

end
