(* ===== verification/Timer.thy ===== *)
theory Timer
  imports Console
begin

text \<open>
  \<^verbatim>\<open>kernel/timer.c\<close>: the tick counter, the time of day it drives and the clock in the top right corner
  of the screen.
\<close>

section \<open>State and operations\<close>

record timer = console +
  clock_ticks :: u32
  second :: u8
  minute :: u8
  hour :: u32

abbreviation CLOCKFREQ :: nat where "CLOCKFREQ \<equiv> 1000"
abbreviation QUARTZ :: nat where "QUARTZ \<equiv> 0x1234DD"

definition current_clock :: "'z timer_scheme \<Rightarrow> u32" where
  "current_clock s = clock_ticks s"

definition refresh_clock :: "'z timer_scheme \<Rightarrow> 'z timer_scheme result" where
  "refresh_clock s =
     (let old_line = line_cur s; old_column = col_cur s; old_ct = ct_cur s; old_cf = cf_cur s;
          s1 = set_cf_cur 0 (set_ct_cur 7 s);
          s2 = move_cursor 0 (NB_COLUMNS - 8) s1
      in bnd (kprintf ''%.2u:%.2u:%.2u'' [VWord (hour s2), VWord (ucast (minute s2)), VWord (ucast (second s2))] s2)
           (\<lambda>s3. let s4 = move_cursor old_line old_column s3
                 in Inr (set_cf_cur old_cf (set_ct_cur old_ct s4))))"

definition init_clock :: "'z timer_scheme \<Rightarrow> 'z timer_scheme result" where
  "init_clock s =
     bnd (refresh_clock (s\<lparr>clock_ticks := 0, second := 0, minute := 0, hour := 0\<rparr>)) (\<lambda>s1.
       let q = QUARTZ div CLOCKFREQ;
           s2 = outb 0x34 0x43 s1;
           s3 = outb (of_nat (q mod 256)) 0x40 s2
       in Inr (outb (of_nat (q div 256)) 0x40 s3))"

definition increment_clock :: "'z timer_scheme \<Rightarrow> 'z timer_scheme result" where
  "increment_clock s =
     (let s1 = s\<lparr>clock_ticks := clock_ticks s + 1\<rparr> in
      if clock_ticks s1 mod 1000 = 0 then
        (let s2 = s1\<lparr>second := of_nat ((unat (second s1) + 1) mod 60)\<rparr>;
             s3 = (if second s2 = 0 then s2\<lparr>minute := of_nat ((unat (minute s2) + 1) mod 60)\<rparr> else s2);
             s4 = (if second s2 = 0 \<and> minute s3 = 0 then s3\<lparr>hour := hour s3 + 1\<rparr> else s3)
         in refresh_clock s4)
      else Inr s1)"

definition clock_settings :: "addr \<Rightarrow> addr \<Rightarrow> mem \<Rightarrow> mem" where
  "clock_settings quartz ticks m =
     store32 (store32 m quartz (of_nat QUARTZ)) ticks (of_nat (QUARTZ div CLOCKFREQ))"

section \<open>The clock display\<close>

lemma digits_2:
  assumes "n < 100"
  shows "digits_loop 10 n [] = Inr (if n < 10 then [digit_char n] else [digit_char (n div 10), digit_char (n mod 10)])"
proof -
  have "n div 10 div 10 = 0" "n mod 10 < 16" "n div 10 mod 10 < 16" using assms by (auto intro: less_le_trans [OF mod_less_divisor])
  then show ?thesis
    using assms by (simp add: digits_loop.simps [of 10 n] digits_loop.simps [of 10 "n div 10"] div_eq_0_iff not_le)
qed

lemma digit_char_0: "digit_char 0 = CHR ''0''"
  by code_simp

definition two_digits :: "nat \<Rightarrow> char list" where
  "two_digits n = [digit_char (n div 10), digit_char (n mod 10)]"

lemma print_num_2:
  assumes "unat u < 100"
  shows "print_num (spec0\<lparr>prec := 2\<rparr>) None u 10 = Inr (two_digits (unat u))"
  using digits_2 [OF assms] assms
  by (auto simp: print_num_def spec0_def two_digits_def spaces_def zeros_def Let_def digit_char_0)

lemma doprnt_clock:
  assumes "unat h < 100" "unat m < 100" "unat sc < 100"
  shows "doprnt 0 ''%.2u:%.2u:%.2u'' [VWord h, VWord m, VWord sc]
    = Inr (two_digits (unat h) @ '':'' @ two_digits (unat m) @ '':'' @ two_digits (unat sc))"
  using assms [THEN print_num_2]
  by (simp add: parse_spec_def parse_zero_def parse_length_def parse_prec_def skip_l_def is_digit_def
      Ctod_def to_int_of_int32_literal convert_def print_unsigned_arg_def)

definition is_printable :: "char \<Rightarrow> bool" where
  "is_printable c \<longleftrightarrow> 32 \<le> (of_char c :: nat) \<and> (of_char c :: nat) \<le> 126"

lemma two_digits_printable: "n < 100 \<Longrightarrow> c \<in> set (two_digits n) \<Longrightarrow> is_printable c"
  by (auto simp: two_digits_def is_printable_def digit_char_def)

text \<open>The cell \<^verbatim>\<open>write_char\<close> stores for a character in given colours.\<close>

definition cell_of :: "char \<Rightarrow> u8 \<Rightarrow> u8 \<Rightarrow> u16" where
  "cell_of c ct cf = scast (of_char c :: u8) OR push_bit 8 (scast (push_bit 7 0 OR push_bit 4 cf OR ct))"

text \<open>Printable text that ends exactly at the right edge of a line above the last.\<close>

definition shows_at :: "int \<Rightarrow> char list \<Rightarrow> 'z console_scheme \<Rightarrow> 'z console_scheme \<Rightarrow> bool" where
  "shows_at a cs s s' \<longleftrightarrow>
     (\<forall>i. vmem s' i = (if a \<le> i \<and> i < a + int (length cs) then cell_of (cs ! nat (i - a)) (ct_cur s) (cf_cur s) else vmem s i))
     \<and> col_min s' = col_min s \<and> ct_cur s' = ct_cur s \<and> cf_cur s' = cf_cur s \<and> console.more s' = console.more s"

lemma shows_at_Cons:
  assumes "shows_at a [c] s s1" and "shows_at (a + 1) cs s1 s2"
  shows "shows_at a (c # cs) s s2"
proof -
  have "cs ! nat (i - (a + 1)) = (c # cs) ! nat (i - a)" if "a + 1 \<le> i" for i
  proof -
    have "nat (i - a) = Suc (nat (i - (a + 1)))" using that by simp
    then show ?thesis by simp
  qed
  then show ?thesis using assms by (auto simp: shows_at_def)
qed

lemma handle_printable:
  assumes "is_printable c" and "0 \<le> line_cur s" "line_cur s < 24" "0 \<le> col_cur s" "col_cur s < 80"
  shows "shows_at (80 * line_cur s + col_cur s) [c] s (handle_char c s)"
    and "col_cur s < 79 \<Longrightarrow> line_cur (handle_char c s) = line_cur s \<and> col_cur (handle_char c s) = col_cur s + 1"
proof -
  have pr: "32 \<le> (of_char c :: nat)" "(of_char c :: nat) \<le> 126" using assms(1) by (simp_all add: is_printable_def)
  have step: "handle_char c s = (let s' = printable_char c s in move_cursor (line_cur s') (col_cur s') s')"
    using pr by (simp add: handle_char_def Let_def)
  show "shows_at (80 * line_cur s + col_cur s) [c] s (handle_char c s)"
    using assms(2-) by (auto simp: step printable_char_def write_char_def ptr_mem_def shows_at_def cell_of_def Let_def)
  show "col_cur s < 79 \<Longrightarrow> line_cur (handle_char c s) = line_cur s \<and> col_cur (handle_char c s) = col_cur s + 1"
    using assms(2-) by (auto simp: step printable_char_def write_char_def Let_def)
qed

lemma putbytes_to_edge:
  assumes "\<forall>c \<in> set cs. is_printable c"
    and "0 \<le> line_cur s" "line_cur s < 24" "0 \<le> col_cur s" "col_cur s + int (length cs) = 80"
  shows "shows_at (80 * line_cur s + col_cur s) cs s (console_putbytes cs s)"
  using assms
proof (induction cs arbitrary: s)
  case Nil
  then show ?case by (auto simp: console_putbytes_def shows_at_def)
next
  case (Cons c cs)
  have c: "is_printable c" and col: "col_cur s < 80" using Cons.prems(1,5) by simp_all
  note one = handle_printable [OF c Cons.prems(2,3,4) col]
  show ?case
  proof (cases "cs = []")
    case True
    with one(1) show ?thesis by (simp add: console_putbytes_def)
  next
    case False
    then have "col_cur s < 79" using Cons.prems(5) by (cases cs) auto
    note sel = one(2) [OF this]
    have "shows_at (80 * line_cur s + col_cur s + 1) cs (handle_char c s) (console_putbytes cs (handle_char c s))"
      using Cons.IH [of "handle_char c s"] Cons.prems sel by (simp add: add.assoc)
    from shows_at_Cons [OF one(1) this] show ?thesis by (simp add: console_putbytes_def)
  qed
qed

lemma refresh_clock_unfold:
  assumes "s2 = move_cursor 0 72 (set_cf_cur 0 (set_ct_cur 7 s))"
  shows "refresh_clock s
      = bnd (kprintf ''%.2u:%.2u:%.2u'' [VWord (hour s2), VWord (ucast (minute s2)), VWord (ucast (second s2))] s2)
          (\<lambda>s3. Inr (set_cf_cur (cf_cur s) (set_ct_cur (ct_cur s) (move_cursor (line_cur s) (col_cur s) s3))))"
  by (simp add: refresh_clock_def assms Let_def)

text \<open>
  C37: the clock display. While the time of day is below 100 hours, \<^verbatim>\<open>refresh_clock\<close> succeeds, writes
  \<^verbatim>\<open>HH:MM:SS\<close> in the last eight cells of the top line (grey on black) and nothing else, and puts the
  cursor and the colours back.
\<close>

theorem refresh_clock_display:
  assumes "unat (hour s) < 100" and "unat (minute s) < 60" and "unat (second s) < 60"
  shows "\<exists>s'. refresh_clock s = Inr s'
    \<and> line_cur s' = line_cur s \<and> col_cur s' = col_cur s \<and> ct_cur s' = ct_cur s \<and> cf_cur s' = cf_cur s
    \<and> col_min s' = col_min s \<and> console.more s' = console.more s
    \<and> (\<forall>i. vmem s' i = (if 72 \<le> i \<and> i < 80 then
          cell_of ((two_digits (unat (hour s)) @ '':'' @ two_digits (unat (minute s)) @ '':''
            @ two_digits (unat (second s))) ! nat (i - 72)) 7 0 else vmem s i))"
proof -
  define cs where "cs = two_digits (unat (hour s)) @ '':'' @ two_digits (unat (minute s)) @ '':''
            @ two_digits (unat (second s))"
  define s2 where "s2 = move_cursor 0 72 (set_cf_cur 0 (set_ct_cur 7 s))"
  have len: "length cs = 8" by (simp add: cs_def two_digits_def)
  have pr: "\<forall>c \<in> set cs. is_printable c"
  proof
    fix c
    assume "c \<in> set cs"
    then consider "c \<in> set (two_digits (unat (hour s)))" | "c \<in> set (two_digits (unat (minute s)))"
      | "c \<in> set (two_digits (unat (second s)))" | "c = CHR '':''"
      by (auto simp: cs_def)
    then show "is_printable c"
      using assms two_digits_printable [of "unat (hour s)" c] two_digits_printable [of "unat (minute s)" c]
        two_digits_printable [of "unat (second s)" c]
      by cases (simp_all add: is_printable_def)
  qed
  have sel: "hour s2 = hour s" "minute s2 = minute s" "second s2 = second s" "col_min s2 = col_min s"
    "line_cur s2 = 0" "col_cur s2 = 72" "vmem s2 = vmem s" "ct_cur s2 = 7" "cf_cur s2 = 0"
    "console.more s2 = console.more s"
    by (simp_all add: s2_def console_defs)
  have "doprnt 0 ''%.2u:%.2u:%.2u'' [VWord (hour s), VWord (ucast (minute s)), VWord (ucast (second s))] = Inr cs"
    using doprnt_clock [of "hour s" "ucast (minute s)" "ucast (second s)"] assms
    by (simp add: cs_def del: doprnt.simps)
  then have pf: "kprintf ''%.2u:%.2u:%.2u'' [VWord (hour s2), VWord (ucast (minute s2)), VWord (ucast (second s2))] s2
      = Inr (console_putbytes cs s2)"
    by (simp add: kcon.vprintf_unbuffered sel)
  have "shows_at 72 cs s2 (console_putbytes cs s2)"
    using putbytes_to_edge [OF pr, of s2] len sel by simp
  then show ?thesis
    using pf by (simp add: refresh_clock_unfold [OF s2_def] shows_at_def sel len set_ct_cur_def set_cf_cur_def
        cs_def [symmetric] del: append.simps)
qed

text \<open>The display at 09:05:59, from a blank screen.\<close>

definition clock_example :: timer where
  "clock_example = \<lparr>line_cur = 7, col_cur = 3, ct_cur = 15, cf_cur = 0, col_min = 0, vmem = (\<lambda>_. 0), outs = [],
     clock_ticks = 0, second = 59, minute = 5, hour = 9\<rparr>"

lemma refresh_clock_display_witness:
  "\<exists>s'. refresh_clock clock_example = Inr s' \<and> line_cur s' = 7 \<and> vmem s' 73 = cell_of (CHR ''9'') 7 0
     \<and> vmem s' 80 = 0"
proof -
  have h: "unat (hour clock_example) < 100" "unat (minute clock_example) < 60" "unat (second clock_example) < 60"
    by (simp_all add: clock_example_def)
  have d: "digit_char 9 = CHR ''9''" by code_simp
  obtain s' where "refresh_clock clock_example = Inr s'" "line_cur s' = line_cur clock_example"
    "\<forall>i. vmem s' i = (if 72 \<le> i \<and> i < 80 then
          cell_of ((two_digits (unat (hour clock_example)) @ '':'' @ two_digits (unat (minute clock_example)) @ '':''
            @ two_digits (unat (second clock_example))) ! nat (i - 72)) 7 0 else vmem clock_example i)"
    using refresh_clock_display [OF h] by blast
  then show ?thesis by (simp add: clock_example_def two_digits_def d)
qed

section \<open>The time of day\<close>

lemma print_num_ten: "\<exists>cs. print_num sp None u 10 = Inr cs"
  using digits_loop_correct [of 10 "unat u" "[]"] by (auto simp: print_num_def Let_def)

lemma doprnt_clock_total: "\<exists>cs. doprnt 0 ''%.2u:%.2u:%.2u'' [VWord h, VWord m, VWord sc] = Inr cs"
proof -
  obtain a b c where "print_num (spec0\<lparr>prec := 2\<rparr>) None h 10 = Inr a"
    "print_num (spec0\<lparr>prec := 2\<rparr>) None m 10 = Inr b" "print_num (spec0\<lparr>prec := 2\<rparr>) None sc 10 = Inr c"
    using print_num_ten by blast
  then show ?thesis
    by (simp add: parse_spec_def parse_zero_def parse_length_def parse_prec_def skip_l_def is_digit_def
        Ctod_def to_int_of_int32_literal convert_def print_unsigned_arg_def)
qed

lemma handle_char_more: "console.more (handle_char c s) = console.more s"
  by (simp add: handle_char_def printable_char_def clear_console_def Let_def console_defs)

lemma console_putbytes_more: "console.more (console_putbytes cs s) = console.more s"
  unfolding console_putbytes_def
  by (induction cs arbitrary: s) (simp_all add: handle_char_more)

lemma timer_eq_more: "console.more s' = console.more s \<Longrightarrow>
  clock_ticks s' = clock_ticks s \<and> second s' = second s \<and> minute s' = minute s \<and> hour s' = hour s"
  for s :: "'z timer_scheme"
  by (cases s, cases s') simp

lemma refresh_clock_total:
  fixes s :: "'z timer_scheme"
  shows "\<exists>s'. refresh_clock s = Inr s' \<and> console.more s' = console.more s"
proof -
  define s2 where "s2 = move_cursor 0 72 (set_cf_cur 0 (set_ct_cur 7 s))"
  have m: "console.more s2 = console.more s" by (simp add: s2_def console_defs)
  obtain cs where "doprnt 0 ''%.2u:%.2u:%.2u'' [VWord (hour s2), VWord (ucast (minute s2)), VWord (ucast (second s2))] = Inr cs"
    using doprnt_clock_total by blast
  then have "kprintf ''%.2u:%.2u:%.2u'' [VWord (hour s2), VWord (ucast (minute s2)), VWord (ucast (second s2))] s2
      = Inr (console_putbytes cs s2)"
    by (simp add: kcon.vprintf_unbuffered)
  then show ?thesis
    by (simp add: refresh_clock_unfold [OF s2_def] set_ct_cur_def set_cf_cur_def console_putbytes_more m)
qed

definition time_of_day :: "nat \<Rightarrow> 'z timer_scheme \<Rightarrow> bool" where
  "time_of_day n s \<longleftrightarrow> unat (clock_ticks s) = n \<and> unat (second s) = n div 1000 mod 60
     \<and> unat (minute s) = n div 60000 mod 60 \<and> unat (hour s) = n div 3600000"

text \<open>\<open>n\<close> clock interrupts in a row.\<close>

fun clock_run :: "nat \<Rightarrow> 'z timer_scheme \<Rightarrow> 'z timer_scheme result" where
  "clock_run 0 s = Inr s"
| "clock_run (Suc n) s = bnd (clock_run n s) increment_clock"

lemma init_clock_time: "\<exists>s'. init_clock s = Inr s' \<and> time_of_day 0 s'"
proof -
  obtain s1 where "refresh_clock (s\<lparr>clock_ticks := 0, second := 0, minute := 0, hour := 0\<rparr>) = Inr s1"
    "console.more s1 = console.more (s\<lparr>clock_ticks := 0, second := 0, minute := 0, hour := 0\<rparr>)"
    using refresh_clock_total by blast
  with timer_eq_more [OF this(2)] show ?thesis
    by (simp add: init_clock_def outb_def time_of_day_def Let_def)
qed

lemma next_mod60: "unat (of_nat ((k + 1) mod 60) :: u8) = (k + 1) mod 60"
proof -
  have "(k + 1) mod 60 < 60" by simp
  then show ?thesis by (simp add: unat_of_nat del: mod_less_divisor)
qed

lemma carry:
  fixes m k :: nat
  assumes "0 < k"
  shows "(m + 1) mod k = (if m mod k + 1 = k then 0 else m mod k + 1)"
    and "(m + 1) div k = (if (m + 1) mod k = 0 then m div k + 1 else m div k)"
  using assms by (auto simp: mod_Suc div_Suc)

lemma increment_clock_time:
  fixes s :: "'z timer_scheme"
  assumes tod: "time_of_day n s" and lt: "n + 1 < 2 ^ 32"
  shows "\<exists>s'. increment_clock s = Inr s' \<and> time_of_day (n + 1) s'"
proof -
  define q where "q = n div 1000"
  have tod': "unat (second s) = q mod 60" "unat (minute s) = q div 60 mod 60" "unat (hour s) = q div 60 div 60"
    using tod by (simp_all add: time_of_day_def q_def div_mult2_eq [symmetric])
  have goal: "time_of_day (n + 1) s' \<longleftrightarrow> unat (clock_ticks s') = n + 1 \<and> unat (second s') = q' mod 60
     \<and> unat (minute s') = q' div 60 mod 60 \<and> unat (hour s') = q' div 60 div 60"
    if "(n + 1) div 1000 = q'" for q' and s' :: "'z timer_scheme"
    using that by (simp add: time_of_day_def div_mult2_eq [symmetric] flip: that)
  have ticks: "unat (clock_ticks s + 1) = n + 1"
    using tod lt by (simp add: time_of_day_def unat_word_ariths)
  have "unat ((clock_ticks s + 1) mod 1000) = (n + 1) mod 1000"
    unfolding unat_mod ticks by simp
  then have tz: "(clock_ticks s + 1) mod 1000 = 0 \<longleftrightarrow> (n + 1) mod 1000 = 0"
    by (metis unat_eq_zero)
  show ?thesis
  proof (cases "(n + 1) mod 1000 = 0")
    case False
    then have "(n + 1) div 1000 = q" using carry(2) [of 1000 n] by (simp add: q_def)
    with False tz ticks tod' show ?thesis
      by (simp add: increment_clock_def Let_def goal del: One_nat_def)
  next
    case True
    then have d: "(n + 1) div 1000 = q + 1" using carry(2) [of 1000 n] by (simp add: q_def)
    define s2 where "s2 = s\<lparr>clock_ticks := clock_ticks s + 1, second := of_nat ((unat (second s) + 1) mod 60)\<rparr>"
    define s3 where "s3 = (if second s2 = 0 then s2\<lparr>minute := of_nat ((unat (minute s2) + 1) mod 60)\<rparr> else s2)"
    define s4 where "s4 = (if second s2 = 0 \<and> minute s3 = 0 then s3\<lparr>hour := hour s3 + 1\<rparr> else s3)"
    have inc: "increment_clock s = refresh_clock s4"
      using True tz by (simp add: increment_clock_def Let_def s4_def s3_def s2_def)
    have sec: "unat (second s2) = (q + 1) mod 60"
      using next_mod60 [of "unat (second s)"] tod' by (simp add: s2_def mod_Suc_eq)
    then have z2: "second s2 = 0 \<longleftrightarrow> (q + 1) mod 60 = 0" by (metis unat_eq_zero)
    have min: "unat (minute s3) = (q + 1) div 60 mod 60"
      using next_mod60 [of "unat (minute s)"] tod' z2 carry(2) [of 60 q] by (simp add: s3_def s2_def mod_Suc_eq)
    then have z3: "minute s3 = 0 \<longleftrightarrow> (q + 1) div 60 mod 60 = 0" by (metis unat_eq_zero)
    have "unat (hour s + 1) = q div 60 div 60 + 1"
      using tod' lt by (simp add: unat_word_ariths q_def div_mult2_eq [symmetric])
    then have "unat (hour s4) = (q + 1) div 60 div 60"
      using tod' z2 z3 carry(2) [of 60 q] carry(2) [of 60 "q div 60"] by (auto simp: s4_def s3_def s2_def)
    moreover have "clock_ticks s4 = clock_ticks s + 1" "second s4 = second s2" "minute s4 = minute s3"
      by (simp_all add: s4_def s3_def s2_def)
    ultimately have "time_of_day (n + 1) s4"
      using sec min ticks unfolding goal [OF d] by simp
    moreover obtain s' where s': "refresh_clock s4 = Inr s'" "console.more s' = console.more s4"
      using refresh_clock_total by blast
    ultimately show ?thesis
      using timer_eq_more [OF s'(2)] inc by (simp add: time_of_day_def)
  qed
qed

text \<open>
  C36: the clock counts. From \<^verbatim>\<open>init_clock\<close> on, any number of interrupts below the wrap-around of the
  32-bit tick counter (49.7 days) succeeds, and the counters then hold the elapsed time in hours, minutes
  and seconds.
\<close>

theorem clock_run_time:
  fixes s :: "'z timer_scheme"
  assumes "n < 2 ^ 32"
  shows "\<exists>s'. bnd (init_clock s) (clock_run n) = Inr s' \<and> unat (clock_ticks s') = n
    \<and> unat (hour s') * 3600 + unat (minute s') * 60 + unat (second s') = n div 1000
    \<and> unat (minute s') < 60 \<and> unat (second s') < 60"
proof -
  obtain s0 where init: "init_clock s = Inr s0" and z: "time_of_day 0 s0" using init_clock_time by blast
  have "\<exists>s'. clock_run n s0 = Inr s' \<and> time_of_day n s'"
    using assms
  proof (induction n)
    case (Suc n)
    then obtain s1 where "clock_run n s0 = Inr s1" "time_of_day n s1" by auto
    with increment_clock_time [of n s1] Suc.prems show ?case by auto
  qed (simp add: z)
  then obtain s' where r: "clock_run n s0 = Inr s'" and t: "time_of_day n s'" by blast
  have "n div 1000 = n div 3600000 * 3600 + n div 60000 mod 60 * 60 + n div 1000 mod 60"
    using div_mult_mod_eq [of "n div 1000" 60] div_mult_mod_eq [of "n div 60000" 60]
    by (simp add: div_mult2_eq [symmetric])
  with r t init show ?thesis by (simp add: time_of_day_def)
qed

lemma clock_run_time_witness:
  "\<exists>s'. bnd (init_clock clock_example) (clock_run 90061000) = Inr s' \<and> unat (clock_ticks s') = 90061000
    \<and> unat (hour s') * 3600 + unat (minute s') * 60 + unat (second s') = 90061"
  using clock_run_time [of 90061000 clock_example] by auto

end
