(* ===== verification/Process.thy ===== *)
theory Process
  imports Link_Queue CString Timer
begin

text \<open>
  \<^verbatim>\<open>kernel/process_handler.c\<close>, first part: the process table, its queues, process identifiers, priorities, the
  scheduler, the creation of processes and timed waits.

  The links of all queues are one link heap, with a location per link field of the program: the seven
  queue heads of \<^verbatim>\<open>queue_table\<close>, the head of \<^verbatim>\<open>garbage_collection_list\<close>, and for every entry of
  \<^verbatim>\<open>process_table\<close> its fields \<^verbatim>\<open>chaining\<close>, \<^verbatim>\<open>children_chaining\<close>, \<^verbatim>\<open>children\<close> and \<^verbatim>\<open>garbage_collection\<close>. A
  pointer to a process is its index in \<^verbatim>\<open>process_table\<close>.

  \<^verbatim>\<open>ctx_sw\<close> leaves the code of one process in the middle and goes on with another. Each process therefore
  has a record of what is left to do on its kernel stack: \<^verbatim>\<open>scheduler\<close> stores it for the process it leaves.
  A function that may call \<^verbatim>\<open>scheduler\<close> gets it as its argument \<open>k\<close>; it returns \<open>Some v\<close> when it comes back
  with \<open>v\<close> and \<open>None\<close> when the processor went to another process (or to the same one, at that point of its
  code). The kernel runs with interrupts masked, so a function is one atomic step up to a switch.
\<close>

section \<open>State\<close>

datatype list_type = actionable | asleep | sem_blocked | io_blocked | waiting_child | zombie | freepid

record process =
  p_name :: addr
  p_pid :: int
  p_prio :: int
  p_awakener :: int
  p_retvalue :: int
  p_alarm_time :: int
  p_sem_blocked :: int
  p_esp :: u32
  p_user_stack_size :: u32
  p_kernel_stack :: addr
  p_user_stack :: addr
  p_father :: int
  p_child_waited :: int
  p_state :: list_type

datatype ploc = QHead list_type | GcHead | Chaining int | ChildLink int | ChildrenHead int | GcLink int

text \<open>
  What a process that is not running has left to do, by the call of \<^verbatim>\<open>scheduler\<close> it is in.
  \<^item> \<open>Running\<close>: nothing, it runs in user mode (or is \<^verbatim>\<open>idle\<close> with interrupts on);
  \<^item> \<open>UserEntry\<close>: it has never run, \<^verbatim>\<open>goto_user_mode\<close> is on its stack;
  \<^item> \<open>Return v\<close>: return \<open>v\<close> from its system call; \<open>Iret\<close>: return from an interrupt;
  \<^item> \<open>WaitSem\<close>: the end of \<^verbatim>\<open>wait\<close>; \<open>WaitChild p\<close>: the end of \<^verbatim>\<open>waitpid\<close> with \<open>p\<close> as \<^verbatim>\<open>retvalp\<close>;
  \<^item> \<open>ConsReadEnter sh a n\<close>: the code of \<^verbatim>\<open>cons_read\<close> (\<^verbatim>\<open>shell_cons_read\<close> if \<open>sh\<close>) after \<^verbatim>\<open>wait_on_io\<close>;
  \<^item> \<open>ConsReadCopy sh a n\<close>: its code after the wait for the line;
  \<^item> \<open>Collect\<close>: the loop of \<^verbatim>\<open>garbage_collector\<close>;
  \<^item> \<open>ExitTail\<close>: the last call of \<^verbatim>\<open>scheduler\<close> in \<^verbatim>\<open>exit\<close>; \<open>Dead\<close>: the \<^verbatim>\<open>while(1)\<close> after it.
\<close>

datatype cont = Running | UserEntry | Return int | Iret | WaitSem | WaitChild addr
  | ConsReadEnter bool addr u32 | ConsReadCopy bool addr u32 | Collect | ExitTail | Dead

record 'm procs = timer +
  cur_pid :: int
  read_mutex :: int
  process_table :: "int \<Rightarrow> process"
  plinks :: "ploc links"
  resume_at :: "int \<Rightarrow> cont"
  mem :: mem
  heap :: 'm
  tss_esp0 :: u32

text \<open>
  What the kernel is linked with: the allocators of \<^verbatim>\<open>mem.c\<close> and \<^verbatim>\<open>user_stack_mem.c\<close> over their own state
  (0 is failure), the addresses of assembly routines, of \<^verbatim>\<open>idle\<close>, and of two string literals. The allocators check
  the words around a block that is given back and stop the machine if they were overwritten; this is a matter of their
  state (see \<open>Kernel_Steps\<close>), the operations here go on with it.
\<close>

record 'm env =
  mem_alloc :: "u32 \<Rightarrow> 'm \<Rightarrow> addr \<times> 'm"
  mem_free :: "addr \<Rightarrow> u32 \<Rightarrow> 'm \<Rightarrow> 'm"
  user_stack_alloc :: "u32 \<Rightarrow> 'm \<Rightarrow> addr \<times> 'm"
  user_stack_free :: "addr \<Rightarrow> u32 \<Rightarrow> 'm \<Rightarrow> 'm"
  goto_user_mode :: addr
  garbage_collector_adr :: addr
  idle_adr :: addr
  str_idle :: addr
  str_garbage :: addr

abbreviation NB_PROCESS :: int where "NB_PROCESS \<equiv> 100"
abbreviation PID_GARBAGE :: int where "PID_GARBAGE \<equiv> NB_PROCESS"
abbreviation MAXPRIO :: int where "MAXPRIO \<equiv> 256"
abbreviation MAX_SIZE_PROCESS_NAME :: u32 where "MAX_SIZE_PROCESS_NAME \<equiv> 16"
abbreviation KERNEL_STACK_SIZE :: u32 where "KERNEL_STACK_SIZE \<equiv> 0x20000"
abbreviation PROCESS_RETURN_ADR :: u32 where "PROCESS_RETURN_ADR \<equiv> 0x1000009"
abbreviation USER_CS :: u32 where "USER_CS \<equiv> 0x43"
abbreviation USER_DS :: u32 where "USER_DS \<equiv> 0x4b"

text \<open>
  The number of links: 101 processes with four links each, and eight heads. A traversal that follows more
  links than there are is in a cycle that misses its head, and never ends.
\<close>

abbreviation NB_LINKS :: nat where "NB_LINKS \<equiv> 413"

section \<open>Access to the process table and its queues\<close>

text \<open>\<^verbatim>\<open>queue_entry\<close>: the process a link belongs to.\<close>

fun owner :: "ploc \<Rightarrow> int" where
  "owner (Chaining p) = p"
| "owner (ChildLink p) = p"
| "owner (GcLink p) = p"
| "owner (ChildrenHead p) = p"
| "owner (QHead t) = -1"
| "owner GcHead = -1"

abbreviation proc :: "('m, 'z) procs_scheme \<Rightarrow> int \<Rightarrow> process" where
  "proc s p \<equiv> process_table s p"

definition upd_proc :: "int \<Rightarrow> (process \<Rightarrow> process) \<Rightarrow> ('m, 'z) procs_scheme \<Rightarrow> ('m, 'z) procs_scheme" where
  "upd_proc p f s = s\<lparr>process_table := (process_table s)(p := f (process_table s p))\<rparr>"

definition on_links :: "(ploc links \<Rightarrow> ploc links result) \<Rightarrow> ('m, 'z) procs_scheme \<Rightarrow> ('m, 'z) procs_scheme result" where
  "on_links f s = bnd (f (plinks s)) (\<lambda>h. Inr (s\<lparr>plinks := h\<rparr>))"

text \<open>\<^verbatim>\<open>queue_add\<close>, \<^verbatim>\<open>queue_del\<close>, \<^verbatim>\<open>queue_out\<close> and \<^verbatim>\<open>queue_out_bot\<close> on processes; the last two give the process.\<close>

definition proc_add :: "ploc \<Rightarrow> ploc \<Rightarrow> (process \<Rightarrow> int) \<Rightarrow> ('m, 'z) procs_scheme \<Rightarrow> ('m, 'z) procs_scheme result" where
  "proc_add head l key s = on_links (\<lambda>h. queue_add NB_LINKS h (\<lambda>e. key (proc s (owner e))) head l) s"

definition proc_del :: "ploc \<Rightarrow> ('m, 'z) procs_scheme \<Rightarrow> ('m, 'z) procs_scheme result" where
  "proc_del l s = on_links (\<lambda>h. queue_del h l) s"

definition proc_out :: "ploc \<Rightarrow> ('m, 'z) procs_scheme \<Rightarrow> (int \<times> ('m, 'z) procs_scheme) result" where
  "proc_out head s = bnd (queue_out (plinks s) head) (\<lambda>(r, h). case r of
     None \<Rightarrow> Inl NullDeref | Some l \<Rightarrow> Inr (owner l, s\<lparr>plinks := h\<rparr>))"

definition proc_out_bot :: "ploc \<Rightarrow> ('m, 'z) procs_scheme \<Rightarrow> (int \<times> ('m, 'z) procs_scheme) result" where
  "proc_out_bot head s = bnd (queue_out_bot (plinks s) head) (\<lambda>(r, h). case r of
     None \<Rightarrow> Inl NullDeref | Some l \<Rightarrow> Inr (owner l, s\<lparr>plinks := h\<rparr>))"

section \<open>Process identifiers\<close>

definition init_free_entry :: "int \<Rightarrow> ('m, 'z) procs_scheme \<Rightarrow> ('m, 'z) procs_scheme result" where
  "init_free_entry i s =
     (let s1 = upd_proc i (\<lambda>p. p\<lparr>p_pid := i, p_state := freepid, p_child_waited := 0, p_awakener := -1,
                 p_sem_blocked := -1\<rparr>) s;
          s2 = s1\<lparr>plinks := INIT_LINK (INIT_LINK (plinks s1) (Chaining i)) (ChildLink i)\<rparr>
      in proc_add (QHead freepid) (Chaining i) p_pid s2)"

definition init_free_list :: "('m, 'z) procs_scheme \<Rightarrow> ('m, 'z) procs_scheme result" where
  "init_free_list s = mfold init_free_entry [0..NB_PROCESS - 1] s"

definition obtain_pid :: "('m, 'z) procs_scheme \<Rightarrow> (int \<times> ('m, 'z) procs_scheme) result" where
  "obtain_pid s =
     (if queue_empty (plinks s) (QHead freepid) then Inr (-1, s)
      else bnd (proc_out_bot (QHead freepid) s) (\<lambda>(p, s1). Inr (p_pid (proc s1 p), s1)))"

definition free_name :: "'m env \<Rightarrow> int \<Rightarrow> ('m, 'z) procs_scheme \<Rightarrow> ('m, 'z) procs_scheme" where
  "free_name E p s = s\<lparr>heap := mem_free E (p_name (proc s p))
     (strnlen (mem s) (p_name (proc s p)) MAX_SIZE_PROCESS_NAME + 1) (heap s)\<rparr>"

definition free_pid :: "'m env \<Rightarrow> int \<Rightarrow> ('m, 'z) procs_scheme \<Rightarrow> ('m, 'z) procs_scheme result" where
  "free_pid E pid s =
     (let s1 = free_name E pid s;
          s2 = upd_proc pid (\<lambda>p. p\<lparr>p_awakener := -1, p_sem_blocked := -1, p_state := freepid\<rparr>) s1
      in proc_add (QHead freepid) (Chaining pid) p_pid s2)"

definition find_pid :: "ploc \<Rightarrow> int \<Rightarrow> ('m, 'z) procs_scheme \<Rightarrow> int option result" where
  "find_pid head pid s = bnd (queue_for_each NB_LINKS (plinks s) head (\<lambda>l. p_pid (proc s (owner l)) = pid))
     (\<lambda>r. Inr (map_option owner r))"

definition find_pid_children :: "ploc \<Rightarrow> int \<Rightarrow> ('m, 'z) procs_scheme \<Rightarrow> int option result" where
  "find_pid_children head pid s = bnd (queue_for_each NB_LINKS (plinks s) head (\<lambda>l. p_pid (proc s (owner l)) = pid))
     (\<lambda>r. Inr (map_option owner r))"

definition getpid :: "('m, 'z) procs_scheme \<Rightarrow> int" where
  "getpid s = cur_pid s"

text \<open>\<^verbatim>\<open>queue_del\<close> on the result of a search: a null pointer faults.\<close>

definition del_found :: "(int \<Rightarrow> ploc) \<Rightarrow> int option \<Rightarrow> ('m, 'z) procs_scheme \<Rightarrow> ('m, 'z) procs_scheme result" where
  "del_found fld r s = (case r of None \<Rightarrow> Inl NullDeref | Some p \<Rightarrow> proc_del (fld p) s)"

section \<open>The scheduler\<close>

definition garbage_collection_needed :: "('m, 'z) procs_scheme \<Rightarrow> bool" where
  "garbage_collection_needed s = (\<not> queue_empty (plinks s) GcHead)"

fun wake_sleepers :: "nat \<Rightarrow> int \<Rightarrow> ('m, 'z) procs_scheme \<Rightarrow> ('m, 'z) procs_scheme result" where
  "wake_sleepers 0 time s = Inl Hang"
| "wake_sleepers (Suc n) time s =
     (case queue_bottom (plinks s) (QHead asleep) of
        None \<Rightarrow> Inr s
      | Some l \<Rightarrow>
          if p_alarm_time (proc s (owner l)) < time then
            bnd (proc_out_bot (QHead asleep) s) (\<lambda>(cour, s1).
              bnd (proc_add (QHead actionable) (Chaining cour) p_prio (upd_proc cour (\<lambda>p. p\<lparr>p_alarm_time := 0\<rparr>) s1))
                (\<lambda>s2. wake_sleepers n time (upd_proc cour (\<lambda>p. p\<lparr>p_state := actionable\<rparr>) s2)))
          else Inr s)"

definition requeue_current :: "int \<Rightarrow> ('m, 'z) procs_scheme \<Rightarrow> ('m, 'z) procs_scheme result" where
  "requeue_current old_pid s =
     (if p_state (proc s old_pid) = actionable \<and> old_pid \<noteq> PID_GARBAGE
      then proc_add (QHead actionable) (Chaining old_pid) p_prio s else Inr s)"

definition elect :: "('m, 'z) procs_scheme \<Rightarrow> ('m, 'z) procs_scheme result" where
  "elect s =
     (if garbage_collection_needed s then Inr (s\<lparr>cur_pid := PID_GARBAGE\<rparr>)
      else bnd (proc_out (QHead actionable) s) (\<lambda>(next_p, s1). Inr (s1\<lparr>cur_pid := p_pid (proc s1 next_p)\<rparr>)))"

definition scheduler :: "cont \<Rightarrow> ('m, 'z) procs_scheme \<Rightarrow> ('m, 'z) procs_scheme result" where
  "scheduler k s =
     (let old_pid = cur_pid s; time = to_int (current_clock s) in
      bnd (wake_sleepers NB_LINKS time s) (\<lambda>s1.
      bnd (requeue_current old_pid s1) (\<lambda>s2.
      bnd (elect s2) (\<lambda>s3.
        Inr (s3\<lparr>tss_esp0 := p_kernel_stack (proc s3 (cur_pid s3)) + KERNEL_STACK_SIZE,
                resume_at := (resume_at s3)(old_pid := k)\<rparr>)))))"

text \<open>A call of \<^verbatim>\<open>scheduler\<close> as the last action of a function.\<close>

definition reschedule :: "cont \<Rightarrow> ('m, 'z) procs_scheme \<Rightarrow> ('r option \<times> ('m, 'z) procs_scheme) result" where
  "reschedule k s = bnd (scheduler k s) (\<lambda>s1. Inr (None, s1))"

section \<open>Priorities\<close>

definition getprio :: "int \<Rightarrow> ('m, 'z) procs_scheme \<Rightarrow> int" where
  "getprio pid s =
     (if pid < 0 \<or> pid \<ge> NB_PROCESS then -1
      else if p_state (proc s pid) = freepid then -1
      else if p_state (proc s pid) = zombie then -1
      else p_prio (proc s pid))"

definition chprio :: "int \<Rightarrow> int \<Rightarrow> ('m, 'z) procs_scheme \<Rightarrow> (int option \<times> ('m, 'z) procs_scheme) result" where
  "chprio pid newprio s =
     (if pid < 0 \<or> pid \<ge> NB_PROCESS then Inr (Some (-1), s)
      else if p_state (proc s pid) = freepid then Inr (Some (-1), s)
      else if p_state (proc s pid) = zombie then Inr (Some (-1), s)
      else if newprio < 1 \<or> newprio > MAXPRIO then Inr (Some (-1), s)
      else
        (let old = p_prio (proc s pid);
             s1 = upd_proc pid (\<lambda>p. p\<lparr>p_prio := newprio\<rparr>) s
         in bnd (if pid \<noteq> cur_pid s1
                 then bnd (proc_del (Chaining pid) s1)
                        (\<lambda>s2. proc_add (QHead (p_state (proc s2 pid))) (Chaining pid) p_prio s2)
                 else Inr s1)
              (\<lambda>s3. if pid \<noteq> cur_pid s3 \<and> newprio > getprio (cur_pid s3) s3 then reschedule (Return old) s3
                     else if pid = cur_pid s3 \<and> newprio < old then reschedule (Return old) s3
                     else Inr (Some old, s3))))"

section \<open>Creation of a process\<close>

text \<open>The words \<^verbatim>\<open>start\<close> puts on the user stack and on the kernel stack of a new process.\<close>

definition init_user_stack :: "addr \<Rightarrow> u32 \<Rightarrow> u32 \<Rightarrow> mem \<Rightarrow> mem" where
  "init_user_stack stack stack_size arg m =
     store32 (store32 m (stack + stack_size - 8) PROCESS_RETURN_ADR) (stack + stack_size - 4) arg"

definition init_kernel_stack :: "'m env \<Rightarrow> addr \<Rightarrow> u32 \<Rightarrow> u32 \<Rightarrow> mem \<Rightarrow> mem" where
  "init_kernel_stack E stack ptfunc user_esp m =
     (let top = stack + KERNEL_STACK_SIZE;
          m1 = store32 m (top - 24) (goto_user_mode E);
          m2 = store32 m1 (top - 20) ptfunc;
          m3 = store32 m2 (top - 16) USER_CS;
          m4 = store32 m3 (top - 12) 0x202;
          m5 = store32 m4 (top - 8) user_esp
      in store32 m5 (top - 4) USER_DS)"

text \<open>The parts of \<^verbatim>\<open>start\<close> after both stacks are allocated, which cannot fail any more: queueing, and filiation.\<close>

definition start_filiation :: "int \<Rightarrow> int \<Rightarrow> ('m, 'z) procs_scheme \<Rightarrow> (int option \<times> ('m, 'z) procs_scheme) result" where
  "start_filiation new_pid prio s =
     (let s1 = s\<lparr>plinks := INIT_LIST_HEAD (INIT_LINK (plinks s) (ChildLink new_pid)) (ChildrenHead new_pid)\<rparr>;
          s2 = upd_proc new_pid (\<lambda>p. p\<lparr>p_child_waited := 0, p_father := cur_pid s1\<rparr>) s1
      in bnd (proc_add (ChildrenHead (cur_pid s2)) (ChildLink new_pid) p_prio s2) (\<lambda>s3.
         let s4 = s3\<lparr>resume_at := (resume_at s3)(new_pid := UserEntry)\<rparr>
         in if cur_pid s4 \<noteq> 0 \<and> p_prio (proc s4 (cur_pid s4)) < prio then reschedule (Return new_pid) s4
            else Inr (Some new_pid, s4)))"

definition start_enqueue :: "int \<Rightarrow> int \<Rightarrow> ('m, 'z) procs_scheme \<Rightarrow> (int option \<times> ('m, 'z) procs_scheme) result" where
  "start_enqueue new_pid prio s =
     (let s1 = s\<lparr>plinks := INIT_LINK (plinks s) (GcLink new_pid)\<rparr>;
          s2 = upd_proc new_pid (\<lambda>p. p\<lparr>p_pid := new_pid, p_alarm_time := 0, p_prio := prio, p_retvalue := 0,
                 p_state := actionable\<rparr>) s1;
          s3 = s2\<lparr>plinks := INIT_LINK (plinks s2) (Chaining new_pid)\<rparr>
      in bnd (proc_add (QHead actionable) (Chaining new_pid) p_prio s3) (start_filiation new_pid prio))"

definition start :: "'m env \<Rightarrow> u32 \<Rightarrow> u32 \<Rightarrow> int \<Rightarrow> addr \<Rightarrow> u32 \<Rightarrow> ('m, 'z) procs_scheme
    \<Rightarrow> (int option \<times> ('m, 'z) procs_scheme) result" where
  "start E ptfunc ssize prio name arg s =
     (if ssize > 0xffffffff - 2 * 4 then Inr (Some (-1), s)
      else if prio < 1 \<or> prio > MAXPRIO then Inr (Some (-1), s)
      else bnd (obtain_pid s) (\<lambda>(new_pid, s1).
        if new_pid = -1 then Inr (Some (-1), s1)
        else
          (let (nm, hp1) = mem_alloc E (strnlen (mem s1) name MAX_SIZE_PROCESS_NAME + 1) (heap s1);
               s2 = upd_proc new_pid (\<lambda>p. p\<lparr>p_name := nm\<rparr>) (s1\<lparr>heap := hp1\<rparr>)
           in if nm = 0 then Inr (Some (-1), s2)
           else
             (let s3 = s2\<lparr>mem := strncpy (mem s2) nm name (strnlen (mem s2) name MAX_SIZE_PROCESS_NAME + 1)\<rparr>;
                  stack_size = ssize + 2 * 4;
                  (ustack, hp3) = user_stack_alloc E stack_size (heap s3);
                  s4 = s3\<lparr>heap := hp3\<rparr>
              in if ustack = 0 then Inr (Some (-1), free_name E new_pid s4)
              else
                (let s5 = upd_proc new_pid (\<lambda>p. p\<lparr>p_user_stack_size := stack_size, p_user_stack := ustack\<rparr>) s4;
                     s6 = s5\<lparr>mem := init_user_stack ustack stack_size arg (mem s5)\<rparr>;
                     (kstack, hp6) = mem_alloc E KERNEL_STACK_SIZE (heap s6);
                     s7 = s6\<lparr>heap := hp6\<rparr>
                 in if kstack = 0 then
                      (let s8 = free_name E new_pid s7 in
                       Inr (Some (-1), s8\<lparr>heap := user_stack_free E (p_user_stack (proc s8 new_pid))
                                             (p_user_stack_size (proc s8 new_pid)) (heap s8)\<rparr>))
                    else
                      (let s8 = upd_proc new_pid (\<lambda>p. p\<lparr>p_kernel_stack := kstack,
                                   p_esp := kstack + KERNEL_STACK_SIZE - 6 * 4\<rparr>) s7;
                           s9 = s8\<lparr>mem := init_kernel_stack E kstack ptfunc
                                   (p_user_stack (proc s8 new_pid) + p_user_stack_size (proc s8 new_pid) - 2 * 4) (mem s8)\<rparr>
                       in start_enqueue new_pid prio s9))))))"

section \<open>Timed waits\<close>

definition wait_clock :: "u32 \<Rightarrow> cont \<Rightarrow> ('m, 'z) procs_scheme \<Rightarrow> (unit option \<times> ('m, 'z) procs_scheme) result" where
  "wait_clock clock k s =
     (if clock > current_clock s then
        (let s1 = upd_proc (cur_pid s) (\<lambda>p. p\<lparr>p_alarm_time := to_int clock\<rparr>) s in
         bnd (proc_add (QHead asleep) (Chaining (cur_pid s1)) p_alarm_time s1) (\<lambda>s2.
           reschedule k (upd_proc (cur_pid s2) (\<lambda>p. p\<lparr>p_state := asleep\<rparr>) s2)))
      else Inr (Some (), s))"

definition sleep :: "u32 \<Rightarrow> cont \<Rightarrow> ('m, 'z) procs_scheme \<Rightarrow> (unit option \<times> ('m, 'z) procs_scheme) result" where
  "sleep time k s = wait_clock (time * of_nat CLOCKFREQ) k s"

section \<open>Initialisation\<close>

definition init_scheduler :: "'m env \<Rightarrow> ('m, 'z) procs_scheme \<Rightarrow> ('m, 'z) procs_scheme result" where
  "init_scheduler E s =
     bnd (start E (idle_adr E) 0 1 (str_idle E) 0 s) (\<lambda>(r, s1).
       proc_del (Chaining 0) (upd_proc 0 (\<lambda>p. p\<lparr>p_prio := 0\<rparr>) s1))"

definition init_garbage_collector :: "'m env \<Rightarrow> ('m, 'z) procs_scheme \<Rightarrow> ('m, 'z) procs_scheme result" where
  "init_garbage_collector E s =
     (let (nm, hp1) = mem_alloc E 18 (heap s);
          s1 = upd_proc PID_GARBAGE (\<lambda>p. p\<lparr>p_name := nm\<rparr>) (s\<lparr>heap := hp1\<rparr>)
      in case strcpy (mem s1) nm (str_garbage E) of
        None \<Rightarrow> Inl Hang
      | Some m1 \<Rightarrow>
         (let s2 = upd_proc PID_GARBAGE (\<lambda>p. p\<lparr>p_pid := PID_GARBAGE\<rparr>) (s1\<lparr>mem := m1\<rparr>);
              (kstack, hp2) = mem_alloc E KERNEL_STACK_SIZE (heap s2);
              s3 = upd_proc PID_GARBAGE (\<lambda>p. p\<lparr>p_kernel_stack := kstack, p_esp := kstack + KERNEL_STACK_SIZE - 4\<rparr>)
                     (s2\<lparr>heap := hp2\<rparr>)
          in Inr (s3\<lparr>mem := store32 (mem s3) (kstack + KERNEL_STACK_SIZE - 4) (garbage_collector_adr E),
                     resume_at := (resume_at s3)(PID_GARBAGE := Collect)\<rparr>)))"

definition init_process_handling :: "'m env \<Rightarrow> ('m, 'z) procs_scheme \<Rightarrow> ('m, 'z) procs_scheme result" where
  "init_process_handling E s =
     bnd (init_free_list s) (\<lambda>s1. bnd (init_scheduler E s1) (\<lambda>s2. init_garbage_collector E s2))"

end
