(* ===== verification/Process_Inv.thy ===== *)
theory Process_Inv
  imports Process
begin

text \<open>
  The invariant of the process table and its queues, and what the operations of \<^verbatim>\<open>Process\<close> do to it: the
  pointer operations on the seven state queues, the garbage list and the lists of children are list
  operations, and the scheduler is a function of these lists.
\<close>

section \<open>The queues of the process table\<close>

interpretation pq: link_family QHead Chaining
  by unfold_locales auto

interpretation gq: link_family "\<lambda>_ :: unit. GcHead" GcLink
  by unfold_locales auto

interpretation cq: link_family ChildrenHead ChildLink
  by unfold_locales auto

definition pids :: "int set" where
  "pids = {0..<NB_PROCESS}"

lemma pids_iff: "p \<in> pids \<longleftrightarrow> 0 \<le> p \<and> p < NB_PROCESS"
  by (simp add: pids_def)

lemma zero_pid [simp]: "0 \<in> pids" and garbage_pid [simp]: "PID_GARBAGE \<notin> pids"
  by (simp_all add: pids_def)

text \<open>
  \<open>Q\<close> gives the processes of each state queue, in order; \<open>R\<close> holds the processes that are in no queue because
  they run, or because an operation is moving them. Every other process is in the queue of its state; a
  free identifier may also be lost (\<^verbatim>\<open>start\<close> loses it when an allocation fails).
\<close>

definition sched_ok :: "ploc links \<Rightarrow> (int \<Rightarrow> process) \<Rightarrow> (list_type \<Rightarrow> int list) \<Rightarrow> int set \<Rightarrow> bool" where
  "sched_ok h pt Q R \<longleftrightarrow> queues QHead Chaining h pids Q
     \<and> (\<forall>p \<in> pids. p_pid (pt p) = p)
     \<and> (\<forall>t. \<forall>p \<in> set (Q t). p \<notin> R \<and> p_state (pt p) = t)
     \<and> (\<forall>p \<in> pids - R. p_state (pt p) \<noteq> freepid \<longrightarrow> p \<in> set (Q (p_state (pt p))))"

text \<open>\<open>G\<close>: the garbage list.\<close>

definition gc_ok :: "ploc links \<Rightarrow> int list \<Rightarrow> bool" where
  "gc_ok h G \<longleftrightarrow> queues (\<lambda>_ :: unit. GcHead) GcLink h pids (\<lambda>_. G)"

text \<open>Two link heaps that agree outside the state queues.\<close>

definition same_rest :: "ploc links \<Rightarrow> ploc links \<Rightarrow> bool" where
  "same_rest h h' \<longleftrightarrow> (\<forall>l \<in> pq.outside. h' l = h l)"

lemma same_rest_refl [simp]: "same_rest h h"
  by (simp add: same_rest_def)

lemma same_rest_trans [trans]: "same_rest h h1 \<Longrightarrow> same_rest h1 h2 \<Longrightarrow> same_rest h h2"
  by (simp add: same_rest_def)

lemma same_restD:
  assumes "same_rest h h'"
  shows "h' GcHead = h GcHead" "h' (GcLink p) = h (GcLink p)" "h' (ChildLink p) = h (ChildLink p)"
    "h' (ChildrenHead p) = h (ChildrenHead p)"
  using assms by (auto simp: same_rest_def pq.outside_def)

lemma gc_ok_frame: "same_rest h h' \<Longrightarrow> gc_ok h' G \<longleftrightarrow> gc_ok h G"
  unfolding gc_ok_def by (rule queues_frame) (simp_all add: same_restD)

lemma card_pids: "finite pids" "card pids < NB_LINKS"
  by (simp_all add: pids_def)

lemma sched_okD:
  assumes "sched_ok h pt Q R"
  shows "queues QHead Chaining h pids Q" "p \<in> pids \<Longrightarrow> p_pid (pt p) = p"
    "p \<in> set (Q t) \<Longrightarrow> p \<in> pids" "p \<in> set (Q t) \<Longrightarrow> p_state (pt p) = t" "p \<in> set (Q t) \<Longrightarrow> p \<notin> R"
    "p \<in> pids \<Longrightarrow> p \<notin> R \<Longrightarrow> p_state (pt p) \<noteq> freepid \<Longrightarrow> p \<in> set (Q (p_state (pt p)))"
    "p \<in> R \<Longrightarrow> in_no_queue Q p"
  using assms queuesD(2) [of QHead Chaining h pids Q t] by (auto simp: sched_ok_def in_no_queue_def)

lemma sched_ok_distinct: "sched_ok h pt Q R \<Longrightarrow> distinct (Q t)"
  by (rule queues_distinct [OF sched_okD(1)])

text \<open>Changes of the table that the queues do not see.\<close>

lemma sched_ok_table:
  assumes "sched_ok h pt Q R"
    and "\<And>p. p \<in> pids \<Longrightarrow> p_pid (pt' p) = p_pid (pt p) \<and> (p \<in> R \<or> p_state (pt' p) = p_state (pt p))"
  shows "sched_ok h pt' Q R"
proof -
  have st: "p_state (pt' p) = p_state (pt p)" if "p \<in> pids" "p \<notin> R" for p
    using assms(2) [OF that(1)] that(2) by blast
  have pid: "p_pid (pt' p) = p" if "p \<in> pids" for p
    using assms(2) [OF that] sched_okD(2) [OF assms(1) that] by simp
  show ?thesis
    unfolding sched_ok_def
  proof (intro conjI allI ballI impI)
    show "queues QHead Chaining h pids Q" by (rule sched_okD(1) [OF assms(1)])
    fix p t assume p: "p \<in> set (Q t)"
    then show "p \<notin> R" by (rule sched_okD(5) [OF assms(1)])
    then show "p_state (pt' p) = t"
      using st sched_okD(3,4) [OF assms(1) p] by simp
  next
    fix p assume "p \<in> pids - R" "p_state (pt' p) \<noteq> freepid"
    then show "p \<in> set (Q (p_state (pt' p)))" using st [of p] sched_okD(6) [OF assms(1), of p] by simp
  qed (rule pid)
qed

lemma sched_ok_upd:
  assumes "sched_ok h pt Q R" and "p_pid p' = p_pid (pt p)" and "p \<in> R \<or> p \<notin> pids \<or> p_state p' = p_state (pt p)"
  shows "sched_ok h (pt(p := p')) Q R"
  using assms(2,3) by (intro sched_ok_table [OF assms(1)]) auto

section \<open>The queue operations on the lists\<close>

lemma sched_ok_insert:
  assumes "sched_ok h pt Q R" and "p \<in> R" and "p \<in> pids" and "p_state (pt p) = t"
    and "queues QHead Chaining h' pids (Q(t := key_insert k p (Q t)))"
  shows "sched_ok h' pt (Q(t := key_insert k p (Q t))) (R - {p})"
  unfolding sched_ok_def
proof (intro conjI allI ballI impI)
  let ?Q = "Q(t := key_insert k p (Q t))"
  fix q t' assume q: "q \<in> set (?Q t')"
  show "q \<notin> R - {p}" "p_state (pt q) = t'"
    using q sched_okD(4,5) [OF assms(1), of q t'] assms(4) by (auto split: if_splits)
next
  fix q assume "q \<in> pids - (R - {p})" "p_state (pt q) \<noteq> freepid"
  then show "q \<in> set ((Q(t := key_insert k p (Q t))) (p_state (pt q)))"
    using sched_okD(6) [OF assms(1), of q] assms(4) by (cases "q = p") auto
qed (use assms sched_okD(2) [OF assms(1)] in auto)

lemma sched_ok_remove:
  assumes "sched_ok h pt Q R" and "p \<in> set (Q t)" and "set xs = set (Q t) - {p}"
    and "queues QHead Chaining h' pids (Q(t := xs))"
  shows "sched_ok h' pt (Q(t := xs)) (insert p R)"
  unfolding sched_ok_def
proof (intro conjI allI ballI impI)
  fix q t' assume q: "q \<in> set ((Q(t := xs)) t')"
  then have "q \<in> set (Q t')" using assms(3) by (auto split: if_splits)
  moreover have "q \<noteq> p"
  proof
    assume "q = p"
    then have "t' = t" using queues_unique_queue [OF sched_okD(1) [OF assms(1)] _ assms(2)] calculation by simp
    with q \<open>q = p\<close> assms(3) show False by simp
  qed
  ultimately show "q \<notin> insert p R" "p_state (pt q) = t'" using sched_okD(4,5) [OF assms(1)] by auto
next
  fix q assume "q \<in> pids - insert p R" "p_state (pt q) \<noteq> freepid"
  then show "q \<in> set ((Q(t := xs)) (p_state (pt q)))"
    using sched_okD(6) [OF assms(1), of q] assms(3) by auto
qed (use assms sched_okD(2) [OF assms(1)] in auto)

lemma proc_add_ok:
  assumes ok: "sched_ok (plinks s) pt Q R" and p: "p \<in> R" "p \<in> pids" and t: "p_state (pt p) = t"
    and key: "\<And>x. key (proc s x) = k x"
    and Q': "Q' = Q(t := key_insert k p (Q t))"
  shows "\<exists>h. proc_add (QHead t) (Chaining p) key s = Inr (s\<lparr>plinks := h\<rparr>)
    \<and> sched_ok h pt Q' (R - {p}) \<and> same_rest (plinks s) h"
proof -
  obtain h where h: "queue_add NB_LINKS (plinks s) (\<lambda>e. key (proc s (owner e))) (QHead t) (Chaining p) = Inr h"
    "queues QHead Chaining h pids Q'" "\<forall>l \<in> pq.outside. h l = plinks s l"
    using pq.queues_add [OF sched_okD(1) [OF ok] card_pids p(2) sched_okD(7) [OF ok p(1)],
        of "\<lambda>e. key (proc s (owner e))" t] by (auto simp: Q' key)
  then have "sched_ok h pt Q' (R - {p})" unfolding Q' by (intro sched_ok_insert [OF ok p t]) simp
  with h show ?thesis by (auto simp: proc_add_def on_links_def same_rest_def)
qed

lemma proc_del_ok:
  assumes ok: "sched_ok (plinks s) pt Q R" and p: "p \<in> set (Q t)"
  shows "\<exists>h. proc_del (Chaining p) s = Inr (s\<lparr>plinks := h\<rparr>)
    \<and> sched_ok h pt (Q(t := remove1 p (Q t))) (insert p R) \<and> same_rest (plinks s) h"
proof -
  obtain h where "queue_del (plinks s) (Chaining p) = Inr h" "queues QHead Chaining h pids (Q(t := remove1 p (Q t)))"
    "\<forall>l \<in> pq.outside. h l = plinks s l"
    using pq.queues_del [OF sched_okD(1) [OF ok] p] by blast
  then show ?thesis
    using sched_ok_remove [OF ok p] sched_ok_distinct [OF ok]
    by (auto simp: proc_del_def on_links_def same_rest_def)
qed

lemma proc_out_ok:
  assumes ok: "sched_ok (plinks s) pt Q R" and ne: "Q t \<noteq> []"
  shows "\<exists>h. proc_out (QHead t) s = Inr (last (Q t), s\<lparr>plinks := h\<rparr>)
    \<and> sched_ok h pt (Q(t := butlast (Q t))) (insert (last (Q t)) R) \<and> same_rest (plinks s) h"
proof -
  obtain h where "queue_out (plinks s) (QHead t) = Inr (Some (Chaining (last (Q t))), h)"
    "queues QHead Chaining h pids (Q(t := butlast (Q t)))" "\<forall>l \<in> pq.outside. h l = plinks s l"
    using pq.queues_out [OF sched_okD(1) [OF ok] ne] by blast
  then show ?thesis
    using sched_ok_remove [OF ok last_in_set [OF ne]] sched_ok_distinct [OF ok] ne
    by (auto simp: proc_out_def same_rest_def set_butlast_distinct)
qed

lemma proc_out_bot_ok:
  assumes ok: "sched_ok (plinks s) pt Q R" and ne: "Q t \<noteq> []"
  shows "\<exists>h. proc_out_bot (QHead t) s = Inr (hd (Q t), s\<lparr>plinks := h\<rparr>)
    \<and> sched_ok h pt (Q(t := tl (Q t))) (insert (hd (Q t)) R) \<and> same_rest (plinks s) h"
proof -
  obtain h where h: "queue_out_bot (plinks s) (QHead t) = Inr (Some (Chaining (hd (Q t))), h)"
    "queues QHead Chaining h pids (Q(t := tl (Q t)))" "\<forall>l \<in> pq.outside. h l = plinks s l"
    using pq.queues_out_bot [OF sched_okD(1) [OF ok] ne] by blast
  have "set (tl (Q t)) = set (Q t) - {hd (Q t)}"
    using sched_ok_distinct [OF ok, of t] ne by (cases "Q t") auto
  with h show ?thesis
    using sched_ok_remove [OF ok hd_in_set [OF ne]] by (auto simp: proc_out_bot_def same_rest_def)
qed

lemma find_pid_ok:
  assumes ok: "sched_ok (plinks s) (process_table s) Q R"
  shows "find_pid (QHead t) pid s = Inr (if pid \<in> set (Q t) then Some pid else None)"
proof -
  have "find (\<lambda>p. p_pid (proc s p) = pid) xs = (if pid \<in> set xs then Some pid else None)"
    if "set xs \<subseteq> pids" for xs
    using that by (induction xs) (auto simp: sched_okD(2) [OF ok])
  moreover have "set (Q t) \<subseteq> pids" using sched_okD(3) [OF ok] by blast
  ultimately show ?thesis
    by (simp add: find_pid_def pq.queues_for_each(1) [OF sched_okD(1) [OF ok] card_pids] option.map_comp o_def)
qed

section \<open>The scheduler on the lists\<close>

definition due :: "int \<Rightarrow> (int \<Rightarrow> process) \<Rightarrow> (list_type \<Rightarrow> int list) \<Rightarrow> int list" where
  "due time pt Q = takeWhile (\<lambda>p. p_alarm_time (pt p) < time) (Q asleep)"

definition wake_table :: "int list \<Rightarrow> (int \<Rightarrow> process) \<Rightarrow> int \<Rightarrow> process" where
  "wake_table D pt = (\<lambda>p. if p \<in> set D then (pt p)\<lparr>p_alarm_time := 0, p_state := actionable\<rparr> else pt p)"

abbreviation prio_insert :: "(int \<Rightarrow> process) \<Rightarrow> int \<Rightarrow> int list \<Rightarrow> int list" where
  "prio_insert pt \<equiv> key_insert (\<lambda>p. p_prio (pt p))"

definition wake_queues :: "int list \<Rightarrow> (int \<Rightarrow> process) \<Rightarrow> (list_type \<Rightarrow> int list) \<Rightarrow> list_type \<Rightarrow> int list" where
  "wake_queues D pt Q = Q(asleep := drop (length D) (Q asleep), actionable := fold (prio_insert pt) D (Q actionable))"

lemma wake_table_fields [simp]:
  "p_prio (wake_table D pt p) = p_prio (pt p)" "p_pid (wake_table D pt p) = p_pid (pt p)"
  "p_kernel_stack (wake_table D pt p) = p_kernel_stack (pt p)" "p_father (wake_table D pt p) = p_father (pt p)"
  "p_sem_blocked (wake_table D pt p) = p_sem_blocked (pt p)" "p_child_waited (wake_table D pt p) = p_child_waited (pt p)"
  "p_awakener (wake_table D pt p) = p_awakener (pt p)" "p_retvalue (wake_table D pt p) = p_retvalue (pt p)"
  by (simp_all add: wake_table_def)

lemma p_state_wake_table: "p_state (wake_table D pt p) = (if p \<in> set D then actionable else p_state (pt p))"
  by (simp add: wake_table_def)

lemma wake_sleepers_ok:
  assumes "sched_ok (plinks s) (process_table s) Q R" and "Q asleep = D @ rest"
    and "\<forall>p \<in> set D. p_alarm_time (proc s p) < time" and "rest \<noteq> [] \<longrightarrow> \<not> p_alarm_time (proc s (hd rest)) < time"
    and "length D < n"
  shows "\<exists>h. wake_sleepers n time s = Inr (s\<lparr>plinks := h, process_table := wake_table D (process_table s)\<rparr>)
    \<and> sched_ok h (wake_table D (process_table s)) (wake_queues D (process_table s) Q) R \<and> same_rest (plinks s) h"
  using assms
proof (induction D arbitrary: n s Q)
  case Nil
  obtain m where n: "n = Suc m" using Nil.prems(5) by (cases n) auto
  have "queue_bottom (plinks s) (QHead asleep) = (if rest = [] then None else Some (Chaining (hd rest)))"
    using queue_bottom_dll [OF queuesD(1) [OF sched_okD(1) [OF Nil.prems(1)]], of asleep] Nil.prems(2)
    by (simp add: hd_map)
  moreover have "wake_table [] (process_table s) = process_table s" by (simp add: wake_table_def)
  moreover have "wake_queues [] (process_table s) Q = Q" by (simp add: wake_queues_def)
  ultimately show ?case using Nil.prems(1,4) by (intro exI [of _ "plinks s"]) (simp add: n)
next
  case (Cons d D)
  let ?pt = "process_table s"
  obtain m where n: "n = Suc m" using Cons.prems(5) by (cases n) auto
  have ne: "Q asleep \<noteq> []" "hd (Q asleep) = d" "tl (Q asleep) = D @ rest" using Cons.prems(2) by simp_all
  have dq: "d \<in> set (Q asleep)" "d \<notin> set D" "distinct (Q asleep)"
    using Cons.prems(2) sched_ok_distinct [OF Cons.prems(1), of asleep] by auto
  note d = sched_okD(3,4,5) [OF Cons.prems(1) dq(1)]
  obtain h1 where h1: "proc_out_bot (QHead asleep) s = Inr (d, s\<lparr>plinks := h1\<rparr>)"
    "sched_ok h1 ?pt (Q(asleep := D @ rest)) (insert d R)" "same_rest (plinks s) h1"
    using proc_out_bot_ok [OF Cons.prems(1) ne(1)] ne by auto
  define pt1 where "pt1 = ?pt(d := (?pt d)\<lparr>p_alarm_time := 0, p_state := actionable\<rparr>)"
  define s1 where "s1 = upd_proc d (\<lambda>p. p\<lparr>p_alarm_time := 0\<rparr>) (s\<lparr>plinks := h1\<rparr>)"
  define Q1 where "Q1 = Q(asleep := D @ rest, actionable := prio_insert ?pt d (Q actionable))"
  have ok1: "sched_ok (plinks s1) pt1 (Q(asleep := D @ rest)) (insert d R)"
    using sched_ok_upd [OF h1(2), of "(?pt d)\<lparr>p_alarm_time := 0, p_state := actionable\<rparr>" d]
    by (simp add: pt1_def s1_def upd_proc_def)
  have key1: "p_prio (proc s1 x) = p_prio (?pt x)" for x by (simp add: s1_def upd_proc_def)
  have "p_state (pt1 d) = actionable" by (simp add: pt1_def)
  from proc_add_ok [where key = p_prio and k = "\<lambda>x. p_prio (?pt x)", OF ok1 insertI1 d(1) this key1 refl]
  obtain h2 where h2: "proc_add (QHead actionable) (Chaining d) p_prio s1 = Inr (s1\<lparr>plinks := h2\<rparr>)"
    "sched_ok h2 pt1 Q1 R" "same_rest h1 h2"
    using d(3) by (auto simp: Q1_def s1_def upd_proc_def)
  define s2 where "s2 = s\<lparr>plinks := h2, process_table := pt1\<rparr>"
  have s2: "upd_proc d (\<lambda>p. p\<lparr>p_state := actionable\<rparr>) (s1\<lparr>plinks := h2\<rparr>) = s2"
    by (simp add: s1_def s2_def upd_proc_def pt1_def)
  have bot: "queue_bottom (plinks s) (QHead asleep) = Some (Chaining d)"
    using pq.queues_bottom [OF sched_okD(1) [OF Cons.prems(1)] ne(1)] ne(2) by simp
  have step: "wake_sleepers n time s = wake_sleepers m time s2"
    using Cons.prems(3) h1(1) h2(1) s2 by (simp add: n bot s1_def)
  have rest: "rest \<noteq> [] \<longrightarrow> hd rest \<noteq> d" using dq(3) Cons.prems(2) by (cases rest) auto
  have alarm: "p_alarm_time (proc s2 p) = p_alarm_time (?pt p)" if "p \<noteq> d" for p
    using that by (simp add: s2_def pt1_def)
  have pre: "sched_ok (plinks s2) (process_table s2) Q1 R" "Q1 asleep = D @ rest"
    "\<forall>p \<in> set D. p_alarm_time (proc s2 p) < time" "rest \<noteq> [] \<longrightarrow> \<not> p_alarm_time (proc s2 (hd rest)) < time"
    "length D < m"
  proof -
    show "\<forall>p \<in> set D. p_alarm_time (proc s2 p) < time" using Cons.prems(3) dq(2) alarm by (metis list.set_intros(2))
    show "rest \<noteq> [] \<longrightarrow> \<not> p_alarm_time (proc s2 (hd rest)) < time" using Cons.prems(4) rest alarm by simp
  qed (use h2(2) Cons.prems(5) in \<open>simp_all add: s2_def Q1_def n\<close>)
  obtain h where h: "wake_sleepers m time s2 = Inr (s2\<lparr>plinks := h, process_table := wake_table D pt1\<rparr>)"
    "sched_ok h (wake_table D pt1) (wake_queues D pt1 Q1) R" "same_rest h2 h"
    using Cons.IH [OF pre] by (auto simp: s2_def)
  have "wake_table D pt1 = wake_table (d # D) ?pt" using dq(2) by (auto simp: wake_table_def pt1_def)
  moreover have "wake_queues D pt1 Q1 = wake_queues (d # D) ?pt Q"
  proof -
    have "p_prio (pt1 p) = p_prio (?pt p)" for p by (simp add: pt1_def)
    then show ?thesis using Cons.prems(2) by (simp add: wake_queues_def Q1_def)
  qed
  ultimately show ?case
    using h step same_rest_trans [OF same_rest_trans [OF h1(3) h2(3)] h(3)] by (auto simp: s2_def)
qed

text \<open>
  The outcome of a call of the scheduler: \<open>D\<close> are the sleepers that are due, \<open>run\<close> tells whether the
  current process goes back to the ready queue, \<open>G\<close> is the garbage list.
\<close>

definition ready_after :: "int list \<Rightarrow> bool \<Rightarrow> int \<Rightarrow> (int \<Rightarrow> process) \<Rightarrow> (list_type \<Rightarrow> int list) \<Rightarrow> int list" where
  "ready_after D run cur pt Q =
     (let r = fold (prio_insert pt) D (Q actionable) in if run then prio_insert pt cur r else r)"

definition elected :: "int list \<Rightarrow> int list \<Rightarrow> int" where
  "elected G r = (if G = [] then last r else PID_GARBAGE)"

definition after_switch :: "cont \<Rightarrow> int list \<Rightarrow> int \<Rightarrow> ('m, 'z) procs_scheme \<Rightarrow> ploc links \<Rightarrow> ('m, 'z) procs_scheme" where
  "after_switch k D n s h = s\<lparr>cur_pid := n, process_table := wake_table D (process_table s), plinks := h,
     resume_at := (resume_at s)(cur_pid s := k), tss_esp0 := p_kernel_stack (proc s n) + KERNEL_STACK_SIZE\<rparr>"

lemma gc_ok_needed: "gc_ok (plinks s) G \<Longrightarrow> garbage_collection_needed s \<longleftrightarrow> G \<noteq> []"
  using gq.queues_empty [of "plinks s" pids "\<lambda>_. G" "()"] by (simp add: garbage_collection_needed_def gc_ok_def)

lemma set_fold_insert [simp]: "set (fold (prio_insert pt) D q) = set D \<union> set q"
  by (induction D arbitrary: q) auto

lemma elect_ok:
  assumes ok: "sched_ok (plinks s) (process_table s) Q {}" and gc: "gc_ok (plinks s) G"
    and ne: "G = [] \<Longrightarrow> Q actionable \<noteq> []" and n: "n = elected G (Q actionable)"
  shows "\<exists>h. elect s = Inr (s\<lparr>cur_pid := n, plinks := h\<rparr>)
    \<and> sched_ok h (process_table s) (Q(actionable := (if G = [] then butlast (Q actionable) else Q actionable)))
        ({n} \<inter> pids) \<and> same_rest (plinks s) h \<and> (G = [] \<longrightarrow> n \<in> pids)"
proof (cases "G = []")
  case False
  then show ?thesis
    using ok gc_ok_needed [OF gc] n by (intro exI [of _ "plinks s"]) (simp add: elect_def elected_def)
next
  case True
  have nn: "n = last (Q actionable)" using n True by (simp add: elected_def)
  have "n \<in> set (Q actionable)" using ne [OF True] nn by simp
  then have np: "n \<in> pids" by (rule sched_okD(3) [OF ok])
  obtain h where "proc_out (QHead actionable) s = Inr (n, s\<lparr>plinks := h\<rparr>)"
    "sched_ok h (process_table s) (Q(actionable := butlast (Q actionable))) {n}" "same_rest (plinks s) h"
    using proc_out_ok [OF ok ne [OF True]] nn by auto
  then show ?thesis
    using True np gc_ok_needed [OF gc] sched_okD(2) [OF ok np] by (intro exI [of _ h]) (simp add: elect_def)
qed

lemma scheduler_ok:
  fixes s :: "('m, 'z) procs_scheme"
  assumes ok: "sched_ok (plinks s) (process_table s) Q R" and gc: "gc_ok (plinks s) G"
    and run: "run \<longleftrightarrow> p_state (proc s (cur_pid s)) = actionable \<and> cur_pid s \<noteq> PID_GARBAGE"
    and R: "R = (if run then {cur_pid s} else {})" "run \<Longrightarrow> cur_pid s \<in> pids"
    and D: "D = due (to_int (current_clock s)) (process_table s) Q" "\<not> run \<Longrightarrow> cur_pid s \<notin> set D"
    and r: "r = ready_after D run (cur_pid s) (process_table s) Q"
    and ne: "G = [] \<Longrightarrow> r \<noteq> []"
  shows "\<exists>h. scheduler k s = Inr (after_switch k D (elected G r) s h)
    \<and> sched_ok h (wake_table D (process_table s))
        (Q(asleep := drop (length D) (Q asleep), actionable := (if G = [] then butlast r else r)))
        ({elected G r} \<inter> pids)
    \<and> same_rest (plinks s) h \<and> (G = [] \<longrightarrow> elected G r \<in> pids)"
proof -
  let ?pt = "process_table s" and ?cur = "cur_pid s" and ?time = "to_int (current_clock s)"
  define rest where "rest = dropWhile (\<lambda>p. p_alarm_time (?pt p) < ?time) (Q asleep)"
  have split: "Q asleep = D @ rest" by (simp add: D(1) due_def rest_def)
  have dues: "\<forall>p \<in> set D. p_alarm_time (?pt p) < ?time"
    using set_takeWhileD by (fastforce simp: D(1) due_def)
  have nd: "rest \<noteq> [] \<longrightarrow> \<not> p_alarm_time (?pt (hd rest)) < ?time"
    using hd_dropWhile [of "\<lambda>p. p_alarm_time (?pt p) < ?time" "Q asleep"] by (simp add: rest_def)
  have len: "length D < NB_LINKS"
    using queues_length [OF sched_okD(1) [OF ok] card_pids(1), of asleep] card_pids(2) split by simp
  define pt1 Q1 where "pt1 = wake_table D ?pt" and "Q1 = wake_queues D ?pt Q"
  obtain h1 where h1: "wake_sleepers NB_LINKS ?time s = Inr (s\<lparr>plinks := h1, process_table := pt1\<rparr>)"
    "sched_ok h1 pt1 Q1 R" "same_rest (plinks s) h1"
    using wake_sleepers_ok [OF ok split dues nd len] by (auto simp: pt1_def Q1_def)
  define s1 where "s1 = s\<lparr>plinks := h1, process_table := pt1\<rparr>"
  have run1: "run \<longleftrightarrow> p_state (proc s1 ?cur) = actionable \<and> ?cur \<noteq> PID_GARBAGE"
    using run D(2) by (auto simp: s1_def pt1_def p_state_wake_table)
  have "\<exists>h. requeue_current ?cur s1 = Inr (s1\<lparr>plinks := h\<rparr>)
      \<and> sched_ok h pt1 (Q1(actionable := r)) {} \<and> same_rest h1 h"
  proof (cases run)
    case True
    have st: "p_state (pt1 ?cur) = actionable" using run1 True by (simp add: s1_def)
    have key: "p_prio (proc s1 x) = p_prio (?pt x)" for x by (simp add: s1_def pt1_def)
    have Qr: "Q1(actionable := r) = Q1(actionable := prio_insert ?pt ?cur (Q1 actionable))"
      using True by (simp add: r ready_after_def Q1_def wake_queues_def)
    have cR: "?cur \<in> R" "R - {?cur} = {}" using R True by simp_all
    have ok1: "sched_ok (plinks s1) pt1 Q1 R" using h1(2) by (simp add: s1_def)
    obtain h where "proc_add (QHead actionable) (Chaining ?cur) p_prio s1 = Inr (s1\<lparr>plinks := h\<rparr>)"
      "sched_ok h pt1 (Q1(actionable := r)) {}" "same_rest h1 h"
      using proc_add_ok [where key = p_prio and k = "\<lambda>x. p_prio (?pt x)" and pt = pt1 and Q = Q1,
          OF ok1 cR(1) R(2) [OF True] st key Qr] cR(2) by (auto simp: s1_def)
    then show ?thesis using True run1 by (intro exI [of _ h]) (simp add: requeue_current_def)
  next
    case False
    then have "Q1(actionable := r) = Q1" by (simp add: r ready_after_def Q1_def wake_queues_def)
    with False show ?thesis
      using h1(2) R run1 by (intro exI [of _ h1]) (auto simp: requeue_current_def s1_def)
  qed
  then obtain h2 where h2: "requeue_current ?cur s1 = Inr (s1\<lparr>plinks := h2\<rparr>)"
    "sched_ok h2 pt1 (Q1(actionable := r)) {}" "same_rest h1 h2" by blast
  define s2 where "s2 = s1\<lparr>plinks := h2\<rparr>"
  have rest2: "same_rest (plinks s) h2" by (rule same_rest_trans [OF h1(3) h2(3)])
  have gc2: "gc_ok (plinks s2) G" using gc gc_ok_frame [OF rest2] by (simp add: s2_def)
  have tab2: "process_table s2 = pt1" by (simp add: s2_def s1_def)
  have ok2: "sched_ok (plinks s2) (process_table s2) (Q1(actionable := r)) {}"
    using h2(2) unfolding tab2 by (simp add: s2_def)
  have ne2: "G = [] \<Longrightarrow> (Q1(actionable := r)) actionable \<noteq> []"
    and n2: "elected G r = elected G ((Q1(actionable := r)) actionable)" using ne by simp_all
  obtain h3 where h3: "elect s2 = Inr (s2\<lparr>cur_pid := elected G r, plinks := h3\<rparr>)"
    "sched_ok h3 pt1 (Q1(actionable := (if G = [] then butlast r else r))) ({elected G r} \<inter> pids)"
    "same_rest h2 h3" "G = [] \<longrightarrow> elected G r \<in> pids"
    using elect_ok [OF ok2 gc2 ne2 n2] unfolding tab2 fun_upd_same fun_upd_upd by (auto simp: s2_def)
  have "wake_sleepers NB_LINKS ?time s = Inr s1" "requeue_current ?cur s1 = Inr s2"
    using h1(1) h2(1) by (simp_all only: s1_def s2_def)
  with h3(1) have "scheduler k s = Inr ((s2\<lparr>cur_pid := elected G r, plinks := h3\<rparr>)
      \<lparr>tss_esp0 := p_kernel_stack (proc s2 (elected G r)) + KERNEL_STACK_SIZE,
       resume_at := (resume_at s2)(?cur := k)\<rparr>)"
    by (simp add: scheduler_def Let_def)
  then have "scheduler k s = Inr (after_switch k D (elected G r) s h3)"
    by (simp add: s2_def s1_def after_switch_def pt1_def)
  moreover have "Q1(actionable := (if G = [] then butlast r else r))
      = Q(asleep := drop (length D) (Q asleep), actionable := (if G = [] then butlast r else r))"
    by (simp add: Q1_def wake_queues_def)
  ultimately show ?thesis
    using h3(2,4) same_rest_trans [OF rest2 h3(3)] by (auto simp: pt1_def)
qed

section \<open>A running kernel\<close>

text \<open>
  What holds whenever a process runs in user mode: it is out of the queues and ready, so is or will be
  \<^verbatim>\<open>idle\<close>, and no dead process waits for its memory to be freed.
\<close>

definition running :: "('m, 'z) procs_scheme \<Rightarrow> (list_type \<Rightarrow> int list) \<Rightarrow> bool" where
  "running s Q \<longleftrightarrow> sched_ok (plinks s) (process_table s) Q {cur_pid s} \<and> gc_ok (plinks s) []
     \<and> cur_pid s \<in> pids \<and> p_state (proc s (cur_pid s)) = actionable \<and> p_state (proc s 0) = actionable"

lemma runningD:
  assumes "running s Q"
  shows "sched_ok (plinks s) (process_table s) Q {cur_pid s}" "gc_ok (plinks s) []" "cur_pid s \<in> pids"
    "p_state (proc s (cur_pid s)) = actionable" "p_state (proc s 0) = actionable"
  using assms by (simp_all add: running_def)

lemma running_idle_ready: "running s Q \<Longrightarrow> cur_pid s \<noteq> 0 \<Longrightarrow> 0 \<in> set (Q actionable)"
  using sched_okD(6) [OF runningD(1), of s Q 0] by (auto simp: running_def)

text \<open>\<open>s'\<close> is what the scheduler makes of \<open>s\<close>, with nothing in the garbage list.\<close>

definition switched :: "cont \<Rightarrow> ('m, 'z) procs_scheme \<Rightarrow> (list_type \<Rightarrow> int list)
    \<Rightarrow> ('m, 'z) procs_scheme \<Rightarrow> (list_type \<Rightarrow> int list) \<Rightarrow> bool" where
  "switched k s Q s' Q' \<longleftrightarrow> running s' Q' \<and>
     (\<exists>h. let D = due (to_int (current_clock s)) (process_table s) Q;
              r = ready_after D (p_state (proc s (cur_pid s)) = actionable) (cur_pid s) (process_table s) Q
          in s' = after_switch k D (last r) s h \<and> same_rest (plinks s) h
           \<and> Q' = Q(asleep := drop (length D) (Q asleep), actionable := butlast r))"

lemma switched_running: "switched k s Q s' Q' \<Longrightarrow> running s' Q'"
  by (simp add: switched_def)

lemma ready_after_idle:
  assumes "p_state (proc s 0) = actionable" and "sched_ok (plinks s) (process_table s) Q R"
    and "R = (if p_state (proc s (cur_pid s)) = actionable then {cur_pid s} else {})"
  shows "0 \<in> set (ready_after D (p_state (proc s (cur_pid s)) = actionable) (cur_pid s) (process_table s) Q)"
  using assms sched_okD(6) [OF assms(2), of 0] by (auto simp: ready_after_def Let_def split: if_splits)

lemma scheduler_running:
  fixes s :: "('m, 'z) procs_scheme"
  assumes ok: "sched_ok (plinks s) (process_table s) Q R" and gc: "gc_ok (plinks s) []" and cur: "cur_pid s \<in> pids"
    and R: "R = (if p_state (proc s (cur_pid s)) = actionable then {cur_pid s} else {})"
    and idle: "p_state (proc s 0) = actionable"
    and nd: "p_state (proc s (cur_pid s)) \<noteq> actionable \<Longrightarrow>
      cur_pid s \<notin> set (due (to_int (current_clock s)) (process_table s) Q)"
  shows "\<exists>s' Q'. scheduler k s = Inr s' \<and> switched k s Q s' Q'"
proof -
  define D where "D = due (to_int (current_clock s)) (process_table s) Q"
  define run where "run \<longleftrightarrow> p_state (proc s (cur_pid s)) = actionable"
  define r where "r = ready_after D run (cur_pid s) (process_table s) Q"
  define Q' where "Q' = Q(asleep := drop (length D) (Q asleep), actionable := butlast r)"
  have z: "0 \<in> set r" using ready_after_idle [OF idle ok R] by (simp add: r_def run_def)
  then have ne: "r \<noteq> []" by auto
  have rr: "run \<longleftrightarrow> p_state (proc s (cur_pid s)) = actionable \<and> cur_pid s \<noteq> PID_GARBAGE"
    using cur by (auto simp: run_def)
  have RR: "R = (if run then {cur_pid s} else {})" using R by (simp add: run_def)
  have nd': "cur_pid s \<notin> set D" if "\<not> run" using nd that by (simp add: D_def run_def)
  obtain h where h: "scheduler k s = Inr (after_switch k D (last r) s h)"
    "sched_ok h (wake_table D (process_table s)) Q' {last r}" "same_rest (plinks s) h" "last r \<in> pids"
    using scheduler_ok [where k = k, OF ok gc rr RR cur D_def nd' r_def] ne by (auto simp: elected_def Q'_def)
  let ?s = "after_switch k D (last r) s h"
  have "last r \<in> set r" using ne by simp
  then have st: "p_state (wake_table D (process_table s) (last r)) = actionable"
    using sched_okD(4) [OF ok, of "last r" actionable]
    by (auto simp: r_def ready_after_def run_def Let_def p_state_wake_table split: if_splits)
  have "running ?s Q'"
    unfolding running_def
    using h(2,4) st idle gc gc_ok_frame [OF h(3)] by (simp add: after_switch_def p_state_wake_table)
  then have "switched k s Q ?s Q'"
    using h(3) by (auto simp: switched_def Let_def D_def r_def run_def Q'_def)
  with h(1) show ?thesis by blast
qed

text \<open>The current process is preempted: it goes back to the ready queue.\<close>

lemma preempt_running:
  assumes "running s Q"
  shows "\<exists>s' Q'. scheduler k s = Inr s' \<and> switched k s Q s' Q'"
  by (rule scheduler_running [OF runningD(1-3) [OF assms]]) (use runningD(4,5) [OF assms] in auto)

lemma reschedule_preempt:
  assumes "running s Q"
  shows "\<exists>s' Q'. reschedule k s = Inr (None, s') \<and> switched k s Q s' Q'"
  using preempt_running [OF assms, of k] by (auto simp: reschedule_def)

end
