(* ===== verification/Process_Ops.thy ===== *)
theory Process_Ops
  imports Process_Inv
begin

text \<open>
  What \<^verbatim>\<open>scheduler\<close>, \<^verbatim>\<open>chprio\<close>, \<^verbatim>\<open>wait_clock\<close>, \<^verbatim>\<open>start\<close> and the initialisation do on a kernel that satisfies
  the invariant of \<^verbatim>\<open>Process_Inv\<close>.
\<close>

section \<open>Whom the scheduler elects\<close>

abbreviation by_prio :: "(int \<Rightarrow> process) \<Rightarrow> int list \<Rightarrow> bool" where
  "by_prio pt q \<equiv> sorted (map (\<lambda>p. p_prio (pt p)) q)"

abbreviation by_alarm :: "(int \<Rightarrow> process) \<Rightarrow> int list \<Rightarrow> bool" where
  "by_alarm pt q \<equiv> sorted (map (\<lambda>p. p_alarm_time (pt p)) q)"

lemma by_prio_fold: "by_prio pt q \<Longrightarrow> by_prio pt (fold (prio_insert pt) D q)"
proof (induction D arbitrary: q)
  case (Cons d D)
  have "by_prio pt (prio_insert pt d q)" using sorted_key_insert [OF Cons.prems, of d] by simp
  from Cons.IH [OF this] show ?case by simp
qed simp

lemma by_prio_ready: "by_prio pt (Q actionable) \<Longrightarrow> by_prio pt (ready_after D run cur pt Q)"
  using sorted_key_insert [OF by_prio_fold [of pt "Q actionable" D], of cur] by_prio_fold [of pt "Q actionable" D]
  by (simp add: ready_after_def Let_def)

lemma last_insert_after_while: "e \<notin> set xs \<Longrightarrow> last (insert_after_while P e xs) = e \<Longrightarrow> x \<in> set xs \<Longrightarrow> P x"
proof -
  assume e: "e \<notin> set xs" "last (insert_after_while P e xs) = e" "x \<in> set xs"
  have "dropWhile P xs = []"
  proof (rule ccontr)
    assume ne: "dropWhile P xs \<noteq> []"
    then have "last (insert_after_while P e xs) = last (dropWhile P xs)" 
      unfolding insert_after_while_def by (simp del: dropWhile_eq_Nil_conv)
    moreover have "last (dropWhile P xs) \<in> set xs" using last_in_set [OF ne] by (rule set_dropWhileD)
    ultimately show False using e by simp
  qed
  then show "P x" using e(3) by (simp add: dropWhile_eq_Nil_conv)
qed

lemma set_ready_after:
  assumes ok: "sched_ok (plinks s) (process_table s) Q R"
    and R: "R = (if p_state (proc s (cur_pid s)) = actionable then {cur_pid s} else {})" "R \<subseteq> pids"
    and D: "set D \<subseteq> set (Q asleep)"
  shows "set (ready_after D (p_state (proc s (cur_pid s)) = actionable) (cur_pid s) (process_table s) Q)
    = {p \<in> pids. p_state (wake_table D (process_table s) p) = actionable}"
proof (intro set_eqI iffI)
  fix p assume "p \<in> set (ready_after D (p_state (proc s (cur_pid s)) = actionable) (cur_pid s) (process_table s) Q)"
  then consider "p \<in> set D" | "p \<in> set (Q actionable)" | "p = cur_pid s" "p \<in> R"
    using R(1) by (auto simp: ready_after_def Let_def split: if_splits)
  then show "p \<in> {p \<in> pids. p_state (wake_table D (process_table s) p) = actionable}"
    using sched_okD(3,4) [OF ok, of p] D R by cases (auto simp: p_state_wake_table split: if_splits)
next
  fix p assume "p \<in> {p \<in> pids. p_state (wake_table D (process_table s) p) = actionable}"
  then have p: "p \<in> pids" "p \<in> set D \<or> p_state (proc s p) = actionable"
    by (auto simp: p_state_wake_table split: if_splits)
  then show "p \<in> set (ready_after D (p_state (proc s (cur_pid s)) = actionable) (cur_pid s) (process_table s) Q)"
    using sched_okD(6) [OF ok p(1)] R(1) by (auto simp: ready_after_def Let_def split: if_splits)
qed

lemma set_due: "set (due time pt Q) \<subseteq> set (Q asleep)"
  using set_takeWhileD by (fastforce simp: due_def)

lemma sorted_drop_due:
  assumes "by_alarm pt (Q asleep)" and "p \<in> set (drop (length (due time pt Q)) (Q asleep))"
  shows "time \<le> p_alarm_time (pt p)"
proof -
  let ?P = "\<lambda>p. p_alarm_time (pt p) < time"
  have "Q asleep = takeWhile ?P (Q asleep) @ dropWhile ?P (Q asleep)" by simp
  then have d: "drop (length (due time pt Q)) (Q asleep) = dropWhile ?P (Q asleep)"
    unfolding due_def by (metis append_eq_conv_conj)
  have "by_alarm pt (dropWhile ?P (Q asleep))"
    using assms(1) by (metis d drop_map sorted_wrt_drop)
  then have "p_alarm_time (pt (hd (dropWhile ?P (Q asleep)))) \<le> p_alarm_time (pt p)"
    using assms(2) unfolding d by (rule sorted_hd_min)
  moreover have "\<not> ?P (hd (dropWhile ?P (Q asleep)))"
    using assms(2) unfolding d by (intro hd_dropWhile [of "\<lambda>p. p_alarm_time (pt p) < time"]) (metis empty_iff empty_set)
  ultimately show ?thesis by simp
qed

text \<open>
  C2: the scheduler elects well. When the ready queue is ordered by priority and the sleepers by alarm
  time, the scheduler never faults, wakes every sleeper whose alarm is past, elects a ready process of the
  highest priority, leaves the ready queue ordered, and keeps the process it interrupts only if every
  other ready process has a strictly lower priority (round robin among equals).
\<close>

theorem scheduler_elects_highest:
  assumes run: "running s Q" and ready: "by_prio (process_table s) (Q actionable)"
    and sleepers: "by_alarm (process_table s) (Q asleep)"
  shows "\<exists>s' Q'. scheduler k s = Inr s' \<and> running s' Q' \<and> by_prio (process_table s') (Q' actionable)
    \<and> (\<forall>p \<in> pids. p_state (proc s' p) = asleep \<longrightarrow> to_int (current_clock s) \<le> p_alarm_time (proc s' p))
    \<and> (\<forall>p \<in> pids. p_state (proc s' p) = actionable \<longrightarrow> p_prio (proc s' p) \<le> p_prio (proc s' (cur_pid s')))
    \<and> (cur_pid s' = cur_pid s \<longrightarrow> (\<forall>p \<in> pids. p_state (proc s' p) = actionable \<longrightarrow> p \<noteq> cur_pid s
          \<longrightarrow> p_prio (proc s' p) < p_prio (proc s' (cur_pid s))))"
proof -
  let ?time = "to_int (current_clock s)" and ?pt = "process_table s"
  define D where "D = due ?time ?pt Q"
  define r where "r = ready_after D (p_state (proc s (cur_pid s)) = actionable) (cur_pid s) ?pt Q"
  note ok = runningD(1) [OF run] and cur = runningD(3,4) [OF run]
  obtain s' Q' h where s': "scheduler k s = Inr s'" "running s' Q'" "s' = after_switch k D (last r) s h"
    "Q' = Q(asleep := drop (length D) (Q asleep), actionable := butlast r)"
    using preempt_running [OF run, of k] by (auto simp: switched_def Let_def D_def r_def)
  have tab: "process_table s' = wake_table D ?pt" "cur_pid s' = last r" using s'(3) by (simp_all add: after_switch_def)
  have set_r: "set r = {p \<in> pids. p_state (wake_table D ?pt p) = actionable}"
    using set_ready_after [OF ok, of D] cur set_due [of ?time ?pt Q] by (simp add: r_def D_def)
  have sorted_r: "by_prio ?pt r" unfolding r_def by (rule by_prio_ready [of ?pt Q, OF ready])
  have "by_prio (process_table s') (Q' actionable)"
    using sorted_map_butlast [OF sorted_r] by (simp add: tab s'(4))
  moreover have "?time \<le> p_alarm_time (proc s' p)" if "p \<in> pids" "p_state (proc s' p) = asleep" for p
  proof -
    have "p \<notin> set D" using that by (auto simp: tab p_state_wake_table)
    moreover have "p \<in> set (Q' asleep)"
      using sched_okD(6) [OF runningD(1) [OF s'(2)] that(1)] that(2) runningD(4) [OF s'(2)] by (cases "p = cur_pid s'") auto
    ultimately show ?thesis
      using sorted_drop_due [of ?pt Q, OF sleepers, of p ?time] s'(4) by (simp add: tab wake_table_def D_def)
  qed
  moreover have "p_prio (proc s' p) \<le> p_prio (proc s' (cur_pid s'))"
    if "p \<in> pids" "p_state (proc s' p) = actionable" for p
    using sorted_last_max [OF sorted_r, of p] that set_r by (simp add: tab)
  moreover have "p_prio (proc s' p) < p_prio (proc s' (cur_pid s))"
    if same: "cur_pid s' = cur_pid s" and p: "p \<in> pids" "p_state (proc s' p) = actionable" "p \<noteq> cur_pid s" for p
  proof -
    define q where "q = fold (prio_insert ?pt) D (Q actionable)"
    have r: "r = prio_insert ?pt (cur_pid s) q" using cur(2) by (simp add: r_def ready_after_def q_def)
    have "cur_pid s \<notin> set q"
      using sched_okD(5) [OF ok, of "cur_pid s"] set_due [of ?time ?pt Q] by (auto simp: q_def D_def)
    moreover have "p \<in> set q" using set_r p r by (auto simp: tab)
    ultimately show ?thesis
      using last_insert_after_while [of "cur_pid s" q "\<lambda>x. p_prio (?pt x) < p_prio (?pt (cur_pid s))" p] same r
      by (simp add: tab)
  qed
  ultimately show ?thesis using s'(1,2) by blast
qed

section \<open>Priorities\<close>

lemma running_upd:
  assumes "running s Q" and "p_pid p' = p_pid (proc s p)" and "p_state p' = p_state (proc s p)"
  shows "running (s\<lparr>process_table := (process_table s)(p := p')\<rparr>) Q"
  using assms sched_ok_upd [OF runningD(1) [OF assms(1)], of p' p] by (auto simp: running_def)

lemma running_links:
  assumes "running s Q" and "sched_ok h (process_table s) Q' {cur_pid s}" and "same_rest (plinks s) h"
  shows "running (s\<lparr>plinks := h\<rparr>) Q'"
  using assms gc_ok_frame [OF assms(3)] by (simp add: running_def)

text \<open>Moving a process that is in a queue to its place for another priority.\<close>

lemma move_in_queue:
  assumes run: "running s Q" and p: "p \<in> set (Q t)"
  shows "\<exists>h. bnd (proc_del (Chaining p) s) (\<lambda>s2. proc_add (QHead (p_state (proc s2 p))) (Chaining p) p_prio s2)
      = Inr (s\<lparr>plinks := h\<rparr>)
    \<and> running (s\<lparr>plinks := h\<rparr>) (Q(t := prio_insert (process_table s) p (remove1 p (Q t)))) \<and> same_rest (plinks s) h"
proof -
  note ok = runningD(1) [OF run]
  note pk = sched_okD(3,4,5) [OF ok p]
  obtain h1 where h1: "proc_del (Chaining p) s = Inr (s\<lparr>plinks := h1\<rparr>)"
    "sched_ok h1 (process_table s) (Q(t := remove1 p (Q t))) (insert p {cur_pid s})" "same_rest (plinks s) h1"
    using proc_del_ok [OF ok p] by blast
  let ?s1 = "s\<lparr>plinks := h1\<rparr>"
  have ok1: "sched_ok (plinks ?s1) (process_table s) (Q(t := remove1 p (Q t))) (insert p {cur_pid s})"
    using h1(2) by simp
  have key: "p_prio (proc ?s1 x) = p_prio (proc s x)" for x by simp
  obtain h2 where h2: "proc_add (QHead t) (Chaining p) p_prio ?s1 = Inr (?s1\<lparr>plinks := h2\<rparr>)"
    "sched_ok h2 (process_table s) (Q(t := prio_insert (process_table s) p (remove1 p (Q t)))) {cur_pid s}"
    "same_rest h1 h2"
    using proc_add_ok [where key = p_prio and k = "\<lambda>x. p_prio (proc s x)" and pt = "process_table s",
        OF ok1 insertI1 pk(1,2) key refl] pk(3) by (auto simp: insert_Diff_if)
  from h1(1) h2(1) pk(2) running_links [OF run h2(2) same_rest_trans [OF h1(3) h2(3)]] same_rest_trans [OF h1(3) h2(3)]
  show ?thesis by (intro exI [of _ h2]) simp
qed

text \<open>
  A process leaves the queue of its state for the ready queue: the removal, and the insertion in a state
  with the links the removal leaves. The table may change in between, and the key of the insertion is
  arbitrary.
\<close>

lemma move_to_ready:
  fixes s :: "('m, 'z) procs_scheme"
  assumes ok: "sched_ok (plinks s) (process_table s) Q R" and p: "p \<in> set (Q t)" and t: "t \<noteq> actionable"
    and p': "p_pid p' = p_pid (proc s p)" "p_state p' = actionable"
  shows "\<exists>h1. proc_del (Chaining p) s = Inr (s\<lparr>plinks := h1\<rparr>)
    \<and> (\<forall>(s3 :: ('m, 'z) procs_scheme) key k. plinks s3 = h1 \<longrightarrow> (\<forall>x. key (proc s3 x) = k x) \<longrightarrow>
        (\<exists>h2. proc_add (QHead actionable) (Chaining p) key s3 = Inr (s3\<lparr>plinks := h2\<rparr>)
          \<and> sched_ok h2 ((process_table s)(p := p')) (Q(t := remove1 p (Q t), actionable := key_insert k p (Q actionable))) R
          \<and> same_rest (plinks s) h2))"
proof -
  let ?pt' = "(process_table s)(p := p')" and ?Q1 = "Q(t := remove1 p (Q t))"
  note pk = sched_okD(3,5) [OF ok p]
  obtain h1 where h1: "proc_del (Chaining p) s = Inr (s\<lparr>plinks := h1\<rparr>)"
    "sched_ok h1 (process_table s) ?Q1 (insert p R)" "same_rest (plinks s) h1"
    using proc_del_ok [OF ok p] by blast
  have ok1: "sched_ok h1 ?pt' ?Q1 (insert p R)" using sched_ok_upd [OF h1(2), of p' p] p' by simp
  have "\<exists>h2. proc_add (QHead actionable) (Chaining p) key s3 = Inr (s3\<lparr>plinks := h2\<rparr>)
      \<and> sched_ok h2 ?pt' (Q(t := remove1 p (Q t), actionable := key_insert k p (Q actionable))) R
      \<and> same_rest (plinks s) h2"
    if "plinks s3 = h1" "\<forall>x. key (proc s3 x) = k x" for s3 :: "('m, 'z) procs_scheme" and key k
  proof -
    have ok3: "sched_ok (plinks s3) ?pt' ?Q1 (insert p R)" using ok1 that(1) by simp
    have key: "key (proc s3 x) = k x" for x using that(2) by simp
    have st: "p_state (?pt' p) = actionable" using p'(2) by simp
    show ?thesis
      using proc_add_ok [where key = key and k = k and pt = ?pt', OF ok3 insertI1 pk(1) st key refl] pk(2) t that(1)
        same_rest_trans [OF h1(3)] by (auto simp: insert_Diff_if)
  qed
  with h1(1) show ?thesis by blast
qed

lemma running_moved:
  fixes s :: "('m, 'z) procs_scheme"
  assumes run: "running s Q" and p: "p \<in> set (Q t)"
    and p': "p_state p' = actionable"
    and h: "sched_ok h ((process_table s)(p := p')) Q' {cur_pid s}" "same_rest (plinks s) h"
  shows "running (s\<lparr>plinks := h, process_table := (process_table s)(p := p')\<rparr>) Q'"
  using assms(1) h p' gc_ok_frame [OF h(2)] runningD [OF run] by (auto simp: running_def)

lemma chprio_ok:
  assumes run: "running s Q" and s1_def: "s1 = upd_proc pid (\<lambda>p. p\<lparr>p_prio := newprio\<rparr>) s"
    and old_def: "old = p_prio (proc s pid)" and t_def: "t = p_state (proc s pid)"
  shows "if pid \<notin> pids \<or> t \<in> {freepid, zombie} \<or> newprio < 1 \<or> MAXPRIO < newprio
    then chprio pid newprio s = Inr (Some (-1), s)
    else if pid = cur_pid s then running s1 Q \<and>
      (if newprio < old then \<exists>s' Q'. chprio pid newprio s = Inr (None, s') \<and> switched (Return old) s1 Q s' Q'
       else chprio pid newprio s = Inr (Some old, s1))
    else \<exists>h. let s2 = s1\<lparr>plinks := h\<rparr>; Q2 = Q(t := prio_insert (process_table s1) pid (remove1 pid (Q t)))
      in running s2 Q2 \<and> same_rest (plinks s) h \<and>
        (if p_prio (proc s (cur_pid s)) < newprio
         then \<exists>s' Q'. chprio pid newprio s = Inr (None, s') \<and> switched (Return old) s2 Q2 s' Q'
         else chprio pid newprio s = Inr (Some old, s2))"
proof (cases "pid \<notin> pids \<or> t \<in> {freepid, zombie} \<or> newprio < 1 \<or> MAXPRIO < newprio")
  case True
  then show ?thesis by (auto simp: chprio_def pids_iff t_def)
next
  case False
  then have pid: "pid \<in> pids" and st: "t \<noteq> freepid" "t \<noteq> zombie" and np: "1 \<le> newprio" "newprio \<le> MAXPRIO" by auto
  have run1: "running s1 Q" using running_upd [OF run, of _ pid] by (simp add: s1_def upd_proc_def)
  have cur1: "cur_pid s1 = cur_pid s" by (simp add: s1_def upd_proc_def)
  have unfold: "chprio pid newprio s
      = bnd (if pid \<noteq> cur_pid s1
             then bnd (proc_del (Chaining pid) s1) (\<lambda>s2. proc_add (QHead (p_state (proc s2 pid))) (Chaining pid) p_prio s2)
             else Inr s1)
          (\<lambda>s3. if pid \<noteq> cur_pid s3 \<and> newprio > getprio (cur_pid s3) s3 then reschedule (Return old) s3
                 else if pid = cur_pid s3 \<and> newprio < old then reschedule (Return old) s3
                 else Inr (Some old, s3))"
    using pid st np unfolding chprio_def pids_iff t_def Let_def s1_def old_def by simp
  show ?thesis
  proof (cases "pid = cur_pid s")
    case True
    obtain s' Q' where sw: "reschedule (Return old) s1 = Inr (None :: int option, s')" "switched (Return old) s1 Q s' Q'"
      using reschedule_preempt [OF run1, of "Return old"] by blast
    have "chprio pid newprio s = (if newprio < old then reschedule (Return old) s1 else Inr (Some old, s1))"
      unfolding unfold using True cur1 by simp
    with sw False True run1 show ?thesis by auto
  next
    case other: False
    have "pid \<in> set (Q t)" using sched_okD(6) [OF runningD(1) [OF run] pid] other st by (simp add: t_def)
    from move_in_queue [OF run1 this] obtain h where h:
      "bnd (proc_del (Chaining pid) s1) (\<lambda>s2. proc_add (QHead (p_state (proc s2 pid))) (Chaining pid) p_prio s2)
         = Inr (s1\<lparr>plinks := h\<rparr>)"
      "running (s1\<lparr>plinks := h\<rparr>) (Q(t := prio_insert (process_table s1) pid (remove1 pid (Q t))))" "same_rest (plinks s) h"
      by (auto simp: s1_def upd_proc_def)
    define s2 where "s2 = s1\<lparr>plinks := h\<rparr>"
    define Q2 where "Q2 = Q(t := prio_insert (process_table s1) pid (remove1 pid (Q t)))"
    have run2: "running s2 Q2" using h(2) by (simp only: s2_def Q2_def)
    have "getprio (cur_pid s2) s2 = p_prio (proc s (cur_pid s))"
      using runningD(3,4) [OF run] other by (simp add: getprio_def pids_iff s2_def s1_def upd_proc_def)
    then have "chprio pid newprio s
        = (if p_prio (proc s (cur_pid s)) < newprio then reschedule (Return old) s2 else Inr (Some old, s2))"
      unfolding unfold using other cur1 h(1) by (simp add: s2_def)
    with run2 h(3) reschedule_preempt [OF run2, of "Return old"] other False show ?thesis
      unfolding Let_def by (auto simp: s2_def Q2_def intro!: exI [of _ h])
  qed
qed

text \<open>
  C4: \<^verbatim>\<open>chprio\<close>. On a running kernel it never faults. A bad process or priority is refused with -1 and
  changes nothing. Otherwise the priority is changed, the process moves to its place in the queue of its
  state, the old priority is the result, and the processor is given away exactly when the changed process
  comes to a higher priority than the caller, or the caller lowers its own.
\<close>

theorem chprio_contract:
  assumes run: "running s Q" and s1_def: "s1 = upd_proc pid (\<lambda>p. p\<lparr>p_prio := newprio\<rparr>) s"
    and old_def: "old = p_prio (proc s pid)" and t_def: "t = p_state (proc s pid)"
  shows "if pid \<notin> pids \<or> t \<in> {freepid, zombie} \<or> newprio < 1 \<or> MAXPRIO < newprio
    then chprio pid newprio s = Inr (Some (-1), s)
    else if pid = cur_pid s then running s1 Q \<and>
      (if newprio < old then \<exists>s' Q'. chprio pid newprio s = Inr (None, s') \<and> switched (Return old) s1 Q s' Q'
       else chprio pid newprio s = Inr (Some old, s1))
    else \<exists>h. let s2 = s1\<lparr>plinks := h\<rparr>; Q2 = Q(t := prio_insert (process_table s1) pid (remove1 pid (Q t)))
      in running s2 Q2 \<and> same_rest (plinks s) h \<and>
        (if p_prio (proc s (cur_pid s)) < newprio
         then \<exists>s' Q'. chprio pid newprio s = Inr (None, s') \<and> switched (Return old) s2 Q2 s' Q'
         else chprio pid newprio s = Inr (Some old, s2))"
  by (rule chprio_ok [OF assms])

section \<open>Timed waits\<close>

text \<open>
  The state in which \<^verbatim>\<open>wait_clock\<close> calls the scheduler: the current process is in the queue of sleepers.
\<close>

lemma block_current:
  assumes run: "running s Q" and p': "p_pid p' = p_pid (proc s (cur_pid s))" "p_state p' = t"
    and key: "\<And>x. key (proc s1 x) = k x" and s1: "s1 = s\<lparr>process_table := pt1\<rparr>"
    and pt: "pt = (process_table s)(cur_pid s := p')"
  shows "\<exists>h. proc_add (QHead t) (Chaining (cur_pid s)) key s1 = Inr (s1\<lparr>plinks := h\<rparr>)
    \<and> sched_ok h pt (Q(t := key_insert k (cur_pid s) (Q t))) {} \<and> gc_ok h [] \<and> same_rest (plinks s) h"
proof -
  have ok1: "sched_ok (plinks s1) pt Q {cur_pid s}"
    using sched_ok_upd [OF runningD(1) [OF run], of p' "cur_pid s"] p' s1 pt by simp
  have "p_state (pt (cur_pid s)) = t" using p' pt by simp
  from proc_add_ok [where key = key and k = k and pt = pt, OF ok1 singletonI runningD(3) [OF run] this key refl]
  obtain h where h: "proc_add (QHead t) (Chaining (cur_pid s)) key s1 = Inr (s1\<lparr>plinks := h\<rparr>)"
    "sched_ok h pt (Q(t := key_insert k (cur_pid s) (Q t))) {}" "same_rest (plinks s) h"
    using s1 by auto
  with gc_ok_frame [OF h(3)] runningD(2) [OF run] show ?thesis by blast
qed

text \<open>The scheduler leaves a current process that is blocked in a queue other than that of the sleepers.\<close>

lemma switch_blocked:
  fixes s s2 :: "('m, 'z) procs_scheme"
  assumes run: "running s Q" and cur: "cur_pid s \<noteq> 0" and t: "t \<noteq> actionable" "t \<noteq> asleep"
    and s2: "process_table s2 = (process_table s)(cur_pid s := p')" "cur_pid s2 = cur_pid s" and p': "p_state p' = t"
    and ok: "sched_ok (plinks s2) (process_table s2) Q1 {}" "gc_ok (plinks s2) []"
  shows "\<exists>s' Q'. scheduler k s2 = Inr s' \<and> switched k s2 Q1 s' Q'"
proof -
  have st: "p_state (proc s2 (cur_pid s2)) = t" using s2 p' by simp
  have "cur_pid s2 \<notin> set (due (to_int (current_clock s2)) (process_table s2) Q1)"
  proof
    assume "cur_pid s2 \<in> set (due (to_int (current_clock s2)) (process_table s2) Q1)"
    then have "cur_pid s2 \<in> set (Q1 asleep)" using set_due by blast
    then show False using sched_okD(4) [OF ok(1)] st t by fastforce
  qed
  moreover have "p_state (proc s2 0) = actionable" using runningD(5) [OF run] cur by (simp add: s2)
  ultimately show ?thesis using scheduler_running [OF ok, of k] runningD(3) [OF run] st t s2(2) by auto
qed

definition sleeping :: "u32 \<Rightarrow> ('m, 'z) procs_scheme \<Rightarrow> ('m, 'z) procs_scheme" where
  "sleeping clock s = upd_proc (cur_pid s) (\<lambda>p. p\<lparr>p_alarm_time := to_int clock, p_state := asleep\<rparr>) s"

definition alarm_insert :: "('m, 'z) procs_scheme \<Rightarrow> int list \<Rightarrow> int list" where
  "alarm_insert s = key_insert (\<lambda>p. p_alarm_time (proc s p)) (cur_pid s)"

lemma wait_clock_enters:
  assumes run: "running s Q" and later: "clock > current_clock s"
  shows "\<exists>h. wait_clock clock k s = reschedule k ((sleeping clock s)\<lparr>plinks := h\<rparr>)
    \<and> sched_ok h (process_table (sleeping clock s)) (Q(asleep := alarm_insert (sleeping clock s) (Q asleep))) {}
    \<and> gc_ok h [] \<and> same_rest (plinks s) h"
proof -
  let ?c = "cur_pid s"
  define s1 where "s1 = upd_proc ?c (\<lambda>p. p\<lparr>p_alarm_time := to_int clock\<rparr>) s"
  define p' where "p' = (proc s ?c)\<lparr>p_alarm_time := to_int clock, p_state := asleep\<rparr>"
  have key: "p_alarm_time (proc s1 x) = p_alarm_time (proc (sleeping clock s) x)" for x
    by (simp add: s1_def sleeping_def upd_proc_def)
  have s1: "s1 = s\<lparr>process_table := (process_table s)(?c := (proc s ?c)\<lparr>p_alarm_time := to_int clock\<rparr>)\<rparr>"
    by (simp add: s1_def upd_proc_def)
  have pt: "process_table (sleeping clock s) = (process_table s)(?c := p')"
    by (simp add: sleeping_def upd_proc_def p'_def)
  have p1: "p_pid p' = p_pid (proc s ?c)" and p2: "p_state p' = asleep" by (simp_all add: p'_def)
  from block_current [where key = p_alarm_time, OF run p1 p2 key s1 pt]
  obtain h where h: "proc_add (QHead asleep) (Chaining ?c) p_alarm_time s1 = Inr (s1\<lparr>plinks := h\<rparr>)"
    "sched_ok h (process_table (sleeping clock s)) (Q(asleep := alarm_insert (sleeping clock s) (Q asleep))) {}"
    "gc_ok h []" "same_rest (plinks s) h"
    by (auto simp: alarm_insert_def sleeping_def upd_proc_def)
  have "wait_clock clock k s = reschedule k (upd_proc ?c (\<lambda>p. p\<lparr>p_state := asleep\<rparr>) (s1\<lparr>plinks := h\<rparr>))"
    using later h(1) unfolding wait_clock_def Let_def s1_def [symmetric] by (simp add: s1)
  moreover have "upd_proc ?c (\<lambda>p. p\<lparr>p_state := asleep\<rparr>) (s1\<lparr>plinks := h\<rparr>) = (sleeping clock s)\<lparr>plinks := h\<rparr>"
    by (simp add: s1 sleeping_def upd_proc_def)
  ultimately show ?thesis using h(2-4) by auto
qed

lemma sleeping_fields [simp]:
  "cur_pid (sleeping clock s) = cur_pid s" "current_clock (sleeping clock s) = current_clock s"
  "p_state (proc (sleeping clock s) (cur_pid s)) = asleep"
  "p_alarm_time (proc (sleeping clock s) (cur_pid s)) = to_int clock"
  by (simp_all add: sleeping_def upd_proc_def current_clock_def)

lemma wait_clock_ok:
  assumes run: "running s Q" and cur: "cur_pid s \<noteq> 0"
  shows "if clock \<le> current_clock s then wait_clock clock k s = Inr (Some (), s)
    else if to_int clock < to_int (current_clock s) then wait_clock clock k s = Inl AssertFail
    else \<exists>h s' Q'. wait_clock clock k s = Inr (None, s') \<and> same_rest (plinks s) h
      \<and> switched k ((sleeping clock s)\<lparr>plinks := h\<rparr>) (Q(asleep := alarm_insert (sleeping clock s) (Q asleep))) s' Q'"
proof (cases "clock \<le> current_clock s")
  case True
  then show ?thesis by (simp add: wait_clock_def leD)
next
  case False
  let ?c = "cur_pid s" and ?time = "to_int (current_clock s)"
  define pt Q1 where "pt = process_table (sleeping clock s)" and "Q1 = Q(asleep := alarm_insert (sleeping clock s) (Q asleep))"
  obtain h where h: "wait_clock clock k s = reschedule k ((sleeping clock s)\<lparr>plinks := h\<rparr>)"
    "sched_ok h pt Q1 {}" "gc_ok h []" "same_rest (plinks s) h"
    using wait_clock_enters [OF run, of clock k] False by (auto simp: pt_def Q1_def not_le)
  define s1 where "s1 = (sleeping clock s)\<lparr>plinks := h\<rparr>"
  have f: "cur_pid s1 = ?c" "current_clock s1 = current_clock s" "process_table s1 = pt" "plinks s1 = h"
    by (simp_all add: s1_def pt_def current_clock_def sleeping_def upd_proc_def)
  have st: "p_state (pt ?c) = asleep" "p_alarm_time (pt ?c) = to_int clock" by (simp_all add: pt_def)
  have ok1: "sched_ok (plinks s1) (process_table s1) Q1 {}" using h(2) f by simp
  show ?thesis
  proof (cases "to_int clock < ?time")
    case past: True
    define D where "D = due ?time pt Q1"
    have ys: "\<forall>p \<in> set (takeWhile (\<lambda>p. p_alarm_time (pt p) < p_alarm_time (pt ?c)) (Q asleep)). p_alarm_time (pt p) < ?time"
      using past st(2) by (fastforce dest: set_takeWhileD)
    have "?c \<in> set D"
      using past st(2) ys by (simp add: D_def due_def Q1_def alarm_insert_def insert_after_while_def pt_def)
    define rest where "rest = dropWhile (\<lambda>p. p_alarm_time (pt p) < ?time) (Q1 asleep)"
    have "Q1 asleep = D @ rest" by (simp add: D_def due_def rest_def)
    moreover have "\<forall>p \<in> set D. p_alarm_time (proc s1 p) < ?time"
      using f(3) by (fastforce simp: D_def due_def dest: set_takeWhileD)
    moreover have "rest \<noteq> [] \<longrightarrow> \<not> p_alarm_time (proc s1 (hd rest)) < ?time"
      using hd_dropWhile [of "\<lambda>p. p_alarm_time (pt p) < ?time" "Q1 asleep"] f(3) by (simp add: rest_def)
    moreover have "length D < NB_LINKS"
      using queues_length [OF sched_okD(1) [OF ok1] card_pids(1), of asleep] card_pids(2) calculation(1) by simp
    ultimately obtain h1 where h1: "wake_sleepers NB_LINKS ?time s1 = Inr (s1\<lparr>plinks := h1, process_table := wake_table D pt\<rparr>)"
      "sched_ok h1 (wake_table D pt) (wake_queues D pt Q1) {}"
      using wake_sleepers_ok [OF ok1, of D rest ?time NB_LINKS] f(3) by auto
    have "?c \<in> set (wake_queues D pt Q1 actionable)" using \<open>?c \<in> set D\<close> by (simp add: wake_queues_def)
    from pq.queues_add_present [OF sched_okD(1) [OF h1(2)] this]
    have "requeue_current ?c (s1\<lparr>plinks := h1, process_table := wake_table D pt\<rparr>) = Inl AssertFail"
      using \<open>?c \<in> set D\<close> runningD(3) [OF run]
      by (auto simp: requeue_current_def proc_add_def on_links_def p_state_wake_table)
    with h1(1) have "scheduler k s1 = Inl AssertFail" by (simp add: scheduler_def Let_def f)
    with h(1) False past show ?thesis by (simp add: reschedule_def s1_def)
  next
    case ahead: False
    have idle: "p_state (proc s1 0) = actionable"
      using runningD(5) [OF run] cur by (simp add: f(3) pt_def sleeping_def upd_proc_def)
    have "?c \<notin> set (due ?time pt Q1)"
      using ahead st(2) by (auto simp: due_def dest: set_takeWhileD)
    then obtain s' Q' where "scheduler k s1 = Inr s'" "switched k s1 Q1 s' Q'"
      using scheduler_running [OF ok1, of k] h(3) runningD(3) [OF run] idle st(1) f by auto
    with h(1,4) False ahead show ?thesis by (auto simp: reschedule_def s1_def Q1_def)
  qed
qed

text \<open>
  C5: \<^verbatim>\<open>wait_clock\<close>. A time that is not in the future returns at once and changes nothing. Otherwise the
  caller, if it is not \<^verbatim>\<open>idle\<close>, goes to the queue of sleepers at the place of its alarm time and another
  process is elected -- except that a time of which the \<^verbatim>\<open>int\<close> conversion lies before the \<^verbatim>\<open>int\<close> conversion of
  the current time (from \<open>2 ^ 31\<close> on, in the first 24 days) makes the scheduler wake the caller before it
  has left the processor, queue it twice, and fail an assertion.
\<close>

theorem wait_clock_contract:
  assumes run: "running s Q" and cur: "cur_pid s \<noteq> 0"
  shows "if clock \<le> current_clock s then wait_clock clock k s = Inr (Some (), s)
    else if to_int clock < to_int (current_clock s) then wait_clock clock k s = Inl AssertFail
    else \<exists>h s' Q'. wait_clock clock k s = Inr (None, s')
      \<and> switched k ((sleeping clock s)\<lparr>plinks := h\<rparr>) (Q(asleep := alarm_insert (sleeping clock s) (Q asleep))) s' Q'"
  using wait_clock_ok [OF assms, of clock k] by (auto split: if_splits)

section \<open>Creation of a process\<close>

text \<open>
  The lists of children: \<open>C f\<close> are the processes linked in the list of \<open>f\<close>. The head of a list is only
  initialised by \<^verbatim>\<open>start\<close>; \<open>T\<close> are the identifiers for which this has happened.
\<close>

definition kids_ok :: "int set \<Rightarrow> ploc links \<Rightarrow> (int \<Rightarrow> int list) \<Rightarrow> bool" where
  "kids_ok T h C \<longleftrightarrow> queues_on T ChildrenHead ChildLink h pids C"

definition same_but_kids :: "ploc links \<Rightarrow> ploc links \<Rightarrow> bool" where
  "same_but_kids h h' \<longleftrightarrow> (\<forall>l \<in> cq.outside. h' l = h l)"

lemma same_but_kidsD:
  assumes "same_but_kids h h'"
  shows "h' (QHead t) = h (QHead t)" "h' (Chaining p) = h (Chaining p)" "h' GcHead = h GcHead" "h' (GcLink p) = h (GcLink p)"
  using assms by (auto simp: same_but_kids_def cq.outside_def)

lemma sched_ok_kids_frame: "same_but_kids h h' \<Longrightarrow> sched_ok h pt Q R \<Longrightarrow> sched_ok h' pt Q R"
  using queues_frame [of h' QHead h Chaining pids Q] by (simp add: sched_ok_def same_but_kidsD)

lemma gc_ok_kids_frame: "same_but_kids h h' \<Longrightarrow> gc_ok h' G \<longleftrightarrow> gc_ok h G"
  unfolding gc_ok_def by (rule queues_frame) (simp_all add: same_but_kidsD)

lemma kids_ok_frame: "same_rest h h' \<Longrightarrow> kids_ok T h C \<Longrightarrow> kids_ok T h' C"
  unfolding kids_ok_def using queues_on_frame [of T h' ChildrenHead h ChildLink pids C] by (simp add: same_restD)

lemma same_but_kids_trans [trans]: "same_but_kids h h1 \<Longrightarrow> same_but_kids h1 h2 \<Longrightarrow> same_but_kids h h2"
  by (simp add: same_but_kids_def)

text \<open>\<^verbatim>\<open>INIT_LIST_HEAD\<close> on a list that is empty, or that was never initialised.\<close>

lemma kids_init:
  assumes k: "kids_ok T h C" and n: "C n = []"
  shows "kids_ok (insert n T) (INIT_LIST_HEAD h (ChildrenHead n)) C" "same_but_kids h (INIT_LIST_HEAD h (ChildrenHead n))"
proof -
  let ?h = "INIT_LIST_HEAD h (ChildrenHead n)"
  note q = k [unfolded kids_ok_def]
  have "dll ?h (ChildrenHead t) (map ChildLink (C t))" if "t \<in> insert n T" for t
  proof (cases "t = n")
    case True
    then show ?thesis using n dll_init [of h "ChildrenHead n"] by simp
  next
    case False
    have "dll ?h (ChildrenHead t) (map ChildLink (C t)) = dll h (ChildrenHead t) (map ChildLink (C t))"
      by (rule dll_cong) (use False in \<open>auto simp: INIT_LIST_HEAD_def\<close>)
    then show ?thesis using queues_onD(1) [OF q] that False by simp
  qed
  moreover have "unlinked ?h (ChildLink p) \<longleftrightarrow> unlinked h (ChildLink p)" for p
    by (simp add: unlinked_def INIT_LIST_HEAD_def)
  ultimately show "kids_ok (insert n T) ?h C"
    using q unfolding kids_ok_def queues_on_def by simp
  show "same_but_kids h ?h" by (auto simp: same_but_kids_def cq.outside_def INIT_LIST_HEAD_def)
qed

lemma INIT_LINK_unlinked: "unlinked h l \<Longrightarrow> INIT_LINK h l = h"
  by (cases "h l") (auto simp: INIT_LINK_def unlinked_def fun_eq_iff)

lemma gc_empty_unlinked: "gc_ok h [] \<Longrightarrow> p \<in> pids \<Longrightarrow> unlinked h (GcLink p)"
  unfolding gc_ok_def by (erule queuesD(4)) (simp_all add: in_no_queue_def)

lemma kids_add_ok:
  assumes "kids_ok T (plinks s) C" and "p \<in> pids" and "in_no_queue C p" and "f \<in> T"
  shows "\<exists>h. proc_add (ChildrenHead f) (ChildLink p) key s = Inr (s\<lparr>plinks := h\<rparr>)
    \<and> kids_ok T h (C(f := key_insert (\<lambda>x. key (proc s x)) p (C f))) \<and> same_but_kids (plinks s) h"
  using cq.queues_on_add [OF assms(1) [unfolded kids_ok_def] card_pids assms(2,3,4), of "\<lambda>e. key (proc s (owner e))"]
  by (auto simp: proc_add_def on_links_def kids_ok_def same_but_kids_def)

text \<open>The process \<^verbatim>\<open>start_enqueue\<close> leaves in the table.\<close>

definition started :: "int \<Rightarrow> int \<Rightarrow> int \<Rightarrow> process \<Rightarrow> process" where
  "started new_pid prio father p = p\<lparr>p_pid := new_pid, p_alarm_time := 0, p_prio := prio, p_retvalue := 0,
     p_state := actionable, p_child_waited := 0, p_father := father\<rparr>"

lemma start_enqueue_ok:
  fixes s :: "('m, 'z) procs_scheme"
  assumes ok: "sched_ok (plinks s) (process_table s) Q {new_pid, cur_pid s}" and gc: "gc_ok (plinks s) []"
    and new: "new_pid \<in> pids" "new_pid \<noteq> cur_pid s" "new_pid \<noteq> 0"
    and cur: "cur_pid s \<in> pids" "p_state (proc s (cur_pid s)) = actionable" "p_state (proc s 0) = actionable"
    and kids: "kids_ok T (plinks s) C" "C new_pid = []" "in_no_queue C new_pid" "cur_pid s \<in> T"
    and pt': "pt' = (process_table s)(new_pid := started new_pid prio (cur_pid s) (proc s new_pid))"
    and Q': "Q' = Q(actionable := prio_insert pt' new_pid (Q actionable))"
  shows "\<exists>h. let s' = s\<lparr>process_table := pt', plinks := h, resume_at := (resume_at s)(new_pid := UserEntry)\<rparr> in
    start_enqueue new_pid prio s = (if cur_pid s \<noteq> 0 \<and> p_prio (proc s (cur_pid s)) < prio
        then reschedule (Return new_pid) s' else Inr (Some new_pid, s'))
    \<and> running s' Q'
    \<and> kids_ok (insert new_pid T) h (C(cur_pid s := prio_insert pt' new_pid (C (cur_pid s))))"
proof -
  let ?h = "plinks s" and ?pt = "process_table s" and ?c = "cur_pid s"
  define p1 where "p1 = (?pt new_pid)\<lparr>p_pid := new_pid, p_alarm_time := 0, p_prio := prio, p_retvalue := 0, p_state := actionable\<rparr>"
  define pt1 where "pt1 = ?pt(new_pid := p1)"
  define s3 where "s3 = s\<lparr>process_table := pt1\<rparr>"
  have ok1: "sched_ok (plinks s3) pt1 Q {new_pid, ?c}"
    using sched_ok_upd [OF ok, of p1 new_pid] sched_okD(2) [OF ok new(1)] by (simp add: s3_def pt1_def p1_def)
  have key1: "p_prio (proc s3 x) = p_prio (pt' x)" for x by (simp add: s3_def pt1_def p1_def pt' started_def)
  have "p_state (pt1 new_pid) = actionable" by (simp add: pt1_def p1_def)
  from proc_add_ok [where key = p_prio and k = "\<lambda>x. p_prio (pt' x)" and pt = pt1, OF ok1 insertI1 new(1) this key1 Q']
  obtain h1 where h1: "proc_add (QHead actionable) (Chaining new_pid) p_prio s3 = Inr (s3\<lparr>plinks := h1\<rparr>)"
    "sched_ok h1 pt1 Q' {?c}" "same_rest ?h h1" using new(2) by (auto simp: s3_def insert_Diff_if)
  have kids1: "kids_ok T h1 C" by (rule kids_ok_frame [OF h1(3) kids(1)])
  define h1' where "h1' = INIT_LIST_HEAD h1 (ChildrenHead new_pid)"
  note kids1' = kids_init [OF kids1 kids(2), folded h1'_def]
  have unl: "INIT_LINK ?h (GcLink new_pid) = ?h" "INIT_LINK ?h (Chaining new_pid) = ?h"
    "INIT_LIST_HEAD (INIT_LINK h1 (ChildLink new_pid)) (ChildrenHead new_pid) = h1'"
  proof -
    show "INIT_LINK ?h (GcLink new_pid) = ?h" by (rule INIT_LINK_unlinked [OF gc_empty_unlinked [OF gc new(1)]])
    show "INIT_LINK ?h (Chaining new_pid) = ?h"
      by (rule INIT_LINK_unlinked [OF queuesD(4) [OF sched_okD(1) [OF ok] new(1) sched_okD(7) [OF ok]]]) simp
    have "INIT_LINK h1 (ChildLink new_pid) = h1"
      by (rule INIT_LINK_unlinked [OF queues_onD(4) [OF kids1 [unfolded kids_ok_def] new(1) kids(3)]])
    then show "INIT_LIST_HEAD (INIT_LINK h1 (ChildLink new_pid)) (ChildrenHead new_pid) = h1'"
      by (simp add: h1'_def)
  qed
  define s4 where "s4 = s3\<lparr>plinks := h1\<rparr>"
  define s6 where "s6 = s\<lparr>process_table := pt', plinks := h1'\<rparr>"
  have "kids_ok (insert new_pid T) (plinks s6) C" using kids1'(1) by (simp add: s6_def)
  from kids_add_ok [OF this new(1) kids(3) insertI2 [OF kids(4)], of p_prio]
  obtain h2 where h2: "proc_add (ChildrenHead ?c) (ChildLink new_pid) p_prio s6 = Inr (s6\<lparr>plinks := h2\<rparr>)"
    "kids_ok (insert new_pid T) h2 (C(?c := prio_insert pt' new_pid (C ?c)))" "same_but_kids h1 h2"
    using same_but_kids_trans [OF kids1'(2)] by (auto simp: s6_def)
  define s8 where "s8 = s\<lparr>process_table := pt', plinks := h2, resume_at := (resume_at s)(new_pid := UserEntry)\<rparr>"
  have "start_enqueue new_pid prio s = start_filiation new_pid prio s4"
  proof -
    have "(upd_proc new_pid (\<lambda>p. p\<lparr>p_pid := new_pid, p_alarm_time := 0, p_prio := prio, p_retvalue := 0,
        p_state := actionable\<rparr>) (s\<lparr>plinks := plinks s\<rparr>))\<lparr>plinks := plinks s\<rparr> = s3"
      by (simp add: s3_def upd_proc_def pt1_def p1_def)
    moreover have "plinks (upd_proc p f x) = plinks x" for p f and x :: "('m, 'z) procs_scheme" by (simp add: upd_proc_def)
    ultimately show ?thesis using h1(1) unl(1,2) by (simp add: start_enqueue_def Let_def s4_def)
  qed
  also have "start_filiation new_pid prio s4 = (if ?c \<noteq> 0 \<and> p_prio (proc s ?c) < prio
        then reschedule (Return new_pid) s8 else Inr (Some new_pid, s8))"
  proof -
    have "s4\<lparr>plinks := INIT_LIST_HEAD (INIT_LINK (plinks s4) (ChildLink new_pid)) (ChildrenHead new_pid)\<rparr> = s4\<lparr>plinks := h1'\<rparr>"
      using unl(3) by (simp add: s4_def)
    moreover have "upd_proc new_pid (\<lambda>p. p\<lparr>p_child_waited := 0, p_father := cur_pid (s4\<lparr>plinks := h1'\<rparr>)\<rparr>) (s4\<lparr>plinks := h1'\<rparr>) = s6"
      by (simp add: s4_def s3_def s6_def upd_proc_def pt1_def pt' p1_def started_def)
    moreover have "cur_pid s6 = ?c" "(s6\<lparr>plinks := h2\<rparr>)\<lparr>resume_at := (resume_at (s6\<lparr>plinks := h2\<rparr>))(new_pid := UserEntry)\<rparr> = s8"
      "cur_pid s8 = ?c" "p_prio (proc s8 ?c) = p_prio (proc s ?c)" "p_prio (proc s6 ?c) = p_prio (proc s ?c)"
      using new(2) by (simp_all add: s6_def s8_def pt')
    ultimately show ?thesis using h2(1) unfolding start_filiation_def Let_def by simp
  qed
  finally have "start_enqueue new_pid prio s = (if ?c \<noteq> 0 \<and> p_prio (proc s ?c) < prio
        then reschedule (Return new_pid) s8 else Inr (Some new_pid, s8))" .
  moreover have "running s8 Q'"
  proof -
    have "sched_ok h2 pt1 Q' {?c}" by (rule sched_ok_kids_frame [OF h2(3) h1(2)])
    then have "sched_ok h2 pt' Q' {?c}"
      by (rule sched_ok_table) (auto simp: pt1_def pt' p1_def started_def)
    moreover have "gc_ok h2 []" using gc_ok_kids_frame [OF h2(3), of "[]"] gc gc_ok_frame [OF h1(3)] by simp
    ultimately show ?thesis using cur new(2,3) by (simp add: running_def s8_def pt')
  qed
  ultimately show ?thesis using h2(2) unfolding Let_def s8_def by blast
qed

text \<open>The frame that \<^verbatim>\<open>goto_user_mode\<close> finds on the kernel stack.\<close>

lemma apart4_multiple:
  assumes "a - b \<in> {4, 8, 12, 16, 20, -4, -8, -12, -16, -20}"
  shows "apart4 a b"
proof -
  define d where "d = a - b"
  have "apart4 a b \<longleftrightarrow> 4 \<le> - d \<and> 4 \<le> d" by (simp add: apart4_def d_def)
  then show ?thesis using assms unfolding d_def [symmetric] by auto
qed

lemma init_kernel_stack_words:
  assumes "m' = init_kernel_stack E stack f esp m" and "tp = stack + KERNEL_STACK_SIZE"
  shows "load32 m' (tp - 24) = goto_user_mode E" "load32 m' (tp - 20) = f" "load32 m' (tp - 16) = USER_CS"
    "load32 m' (tp - 12) = 0x202" "load32 m' (tp - 8) = esp" "load32 m' (tp - 4) = USER_DS"
  unfolding assms(1) init_kernel_stack_def Let_def assms(2) [symmetric]
  by (simp_all add: load32_store32_apart apart4_multiple)

lemma start_stacks:
  fixes s :: "('m, 'z) procs_scheme"
  assumes ob: "obtain_pid s = Inr (new_pid, s1)" "new_pid \<noteq> -1" and args: "\<not> ssize > 0xffffffff - 2 * 4" "1 \<le> prio" "prio \<le> MAXPRIO"
    and nm: "mem_alloc E (strnlen (mem s1) name MAX_SIZE_PROCESS_NAME + 1) (heap s1) = (nm, hp1)" "nm \<noteq> 0"
    and us: "user_stack_alloc E (ssize + 8) hp1 = (ust, hp2)" "ust \<noteq> 0"
    and ks: "mem_alloc E KERNEL_STACK_SIZE hp2 = (kst, hp3)" "kst \<noteq> 0"
  shows "start E ptfunc ssize prio name arg s = start_enqueue new_pid prio
    (s1\<lparr>heap := hp3,
       process_table := (process_table s1)(new_pid := (proc s1 new_pid)\<lparr>p_name := nm, p_user_stack_size := ssize + 8,
         p_user_stack := ust, p_kernel_stack := kst, p_esp := kst + KERNEL_STACK_SIZE - 24\<rparr>),
       mem := init_kernel_stack E kst ptfunc (ust + (ssize + 8) - 8)
         (init_user_stack ust (ssize + 8) arg
           (strncpy (mem s1) nm name (strnlen (mem s1) name MAX_SIZE_PROCESS_NAME + 1)))\<rparr>)"
  using ob args nm us ks by (simp add: start_def Let_def upd_proc_def)

lemma obtain_pid_ok:
  fixes s :: "('m, 'z) procs_scheme"
  assumes run: "running s Q" and fr: "Q freepid = new_pid # rest"
  shows "\<exists>h. obtain_pid s = Inr (new_pid, s\<lparr>plinks := h\<rparr>)
    \<and> sched_ok h (process_table s) (Q(freepid := rest)) {new_pid, cur_pid s} \<and> same_rest (plinks s) h
    \<and> new_pid \<in> pids \<and> new_pid \<noteq> cur_pid s \<and> new_pid \<noteq> 0"
proof -
  note ok = runningD(1) [OF run]
  have np: "new_pid \<in> pids" "p_state (proc s new_pid) = freepid" "new_pid \<noteq> cur_pid s"
    using sched_okD(3,4,5) [OF ok, of new_pid freepid] fr by auto
  obtain h where h: "proc_out_bot (QHead freepid) s = Inr (new_pid, s\<lparr>plinks := h\<rparr>)"
    "sched_ok h (process_table s) (Q(freepid := rest)) {new_pid, cur_pid s}" "same_rest (plinks s) h"
    using proc_out_bot_ok [OF ok, of freepid] fr by auto
  have "\<not> queue_empty (plinks s) (QHead freepid)" using pq.queues_empty [OF sched_okD(1) [OF ok], of freepid] fr by simp
  then show ?thesis
    using h np sched_okD(2) [OF ok np(1)] runningD(5) [OF run]
    by (intro exI [of _ h]) (auto simp: obtain_pid_def)
qed

section \<open>A small kernel for the examples\<close>

text \<open>
  Process 1 runs with priority 5, \<^verbatim>\<open>idle\<close> is ready, identifier 2 is free, the others are lost; the
  allocators always succeed.
\<close>

definition ex_links :: "ploc links" where
  "ex_links l = (case l of
     QHead t \<Rightarrow> (if t = actionable then \<lparr>lprev = Some (Chaining 0), lnext = Some (Chaining 0)\<rparr>
                 else if t = freepid then \<lparr>lprev = Some (Chaining 2), lnext = Some (Chaining 2)\<rparr>
                 else \<lparr>lprev = Some l, lnext = Some l\<rparr>)
   | GcHead \<Rightarrow> \<lparr>lprev = Some l, lnext = Some l\<rparr>
   | ChildrenHead p \<Rightarrow> \<lparr>lprev = Some l, lnext = Some l\<rparr>
   | Chaining p \<Rightarrow> (if p = 0 then \<lparr>lprev = Some (QHead actionable), lnext = Some (QHead actionable)\<rparr>
                   else if p = 2 then \<lparr>lprev = Some (QHead freepid), lnext = Some (QHead freepid)\<rparr>
                   else \<lparr>lprev = None, lnext = None\<rparr>)
   | _ \<Rightarrow> \<lparr>lprev = None, lnext = None\<rparr>)"

definition ex_table :: "int \<Rightarrow> process" where
  "ex_table p = \<lparr>p_name = 0, p_pid = p, p_prio = (if p = 1 then 5 else 0), p_awakener = -1, p_retvalue = 0, p_alarm_time = 0,
     p_sem_blocked = -1, p_esp = 0, p_user_stack_size = 0, p_kernel_stack = 0, p_user_stack = 0, p_father = 0,
     p_child_waited = 0, p_state = (if p \<in> {0, 1} then actionable else freepid)\<rparr>"

definition ex_queues :: "list_type \<Rightarrow> int list" where
  "ex_queues = (\<lambda>_. [])(actionable := [0], freepid := [2])"

definition ex_state :: "'z \<Rightarrow> (unit, 'z) procs_scheme" where
  "ex_state z = \<lparr>line_cur = 1, col_cur = 0, ct_cur = 15, cf_cur = 0, col_min = 0, vmem = (\<lambda>_. 0), outs = [],
     clock_ticks = 7, second = 0, minute = 0, hour = 0, cur_pid = 1, read_mutex = 1, process_table = ex_table,
     plinks = ex_links, resume_at = (\<lambda>_. UserEntry), mem = (\<lambda>_. 0), heap = (), tss_esp0 = 0, \<dots> = z\<rparr>"

definition ex_env :: "unit env" where
  "ex_env = \<lparr>mem_alloc = (\<lambda>n u. (if n = KERNEL_STACK_SIZE then 0x400000 else 0x300000, ())), mem_free = (\<lambda>a n u. ()),
     user_stack_alloc = (\<lambda>n u. (0x1800000, ())), user_stack_free = (\<lambda>a n u. ()), goto_user_mode = 0x100100,
     garbage_collector_adr = 0x100200, idle_adr = 0x100300, str_idle = 0x100400, str_garbage = 0x100500\<rparr>"

lemma ex_running: "running (ex_state z) ex_queues"
proof -
  have "queues QHead Chaining ex_links pids ex_queues"
    unfolding queues_def
  proof (intro conjI allI ballI impI)
    fix t show "dll ex_links (QHead t) (map Chaining (ex_queues t))"
      by (cases t) (simp_all add: dll_def ex_links_def ex_queues_def)
  next
    fix p assume p: "p \<in> pids" "\<forall>t. p \<notin> set (ex_queues t)"
    then have "p \<noteq> 0" "p \<noteq> 2" using spec [OF p(2), of actionable] spec [OF p(2), of freepid] by (auto simp: ex_queues_def)
    then show "unlinked ex_links (Chaining p)" by (simp add: unlinked_def ex_links_def)
  qed (auto simp: ex_queues_def pids_iff)
  moreover have "gc_ok ex_links []"
    by (auto simp: gc_ok_def queues_def dll_def ex_links_def unlinked_def)
  ultimately show ?thesis
    by (auto simp: running_def sched_ok_def ex_state_def ex_table_def ex_queues_def pids_iff split: if_splits)
qed

lemma ex_kids: "kids_ok UNIV (plinks (ex_state z)) (\<lambda>_. [])"
  by (auto simp: kids_ok_def queues_on_def dll_def ex_state_def ex_links_def unlinked_def)

lemma scheduler_elects_highest_witness:
  "\<exists>s' Q'. scheduler Iret (ex_state ()) = Inr s' \<and> running s' Q' \<and> p_prio (proc s' 0) \<le> p_prio (proc s' (cur_pid s'))"
proof -
  have a: "by_prio (process_table (ex_state ())) (ex_queues actionable)"
    "by_alarm (process_table (ex_state ())) (ex_queues asleep)" by (simp_all add: ex_queues_def)
  obtain s' Q' where s': "scheduler Iret (ex_state ()) = Inr s'" "running s' Q'"
    "\<forall>p \<in> pids. p_state (proc s' p) = actionable \<longrightarrow> p_prio (proc s' p) \<le> p_prio (proc s' (cur_pid s'))"
    using scheduler_elects_highest [OF ex_running a, of Iret] by blast
  with runningD(5) [OF s'(2)] bspec [OF s'(3) zero_pid] show ?thesis by blast
qed

lemma chprio_contract_witness:
  "\<exists>s' Q'. chprio 0 9 (ex_state ()) = Inr (None, s') \<and> running s' Q'"
proof -
  have c: "p_prio (proc (ex_state ()) 1) = 5" "p_state (proc (ex_state ()) 0) = actionable"
    "cur_pid (ex_state ()) = 1" by (simp_all add: ex_state_def ex_table_def)
  show ?thesis
    using chprio_contract [where s = "ex_state ()" and pid = 0 and newprio = 9, OF ex_running refl refl refl]
    by (auto simp: c Let_def dest: switched_running)
qed

lemma wait_clock_contract_witness:
  "wait_clock 7 Iret (ex_state ()) = Inr (Some (), ex_state ())
   \<and> wait_clock 0x80000000 Iret (ex_state ()) = Inl AssertFail"
proof -
  have c: "cur_pid (ex_state ()) \<noteq> 0" "current_clock (ex_state ()) = 7" by (simp_all add: ex_state_def current_clock_def)
  have "to_int 0x80000000 < to_int 7" "to_int 7 = 7" by (simp_all add: to_int_def)
  then show ?thesis
    using wait_clock_contract [where s = "ex_state ()" and clock = "7" and k = Iret, OF ex_running c(1)]
      wait_clock_contract [where s = "ex_state ()" and clock = "0x80000000" and k = Iret, OF ex_running c(1)]
    by (simp add: c(2))
qed

section \<open>The contract of start\<close>

lemma start_ok:
  fixes s :: "('m, 'z) procs_scheme"
  assumes run: "running s Q" and fr: "Q freepid = new_pid # rest"
    and kids: "kids_ok T (plinks s) C" "C new_pid = []" "in_no_queue C new_pid" "cur_pid s \<in> T"
    and args: "\<not> ssize > 0xffffffff - 2 * 4" "1 \<le> prio" "prio \<le> MAXPRIO"
    and nm: "mem_alloc E (strnlen (mem s) name MAX_SIZE_PROCESS_NAME + 1) (heap s) = (nm, hp1)" "nm \<noteq> 0"
    and us: "user_stack_alloc E (ssize + 8) hp1 = (ust, hp2)" "ust \<noteq> 0"
    and ks: "mem_alloc E KERNEL_STACK_SIZE hp2 = (kst, hp3)" "kst \<noteq> 0"
  shows "\<exists>s' Q'. running s' Q' \<and> cur_pid s' = cur_pid s
    \<and> (if cur_pid s \<noteq> 0 \<and> p_prio (proc s (cur_pid s)) < prio
       then \<exists>s'' Q''. start E ptfunc ssize prio name arg s = Inr (None, s'') \<and> switched (Return new_pid) s' Q' s'' Q''
       else start E ptfunc ssize prio name arg s = Inr (Some new_pid, s'))
    \<and> Q' = Q(freepid := rest, actionable := prio_insert (process_table s') new_pid (Q actionable))
    \<and> kids_ok (insert new_pid T) (plinks s') (C(cur_pid s := prio_insert (process_table s') new_pid (C (cur_pid s))))
    \<and> proc s' new_pid = (proc s new_pid)\<lparr>p_name := nm, p_pid := new_pid, p_prio := prio, p_retvalue := 0, p_alarm_time := 0,
        p_esp := kst + KERNEL_STACK_SIZE - 24, p_user_stack_size := ssize + 8, p_kernel_stack := kst, p_user_stack := ust,
        p_father := cur_pid s, p_child_waited := 0, p_state := actionable\<rparr>
    \<and> map (\<lambda>i. load32 (mem s') (p_esp (proc s' new_pid) + i)) [0, 4, 8, 12, 16, 20]
        = [goto_user_mode E, ptfunc, USER_CS, 0x202, ust + ssize, USER_DS]
    \<and> resume_at s' = (resume_at s)(new_pid := UserEntry) \<and> procs.more s' = procs.more s
    \<and> (\<forall>x. x \<noteq> new_pid \<longrightarrow> proc s' x = proc s x)"
proof -
  obtain h where h: "obtain_pid s = Inr (new_pid, s\<lparr>plinks := h\<rparr>)"
    "sched_ok h (process_table s) (Q(freepid := rest)) {new_pid, cur_pid s}" "same_rest (plinks s) h"
    "new_pid \<in> pids" "new_pid \<noteq> cur_pid s" "new_pid \<noteq> 0"
    using obtain_pid_ok [OF run fr] by blast
  define pn where "pn = (proc s new_pid)\<lparr>p_name := nm, p_user_stack_size := ssize + 8,
         p_user_stack := ust, p_kernel_stack := kst, p_esp := kst + KERNEL_STACK_SIZE - 24\<rparr>"
  define m' where "m' = init_kernel_stack E kst ptfunc (ust + (ssize + 8) - 8)
         (init_user_stack ust (ssize + 8) arg
           (strncpy (mem s) nm name (strnlen (mem s) name MAX_SIZE_PROCESS_NAME + 1)))"
  define s9 where "s9 = (s\<lparr>plinks := h\<rparr>)\<lparr>heap := hp3, process_table := (process_table s)(new_pid := pn), mem := m'\<rparr>"
  have st: "start E ptfunc ssize prio name arg s = start_enqueue new_pid prio s9"
    using start_stacks [OF h(1) _ args _ _ us ks, of name nm ptfunc arg] nm h(4) by (simp add: s9_def pn_def m'_def pids_iff)
  have ok9: "sched_ok (plinks s9) (process_table s9) (Q(freepid := rest)) {new_pid, cur_pid s9}"
    using sched_ok_upd [OF h(2), of pn new_pid] by (simp add: s9_def pn_def)
  have gc9: "gc_ok (plinks s9) []" using runningD(2) [OF run] gc_ok_frame [OF h(3)] by (simp add: s9_def)
  have kids9: "kids_ok T (plinks s9) C" "cur_pid s9 \<in> T"
    using kids_ok_frame [OF h(3) kids(1)] kids(4) by (simp_all add: s9_def)
  have cur9: "cur_pid s9 \<in> pids" "p_state (proc s9 (cur_pid s9)) = actionable" "p_state (proc s9 0) = actionable"
    using runningD(3,4,5) [OF run] h(5,6) by (simp_all add: s9_def)
  have ne9: "new_pid \<noteq> cur_pid s9" using h(5) by (simp add: s9_def)
  define pt' where "pt' = (process_table s9)(new_pid := started new_pid prio (cur_pid s9) (proc s9 new_pid))"
  from start_enqueue_ok [OF ok9 gc9 h(4) ne9 h(6) cur9 kids9(1) kids(2,3) kids9(2) pt'_def refl]
  obtain h' where h': "let s' = s9\<lparr>process_table := pt', plinks := h', resume_at := (resume_at s9)(new_pid := UserEntry)\<rparr> in
    start_enqueue new_pid prio s9 = (if cur_pid s9 \<noteq> 0 \<and> p_prio (proc s9 (cur_pid s9)) < prio
        then reschedule (Return new_pid) s' else Inr (Some new_pid, s'))
    \<and> running s' (Q(freepid := rest, actionable := prio_insert pt' new_pid (Q actionable)))
    \<and> kids_ok (insert new_pid T) h' (C(cur_pid s9 := prio_insert pt' new_pid (C (cur_pid s9))))" by auto
  define s' where "s' = s9\<lparr>process_table := pt', plinks := h', resume_at := (resume_at s9)(new_pid := UserEntry)\<rparr>"
  define Q' where "Q' = Q(freepid := rest, actionable := prio_insert pt' new_pid (Q actionable))"
  have f: "cur_pid s9 = cur_pid s" "p_prio (proc s9 (cur_pid s)) = p_prio (proc s (cur_pid s))" "cur_pid s' = cur_pid s"
    "process_table s' = pt'" "mem s' = m'" "plinks s' = h'" "resume_at s' = (resume_at s)(new_pid := UserEntry)"
    "procs.more s' = procs.more s" "\<And>x. x \<noteq> new_pid \<Longrightarrow> pt' x = proc s x"
    using h(5) by (simp_all add: s9_def s'_def pt'_def)
  have en: "start_enqueue new_pid prio s9 = (if cur_pid s \<noteq> 0 \<and> p_prio (proc s (cur_pid s)) < prio
        then reschedule (Return new_pid) s' else Inr (Some new_pid, s'))"
    "running s' Q'" "kids_ok (insert new_pid T) h' (C(cur_pid s := prio_insert pt' new_pid (C (cur_pid s))))"
    using h' unfolding Let_def s'_def [symmetric] Q'_def [symmetric] f(1,2) by simp_all
  have proc': "pt' new_pid = (proc s new_pid)\<lparr>p_name := nm, p_pid := new_pid, p_prio := prio, p_retvalue := 0, p_alarm_time := 0,
        p_esp := kst + KERNEL_STACK_SIZE - 24, p_user_stack_size := ssize + 8, p_kernel_stack := kst, p_user_stack := ust,
        p_father := cur_pid s, p_child_waited := 0, p_state := actionable\<rparr>"
    by (simp add: pt'_def s9_def pn_def started_def)
  have esp: "p_esp (pt' new_pid) = kst + KERNEL_STACK_SIZE - 24" unfolding proc' by simp
  have "map (\<lambda>i. load32 m' (p_esp (pt' new_pid) + i)) [0, 4, 8, 12, 16, 20]
      = [goto_user_mode E, ptfunc, USER_CS, 0x202, ust + ssize, USER_DS]"
    using init_kernel_stack_words [OF m'_def refl] unfolding esp by (simp add: algebra_simps)
  with st en f proc' reschedule_preempt [OF en(2), of "Return new_pid"]
  show ?thesis by (intro exI [of _ s'] exI [of _ Q']) (auto simp: Q'_def)
qed

text \<open>
  C3: \<^verbatim>\<open>start\<close> creates a process. On a running kernel with a free identifier, valid arguments and memory
  for the name and the two stacks, and when the lists of children are sound and that of the free
  identifier is empty, \<^verbatim>\<open>start\<close> does not fault. The smallest free identifier becomes a ready child of the
  caller at its priority, its kernel stack holds the frame with which \<^verbatim>\<open>goto_user_mode\<close> enters the function
  in user mode on its user stack, and the caller gives the processor away exactly when the new process has
  a higher priority and the caller is not \<^verbatim>\<open>idle\<close>.
\<close>

theorem start_contract:
  fixes s :: "('m, 'z) procs_scheme"
  assumes run: "running s Q" and fr: "Q freepid = new_pid # rest"
    and kids: "kids_ok T (plinks s) C" "C new_pid = []" "in_no_queue C new_pid" "cur_pid s \<in> T"
    and args: "\<not> ssize > 0xffffffff - 2 * 4" "1 \<le> prio" "prio \<le> MAXPRIO"
    and nm: "mem_alloc E (strnlen (mem s) name MAX_SIZE_PROCESS_NAME + 1) (heap s) = (nm, hp1)" "nm \<noteq> 0"
    and us: "user_stack_alloc E (ssize + 8) hp1 = (ust, hp2)" "ust \<noteq> 0"
    and ks: "mem_alloc E KERNEL_STACK_SIZE hp2 = (kst, hp3)" "kst \<noteq> 0"
  shows "\<exists>s' Q'. running s' Q' \<and> cur_pid s' = cur_pid s
    \<and> (if cur_pid s \<noteq> 0 \<and> p_prio (proc s (cur_pid s)) < prio
       then \<exists>s'' Q''. start E ptfunc ssize prio name arg s = Inr (None, s'') \<and> switched (Return new_pid) s' Q' s'' Q''
       else start E ptfunc ssize prio name arg s = Inr (Some new_pid, s'))
    \<and> Q' = Q(freepid := rest, actionable := prio_insert (process_table s') new_pid (Q actionable))
    \<and> kids_ok (insert new_pid T) (plinks s') (C(cur_pid s := prio_insert (process_table s') new_pid (C (cur_pid s))))
    \<and> proc s' new_pid = (proc s new_pid)\<lparr>p_name := nm, p_pid := new_pid, p_prio := prio, p_retvalue := 0, p_alarm_time := 0,
        p_esp := kst + KERNEL_STACK_SIZE - 24, p_user_stack_size := ssize + 8, p_kernel_stack := kst, p_user_stack := ust,
        p_father := cur_pid s, p_child_waited := 0, p_state := actionable\<rparr>
    \<and> map (\<lambda>i. load32 (mem s') (p_esp (proc s' new_pid) + i)) [0, 4, 8, 12, 16, 20]
        = [goto_user_mode E, ptfunc, USER_CS, 0x202, ust + ssize, USER_DS]
    \<and> resume_at s' new_pid = UserEntry"
  using start_ok [OF assms, of ptfunc arg] by fastforce

lemma start_contract_witness:
  "\<exists>s'. start ex_env 0x1000100 0x1000 7 0x1000200 3 (ex_state ()) = Inr (None, s') \<and> (\<exists>Q'. running s' Q')"
proof -
  have c: "ex_queues freepid = 2 # []" by (simp add: ex_queues_def)
  have nm: "mem_alloc ex_env (strnlen (mem (ex_state ())) 0x1000200 MAX_SIZE_PROCESS_NAME + 1) (heap (ex_state ())) = (0x300000, ())"
    using strnlen_cstr [of "\<lambda>_. 0" "0x1000200" "[]" 16] by (simp add: ex_env_def ex_state_def)
  have us: "user_stack_alloc ex_env (0x1000 + 8) () = (0x1800000, ())" by (simp add: ex_env_def)
  have ks: "mem_alloc ex_env KERNEL_STACK_SIZE () = (0x400000, ())" by (simp add: ex_env_def)
  have q: "in_no_queue (\<lambda>_. []) (2 :: int)" by (simp add: in_no_queue_def)
  have p: "cur_pid (ex_state ()) = 1" "p_prio (proc (ex_state ()) 1) = 5" by (simp_all add: ex_state_def ex_table_def)
  obtain s' Q' where "\<exists>s'' Q''. start ex_env 0x1000100 0x1000 7 0x1000200 3 (ex_state ()) = Inr (None, s'')
      \<and> switched (Return 2) s' Q' s'' Q''"
    using start_contract [where prio = "7" and ptfunc = "0x1000100" and arg = "3",
        OF ex_running c ex_kids refl q UNIV_I _ _ _ nm _ us _ ks] p by auto
  then show ?thesis using switched_running by blast
qed

text \<open>An identifier taken from the free list and never queued again is lost.\<close>

lemma sched_ok_lose:
  assumes "sched_ok h pt Q (insert p R)" and "p_state (pt p) = freepid"
  shows "sched_ok h pt Q (R - {p})"
  using assms unfolding sched_ok_def by (auto; metis)

lemma running_lost:
  fixes s :: "('m, 'z) procs_scheme"
  assumes run: "running s Q" and fr: "Q freepid = new_pid # rest"
    and s': "s' = s\<lparr>plinks := h, process_table := (process_table s)(new_pid := p'), heap := hp, mem := m\<rparr>"
    and p': "p_pid p' = p_pid (proc s new_pid)" "p_state p' = p_state (proc s new_pid)"
    and h: "sched_ok h (process_table s) (Q(freepid := rest)) {new_pid, cur_pid s}" "same_rest (plinks s) h"
  shows "running s' (Q(freepid := rest)) \<and> in_no_queue (Q(freepid := rest)) new_pid"
proof -
  have st: "p_state (proc s new_pid) = freepid" "new_pid \<noteq> cur_pid s"
    using sched_okD(4,5) [OF runningD(1) [OF run], of new_pid freepid] fr by auto
  have "sched_ok h ((process_table s)(new_pid := p')) (Q(freepid := rest)) {new_pid, cur_pid s}"
    by (rule sched_ok_upd [OF h(1)]) (use p' in auto)
  from sched_ok_lose [OF this] have ok: "sched_ok h ((process_table s)(new_pid := p')) (Q(freepid := rest)) {cur_pid s}"
    using p' st by simp
  have "gc_ok h []" using runningD(2) [OF run] gc_ok_frame [OF h(2)] by simp
  with ok have "running s' (Q(freepid := rest))"
    using runningD(3,4,5) [OF run] st by (auto simp: running_def s')
  with sched_okD(7) [OF h(1), of new_pid] show ?thesis by simp
qed

text \<open>What \<^verbatim>\<open>start\<close> refuses before it takes anything.\<close>

lemma start_refused:
  assumes run: "running s Q" and bad: "ssize > 0xffffffff - 2 * 4 \<or> prio < 1 \<or> prio > MAXPRIO \<or> Q freepid = []"
  shows "start E ptfunc ssize prio name arg s = Inr (Some (-1), s)"
proof (cases "Q freepid")
  case Nil
  then have "obtain_pid s = Inr (-1, s)"
    using pq.queues_empty [OF sched_okD(1) [OF runningD(1) [OF run]], of freepid] by (simp add: obtain_pid_def)
  then show ?thesis by (simp add: start_def)
next
  case Cons
  then show ?thesis using bad by (auto simp: start_def)
qed

lemma start_fails:
  fixes s :: "('m, 'z) procs_scheme"
  assumes run: "running s Q"
    and nm: "mem_alloc E (strnlen (mem s) name MAX_SIZE_PROCESS_NAME + 1) (heap s) = (nm, hp1)"
    and us: "user_stack_alloc E (ssize + 8) hp1 = (ust, hp2)"
    and ks: "mem_alloc E KERNEL_STACK_SIZE hp2 = (kst, hp3)"
    and fails: "nm = 0 \<or> ust = 0 \<or> kst = 0"
  shows "if ssize > 0xffffffff - 2 * 4 \<or> prio < 1 \<or> prio > MAXPRIO \<or> Q freepid = []
    then start E ptfunc ssize prio name arg s = Inr (Some (-1), s)
    else \<exists>s' h p' hp m. start E ptfunc ssize prio name arg s = Inr (Some (-1), s')
      \<and> s' = s\<lparr>plinks := h, process_table := (process_table s)(hd (Q freepid) := p'), heap := hp, mem := m\<rparr>
      \<and> same_rest (plinks s) h \<and> p_state p' = freepid
      \<and> running s' (Q(freepid := tl (Q freepid))) \<and> in_no_queue (Q(freepid := tl (Q freepid))) (hd (Q freepid))"
proof (cases "Q freepid")
  case Nil
  then show ?thesis using start_refused [OF run] by simp
next
  case (Cons new_pid rest)
  obtain h where h: "obtain_pid s = Inr (new_pid, s\<lparr>plinks := h\<rparr>)"
    "sched_ok h (process_table s) (Q(freepid := rest)) {new_pid, cur_pid s}" "same_rest (plinks s) h" "new_pid \<in> pids"
    using obtain_pid_ok [OF run Cons] by blast
  have np: "new_pid \<noteq> -1" using h(4) by (simp add: pids_iff)
  let ?p = "proc s new_pid"
  let ?m1 = "strncpy (mem s) nm name (strnlen (mem s) name MAX_SIZE_PROCESS_NAME + 1)"
  have lost: "running s' (Q(freepid := rest)) \<and> in_no_queue (Q(freepid := rest)) new_pid"
    if "s' = s\<lparr>plinks := h, process_table := (process_table s)(new_pid := p'), heap := hp, mem := m\<rparr>"
      and "p_pid p' = p_pid ?p" "p_state p' = p_state ?p" for s' p' hp m
    using running_lost [OF run Cons that(1,2,3) h(2,3)] .
  show ?thesis
  proof (cases "ssize > 0xffffffff - 2 * 4 \<or> prio < 1 \<or> prio > MAXPRIO")
    case True
    then show ?thesis by (auto simp: start_def)
  next
    case valid: False
    consider "nm = 0" | "nm \<noteq> 0" "ust = 0" | "nm \<noteq> 0" "ust \<noteq> 0" "kst = 0" using fails by blast
    then have "\<exists>p' hp m. start E ptfunc ssize prio name arg s
        = Inr (Some (-1), s\<lparr>plinks := h, process_table := (process_table s)(new_pid := p'), heap := hp, mem := m\<rparr>)
        \<and> p_pid p' = p_pid ?p \<and> p_state p' = p_state ?p"
    proof cases
      case 1
      then show ?thesis
        using h(1) np nm valid
        by (intro exI [of _ "?p\<lparr>p_name := nm\<rparr>"] exI [of _ hp1] exI [of _ "mem s"])
          (simp add: start_def Let_def upd_proc_def)
    next
      case 2
      then show ?thesis
        using h(1) np nm us valid
        by (intro exI [of _ "?p\<lparr>p_name := nm\<rparr>"] exI [of _ "mem_free E nm (strnlen ?m1 nm MAX_SIZE_PROCESS_NAME + 1) hp2"]
            exI [of _ ?m1]) (simp add: start_def Let_def upd_proc_def free_name_def)
    next
      case 3
      let ?m2 = "init_user_stack ust (ssize + 8) arg ?m1"
      show ?thesis
        using 3 h(1) np nm us ks valid
        by (intro exI [of _ "?p\<lparr>p_name := nm, p_user_stack_size := ssize + 8, p_user_stack := ust\<rparr>"]
            exI [of _ "user_stack_free E ust (ssize + 8) (mem_free E nm (strnlen ?m2 nm MAX_SIZE_PROCESS_NAME + 1) hp3)"]
            exI [of _ ?m2]) (simp add: start_def Let_def upd_proc_def free_name_def)
    qed
    then obtain p' hp m where f: "start E ptfunc ssize prio name arg s
        = Inr (Some (-1), s\<lparr>plinks := h, process_table := (process_table s)(new_pid := p'), heap := hp, mem := m\<rparr>)"
        "p_pid p' = p_pid ?p" "p_state p' = p_state ?p" by blast
    have "p_state p' = freepid" using sched_okD(4) [OF runningD(1) [OF run], of new_pid freepid] Cons f(3) by simp
    with f(1) lost [OF refl f(2,3)] valid Cons h(3) show ?thesis by auto
  qed
qed

text \<open>
  C33: when \<^verbatim>\<open>start\<close> fails. On a bad stack size, a bad priority or when no identifier is free it returns -1 and
  changes nothing, whether there is memory or not. Otherwise, when one of its three allocations fails, it returns
  -1 too and the kernel stays sound, but the identifier it had taken is in no queue any more, not even that of
  the free identifiers: it is lost for good. The first three equations only name the answers of the allocators.
\<close>

theorem start_failure:
  fixes s :: "('m, 'z) procs_scheme"
  assumes run: "running s Q"
    and nm: "mem_alloc E (strnlen (mem s) name MAX_SIZE_PROCESS_NAME + 1) (heap s) = (nm, hp1)"
    and us: "user_stack_alloc E (ssize + 8) hp1 = (ust, hp2)"
    and ks: "mem_alloc E KERNEL_STACK_SIZE hp2 = (kst, hp3)"
  shows "if ssize > 0xffffffff - 2 * 4 \<or> prio < 1 \<or> prio > MAXPRIO \<or> Q freepid = []
    then start E ptfunc ssize prio name arg s = Inr (Some (-1), s)
    else nm = 0 \<or> ust = 0 \<or> kst = 0 \<longrightarrow>
      (\<exists>s'. start E ptfunc ssize prio name arg s = Inr (Some (-1), s')
        \<and> running s' (Q(freepid := tl (Q freepid))) \<and> in_no_queue (Q(freepid := tl (Q freepid))) (hd (Q freepid)))"
  using start_refused [OF run] start_fails [OF run nm us ks, of prio ptfunc arg] by (auto split: if_splits)

definition ex_env_full :: "unit env" where
  "ex_env_full = ex_env\<lparr>user_stack_alloc := (\<lambda>n u. (0, ()))\<rparr>"

lemma start_failure_witness:
  "start ex_env_full 0x1000100 0x1000 0 0x1000200 3 (ex_state ()) = Inr (Some (-1), ex_state ())
   \<and> (\<exists>s'. start ex_env_full 0x1000100 0x1000 7 0x1000200 3 (ex_state ()) = Inr (Some (-1), s')
     \<and> running s' (ex_queues(freepid := [])))"
proof -
  have nm: "mem_alloc ex_env_full (strnlen (mem (ex_state ())) 0x1000200 MAX_SIZE_PROCESS_NAME + 1) (heap (ex_state ()))
      = (0x300000, ())"
    using strnlen_cstr [of "\<lambda>_. 0" "0x1000200" "[]" 16] by (simp add: ex_env_full_def ex_env_def ex_state_def)
  have us: "user_stack_alloc ex_env_full (0x1000 + 8) () = (0, ())" by (simp add: ex_env_full_def)
  have ks: "mem_alloc ex_env_full KERNEL_STACK_SIZE () = (0x400000, ())" by (simp add: ex_env_full_def ex_env_def)
  show ?thesis
    using start_failure [where prio = "7" and ptfunc = "0x1000100" and arg = "3", OF ex_running nm us ks]
      start_failure [where prio = "0" and ptfunc = "0x1000100" and arg = "3", OF ex_running nm us ks]
    by (auto simp: ex_queues_def)
qed

end
