(* ===== verification/Semaphore.thy ===== *)
theory Semaphore
  imports Process_Inv
begin

text \<open>
  \<^verbatim>\<open>kernel/sem.c\<close> and the part of \<^verbatim>\<open>kernel/process_handler.c\<close> it uses: semaphores, the processes blocked on
  them, and who is woken by what.
\<close>

section \<open>Blocking and waking processes\<close>

definition find_by_sem :: "int \<Rightarrow> ('m, 'z) procs_scheme \<Rightarrow> int option result" where
  "find_by_sem sem s =
     bnd (queue_for_each_prev NB_LINKS (plinks s) (QHead sem_blocked) (\<lambda>l. p_sem_blocked (proc s (owner l)) = sem))
       (\<lambda>r. Inr (map_option owner r))"

definition get_awakener :: "('m, 'z) procs_scheme \<Rightarrow> int" where
  "get_awakener s = p_awakener (proc s (cur_pid s))"

definition block_sem :: "int \<Rightarrow> cont \<Rightarrow> ('m, 'z) procs_scheme \<Rightarrow> ('r option \<times> ('m, 'z) procs_scheme) result" where
  "block_sem sem k s =
     (let s1 = upd_proc (cur_pid s) (\<lambda>p. p\<lparr>p_sem_blocked := sem, p_state := sem_blocked\<rparr>) s in
      bnd (proc_add (QHead sem_blocked) (Chaining (cur_pid s1)) p_prio s1) (\<lambda>s2. reschedule k s2))"

text \<open>The body that \<^verbatim>\<open>unblock_sem\<close>, \<^verbatim>\<open>unblock_n_sems\<close> and \<^verbatim>\<open>unblock_all_sem\<close> share.\<close>

definition make_actionable :: "int \<Rightarrow> int \<Rightarrow> ('m, 'z) procs_scheme \<Rightarrow> ('m, 'z) procs_scheme result" where
  "make_actionable wake cur s =
     bnd (proc_del (Chaining cur) s) (\<lambda>s1.
       let s2 = upd_proc (p_pid (proc s1 cur)) (\<lambda>p. p\<lparr>p_state := actionable, p_awakener := wake\<rparr>) s1;
           s3 = upd_proc cur (\<lambda>p. p\<lparr>p_sem_blocked := -1\<rparr>) s2
       in proc_add (QHead actionable) (Chaining cur) p_prio s3)"

definition unblock_sem :: "int \<Rightarrow> ('m, 'z) procs_scheme \<Rightarrow> (int \<times> ('m, 'z) procs_scheme) result" where
  "unblock_sem sem s =
     bnd (find_by_sem sem s) (\<lambda>r. case r of
       None \<Rightarrow> Inr (-1, s)
     | Some cur \<Rightarrow> bnd (make_actionable 0 cur s) (\<lambda>s1. Inr (p_pid (proc s cur), s1)))"

fun unblock_loop :: "nat \<Rightarrow> int \<Rightarrow> ('m, 'z) procs_scheme \<Rightarrow> ('m, 'z) procs_scheme result" where
  "unblock_loop 0 sem s = bnd (find_by_sem sem s) (\<lambda>r. Inr s)"
| "unblock_loop (Suc n) sem s =
     bnd (find_by_sem sem s) (\<lambda>r. case r of
       None \<Rightarrow> Inr s
     | Some cur \<Rightarrow> bnd (make_actionable 0 cur s) (unblock_loop n sem))"

text \<open>The end of \<^verbatim>\<open>unblock_n_sems\<close> and \<^verbatim>\<open>unblock_all_sem\<close>: run the scheduler if a ready process has a higher priority.\<close>

definition preempt_if_higher :: "cont \<Rightarrow> ('m, 'z) procs_scheme \<Rightarrow> (unit option \<times> ('m, 'z) procs_scheme) result" where
  "preempt_if_higher k s =
     (case queue_top (plinks s) (QHead actionable) of
        None \<Rightarrow> Inl NullDeref
      | Some l \<Rightarrow> if p_prio (proc s (owner l)) > p_prio (proc s (cur_pid s)) then reschedule k s else Inr (Some (), s))"

definition unblock_n_sems :: "int \<Rightarrow> int \<Rightarrow> cont \<Rightarrow> ('m, 'z) procs_scheme \<Rightarrow> (unit option \<times> ('m, 'z) procs_scheme) result" where
  "unblock_n_sems sem n k s =
     (if n \<le> 0 then Inr (Some (), s)
      else bnd (unblock_loop (nat n) sem s) (preempt_if_higher k))"

fun unblock_all_loop :: "nat \<Rightarrow> int \<Rightarrow> int \<Rightarrow> ('m, 'z) procs_scheme \<Rightarrow> ('m, 'z) procs_scheme result" where
  "unblock_all_loop 0 sem wake s = Inl Hang"
| "unblock_all_loop (Suc n) sem wake s =
     bnd (find_by_sem sem s) (\<lambda>r. case r of
       None \<Rightarrow> Inr s
     | Some cur \<Rightarrow> bnd (make_actionable wake cur s) (unblock_all_loop n sem wake))"

definition unblock_all_sem :: "int \<Rightarrow> int \<Rightarrow> cont \<Rightarrow> ('m, 'z) procs_scheme \<Rightarrow> (unit option \<times> ('m, 'z) procs_scheme) result" where
  "unblock_all_sem sem wake k s = bnd (unblock_all_loop NB_LINKS sem wake s) (preempt_if_higher k)"

section \<open>The table of semaphores\<close>

datatype sem_list = sem_used | sem_free

datatype sloc = SHead sem_list | SLink int

record sem =
  sem_id :: int
  sem_value :: int

record 'm sems = "'m procs" +
  sem_table :: "int \<Rightarrow> sem"
  slinks :: "sloc links"

abbreviation NB_SEM :: int where "NB_SEM \<equiv> 100"
abbreviation SHRT_MAX :: int where "SHRT_MAX \<equiv> 32767"
abbreviation SHRT_MIN :: int where "SHRT_MIN \<equiv> -32767"

text \<open>The number of links of the semaphore queues: 100 elements and two heads.\<close>

abbreviation NB_SLINKS :: nat where "NB_SLINKS \<equiv> 103"

fun sowner :: "sloc \<Rightarrow> int" where
  "sowner (SLink i) = i"
| "sowner (SHead t) = -1"

definition upd_sem :: "int \<Rightarrow> (sem \<Rightarrow> sem) \<Rightarrow> ('m, 'z) sems_scheme \<Rightarrow> ('m, 'z) sems_scheme" where
  "upd_sem i f s = s\<lparr>sem_table := (sem_table s)(i := f (sem_table s i))\<rparr>"

definition sem_add :: "sem_list \<Rightarrow> int \<Rightarrow> ('m, 'z) sems_scheme \<Rightarrow> ('m, 'z) sems_scheme result" where
  "sem_add t i s =
     bnd (queue_add NB_SLINKS (slinks s) (\<lambda>l. sem_id (sem_table s (sowner l))) (SHead t) (SLink i))
       (\<lambda>h. Inr (s\<lparr>slinks := h\<rparr>))"

definition init_sem_free :: "('m, 'z) sems_scheme \<Rightarrow> ('m, 'z) sems_scheme result" where
  "init_sem_free s = mfold (\<lambda>i s. sem_add sem_free i (upd_sem i (\<lambda>c. c\<lparr>sem_id := i\<rparr>) s)) [0..NB_SEM - 1] s"

definition find_sem :: "sem_list \<Rightarrow> int \<Rightarrow> ('m, 'z) sems_scheme \<Rightarrow> int option result" where
  "find_sem t i s =
     bnd (queue_for_each NB_SLINKS (slinks s) (SHead t) (\<lambda>l. sem_id (sem_table s (sowner l)) = i))
       (\<lambda>r. Inr (map_option sowner r))"

definition obtain_id :: "('m, 'z) sems_scheme \<Rightarrow> (int \<times> ('m, 'z) sems_scheme) result" where
  "obtain_id s =
     (if queue_empty (slinks s) (SHead sem_free) then Inr (-1, s)
      else bnd (queue_out_bot (slinks s) (SHead sem_free)) (\<lambda>(r, h). case r of
        None \<Rightarrow> Inl NullDeref
      | Some l \<Rightarrow> Inr (sem_id (sem_table s (sowner l)), s\<lparr>slinks := h\<rparr>)))"

definition free_id :: "int \<Rightarrow> ('m, 'z) sems_scheme \<Rightarrow> ('m, 'z) sems_scheme result" where
  "free_id i s =
     bnd (find_sem sem_used i s) (\<lambda>r. case r of
       None \<Rightarrow> Inl NullDeref
     | Some cur \<Rightarrow> bnd (queue_del (slinks s) (SLink cur)) (\<lambda>h.
         sem_add sem_free (sem_id (sem_table s cur)) (s\<lparr>slinks := h\<rparr>)))"

section \<open>Operations\<close>

definition scount :: "int \<Rightarrow> ('m, 'z) sems_scheme \<Rightarrow> int result" where
  "scount i s = bnd (find_sem sem_used i s) (\<lambda>r. case r of
     None \<Rightarrow> Inr (-1)
   | Some cur \<Rightarrow> Inr (uint (of_int32 (sem_value (sem_table s cur)) AND 0xffff)))"

definition screate :: "int \<Rightarrow> ('m, 'z) sems_scheme \<Rightarrow> (int \<times> ('m, 'z) sems_scheme) result" where
  "screate count s =
     (if count < 0 then Inr (-1, s)
      else bnd (obtain_id s) (\<lambda>(id_sem, s1).
        if id_sem = -1 then Inr (-1, s1)
        else bnd (sem_add sem_used id_sem (upd_sem id_sem (\<lambda>c. c\<lparr>sem_value := count\<rparr>) s1)) (\<lambda>s2. Inr (id_sem, s2))))"

text \<open>The value returned after a part that may switch: \<open>v\<close> if it came back.\<close>

definition then_return :: "'r \<Rightarrow> unit option \<times> 's \<Rightarrow> ('r option \<times> 's) result" where
  "then_return v = (\<lambda>(r, s). Inr (map_option (\<lambda>_. v) r, s))"

definition sdelete :: "int \<Rightarrow> ('m, 'z) sems_scheme \<Rightarrow> (int option \<times> ('m, 'z) sems_scheme) result" where
  "sdelete i s = bnd (find_sem sem_used i s) (\<lambda>r. case r of
     None \<Rightarrow> Inr (Some (-1), s)
   | Some cur \<Rightarrow> bnd (free_id i s) (\<lambda>s1. bnd (unblock_all_sem i (-3) (Return 0) s1) (then_return 0)))"

definition sreset :: "int \<Rightarrow> int \<Rightarrow> ('m, 'z) sems_scheme \<Rightarrow> (int option \<times> ('m, 'z) sems_scheme) result" where
  "sreset i count s = bnd (find_sem sem_used i s) (\<lambda>r. case r of
     None \<Rightarrow> Inr (Some (-1), s)
   | Some cur \<Rightarrow>
       if count < 0 then Inr (Some (-1), s)
       else bnd (unblock_all_sem i (-4) (Return 0)
              (upd_sem cur (\<lambda>c. c\<lparr>sem_value := uint (of_int32 count AND 0xffff)\<rparr>) s)) (then_return 0))"

definition signal :: "int \<Rightarrow> cont \<Rightarrow> ('m, 'z) sems_scheme \<Rightarrow> (int option \<times> ('m, 'z) sems_scheme) result" where
  "signal i k s = bnd (find_sem sem_used i s) (\<lambda>r. case r of
     None \<Rightarrow> Inr (Some (-1), s)
   | Some cur \<Rightarrow>
       (let test = sem_value (sem_table s cur) + 1 in
        if test > SHRT_MAX then Inr (Some (-2), s)
        else
          (let s1 = upd_sem cur (\<lambda>c. c\<lparr>sem_value := test\<rparr>) s in
           if test \<le> 0 then
             bnd (unblock_sem i s1) (\<lambda>(pid, s2).
               if getprio pid s2 > getprio (getpid s2) s2 then reschedule k s2 else Inr (Some 0, s2))
           else Inr (Some 0, s1))))"

definition signal_death :: "int \<Rightarrow> ('m, 'z) sems_scheme \<Rightarrow> (int \<times> ('m, 'z) sems_scheme) result" where
  "signal_death i s = bnd (find_sem sem_used i s) (\<lambda>r. case r of
     None \<Rightarrow> Inr (-1, s)
   | Some cur \<Rightarrow>
       (let test = sem_value (sem_table s cur) + 1 in
        if test > SHRT_MAX then Inr (-2, s)
        else
          (let s1 = upd_sem cur (\<lambda>c. c\<lparr>sem_value := test\<rparr>) s in
           if test \<le> 0 then bnd (unblock_sem i s1) (\<lambda>(pid, s2). Inr (0, s2))
           else Inr (0, s1))))"

definition signaln :: "int \<Rightarrow> int \<Rightarrow> ('m, 'z) sems_scheme \<Rightarrow> (int option \<times> ('m, 'z) sems_scheme) result" where
  "signaln i count s =
     (if count < 0 then Inr (Some (-1), s)
      else bnd (find_sem sem_used i s) (\<lambda>r. case r of
        None \<Rightarrow> Inr (Some (-1), s)
      | Some cur \<Rightarrow>
          (let test = sem_value (sem_table s cur) + count in
           if test > SHRT_MAX then Inr (Some (-2), s)
           else bnd (unblock_n_sems i count (Return 0) (upd_sem cur (\<lambda>c. c\<lparr>sem_value := test\<rparr>) s)) (then_return 0))))"

definition wait :: "int \<Rightarrow> ('m, 'z) sems_scheme \<Rightarrow> (int option \<times> ('m, 'z) sems_scheme) result" where
  "wait i s = bnd (find_sem sem_used i s) (\<lambda>r. case r of
     None \<Rightarrow> Inr (Some (-1), s)
   | Some cur \<Rightarrow>
       (let test = sem_value (sem_table s cur) - 1 in
        if test < SHRT_MIN then Inr (Some (-2), s)
        else
          (let s1 = upd_sem cur (\<lambda>c. c\<lparr>sem_value := test\<rparr>) s in
           if sem_value (sem_table s1 cur) < 0 then block_sem i WaitSem s1 else Inr (Some 0, s1))))"

definition try_wait :: "int \<Rightarrow> ('m, 'z) sems_scheme \<Rightarrow> (int \<times> ('m, 'z) sems_scheme) result" where
  "try_wait i s = bnd (find_sem sem_used i s) (\<lambda>r. case r of
     None \<Rightarrow> Inr (-1, s)
   | Some cur \<Rightarrow>
       (let test = sem_value (sem_table s cur) - 1 in
        if test < SHRT_MIN then Inr (-2, s)
        else if test < 0 then Inr (-3, s)
        else Inr (0, upd_sem cur (\<lambda>c. c\<lparr>sem_value := test\<rparr>) s)))"

definition mutex_init :: "('m, 'z) sems_scheme \<Rightarrow> (int \<times> ('m, 'z) sems_scheme) result" where
  "mutex_init s = screate 1 s"

definition mutex_lock :: "int \<Rightarrow> ('m, 'z) sems_scheme \<Rightarrow> (int option \<times> ('m, 'z) sems_scheme) result" where
  "mutex_lock i s = wait i s"

definition mutex_try_lock :: "int \<Rightarrow> ('m, 'z) sems_scheme \<Rightarrow> (int \<times> ('m, 'z) sems_scheme) result" where
  "mutex_try_lock i s = try_wait i s"

definition mutex_unlock :: "int \<Rightarrow> ('m, 'z) sems_scheme \<Rightarrow> (int option \<times> ('m, 'z) sems_scheme) result" where
  "mutex_unlock i s = signal i (Return 0) s"

definition mutex_destroy :: "int \<Rightarrow> ('m, 'z) sems_scheme \<Rightarrow> (int option \<times> ('m, 'z) sems_scheme) result" where
  "mutex_destroy i s = sdelete i s"

section \<open>Listings\<close>

text \<open>\<^verbatim>\<open>printf\<close> of a line about a process; the name is read from memory up to its NUL.\<close>

definition print_process :: "string \<Rightarrow> (process \<Rightarrow> va list) \<Rightarrow> (process \<Rightarrow> va list) \<Rightarrow> int
    \<Rightarrow> ('m, 'z) procs_scheme \<Rightarrow> ('m, 'z) procs_scheme result" where
  "print_process fmt before after p s =
     (case str_at (mem s) (p_name (proc s p)) of
        None \<Rightarrow> Inl Hang
      | Some nm \<Rightarrow> kprintf fmt (before (proc s p) @ [VStr (Some nm)] @ after (proc s p)) s)"

definition list_of_sem :: "int \<Rightarrow> ('m, 'z) procs_scheme \<Rightarrow> ('m, 'z) procs_scheme result" where
  "list_of_sem sem s =
     bnd (queue_elems NB_LINKS (plinks s) (QHead sem_blocked)) (\<lambda>ls.
       mfold (\<lambda>l. print_process (''%d : %s                     '' @ [CHR 10]) (\<lambda>p. [VWord (of_int32 (p_pid p))]) (\<lambda>p. [])
                (owner l)) ls s)"

definition print_list_sem :: "('m, 'z) procs_scheme \<Rightarrow> ('m, 'z) procs_scheme result" where
  "print_list_sem s =
     bnd (queue_visit NB_LINKS (\<lambda>l. lprev (plinks s l)) (QHead sem_blocked) (lprev (plinks s (QHead sem_blocked)))) (\<lambda>ls.
     bnd (mfold (\<lambda>l. print_process ''processus %s de prio %d ;'' (\<lambda>p. []) (\<lambda>p. [VWord (of_int32 (p_prio p))])
                (owner l)) ls s)
       (\<lambda>s1. kprintf [CHR 10] [] s1))"

definition list_sem_info :: "('m, 'z) sems_scheme \<Rightarrow> ('m, 'z) sems_scheme result" where
  "list_sem_info s =
     bnd (kprintf (''id sempahore                       valeur sempahore '' @ [CHR 10]) [] s) (\<lambda>s1.
     bnd (kprintf (''------------------------------------------------------------'' @ [CHR 10]) [] s1) (\<lambda>s2.
     bnd (queue_elems NB_SLINKS (slinks s2) (SHead sem_used)) (\<lambda>ls.
     bnd (mfold (\<lambda>l s. bnd (kprintf (''%d                                 %d '' @ [CHR 10])
              [VWord (of_int32 (sem_id (sem_table s (sowner l)))), VWord (of_int32 (sem_value (sem_table s (sowner l))))] s)
              (list_of_sem (sem_id (sem_table s (sowner l))))) ls s2)
       (\<lambda>s3. kprintf [CHR 10] [] s3))))"

end
