(* ===== verification/Sem_Ops.thy ===== *)
theory Sem_Ops
  imports Semaphore Process_Ops
begin

text \<open>
  What the semaphore operations do: the invariant that ties the value of a semaphore to the processes
  blocked on it, the effect of every operation, and who is woken.
\<close>

section \<open>Waking the processes blocked on a semaphore\<close>

text \<open>The processes blocked on semaphore \<open>i\<close>, in queue order: the one of highest priority last.\<close>

definition waiters :: "int \<Rightarrow> (int \<Rightarrow> process) \<Rightarrow> (list_type \<Rightarrow> int list) \<Rightarrow> int list" where
  "waiters i pt Q = filter (\<lambda>p. p_sem_blocked (pt p) = i) (Q sem_blocked)"

definition woken :: "int \<Rightarrow> process \<Rightarrow> process" where
  "woken wake p = p\<lparr>p_state := actionable, p_awakener := wake, p_sem_blocked := -1\<rparr>"

lemma find_rev_last: "find P (rev xs) = (if filter P xs = [] then None else Some (last (filter P xs)))"
  by (induction xs rule: rev_induct) auto

lemma find_by_sem_ok:
  assumes "sched_ok (plinks s) pt Q R"
  shows "find_by_sem i s = Inr (if waiters i (process_table s) Q = [] then None else Some (last (waiters i (process_table s) Q)))"
  by (simp add: find_by_sem_def pq.queues_for_each(2) [OF sched_okD(1) [OF assms] card_pids] option.map_comp o_def
      find_rev_last waiters_def)

text \<open>One process leaves the queue of blocked processes for the ready queue.\<close>

definition wake_one :: "int \<Rightarrow> (int \<Rightarrow> process) \<Rightarrow> (list_type \<Rightarrow> int list) \<Rightarrow> list_type \<Rightarrow> int list" where
  "wake_one p pt Q = Q(sem_blocked := remove1 p (Q sem_blocked), actionable := prio_insert pt p (Q actionable))"

lemma make_actionable_ok:
  fixes s :: "('m, 'z) procs_scheme"
  assumes run: "running s Q" and p: "p \<in> set (Q sem_blocked)"
  shows "\<exists>h. make_actionable wake p s
      = Inr (s\<lparr>plinks := h, process_table := (process_table s)(p := woken wake (proc s p))\<rparr>)
    \<and> running (s\<lparr>plinks := h, process_table := (process_table s)(p := woken wake (proc s p))\<rparr>)
        (wake_one p (process_table s) Q) \<and> same_rest (plinks s) h"
proof -
  let ?pt' = "(process_table s)(p := woken wake (proc s p))"
  note ok = runningD(1) [OF run]
  have pw: "p_pid (woken wake (proc s p)) = p_pid (proc s p)" "p_state (woken wake (proc s p)) = actionable"
    by (simp_all add: woken_def)
  obtain h1 where h1: "proc_del (Chaining p) s = Inr (s\<lparr>plinks := h1\<rparr>)"
    "\<And>(s3 :: ('m, 'z) procs_scheme) key k. plinks s3 = h1 \<Longrightarrow> \<forall>x. key (proc s3 x) = k x \<Longrightarrow>
        \<exists>h2. proc_add (QHead actionable) (Chaining p) key s3 = Inr (s3\<lparr>plinks := h2\<rparr>)
          \<and> sched_ok h2 ?pt' (Q(sem_blocked := remove1 p (Q sem_blocked), actionable := key_insert k p (Q actionable))) {cur_pid s}
          \<and> same_rest (plinks s) h2"
    using move_to_ready [OF ok p _ pw] by auto
  define s3 where "s3 = s\<lparr>plinks := h1, process_table := ?pt'\<rparr>"
  have l3: "plinks s3 = h1" and key: "\<forall>x. p_prio (proc s3 x) = p_prio (proc s x)" by (simp_all add: s3_def woken_def)
  obtain h2 where h2: "proc_add (QHead actionable) (Chaining p) p_prio s3 = Inr (s3\<lparr>plinks := h2\<rparr>)"
    "sched_ok h2 ?pt' (wake_one p (process_table s) Q) {cur_pid s}" "same_rest (plinks s) h2"
    using h1(2) [OF l3 key] by (auto simp: wake_one_def)
  have "upd_proc p (\<lambda>q. q\<lparr>p_sem_blocked := -1\<rparr>)
      (upd_proc p (\<lambda>q. q\<lparr>p_state := actionable, p_awakener := wake\<rparr>) (s\<lparr>plinks := h1\<rparr>)) = s3"
    by (simp add: upd_proc_def s3_def woken_def)
  moreover have "p_pid (proc (s\<lparr>plinks := h1\<rparr>) p) = p" using sched_okD(2,3) [OF ok] p by auto
  ultimately have "make_actionable wake p s = Inr (s\<lparr>plinks := h2, process_table := ?pt'\<rparr>)"
    using h1(1) h2(1) by (simp add: make_actionable_def Let_def) (simp add: s3_def)
  then show ?thesis using running_moved [OF run p pw(2) h2(2,3)] h2(3) by blast
qed

text \<open>
  Waking a list of processes one after the other: each of \<open>ps\<close>, in that order, is moved.
\<close>

definition woken_table :: "int \<Rightarrow> int list \<Rightarrow> (int \<Rightarrow> process) \<Rightarrow> int \<Rightarrow> process" where
  "woken_table wake ps pt = (\<lambda>p. if p \<in> set ps then woken wake (pt p) else pt p)"

definition wake_all :: "int list \<Rightarrow> (int \<Rightarrow> process) \<Rightarrow> (list_type \<Rightarrow> int list) \<Rightarrow> list_type \<Rightarrow> int list" where
  "wake_all ps pt Q = fold (\<lambda>p. wake_one p pt) ps Q"

lemma woken_fields [simp]:
  "p_prio (woken w p) = p_prio p" "p_pid (woken w p) = p_pid p" "p_state (woken w p) = actionable"
  "p_sem_blocked (woken w p) = -1" "p_awakener (woken w p) = w" "p_alarm_time (woken w p) = p_alarm_time p"
  by (simp_all add: woken_def)

lemma woken_table_prio [simp]: "p_prio (woken_table w ps pt p) = p_prio (pt p)"
  by (simp add: woken_table_def)

lemma wake_one_cong: "(\<And>x. p_prio (pt' x) = p_prio (pt x)) \<Longrightarrow> wake_one p pt' Q = wake_one p pt Q"
  by (simp add: wake_one_def)

lemma waiters_wake_one:
  assumes "i \<noteq> -1" and "distinct (Q sem_blocked)"
  shows "waiters i (pt(p := woken w (pt p))) (wake_one p pt Q) = remove1 p (waiters i pt Q)"
proof -
  have "filter (\<lambda>x. p_sem_blocked ((pt(p := woken w (pt p))) x) = i) (remove1 p xs)
      = remove1 p (filter (\<lambda>x. p_sem_blocked (pt x) = i) xs)" if "distinct xs" for xs
    using that assms(1) by (induction xs) (auto simp: woken_def remove1_idem intro!: filter_cong)
  then show ?thesis using assms(2) by (simp add: waiters_def wake_one_def)
qed

text \<open>The states after waking \<open>ps\<close>.\<close>

definition awake :: "int \<Rightarrow> int list \<Rightarrow> ploc links \<Rightarrow> ('m, 'z) procs_scheme \<Rightarrow> ('m, 'z) procs_scheme" where
  "awake wake ps h s = s\<lparr>plinks := h, process_table := woken_table wake ps (process_table s)\<rparr>"

lemma awake_Nil: "awake wake [] (plinks s) s = s"
  by (simp add: awake_def woken_table_def)

lemma wake_all_Nil [simp]: "wake_all [] pt Q = Q"
  by (simp add: wake_all_def)

lemma wake_all_Cons: "wake_all (p # ps) pt Q = wake_all ps (pt(p := woken w (pt p))) (wake_one p pt Q)"
proof -
  have "p_prio ((pt(p := woken w (pt p))) x) = p_prio (pt x)" for x by simp
  then have "(\<lambda>q. wake_one q (pt(p := woken w (pt p)))) = (\<lambda>q. wake_one q pt)"
    by (intro ext wake_one_cong)
  then show ?thesis by (simp add: wake_all_def)
qed

text \<open>The first step of waking the waiters of \<open>i\<close>, and the rest: the last waiter goes first.\<close>

lemma wake_last_ok:
  fixes s :: "('m, 'z) procs_scheme"
  assumes run: "running s Q" and i: "i \<noteq> -1" and w: "waiters i (process_table s) Q = ws @ [p]"
  shows "\<exists>s1 Q1. make_actionable wake p s = Inr s1 \<and> running s1 Q1 \<and> waiters i (process_table s1) Q1 = ws
    \<and> cur_pid s1 = cur_pid s \<and> same_rest (plinks s) (plinks s1)
    \<and> (\<forall>ps h. set ps \<subseteq> set ws \<longrightarrow> awake wake ps h s1 = awake wake (p # ps) h s
         \<and> wake_all ps (process_table s1) Q1 = wake_all (p # ps) (process_table s) Q)"
proof -
  let ?pt = "process_table s"
  have pq: "p \<in> set (Q sem_blocked)" using w by (metis filter_is_subset in_set_conv_decomp subsetD waiters_def)
  have dist: "distinct (Q sem_blocked)" by (rule sched_ok_distinct [OF runningD(1) [OF run]])
  then have "distinct (ws @ [p])" unfolding w [symmetric] waiters_def by simp
  then have np: "p \<notin> set ws" by simp
  obtain h where h: "make_actionable wake p s = Inr (s\<lparr>plinks := h, process_table := ?pt(p := woken wake (?pt p))\<rparr>)"
    "running (s\<lparr>plinks := h, process_table := ?pt(p := woken wake (?pt p))\<rparr>) (wake_one p ?pt Q)" "same_rest (plinks s) h"
    using make_actionable_ok [OF run pq] by blast
  let ?s1 = "s\<lparr>plinks := h, process_table := ?pt(p := woken wake (?pt p))\<rparr>"
  have "waiters i (process_table ?s1) (wake_one p ?pt Q) = remove1 p (ws @ [p])"
    using waiters_wake_one [of i Q ?pt p wake, OF i dist] w by simp
  then have "waiters i (process_table ?s1) (wake_one p ?pt Q) = ws" using np by (simp add: remove1_append)
  moreover have "awake wake ps g ?s1 = awake wake (p # ps) g s" if "set ps \<subseteq> set ws" for ps g
  proof -
    have "woken_table wake ps (?pt(p := woken wake (?pt p))) = woken_table wake (p # ps) ?pt"
      using that np by (auto simp: woken_table_def fun_eq_iff)
    then show ?thesis by (simp add: awake_def)
  qed
  moreover have "wake_all ps (process_table ?s1) (wake_one p ?pt Q) = wake_all (p # ps) ?pt Q" for ps
    using wake_all_Cons [of p ps ?pt Q wake] by simp
  ultimately show ?thesis using h by (intro exI [of _ ?s1] exI [of _ "wake_one p ?pt Q"]) simp
qed

lemma set_take_butlast: "set (take n (rev ws)) \<subseteq> set ws"
  using set_take_subset [of n "rev ws"] by simp

lemma unblock_loop_ok:
  fixes s :: "('m, 'z) procs_scheme"
  assumes "running s Q" and "i \<noteq> -1" and "ps = take n (rev (waiters i (process_table s) Q))"
  shows "\<exists>h. unblock_loop n i s = Inr (awake 0 ps h s) \<and> running (awake 0 ps h s) (wake_all ps (process_table s) Q)
    \<and> same_rest (plinks s) h"
  using assms
proof (induction n arbitrary: s Q ps)
  case 0
  then show ?case
    using find_by_sem_ok [OF runningD(1) [OF 0(1)], of i] awake_Nil [of 0 s]
    by (intro exI [of _ "plinks s"]) simp
next
  case (Suc n)
  note fs = find_by_sem_ok [OF runningD(1) [OF Suc.prems(1)], of i]
  show ?case
  proof (cases "waiters i (process_table s) Q" rule: rev_cases)
    case Nil
    then show ?thesis using Suc.prems fs awake_Nil [of 0 s] by (intro exI [of _ "plinks s"]) simp
  next
    case (snoc ws p)
    obtain s1 Q1 where s1: "make_actionable 0 p s = Inr s1" "running s1 Q1" "waiters i (process_table s1) Q1 = ws"
      "same_rest (plinks s) (plinks s1)"
      "\<forall>ps h. set ps \<subseteq> set ws \<longrightarrow> awake 0 ps h s1 = awake 0 (p # ps) h s
         \<and> wake_all ps (process_table s1) Q1 = wake_all (p # ps) (process_table s) Q"
      using wake_last_ok [OF Suc.prems(1,2) snoc, of 0] by blast
    define ps' where "ps' = take n (rev ws)"
    have ps: "ps = p # ps'" using Suc.prems(3) snoc by (simp add: ps'_def)
    have sub: "set ps' \<subseteq> set ws" unfolding ps'_def by (rule set_take_butlast)
    obtain h where "unblock_loop n i s1 = Inr (awake 0 ps' h s1)"
      "running (awake 0 ps' h s1) (wake_all ps' (process_table s1) Q1)" "same_rest (plinks s1) h"
      using Suc.IH [OF s1(2) Suc.prems(2), of ps'] s1(3) ps'_def by auto
    then show ?thesis using fs snoc s1(1,5) same_rest_trans [OF s1(4)] sub ps by (intro exI [of _ h]) simp
  qed
qed

lemma unblock_all_loop_ok:
  fixes s :: "('m, 'z) procs_scheme"
  assumes "running s Q" and "i \<noteq> -1" and "ps = rev (waiters i (process_table s) Q)" and "length ps < n"
  shows "\<exists>h. unblock_all_loop n i wake s = Inr (awake wake ps h s)
    \<and> running (awake wake ps h s) (wake_all ps (process_table s) Q) \<and> same_rest (plinks s) h"
  using assms
proof (induction n arbitrary: s Q ps)
  case (Suc n)
  note fs = find_by_sem_ok [OF runningD(1) [OF Suc.prems(1)], of i]
  show ?case
  proof (cases "waiters i (process_table s) Q" rule: rev_cases)
    case Nil
    then show ?thesis using Suc.prems fs awake_Nil [of wake s] by (intro exI [of _ "plinks s"]) simp
  next
    case (snoc ws p)
    obtain s1 Q1 where s1: "make_actionable wake p s = Inr s1" "running s1 Q1" "waiters i (process_table s1) Q1 = ws"
      "same_rest (plinks s) (plinks s1)"
      "\<forall>ps h. set ps \<subseteq> set ws \<longrightarrow> awake wake ps h s1 = awake wake (p # ps) h s
         \<and> wake_all ps (process_table s1) Q1 = wake_all (p # ps) (process_table s) Q"
      using wake_last_ok [OF Suc.prems(1,2) snoc, of wake] by blast
    have ps: "ps = p # rev ws" using Suc.prems(3) snoc by simp
    obtain h where "unblock_all_loop n i wake s1 = Inr (awake wake (rev ws) h s1)"
      "running (awake wake (rev ws) h s1) (wake_all (rev ws) (process_table s1) Q1)" "same_rest (plinks s1) h"
      using Suc.IH [OF s1(2) Suc.prems(2), of "rev ws"] s1(3) ps Suc.prems(4) by auto
    then show ?thesis using fs snoc s1(1,5) same_rest_trans [OF s1(4)] ps by (intro exI [of _ h]) simp
  qed
qed simp

lemma preempt_if_higher_ok:
  fixes s :: "('m, 'z) procs_scheme"
  assumes run: "running s Q" and cur: "cur_pid s \<noteq> 0"
  shows "if p_prio (proc s (last (Q actionable))) > p_prio (proc s (cur_pid s))
    then \<exists>s' Q'. preempt_if_higher k s = Inr (None, s') \<and> switched k s Q s' Q'
    else preempt_if_higher k s = Inr (Some (), s)"
proof -
  have ne: "Q actionable \<noteq> []" using running_idle_ready [OF run cur] by auto
  have "queue_top (plinks s) (QHead actionable) = Some (Chaining (last (Q actionable)))"
    by (rule pq.queues_top [OF sched_okD(1) [OF runningD(1) [OF run]] ne])
  then show ?thesis using reschedule_preempt [OF run, of k] by (auto simp: preempt_if_higher_def)
qed

section \<open>The invariant of the semaphores\<close>

interpretation sq: link_family SHead SLink
  by unfold_locales auto

definition sids :: "int set" where
  "sids = {0..<NB_SEM}"

lemma sids_iff: "i \<in> sids \<longleftrightarrow> 0 \<le> i \<and> i < NB_SEM"
  by (simp add: sids_def)

lemma card_sids: "finite sids" "card sids < NB_SLINKS"
  by (simp_all add: sids_def)

text \<open>
  \<open>S\<close> gives the used and the free identifiers, in the order of their queues; that of the free ones is in
  the order of the identifiers.
\<close>

definition sems_ok :: "('m, 'z) sems_scheme \<Rightarrow> (sem_list \<Rightarrow> int list) \<Rightarrow> bool" where
  "sems_ok s S \<longleftrightarrow> queues SHead SLink (slinks s) sids S
     \<and> (\<forall>i \<in> sids. sem_id (sem_table s i) = i \<and> i \<in> set (S sem_used) \<union> set (S sem_free))
     \<and> sorted (S sem_free)"

text \<open>
  The balance: a used semaphore of value \<open>v\<close> has \<open>- v\<close> blocked processes if \<open>v\<close> is negative and none
  otherwise, and a process is only blocked on a used semaphore.
\<close>

definition balanced :: "('m, 'z) sems_scheme \<Rightarrow> (list_type \<Rightarrow> int list) \<Rightarrow> (sem_list \<Rightarrow> int list) \<Rightarrow> bool" where
  "balanced s Q S \<longleftrightarrow> (\<forall>p \<in> set (Q sem_blocked). p_sem_blocked (proc s p) \<in> set (S sem_used))
     \<and> (\<forall>i \<in> set (S sem_used). SHRT_MIN \<le> sem_value (sem_table s i) \<and> sem_value (sem_table s i) \<le> SHRT_MAX
          \<and> int (length (waiters i (process_table s) Q)) = max 0 (- sem_value (sem_table s i)))"

definition sem_inv :: "('m, 'z) sems_scheme \<Rightarrow> (list_type \<Rightarrow> int list) \<Rightarrow> (sem_list \<Rightarrow> int list) \<Rightarrow> bool" where
  "sem_inv s Q S \<longleftrightarrow> running s Q \<and> sems_ok s S \<and> balanced s Q S"

lemma sems_okD:
  assumes "sems_ok s S"
  shows "queues SHead SLink (slinks s) sids S" "i \<in> sids \<Longrightarrow> sem_id (sem_table s i) = i"
    "i \<in> set (S t) \<Longrightarrow> i \<in> sids" "i \<in> sids \<Longrightarrow> i \<in> set (S sem_used) \<or> i \<in> set (S sem_free)"
    "sorted (S sem_free)"
  using assms queuesD(2) [of SHead SLink "slinks s" sids S t] by (auto simp: sems_ok_def)

lemma used_not_minus1: "sems_ok s S \<Longrightarrow> i \<in> set (S t) \<Longrightarrow> i \<noteq> -1"
  using sems_okD(3) [of s S i t] by (auto simp: sids_iff)

lemma find_sem_ok:
  assumes "sems_ok s S"
  shows "find_sem t i s = Inr (if i \<in> set (S t) then Some i else None)"
proof -
  have "find (\<lambda>j. sem_id (sem_table s j) = i) xs = (if i \<in> set xs then Some i else None)" if "set xs \<subseteq> sids" for xs
    using that by (induction xs) (auto simp: sems_okD(2) [OF assms])
  moreover have "set (S t) \<subseteq> sids" using sems_okD(3) [OF assms] by blast
  ultimately show ?thesis
    by (simp add: find_sem_def sq.queues_for_each(1) [OF sems_okD(1) [OF assms] card_sids] option.map_comp o_def)
qed

text \<open>The value of a semaphore changes, no identifier moves.\<close>

lemma sems_ok_upd: "sems_ok s S \<Longrightarrow> sems_ok (upd_sem i (\<lambda>c. c\<lparr>sem_value := v\<rparr>) s) S"
  by (simp add: sems_ok_def upd_sem_def)

lemma running_upd_sem [simp]: "running (upd_sem i f s) Q \<longleftrightarrow> running s Q"
  by (simp add: running_def upd_sem_def)

lemma upd_sem_fields [simp]:
  "process_table (upd_sem i f s) = process_table s" "cur_pid (upd_sem i f s) = cur_pid s"
  "plinks (upd_sem i f s) = plinks s" "resume_at (upd_sem i f s) = resume_at s"
  "sem_table (upd_sem i f s) j = (if j = i then f (sem_table s i) else sem_table s j)"
  by (simp_all add: upd_sem_def)

text \<open>Switching to another process does not touch the semaphores.\<close>

lemma switched_sems:
  fixes s :: "('m, 'z) sems_scheme"
  assumes "switched k s Q s' Q'"
  shows "sem_table s' = sem_table s" "slinks s' = slinks s" "p_sem_blocked (proc s' p) = p_sem_blocked (proc s p)"
    "Q' sem_blocked = Q sem_blocked"
  using assms by (auto simp: switched_def Let_def after_switch_def)

lemma balanced_switched:
  assumes "switched k s Q s' Q'"
  shows "balanced s' Q' S \<longleftrightarrow> balanced s Q S" and "sems_ok s' S \<longleftrightarrow> sems_ok s S"
  using switched_sems [OF assms] by (simp_all add: balanced_def sems_ok_def waiters_def)

lemma sem_inv_switched:
  assumes "switched k s Q s' Q'" and "sems_ok s S" and "balanced s Q S"
  shows "sem_inv s' Q' S"
  using assms balanced_switched [OF assms(1)] switched_running [OF assms(1)] by (simp add: sem_inv_def)

section \<open>Waking and the balance\<close>

lemma remove1_fold:
  "distinct xs \<Longrightarrow> fold remove1 ps xs = filter (\<lambda>p. p \<notin> set ps) xs"
proof (induction ps arbitrary: xs)
  case (Cons p ps)
  then show ?case by (auto simp: distinct_remove1_removeAll removeAll_filter_not_eq intro!: filter_cong)
qed simp

lemma wake_all_blocked:
  assumes "distinct (Q sem_blocked)"
  shows "wake_all ps pt Q sem_blocked = filter (\<lambda>p. p \<notin> set ps) (Q sem_blocked)"
proof -
  have "wake_all ps pt Q sem_blocked = fold remove1 ps (Q sem_blocked)"
    by (induction ps arbitrary: Q) (simp_all add: wake_all_def wake_one_def)
  then show ?thesis by (simp add: remove1_fold [OF assms])
qed

lemma waiters_wake_all:
  assumes "distinct (Q sem_blocked)"
  shows "waiters j (woken_table w ps pt) (wake_all ps pt Q) = filter (\<lambda>p. p \<notin> set ps) (waiters j pt Q)"
  unfolding waiters_def wake_all_blocked [of Q, OF assms] filter_filter
  by (rule filter_cong) (auto simp: woken_table_def)

lemma waiters_distinct: "running s Q \<Longrightarrow> distinct (waiters i (process_table s) Q)"
  using sched_ok_distinct [OF runningD(1), of s Q sem_blocked] by (simp add: waiters_def)

lemma length_filter_notin:
  assumes "distinct xs" and "distinct ps" and "set ps \<subseteq> set xs"
  shows "length (filter (\<lambda>p. p \<notin> set ps) xs) = length xs - length ps"
proof -
  have "set (filter (\<lambda>p. p \<notin> set ps) xs) = set xs - set ps" by auto
  then have "length (filter (\<lambda>p. p \<notin> set ps) xs) = card (set xs - set ps)"
    using assms(1) by (metis distinct_card distinct_filter)
  then show ?thesis using assms by (simp add: card_Diff_subset distinct_card)
qed

text \<open>
  Waking \<open>n\<close> of the waiters of \<open>i\<close> (or all, if there are fewer): the balance of the others is kept, that
  of \<open>i\<close> moves by as many.
\<close>

lemma waiters_after_wake:
  assumes run: "running s Q" and ps: "ps = take n (rev (waiters i (process_table s) Q))"
  shows "waiters j (woken_table w ps (process_table s)) (wake_all ps (process_table s) Q)
      = (if j = i then filter (\<lambda>p. p \<notin> set ps) (waiters i (process_table s) Q) else waiters j (process_table s) Q)"
    and "length (filter (\<lambda>p. p \<notin> set ps) (waiters i (process_table s) Q))
      = length (waiters i (process_table s) Q) - n"
proof -
  let ?w = "waiters i (process_table s) Q"
  have dist: "distinct (Q sem_blocked)" by (rule sched_ok_distinct [OF runningD(1) [OF run]])
  have sub: "set ps \<subseteq> set ?w" unfolding ps by (rule set_take_butlast)
  have "filter (\<lambda>p. p \<notin> set ps) (waiters j (process_table s) Q) = waiters j (process_table s) Q" if "j \<noteq> i"
    using sub that by (intro filter_True) (auto simp: waiters_def)
  then show "waiters j (woken_table w ps (process_table s)) (wake_all ps (process_table s) Q)
      = (if j = i then filter (\<lambda>p. p \<notin> set ps) ?w else waiters j (process_table s) Q)"
    using waiters_wake_all [of Q, OF dist] by simp
  have "distinct ps" unfolding ps using waiters_distinct [OF run] by simp
  from length_filter_notin [OF waiters_distinct [OF run] this sub]
  show "length (filter (\<lambda>p. p \<notin> set ps) ?w) = length ?w - n" by (simp add: ps)
qed

lemma awake_fields [simp]:
  "process_table (awake w ps h s) = woken_table w ps (process_table s)" "cur_pid (awake w ps h s) = cur_pid s"
  by (simp_all add: awake_def)

lemma awake_sems [simp]:
  fixes s :: "('m, 'z) sems_scheme"
  shows "sem_table (awake w ps h s) = sem_table s" "slinks (awake w ps h s) = slinks s"
  by (simp_all add: awake_def)

lemma balanced_wake:
  fixes s :: "('m, 'z) sems_scheme"
  assumes inv: "sem_inv s Q S" and ps: "ps = take n (rev (waiters i (process_table s) Q))"
    and v: "SHRT_MIN \<le> v" "v \<le> SHRT_MAX"
      "max 0 (- v) = int (length (waiters i (process_table s) Q) - n)"
  shows "balanced (awake w ps h (upd_sem i (\<lambda>c. c\<lparr>sem_value := v\<rparr>) s)) (wake_all ps (process_table s) Q) S"
proof -
  have run: "running s Q" and bal: "balanced s Q S" using inv by (simp_all add: sem_inv_def)
  note wa = waiters_after_wake [OF run ps]
  have dist: "distinct (Q sem_blocked)" by (rule sched_ok_distinct [OF runningD(1) [OF run]])
  show ?thesis
    unfolding balanced_def
  proof (intro conjI ballI)
    fix p assume "p \<in> set (wake_all ps (process_table s) Q sem_blocked)"
    then have "p \<notin> set ps" "p \<in> set (Q sem_blocked)" using wake_all_blocked [of Q, OF dist] by auto
    then show "p_sem_blocked (proc (awake w ps h (upd_sem i (\<lambda>c. c\<lparr>sem_value := v\<rparr>) s)) p) \<in> set (S sem_used)"
      using bal by (simp add: woken_table_def balanced_def)
  next
    fix j assume j: "j \<in> set (S sem_used)"
    show "int (length (waiters j (process_table (awake w ps h (upd_sem i (\<lambda>c. c\<lparr>sem_value := v\<rparr>) s)))
        (wake_all ps (process_table s) Q)))
      = max 0 (- sem_value (sem_table (awake w ps h (upd_sem i (\<lambda>c. c\<lparr>sem_value := v\<rparr>) s)) j))"
      using wa v(3) bal j by (simp add: balanced_def)
  qed (use v bal in \<open>auto simp: balanced_def\<close>)
qed

section \<open>wait and try_wait\<close>

definition blocked_on :: "int \<Rightarrow> ('m, 'z) procs_scheme \<Rightarrow> ('m, 'z) procs_scheme" where
  "blocked_on i s = upd_proc (cur_pid s) (\<lambda>p. p\<lparr>p_sem_blocked := i, p_state := sem_blocked\<rparr>) s"

definition block_queue :: "('m, 'z) procs_scheme \<Rightarrow> (list_type \<Rightarrow> int list) \<Rightarrow> list_type \<Rightarrow> int list" where
  "block_queue s Q = Q(sem_blocked := prio_insert (process_table s) (cur_pid s) (Q sem_blocked))"

lemma block_sem_ok:
  fixes s :: "('m, 'z) procs_scheme"
  assumes run: "running s Q" and cur: "cur_pid s \<noteq> 0"
  shows "\<exists>h s' Q'. block_sem i k s = Inr (None, s') \<and> switched k ((blocked_on i s)\<lparr>plinks := h\<rparr>) (block_queue s Q) s' Q'
    \<and> same_rest (plinks s) h"
proof -
  let ?c = "cur_pid s"
  define s1 where "s1 = blocked_on i s"
  define p' where "p' = (proc s ?c)\<lparr>p_sem_blocked := i, p_state := sem_blocked\<rparr>"
  have s1: "s1 = s\<lparr>process_table := (process_table s)(?c := p')\<rparr>" by (simp add: s1_def blocked_on_def upd_proc_def p'_def)
  have pt1: "process_table s1 = (process_table s)(?c := p')" by (simp add: s1)
  have key: "p_prio (proc s1 x) = p_prio (proc s x)" for x by (simp add: s1 p'_def)
  have p1: "p_pid p' = p_pid (proc s ?c)" and p2: "p_state p' = sem_blocked" by (simp_all add: p'_def)
  from block_current [where key = p_prio and k = "\<lambda>x. p_prio (proc s x)", OF run p1 p2 key s1 pt1]
  obtain h where h: "proc_add (QHead sem_blocked) (Chaining ?c) p_prio s1 = Inr (s1\<lparr>plinks := h\<rparr>)"
    "sched_ok h (process_table s1) (block_queue s Q) {}" "gc_ok h []" "same_rest (plinks s) h"
    by (auto simp: block_queue_def)
  define s2 where "s2 = s1\<lparr>plinks := h\<rparr>"
  have f: "cur_pid s2 = ?c" "process_table s2 = process_table s1" "plinks s2 = h" by (simp_all add: s2_def s1)
  have "sched_ok (plinks s2) (process_table s2) (block_queue s Q) {}" "gc_ok (plinks s2) []"
    using h(2,3) by (simp_all add: f)
  from switch_blocked [OF run cur _ _ _ f(1) p2 this, of k]
  obtain s' Q' where "scheduler k s2 = Inr s'" "switched k s2 (block_queue s Q) s' Q'"
    using f(2) pt1 by auto
  moreover have "block_sem i k s = reschedule k s2"
    using h(1) by (simp add: block_sem_def Let_def s1_def [unfolded blocked_on_def, symmetric] s2_def)
      (simp add: s1)
  ultimately show ?thesis using h(4) by (auto simp: reschedule_def s2_def s1_def)
qed

lemma waiters_block:
  assumes run: "running s Q"
  shows "int (length (waiters j (process_table (blocked_on i s)) (block_queue s Q)))
    = int (length (waiters j (process_table s) Q)) + (if j = i then 1 else 0)"
proof -
  have nq: "cur_pid s \<notin> set (Q sem_blocked)" using sched_okD(5) [OF runningD(1) [OF run], of "cur_pid s" sem_blocked] by auto
  let ?b = "\<lambda>p. p_sem_blocked (proc (blocked_on i s) p) = j" and ?c = "\<lambda>p. p_sem_blocked (proc s p) = j"
  have pb: "p_sem_blocked (proc (blocked_on i s) p) = (if p = cur_pid s then i else p_sem_blocked (proc s p))" for p
    by (simp add: blocked_on_def upd_proc_def)
  have b: "?b (cur_pid s) \<longleftrightarrow> j = i" by (auto simp: pb)
  have b0: "filter ?b xs = filter ?c xs" if "cur_pid s \<notin> set xs" for xs
    using that by (intro filter_cong) (auto simp: pb)
  have "length (filter ?b (insert_after_while P (cur_pid s) xs)) = length (filter ?c xs) + (if j = i then 1 else 0)"
    if "cur_pid s \<notin> set xs" for P xs
  proof -
    have "length (filter ?c xs) = length (filter ?c (takeWhile P xs @ dropWhile P xs))" by simp
    moreover have "cur_pid s \<notin> set (takeWhile P xs)" "cur_pid s \<notin> set (dropWhile P xs)"
      using that by (auto dest: set_takeWhileD set_dropWhileD)
    ultimately show ?thesis
      using b0 [of "takeWhile P xs"] b0 [of "dropWhile P xs"] b
      by (cases "j = i") (simp_all add: insert_after_while_def del: takeWhile_dropWhile_id)
  qed
  from this [OF nq] show ?thesis by (simp add: waiters_def block_queue_def)
qed

lemma wait_ok:
  fixes s :: "('m, 'z) sems_scheme"
  assumes inv: "sem_inv s Q S" and cur: "cur_pid s \<noteq> 0" and v: "v = sem_value (sem_table s i)"
    and s1: "s1 = upd_sem i (\<lambda>c. c\<lparr>sem_value := v - 1\<rparr>) s"
  shows "if i \<notin> set (S sem_used) then wait i s = Inr (Some (-1), s)
    else if v = SHRT_MIN then wait i s = Inr (Some (-2), s)
    else if 0 < v then wait i s = Inr (Some 0, s1) \<and> sem_inv s1 Q S
    else \<exists>h s' Q'. wait i s = Inr (None, s') \<and> sem_inv s' Q' S \<and> same_rest (plinks s) h
      \<and> switched WaitSem ((blocked_on i s1)\<lparr>plinks := h\<rparr>) (block_queue s1 Q) s' Q'"
proof -
  have run: "running s Q" and ok: "sems_ok s S" and bal: "balanced s Q S" using inv by (simp_all add: sem_inv_def)
  note find = find_sem_ok [OF ok, of sem_used i]
  have range: "SHRT_MIN \<le> v" "v \<le> SHRT_MAX" "int (length (waiters i (process_table s) Q)) = max 0 (- v)"
    if "i \<in> set (S sem_used)" using bal that by (simp_all add: balanced_def v)
  show ?thesis
  proof (cases "i \<in> set (S sem_used) \<and> v \<noteq> SHRT_MIN")
    case False
    then show ?thesis using find range by (auto simp: wait_def Let_def v)
  next
    case True
    then have i: "i \<in> set (S sem_used)" "SHRT_MIN < v" using range by auto
    have run1: "running s1 Q" and ok1: "sems_ok s1 S" using run sems_ok_upd [OF ok] by (simp_all add: s1)
    have cur1: "cur_pid s1 \<noteq> 0" and pl: "plinks s1 = plinks s" using cur by (simp_all add: s1)
    have step: "wait i s = (if v - 1 < 0 then block_sem i WaitSem s1 else Inr (Some 0, s1))"
      using find i by (simp add: wait_def Let_def v [symmetric] s1 [symmetric]) (simp add: s1)
    show ?thesis
    proof (cases "0 < v")
      case pos: True
      have "balanced s1 Q S"
        using bal i pos range by (auto simp: balanced_def s1 v)
      then show ?thesis using step pos True run1 ok1 by (simp add: sem_inv_def)
    next
      case neg: False
      obtain h s' Q' where h: "block_sem i WaitSem s1 = Inr (None :: int option, s')"
        "switched WaitSem ((blocked_on i s1)\<lparr>plinks := h\<rparr>) (block_queue s1 Q) s' Q'" "same_rest (plinks s) h"
        using block_sem_ok [OF run1 cur1] unfolding pl by blast
      let ?s2 = "(blocked_on i s1)\<lparr>plinks := h\<rparr>"
      have tab: "sem_table ?s2 = sem_table s1" "slinks ?s2 = slinks s1" "process_table ?s2 = process_table (blocked_on i s1)"
        by (simp_all add: blocked_on_def upd_proc_def)
      have "balanced ?s2 (block_queue s1 Q) S"
        unfolding balanced_def tab
      proof (intro conjI ballI)
        fix p assume "p \<in> set (block_queue s1 Q sem_blocked)"
        then show "p_sem_blocked (proc (blocked_on i s1) p) \<in> set (S sem_used)"
          using bal i by (auto simp: block_queue_def blocked_on_def upd_proc_def balanced_def s1)
      next
        fix j assume j: "j \<in> set (S sem_used)"
        then show "int (length (waiters j (process_table (blocked_on i s1)) (block_queue s1 Q)))
            = max 0 (- sem_value (sem_table s1 j))"
          using waiters_block [OF run1, of j i] bal range neg i by (auto simp: balanced_def s1 v)
      qed (use bal i neg range in \<open>auto simp: balanced_def s1 v\<close>)
      moreover have "sems_ok ?s2 S" using ok1 by (simp add: sems_ok_def tab)
      ultimately have "sem_inv s' Q' S" using sem_inv_switched [OF h(2)] by blast
      with h step neg True show ?thesis by auto
    qed
  qed
qed

text \<open>
  C10: \<^verbatim>\<open>wait\<close>. Under the invariant of the semaphores it never faults. It refuses an unknown identifier with
  -1 and a counter at its minimum with -2, without effect. It takes a unit of a positive semaphore and
  returns 0. Otherwise the caller is queued on the semaphore by its priority and another process is
  elected. The invariant is kept in every case.
\<close>

theorem wait_contract:
  fixes s :: "('m, 'z) sems_scheme"
  assumes inv: "sem_inv s Q S" and cur: "cur_pid s \<noteq> 0" and v: "v = sem_value (sem_table s i)"
    and s1: "s1 = upd_sem i (\<lambda>c. c\<lparr>sem_value := v - 1\<rparr>) s"
  shows "if i \<notin> set (S sem_used) then wait i s = Inr (Some (-1), s)
    else if v = SHRT_MIN then wait i s = Inr (Some (-2), s)
    else if 0 < v then wait i s = Inr (Some 0, s1) \<and> sem_inv s1 Q S
    else \<exists>h s' Q'. wait i s = Inr (None, s') \<and> sem_inv s' Q' S
      \<and> switched WaitSem ((blocked_on i s1)\<lparr>plinks := h\<rparr>) (block_queue s1 Q) s' Q'"
  using wait_ok [OF assms] by (auto split: if_splits)

end
