(* ===== verification/Sem_Contracts.thy ===== *)
theory Sem_Contracts
  imports Sem_Ops
begin

text \<open>
  The contracts of the other semaphore operations: initialisation, creation and destruction,
  \<^verbatim>\<open>signal\<close>, \<^verbatim>\<open>signaln\<close>, \<^verbatim>\<open>sreset\<close> and \<^verbatim>\<open>try_wait\<close>, each with the invariant \<open>sem_inv\<close> it keeps and the
  processes it wakes.
\<close>

section \<open>Initialisation\<close>

text \<open>The links and the table as the static initialisers of \<^verbatim>\<open>sem.c\<close> leave them.\<close>

definition static_slinks :: "sloc links" where
  "static_slinks l = (case l of SHead t \<Rightarrow> \<lparr>lprev = Some l, lnext = Some l\<rparr> | SLink i \<Rightarrow> \<lparr>lprev = None, lnext = None\<rparr>)"

lemma static_slinks_queues: "queues SHead SLink static_slinks sids (\<lambda>_. [])"
  by (auto simp: queues_def dll_def static_slinks_def unlinked_def)

definition numbered :: "int \<Rightarrow> (int \<Rightarrow> sem) \<Rightarrow> int \<Rightarrow> sem" where
  "numbered n tbl = (\<lambda>i. if 0 \<le> i \<and> i < n then (tbl i)\<lparr>sem_id := i\<rparr> else tbl i)"

lemma sem_add_ok:
  fixes s :: "('m, 'z) sems_scheme"
  assumes q: "queues SHead SLink (slinks s) sids S" and i: "i \<in> sids" "in_no_queue S i"
  shows "\<exists>h. sem_add t i s = Inr (s\<lparr>slinks := h\<rparr>)
    \<and> queues SHead SLink h sids (S(t := key_insert (\<lambda>j. sem_id (sem_table s j)) i (S t)))"
  using sq.queues_add [OF q card_sids i, of "\<lambda>l. sem_id (sem_table s (sowner l))" t]
  by (auto simp: sem_add_def)

lemma init_sem_free_steps:
  fixes s :: "('m, 'z) sems_scheme"
  assumes "queues SHead SLink (slinks s) sids (\<lambda>_. [])" and "int n \<le> NB_SEM"
  shows "\<exists>h. mfold (\<lambda>i s. sem_add sem_free i (upd_sem i (\<lambda>c. c\<lparr>sem_id := i\<rparr>) s)) [0..int n - 1] s
      = Inr (s\<lparr>sem_table := numbered (int n) (sem_table s), slinks := h\<rparr>)
    \<and> queues SHead SLink h sids ((\<lambda>_. [])(sem_free := [0..int n - 1]))"
  using assms(2)
proof (induction n)
  case 0
  have "numbered 0 tbl = tbl" for tbl by (auto simp: numbered_def)
  then show ?case using assms(1) by (intro exI [of _ "slinks s"]) simp
next
  case (Suc n)
  let ?f = "\<lambda>i s. sem_add sem_free i (upd_sem i (\<lambda>c. c\<lparr>sem_id := i\<rparr>) s)"
  obtain h where h: "mfold ?f [0..int n - 1] s = Inr (s\<lparr>sem_table := numbered (int n) (sem_table s), slinks := h\<rparr>)"
    "queues SHead SLink h sids ((\<lambda>_. [])(sem_free := [0..int n - 1]))"
    using Suc.IH Suc.prems by (fastforce simp del: fun_upd_apply)
  define s1 where "s1 = s\<lparr>sem_table := numbered (int (Suc n)) (sem_table s), slinks := h\<rparr>"
  have s1: "upd_sem (int n) (\<lambda>c. c\<lparr>sem_id := int n\<rparr>) (s\<lparr>sem_table := numbered (int n) (sem_table s), slinks := h\<rparr>) = s1"
    by (auto simp: upd_sem_def s1_def numbered_def fun_eq_iff)
  have "queues SHead SLink (slinks s1) sids ((\<lambda>_. [])(sem_free := [0..int n - 1]))" using h(2) by (simp add: s1_def)
  moreover have "int n \<in> sids" "in_no_queue ((\<lambda>_. [])(sem_free := [0..int n - 1])) (int n)"
    using Suc.prems by (auto simp: sids_iff in_no_queue_def)
  ultimately obtain h' where h': "sem_add sem_free (int n) s1 = Inr (s1\<lparr>slinks := h'\<rparr>)"
    "queues SHead SLink h' sids (((\<lambda>_. [])(sem_free := [0..int n - 1]))
       (sem_free := key_insert (\<lambda>j. sem_id (sem_table s1 j)) (int n) [0..int n - 1]))"
    using sem_add_ok [of s1 "(\<lambda>_. [])(sem_free := [0..int n - 1])" "int n" sem_free] by (auto simp del: fun_upd_upd)
  have "key_insert (\<lambda>j. sem_id (sem_table s1 j)) (int n) [0..int n - 1] = [0..int n]"
    by (subst key_insert_end) (auto simp: s1_def numbered_def upto_rec2 [of 0 "int n"])
  moreover have "[0..int (Suc n) - 1] = [0..int n - 1] @ [int n]" by (simp add: upto_rec2)
  ultimately show ?case
    using h(1) h' s1 by (intro exI [of _ h']) (simp add: mfold_append s1_def upto_rec2 del: fun_upd_apply)
qed

text \<open>A kernel that has just initialised its semaphores: no one is blocked and every identifier is free.\<close>

lemma init_sem_free_ok:
  fixes s :: "('m, 'z) sems_scheme"
  assumes run: "running s Q" and q: "queues SHead SLink (slinks s) sids (\<lambda>_. [])" and none: "Q sem_blocked = []"
  shows "\<exists>s'. init_sem_free s = Inr s' \<and> sem_inv s' Q ((\<lambda>_. [])(sem_free := [0..NB_SEM - 1]))
    \<and> cur_pid s' = cur_pid s \<and> process_table s' = process_table s \<and> plinks s' = plinks s \<and> resume_at s' = resume_at s"
proof -
  obtain h where h: "init_sem_free s = Inr (s\<lparr>sem_table := numbered NB_SEM (sem_table s), slinks := h\<rparr>)"
    "queues SHead SLink h sids ((\<lambda>_. [])(sem_free := [0..NB_SEM - 1]))"
    using init_sem_free_steps [OF q, of 100] by (auto simp: init_sem_free_def)
  let ?s = "s\<lparr>sem_table := numbered NB_SEM (sem_table s), slinks := h\<rparr>"
  have "running ?s Q" using run by (simp add: running_def)
  moreover have "sems_ok ?s ((\<lambda>_. [])(sem_free := [0..NB_SEM - 1]))"
    using h(2) sorted_upto [of 0 "NB_SEM - 1"] by (auto simp: sems_ok_def numbered_def sids_iff)
  moreover have "balanced ?s Q ((\<lambda>_. [])(sem_free := [0..NB_SEM - 1]))" using none by (simp add: balanced_def)
  ultimately show ?thesis using h(1) by (simp add: sem_inv_def)
qed

section \<open>Creation\<close>

lemma sem_invD:
  assumes "sem_inv s Q S"
  shows "running s Q" "sems_ok s S" "balanced s Q S"
  using assms by (simp_all add: sem_inv_def)

lemma balanced_values:
  assumes "balanced s Q S" and "i \<in> set (S sem_used)"
  shows "SHRT_MIN \<le> sem_value (sem_table s i)" "sem_value (sem_table s i) \<le> SHRT_MAX"
    "int (length (waiters i (process_table s) Q)) = max 0 (- sem_value (sem_table s i))"
  using assms by (simp_all add: balanced_def)

lemma unused_no_waiters: "balanced s Q S \<Longrightarrow> i \<notin> set (S sem_used) \<Longrightarrow> waiters i (process_table s) Q = []"
  by (auto simp: balanced_def waiters_def filter_empty_conv)

lemma screate_ok:
  fixes s :: "('m, 'z) sems_scheme"
  assumes inv: "sem_inv s Q S" and count: "count \<le> SHRT_MAX" and pos: "0 \<le> count" and ne: "S sem_free \<noteq> []"
  shows "\<exists>s' S'. screate count s = Inr (hd (S sem_free), s') \<and> sem_inv s' Q S' \<and> cur_pid s' = cur_pid s
    \<and> process_table s' = process_table s \<and> sem_value (sem_table s' (hd (S sem_free))) = count
    \<and> set (S' sem_used) = insert (hd (S sem_free)) (set (S sem_used)) \<and> S' sem_free = tl (S sem_free)
    \<and> plinks s' = plinks s \<and> resume_at s' = resume_at s"
proof -
  note ok = sem_invD(2) [OF inv] and bal = sem_invD(3) [OF inv]
  note q = sems_okD(1) [OF ok]
  define i where "i = hd (S sem_free)"
  have fr: "i \<in> set (S sem_free)" using ne by (simp add: i_def)
  have i: "i \<in> sids" "sem_id (sem_table s i) = i" "i \<noteq> -1"
    using sems_okD(3) [OF ok fr] sems_okD(2) [OF ok] by (auto simp: sids_iff)
  have nu: "i \<notin> set (S sem_used)" using queuesD(3) [OF q, of sem_free sem_used] fr by auto
  obtain h where h: "queue_out_bot (slinks s) (SHead sem_free) = Inr (Some (SLink i), h)"
    "queues SHead SLink h sids (S(sem_free := tl (S sem_free)))"
    using sq.queues_out_bot [OF q ne] by (auto simp: i_def)
  define S1 where "S1 = S(sem_free := tl (S sem_free))"
  define s1 where "s1 = upd_sem i (\<lambda>c. c\<lparr>sem_value := count\<rparr>) (s\<lparr>slinks := h\<rparr>)"
  have nq: "in_no_queue S1 i"
    unfolding in_no_queue_def
  proof (intro allI)
    fix t show "i \<notin> set (S1 t)"
      using nu queues_distinct [OF q, of sem_free] ne by (cases t; cases "S sem_free") (auto simp: S1_def i_def)
  qed
  define S' where "S' = S1(sem_used := key_insert (\<lambda>j. sem_id (sem_table s1 j)) i (S1 sem_used))"
  obtain h' where h': "sem_add sem_used i s1 = Inr (s1\<lparr>slinks := h'\<rparr>)" "queues SHead SLink h' sids S'"
    using sem_add_ok [of s1 S1 i sem_used, OF _ i(1) nq] h(2) by (auto simp: s1_def upd_sem_def S1_def S'_def)
  let ?s' = "s1\<lparr>slinks := h'\<rparr>"
  have S': "set (S' sem_used) = insert i (set (S sem_used))" "S' sem_free = tl (S sem_free)"
    by (simp_all add: S'_def S1_def)
  have tab: "sem_table ?s' j = (if j = i then (sem_table s i)\<lparr>sem_value := count\<rparr> else sem_table s j)"
    "process_table ?s' = process_table s" "cur_pid ?s' = cur_pid s" "plinks ?s' = plinks s" "resume_at ?s' = resume_at s" for j
    by (simp_all add: s1_def upd_sem_def)
  have "running ?s' Q" using sem_invD(1) [OF inv] by (simp add: running_def s1_def upd_sem_def)
  moreover have "sems_ok ?s' S'"
    unfolding sems_ok_def
  proof (intro conjI ballI)
    show "queues SHead SLink (slinks ?s') sids S'" using h'(2) by simp
    fix j assume j: "j \<in> sids"
    show "sem_id (sem_table ?s' j) = j" using sems_okD(2) [OF ok j] by (simp only: tab) (simp add: i)
    show "j \<in> set (S' sem_used) \<union> set (S' sem_free)"
      using sems_okD(4) [OF ok j] ne unfolding S' by (cases "S sem_free") (auto simp: i_def)
  next
    show "sorted (S' sem_free)" using sems_okD(5) [OF ok] unfolding S' by (cases "S sem_free") simp_all
  qed
  moreover have "balanced ?s' Q S'"
    unfolding balanced_def S' tab
  proof (intro conjI ballI)
    fix p assume "p \<in> set (Q sem_blocked)"
    then show "p_sem_blocked (proc s p) \<in> insert i (set (S sem_used))" using bal by (simp add: balanced_def)
  next
    fix j assume j: "j \<in> insert i (set (S sem_used))"
    show "int (length (waiters j (process_table s) Q))
        = max 0 (- sem_value (if j = i then (sem_table s i)\<lparr>sem_value := count\<rparr> else sem_table s j))"
      using j bal nu unused_no_waiters [OF bal nu] pos by (auto simp: balanced_def)
  qed (use bal count pos in \<open>auto simp: balanced_def\<close>)
  ultimately have "sem_inv ?s' Q S'" by (simp add: sem_inv_def)
  moreover have "screate count s = Inr (i, ?s')"
    using h(1) h'(1) i ne pos sq.queues_empty [OF q, of sem_free]
    by (simp add: screate_def obtain_id_def s1_def)
  ultimately show ?thesis using S' tab by (auto simp: i_def)
qed

text \<open>
  C15: \<^verbatim>\<open>screate\<close>. It refuses a negative value, and every value when the 100 semaphores are in use, with -1
  and without effect. Otherwise it returns the smallest free identifier, which becomes a used semaphore
  with that value and no waiter, and the invariant is kept. That the queue of the free identifiers is in
  order is part of the invariant.
\<close>

theorem screate_contract:
  fixes s :: "('m, 'z) sems_scheme"
  assumes inv: "sem_inv s Q S" and count: "count \<le> SHRT_MAX"
  shows "if count < 0 \<or> S sem_free = [] then screate count s = Inr (-1, s)
    else \<exists>i s' S'. screate count s = Inr (i, s') \<and> i \<in> set (S sem_free) \<and> (\<forall>j \<in> set (S sem_free). i \<le> j)
      \<and> sem_inv s' Q S' \<and> cur_pid s' = cur_pid s \<and> process_table s' = process_table s
      \<and> sem_value (sem_table s' i) = count \<and> waiters i (process_table s') Q = []
      \<and> set (S' sem_used) = insert i (set (S sem_used)) \<and> S' sem_free = remove1 i (S sem_free)"
proof (cases "count < 0 \<or> S sem_free = []")
  case True
  then show ?thesis
    using sq.queues_empty [OF sems_okD(1) [OF sem_invD(2) [OF inv]], of sem_free] by (auto simp: screate_def obtain_id_def)
next
  case False
  then have ne: "S sem_free \<noteq> []" "0 \<le> count" by auto
  define i where "i = hd (S sem_free)"
  have i: "i \<in> set (S sem_free)" "S sem_free = i # tl (S sem_free)" using ne(1) by (simp_all add: i_def)
  have "\<forall>j \<in> set (S sem_free). i \<le> j" using sorted_hd_min [of "\<lambda>j. j" "S sem_free"] sems_okD(5) [OF sem_invD(2) [OF inv]] by (simp add: i_def)
  moreover have "tl (S sem_free) = remove1 i (S sem_free)" using i(2) by (metis remove1.simps(2))
  moreover have "waiters i (process_table s) Q = []"
    using unused_no_waiters [OF sem_invD(3) [OF inv]] i(1)
      queuesD(3) [OF sems_okD(1) [OF sem_invD(2) [OF inv]], of sem_free sem_used] by auto
  moreover note screate_ok [OF inv count ne(2,1)]
  ultimately show ?thesis using False i(1) unfolding i_def [symmetric] by auto
qed

section \<open>signal\<close>

lemma unblock_sem_ok:
  fixes s :: "('m, 'z) procs_scheme"
  assumes run: "running s Q" and ne: "waiters i (process_table s) Q \<noteq> []"
    and p: "p = last (waiters i (process_table s) Q)"
  shows "\<exists>h. unblock_sem i s = Inr (p, awake 0 [p] h s) \<and> running (awake 0 [p] h s) (wake_one p (process_table s) Q)
    \<and> same_rest (plinks s) h"
proof -
  have "p \<in> set (waiters i (process_table s) Q)" using ne p by simp
  then have pq: "p \<in> set (Q sem_blocked)" by (simp add: waiters_def)
  have "(process_table s)(p := woken 0 (proc s p)) = woken_table 0 [p] (process_table s)"
    by (auto simp: woken_table_def)
  then show ?thesis
    using make_actionable_ok [OF run pq, of 0] find_by_sem_ok [OF runningD(1) [OF run], of i] ne p
      sched_okD(2,3) [OF runningD(1) [OF run]] pq
    by (auto simp: unblock_sem_def awake_def)
qed

lemma getprio_ready: "p \<in> pids \<Longrightarrow> p_state (proc s p) = actionable \<Longrightarrow> getprio p s = p_prio (proc s p)"
  by (simp add: getprio_def pids_iff)

lemma sems_ok_awake: "sems_ok (awake w ps h s) S \<longleftrightarrow> sems_ok s S"
  by (simp add: sems_ok_def)

text \<open>The invariant after \<open>n\<close> waiters of \<open>i\<close> are woken and its value is set to account for it.\<close>

lemma sem_inv_wake:
  fixes s :: "('m, 'z) sems_scheme"
  assumes inv: "sem_inv s Q S" and ps: "ps = take n (rev (waiters i (process_table s) Q))"
    and v: "SHRT_MIN \<le> v" "v \<le> SHRT_MAX" "max 0 (- v) = int (length (waiters i (process_table s) Q) - n)"
    and s1: "s1 = upd_sem i (\<lambda>c. c\<lparr>sem_value := v\<rparr>) s"
    and run: "running (awake w ps h s1) (wake_all ps (process_table s) Q)"
  shows "sem_inv (awake w ps h s1) (wake_all ps (process_table s) Q) S"
  using run sems_ok_upd [OF sem_invD(2) [OF inv]] balanced_wake [OF inv ps v, of w h]
  by (simp add: sem_inv_def sems_ok_awake s1)

text \<open>
  The end of an operation that wakes processes: in a sound state, the processor is given away exactly
  if a ready process has a higher priority than the caller.
\<close>

definition yields :: "cont \<Rightarrow> int \<Rightarrow> ('m, 'z) sems_scheme \<Rightarrow> (list_type \<Rightarrow> int list) \<Rightarrow> (sem_list \<Rightarrow> int list)
    \<Rightarrow> (int option \<times> ('m, 'z) sems_scheme) result \<Rightarrow> bool" where
  "yields k v s Q S out \<longleftrightarrow> sem_inv s Q S \<and>
     (if p_prio (proc s (last (Q actionable))) > p_prio (proc s (cur_pid s))
      then \<exists>s' Q'. out = Inr (None, s') \<and> switched k s Q s' Q' \<and> sem_inv s' Q' S
      else out = Inr (Some v, s))"

lemma preempt_yields:
  fixes s :: "('m, 'z) sems_scheme"
  assumes inv: "sem_inv s Q S" and cur: "cur_pid s \<noteq> 0"
  shows "yields k v s Q S (bnd (preempt_if_higher k s) (then_return v))"
  using preempt_if_higher_ok [OF sem_invD(1) [OF inv] cur, of k] sem_inv_switched [OF _ sem_invD(2,3) [OF inv]] inv
  by (fastforce simp: yields_def then_return_def split: if_splits)

lemma signal_ok:
  fixes s :: "('m, 'z) sems_scheme"
  assumes inv: "sem_inv s Q S" and v: "v = sem_value (sem_table s i)"
    and s1: "s1 = upd_sem i (\<lambda>c. c\<lparr>sem_value := v + 1\<rparr>) s" and p: "p = last (waiters i (process_table s) Q)"
  shows "if i \<notin> set (S sem_used) then signal i k s = Inr (Some (-1), s)
    else if v = SHRT_MAX then signal i k s = Inr (Some (-2), s)
    else if 0 \<le> v then signal i k s = Inr (Some 0, s1) \<and> sem_inv s1 Q S
    else \<exists>h. let s2 = awake 0 [p] h s1; Q2 = wake_one p (process_table s) Q
      in sem_inv s2 Q2 S \<and> same_rest (plinks s) h \<and>
        (if p_prio (proc s p) > p_prio (proc s (cur_pid s))
         then \<exists>s' Q'. signal i k s = Inr (None, s') \<and> switched k s2 Q2 s' Q' \<and> sem_inv s' Q' S
         else signal i k s = Inr (Some 0, s2))"
proof -
  note run = sem_invD(1) [OF inv] and ok = sem_invD(2) [OF inv] and bal = sem_invD(3) [OF inv]
  note find = find_sem_ok [OF ok, of sem_used i]
  consider "i \<notin> set (S sem_used) \<or> v = SHRT_MAX" | "i \<in> set (S sem_used)" "0 \<le> v" "v < SHRT_MAX"
    | "i \<in> set (S sem_used)" "v < 0" using balanced_values(2) [OF bal, of i] v by force
  then show ?thesis
  proof cases
    case 1
    then show ?thesis using find by (auto simp: signal_def Let_def v)
  next
    case 2
    have "sem_inv s1 Q S"
      using run sems_ok_upd [OF ok] bal 2 by (auto simp: sem_inv_def balanced_def s1 v)
    moreover have "signal i k s = Inr (Some 0, s1)" using find 2 by (simp add: signal_def Let_def v s1)
    ultimately show ?thesis using 2 by simp
  next
    case 3
    note bv = balanced_values [OF bal 3(1), folded v]
    have ne: "waiters i (process_table s1) Q \<noteq> []" using bv(3) 3 by (auto simp: s1)
    have run1: "running s1 Q" using run by (simp add: s1)
    obtain h where h: "unblock_sem i s1 = Inr (p, awake 0 [p] h s1)"
      "running (awake 0 [p] h s1) (wake_one p (process_table s) Q)" "same_rest (plinks s) h"
      using unblock_sem_ok [OF run1 ne, of p] p by (auto simp: s1)
    define s2 where "s2 = awake 0 [p] h s1"
    define Q2 where "Q2 = wake_one p (process_table s) Q"
    have ps: "[p] = take 1 (rev (waiters i (process_table s) Q))"
      using ne p by (simp add: s1 take_Suc hd_rev)
    have Q2: "wake_all [p] (process_table s) Q = Q2" by (simp add: wake_all_def Q2_def)
    have v1: "SHRT_MIN \<le> v + 1" "v + 1 \<le> SHRT_MAX"
      "max 0 (- (v + 1)) = int (length (waiters i (process_table s) Q) - 1)" using bv 3 by auto
    have inv2: "sem_inv s2 Q2 S"
      using sem_inv_wake [OF inv ps v1 s1, of 0 h] h(2) by (simp add: s2_def Q2 Q2_def)
    have f: "cur_pid s2 = cur_pid s" "p_prio (proc s2 x) = p_prio (proc s x)" "p_state (proc s2 p) = actionable" for x
      by (simp_all add: s2_def s1 woken_table_def)
    have "p \<in> set (waiters i (process_table s) Q)" using ne p by (simp add: s1)
    then have "p \<in> pids" using sched_okD(3) [OF runningD(1) [OF run], of p sem_blocked] by (simp add: waiters_def)
    then have pr: "getprio p s2 = p_prio (proc s p)" "getprio (getpid s2) s2 = p_prio (proc s (cur_pid s))"
      using getprio_ready [of _ s2] f runningD(3,4) [OF sem_invD(1) [OF inv2]] by (simp_all add: getpid_def)
    have sig: "signal i k s = (if p_prio (proc s p) > p_prio (proc s (cur_pid s)) then reschedule k s2 else Inr (Some 0, s2))"
      using find 3 h(1) pr by (simp add: signal_def Let_def v [symmetric] s1 [symmetric] s2_def [symmetric])
    obtain s' Q' where sw: "reschedule k s2 = Inr (None :: int option, s')" "switched k s2 Q2 s' Q'"
      using reschedule_preempt [OF sem_invD(1) [OF inv2], of k] by blast
    have "sem_inv s' Q' S" using sem_inv_switched [OF sw(2) sem_invD(2,3) [OF inv2]] .
    then show ?thesis
      using 3 sig sw inv2 h(3) unfolding Let_def s2_def Q2_def by (auto intro!: exI [of _ h])
  qed
qed

text \<open>
  C11: \<^verbatim>\<open>signal\<close>. Under the invariant of the semaphores it never faults. It refuses an unknown identifier with
  -1 and a counter at its maximum with -2, without effect. Otherwise the value grows by one. If processes
  are blocked on the semaphore, the last of its waiters, and no other, becomes ready and will return 0
  from \<^verbatim>\<open>wait\<close>; the caller gives the processor away exactly if that process has a higher priority. The
  invariant is kept in every case.
\<close>

theorem signal_contract:
  fixes s :: "('m, 'z) sems_scheme"
  assumes inv: "sem_inv s Q S" and v: "v = sem_value (sem_table s i)"
    and s1: "s1 = upd_sem i (\<lambda>c. c\<lparr>sem_value := v + 1\<rparr>) s" and p: "p = last (waiters i (process_table s) Q)"
  shows "if i \<notin> set (S sem_used) then signal i k s = Inr (Some (-1), s)
    else if v = SHRT_MAX then signal i k s = Inr (Some (-2), s)
    else if 0 \<le> v then signal i k s = Inr (Some 0, s1) \<and> sem_inv s1 Q S
    else \<exists>h. let s2 = awake 0 [p] h s1; Q2 = wake_one p (process_table s) Q
      in sem_inv s2 Q2 S \<and>
        (if p_prio (proc s p) > p_prio (proc s (cur_pid s))
         then \<exists>s' Q'. signal i k s = Inr (None, s') \<and> switched k s2 Q2 s' Q' \<and> sem_inv s' Q' S
         else signal i k s = Inr (Some 0, s2))"
  using signal_ok [OF assms, of k] unfolding Let_def by (auto split: if_splits)

section \<open>signaln, sreset and sdelete\<close>

lemma signaln_ok:
  fixes s :: "('m, 'z) sems_scheme"
  assumes inv: "sem_inv s Q S" and cur: "cur_pid s \<noteq> 0" and v: "v = sem_value (sem_table s i)"
    and s1: "s1 = upd_sem i (\<lambda>c. c\<lparr>sem_value := v + count\<rparr>) s"
    and ps: "ps = take (nat count) (rev (waiters i (process_table s) Q))"
  shows "if count < 0 \<or> i \<notin> set (S sem_used) then signaln i count s = Inr (Some (-1), s)
    else if v + count > SHRT_MAX then signaln i count s = Inr (Some (-2), s)
    else if count = 0 then signaln i count s = Inr (Some 0, s)
    else \<exists>h. same_rest (plinks s) h \<and> yields (Return 0) 0 (awake 0 ps h s1) (wake_all ps (process_table s) Q) S (signaln i count s)"
proof -
  note run = sem_invD(1) [OF inv] and ok = sem_invD(2) [OF inv] and bal = sem_invD(3) [OF inv]
  note find = find_sem_ok [OF ok, of sem_used i]
  consider "count < 0 \<or> i \<notin> set (S sem_used)" | "0 \<le> count" "i \<in> set (S sem_used)" "v + count > SHRT_MAX"
    | "count = 0" "i \<in> set (S sem_used)" "v + count \<le> SHRT_MAX"
    | "0 < count" "i \<in> set (S sem_used)" "v + count \<le> SHRT_MAX" by linarith
  then show ?thesis
  proof cases
    case 3
    have "upd_sem i (\<lambda>c. c\<lparr>sem_value := v\<rparr>) s = s" by (simp add: upd_sem_def v)
    then show ?thesis using find 3 by (simp add: signaln_def Let_def v unblock_n_sems_def then_return_def)
  next
    case 4
    note bv = balanced_values [OF bal 4(2), folded v]
    have run1: "running s1 Q" using run by (simp add: s1)
    have ps1: "ps = take (nat count) (rev (waiters i (process_table s1) Q))" by (simp add: ps s1)
    obtain h where h: "unblock_loop (nat count) i s1 = Inr (awake 0 ps h s1)"
      "running (awake 0 ps h s1) (wake_all ps (process_table s) Q)" "same_rest (plinks s) h"
      using unblock_loop_ok [OF run1 used_not_minus1 [OF ok 4(2)] ps1] by (auto simp: s1)
    have v1: "SHRT_MIN \<le> v + count" "v + count \<le> SHRT_MAX"
      "max 0 (- (v + count)) = int (length (waiters i (process_table s) Q) - nat count)" using bv 4 by auto
    have inv2: "sem_inv (awake 0 ps h s1) (wake_all ps (process_table s) Q) S"
      by (rule sem_inv_wake [OF inv ps v1 s1 h(2)])
    have "signaln i count s = bnd (preempt_if_higher (Return 0) (awake 0 ps h s1)) (then_return 0)"
      using find 4 h(1) by (simp add: signaln_def Let_def unblock_n_sems_def v [symmetric] s1 [symmetric])
    then show ?thesis using preempt_yields [OF inv2, of "Return 0" 0] h(3) cur 4 by (auto simp: s1)
  qed (use find in \<open>auto simp: signaln_def Let_def v\<close>)
qed

text \<open>The order of the waiters that are taken from the end of a sorted queue.\<close>

lemma woken_in_order:
  fixes k :: "'a \<Rightarrow> int"
  assumes "sorted (map k xs)" and "ps = take n (rev (filter P xs))"
  shows "sorted_wrt (\<lambda>p q. k q \<le> k p) ps" "\<forall>p \<in> set ps. \<forall>q \<in> set (filter P xs) - set ps. k q \<le> k p"
    "sorted (map k (filter (\<lambda>p. p \<notin> set ps) xs))"
proof -
  have desc: "sorted_wrt (\<lambda>p q. k q \<le> k p) (rev (filter P xs))"
    using sorted_filter [OF assms(1), of P] by (simp add: sorted_map sorted_wrt_rev)
  then have split: "sorted_wrt (\<lambda>p q. k q \<le> k p) (ps @ drop n (rev (filter P xs)))" by (simp add: assms(2))
  then show "sorted_wrt (\<lambda>p q. k q \<le> k p) ps" by (simp add: sorted_wrt_append)
  have "set (filter P xs) - set ps \<subseteq> set (drop n (rev (filter P xs)))"
    using set_append [of "take n (rev (filter P xs))" "drop n (rev (filter P xs))"] by (auto simp: assms(2) simp del: set_append)
  with split show "\<forall>p \<in> set ps. \<forall>q \<in> set (filter P xs) - set ps. k q \<le> k p" by (auto simp: sorted_wrt_append)
  show "sorted (map k (filter (\<lambda>p. p \<notin> set ps) xs))" by (rule sorted_filter [OF assms(1)])
qed

text \<open>
  C12: \<^verbatim>\<open>signaln\<close>. Under the invariant of the semaphores it never faults. It refuses a negative count and an
  unknown identifier with -1, and a value that would exceed the maximum with -2, without effect. Otherwise
  the value grows by the count and the last \<open>count\<close> waiters of the queue (all, if there are fewer) become ready, one
  after the other; then the caller yields to a ready process of higher priority and returns 0. If the queue of
  blocked processes is in the order of priority, as \<^verbatim>\<open>wait\<close> and \<^verbatim>\<open>chprio\<close> insert them, the waiters are woken in
  descending order of priority, no waiter left behind has a higher priority than a woken one, and the
  queue is still in order.
\<close>

theorem signaln_contract:
  fixes s :: "('m, 'z) sems_scheme"
  assumes inv: "sem_inv s Q S" and cur: "cur_pid s \<noteq> 0" and v: "v = sem_value (sem_table s i)"
    and s1: "s1 = upd_sem i (\<lambda>c. c\<lparr>sem_value := v + count\<rparr>) s"
    and ps: "ps = take (nat count) (rev (waiters i (process_table s) Q))"
  shows "if count < 0 \<or> i \<notin> set (S sem_used) then signaln i count s = Inr (Some (-1), s)
    else if v + count > SHRT_MAX then signaln i count s = Inr (Some (-2), s)
    else if count = 0 then signaln i count s = Inr (Some 0, s)
    else (\<exists>h. yields (Return 0) 0 (awake 0 ps h s1) (wake_all ps (process_table s) Q) S (signaln i count s))
      \<and> (sorted (map (\<lambda>p. p_prio (proc s p)) (Q sem_blocked)) \<longrightarrow>
           sorted_wrt (\<lambda>p q. p_prio (proc s q) \<le> p_prio (proc s p)) ps
           \<and> (\<forall>p \<in> set ps. \<forall>q \<in> set (waiters i (process_table s) Q) - set ps. p_prio (proc s q) \<le> p_prio (proc s p))
           \<and> sorted (map (\<lambda>p. p_prio (proc s p)) (wake_all ps (process_table s) Q sem_blocked)))"
proof -
  have "distinct (Q sem_blocked)" by (rule sched_ok_distinct [OF runningD(1) [OF sem_invD(1) [OF inv]]])
  note order = woken_in_order [of "\<lambda>p. p_prio (proc s p)" "Q sem_blocked", OF _ ps [unfolded waiters_def]]
    wake_all_blocked [of Q, OF this, of ps "process_table s"]
  show ?thesis using signaln_ok [OF assms] order by (auto simp: waiters_def split: if_splits)
qed

lemma length_waiters: "running s Q \<Longrightarrow> length (rev (waiters i (process_table s) Q)) < NB_LINKS"
  using queues_length [OF sched_okD(1) [OF runningD(1)] card_pids(1), of s Q sem_blocked] card_pids(2)
    le_less_trans [OF length_filter_le [of "\<lambda>p. p_sem_blocked (proc s p) = i" "Q sem_blocked"]]
  unfolding waiters_def by force

lemma short_mask:
  assumes "0 \<le> c" and "c \<le> SHRT_MAX"
  shows "uint (of_int32 c AND 0xffff) = c"
proof -
  have "of_int32 c AND 0xffff = take_bit 16 (of_int32 c)" by (simp add: take_bit_eq_mask mask_eq_exp_minus_1)
  then have "uint (of_int32 c AND 0xffff) = take_bit 16 (take_bit 32 c)"
    by (simp add: of_int32_def unsigned_take_bit_eq uint_word_of_int_eq)
  then show ?thesis using assms by (simp add: take_bit_eq_mod)
qed

lemma sreset_ok:
  fixes s :: "('m, 'z) sems_scheme"
  assumes inv: "sem_inv s Q S" and cur: "cur_pid s \<noteq> 0" and count: "count \<le> SHRT_MAX"
    and s1: "s1 = upd_sem i (\<lambda>c. c\<lparr>sem_value := count\<rparr>) s"
    and ps: "ps = rev (waiters i (process_table s) Q)"
  shows "if count < 0 \<or> i \<notin> set (S sem_used) then sreset i count s = Inr (Some (-1), s)
    else \<exists>h. same_rest (plinks s) h \<and> yields (Return 0) 0 (awake (-4) ps h s1) (wake_all ps (process_table s) Q) S (sreset i count s)"
proof -
  note run = sem_invD(1) [OF inv] and ok = sem_invD(2) [OF inv] and bal = sem_invD(3) [OF inv]
  note find = find_sem_ok [OF ok, of sem_used i]
  show ?thesis
  proof (cases "count < 0 \<or> i \<notin> set (S sem_used)")
    case False
    then have i: "i \<in> set (S sem_used)" "0 \<le> count" by auto
    have run1: "running s1 Q" using run by (simp add: s1)
    have ps1: "ps = rev (waiters i (process_table s1) Q)" by (simp add: ps s1)
    have len: "length ps < NB_LINKS" unfolding ps by (rule length_waiters [OF run])
    obtain h where h: "unblock_all_loop NB_LINKS i (-4) s1 = Inr (awake (-4) ps h s1)"
      "running (awake (-4) ps h s1) (wake_all ps (process_table s) Q)" "same_rest (plinks s) h"
      using unblock_all_loop_ok [OF run1 used_not_minus1 [OF ok i(1)] ps1 len] by (auto simp: s1)
    have ps2: "ps = take (length (waiters i (process_table s) Q)) (rev (waiters i (process_table s) Q))" by (simp add: ps)
    have v1: "SHRT_MIN \<le> count" "max 0 (- count) = int (length (waiters i (process_table s) Q) - length (waiters i (process_table s) Q))"
      using i by simp_all
    have inv2: "sem_inv (awake (-4) ps h s1) (wake_all ps (process_table s) Q) S"
      by (rule sem_inv_wake [OF inv ps2 v1(1) count v1(2) s1 h(2)])
    have "uint (of_int32 count AND 0xffff) = count"
      using i(2) count by (simp add: short_mask)
    then have "sreset i count s = bnd (preempt_if_higher (Return 0) (awake (-4) ps h s1)) (then_return 0)"
      using find i h(1) by (simp add: sreset_def unblock_all_sem_def s1 [symmetric])
    then show ?thesis using preempt_yields [OF inv2, of "Return 0" 0] h(3) cur False by (auto simp: s1)
  qed (use find in \<open>auto simp: sreset_def\<close>)
qed

text \<open>
  C13: \<^verbatim>\<open>sreset\<close>. Under the invariant of the semaphores it never faults. It refuses an unknown identifier and
  a negative value with -1, without effect. Otherwise the semaphore takes the value, every process blocked
  on it becomes ready and will return -4 from \<^verbatim>\<open>wait\<close>, and the caller yields to a ready process of higher
  priority and returns 0. The loop that wakes the processes ends.
\<close>

theorem sreset_contract:
  fixes s :: "('m, 'z) sems_scheme"
  assumes inv: "sem_inv s Q S" and cur: "cur_pid s \<noteq> 0" and count: "count \<le> SHRT_MAX"
    and s1: "s1 = upd_sem i (\<lambda>c. c\<lparr>sem_value := count\<rparr>) s"
    and ps: "ps = rev (waiters i (process_table s) Q)"
  shows "if count < 0 \<or> i \<notin> set (S sem_used) then sreset i count s = Inr (Some (-1), s)
    else \<exists>h. yields (Return 0) 0 (awake (-4) ps h s1) (wake_all ps (process_table s) Q) S (sreset i count s)"
  using sreset_ok [OF assms] by (auto split: if_splits)

lemma free_id_ok:
  fixes s :: "('m, 'z) sems_scheme"
  assumes ok: "sems_ok s S" and i: "i \<in> set (S sem_used)"
    and S': "S' = S(sem_used := remove1 i (S sem_used), sem_free := key_insert (\<lambda>j. sem_id (sem_table s j)) i (S sem_free))"
  shows "\<exists>h. free_id i s = Inr (s\<lparr>slinks := h\<rparr>) \<and> sems_ok (s\<lparr>slinks := h\<rparr>) S'"
proof -
  note q = sems_okD(1) [OF ok]
  have ids: "i \<in> sids" "sem_id (sem_table s i) = i" using sems_okD(2,3) [OF ok] i by auto
  obtain h where h: "queue_del (slinks s) (SLink i) = Inr h"
    "queues SHead SLink h sids (S(sem_used := remove1 i (S sem_used)))" using sq.queues_del [OF q i] by blast
  have "i \<notin> set (S sem_free)" using queuesD(3) [OF q, of sem_free sem_used] i by auto
  then have nq: "in_no_queue (S(sem_used := remove1 i (S sem_used))) i"
    unfolding in_no_queue_def
  proof (intro allI)
    fix t assume "i \<notin> set (S sem_free)"
    then show "i \<notin> set ((S(sem_used := remove1 i (S sem_used))) t)"
      using queues_distinct [OF q, of sem_used] by (cases t) auto
  qed
  have q1: "queues SHead SLink (slinks (s\<lparr>slinks := h\<rparr>)) sids (S(sem_used := remove1 i (S sem_used)))" using h(2) by simp
  obtain h' where h': "sem_add sem_free i (s\<lparr>slinks := h\<rparr>) = Inr (s\<lparr>slinks := h'\<rparr>)" "queues SHead SLink h' sids S'"
    using sem_add_ok [OF q1 ids(1) nq, of sem_free] by (auto simp: S')
  have "j \<in> set (S' sem_used) \<union> set (S' sem_free)" if "j \<in> sids" for j
    using sems_okD(4) [OF ok that] queues_distinct [OF q, of sem_used] by (auto simp: S')
  moreover have "sorted (S' sem_free)"
  proof -
    have set: "set (S sem_free) \<subseteq> sids" using sems_okD(3) [OF ok, of _ sem_free] by blast
    have "map (\<lambda>j. sem_id (sem_table s j)) xs = xs" if "set xs \<subseteq> sids" for xs
      using that by (induction xs) (auto simp: sems_okD(2) [OF ok])
    note ids' = this [OF set] this [of "S' sem_free"]
    have "sorted (map (\<lambda>j. sem_id (sem_table s j)) (S' sem_free))"
      using sorted_key_insert [of "\<lambda>j. sem_id (sem_table s j)" "S sem_free" i] sems_okD(5) [OF ok] ids'(1) by (simp add: S')
    then show ?thesis using ids'(2) set ids(1) by (simp add: S')
  qed
  ultimately have "sems_ok (s\<lparr>slinks := h'\<rparr>) S'" using h'(2) sems_okD(2) [OF ok] by (simp add: sems_ok_def)
  moreover have "free_id i s = Inr (s\<lparr>slinks := h'\<rparr>)"
    using find_sem_ok [OF ok, of sem_used i] i ids h(1) h'(1) by (simp add: free_id_def)
  ultimately show ?thesis by blast
qed

lemma sdelete_ok:
  fixes s :: "('m, 'z) sems_scheme"
  assumes inv: "sem_inv s Q S" and cur: "cur_pid s \<noteq> 0"
    and ps: "ps = rev (waiters i (process_table s) Q)"
    and S': "S' = S(sem_used := remove1 i (S sem_used), sem_free := key_insert (\<lambda>j. sem_id (sem_table s j)) i (S sem_free))"
  shows "if i \<notin> set (S sem_used) then sdelete i s = Inr (Some (-1), s)
    else \<exists>g h. same_rest (plinks s) h \<and> yields (Return 0) 0 (awake (-3) ps h (s\<lparr>slinks := g\<rparr>)) (wake_all ps (process_table s) Q) S' (sdelete i s)"
proof -
  note run = sem_invD(1) [OF inv] and ok = sem_invD(2) [OF inv] and bal = sem_invD(3) [OF inv]
  note find = find_sem_ok [OF ok, of sem_used i]
  show ?thesis
  proof (cases "i \<in> set (S sem_used)")
    case True
    obtain g where g: "free_id i s = Inr (s\<lparr>slinks := g\<rparr>)" "sems_ok (s\<lparr>slinks := g\<rparr>) S'"
      using free_id_ok [OF ok True S'] by blast
    define s1 where "s1 = s\<lparr>slinks := g\<rparr>"
    have run1: "running s1 Q" using run by (simp add: running_def s1_def)
    have ps1: "ps = rev (waiters i (process_table s1) Q)" by (simp add: ps s1_def)
    have len: "length ps < NB_LINKS" unfolding ps by (rule length_waiters [OF run])
    obtain h where h: "unblock_all_loop NB_LINKS i (-3) s1 = Inr (awake (-3) ps h s1)"
      "running (awake (-3) ps h s1) (wake_all ps (process_table s) Q)" "same_rest (plinks s) h"
      using unblock_all_loop_ok [OF run1 used_not_minus1 [OF ok True] ps1 len] by (auto simp: s1_def)
    have ps2: "ps = take (length (waiters i (process_table s) Q)) (rev (waiters i (process_table s) Q))" by (simp add: ps)
    have dist: "distinct (Q sem_blocked)" by (rule sched_ok_distinct [OF runningD(1) [OF run]])
    have used: "set (S' sem_used) = set (S sem_used) - {i}"
      using queues_distinct [OF sems_okD(1) [OF ok], of sem_used] by (simp add: S')
    have "balanced (awake (-3) ps h s1) (wake_all ps (process_table s) Q) S'"
      unfolding balanced_def used
    proof (intro conjI ballI)
      fix p assume "p \<in> set (wake_all ps (process_table s) Q sem_blocked)"
      then have p: "p \<notin> set ps" "p \<in> set (Q sem_blocked)" using wake_all_blocked [of Q, OF dist] by auto
      then have "p_sem_blocked (proc s p) \<noteq> i" by (auto simp: ps waiters_def)
      then show "p_sem_blocked (proc (awake (-3) ps h s1) p) \<in> set (S sem_used) - {i}"
        using bal p by (simp add: woken_table_def s1_def balanced_def)
    next
      fix j assume "j \<in> set (S sem_used) - {i}"
      then show "int (length (waiters j (process_table (awake (-3) ps h s1)) (wake_all ps (process_table s) Q)))
          = max 0 (- sem_value (sem_table (awake (-3) ps h s1) j))"
        using waiters_after_wake(1) [OF run ps2, of j "-3"] bal by (simp add: s1_def balanced_def)
    qed (use bal in \<open>simp_all add: balanced_def s1_def\<close>)
    then have inv2: "sem_inv (awake (-3) ps h s1) (wake_all ps (process_table s) Q) S'"
      using h(2) g(2) by (simp add: sem_inv_def sems_ok_awake s1_def)
    have "sdelete i s = bnd (preempt_if_higher (Return 0) (awake (-3) ps h s1)) (then_return 0)"
      using find True g(1) h(1) by (simp add: sdelete_def unblock_all_sem_def s1_def)
    then have "yields (Return 0) 0 (awake (-3) ps h (s\<lparr>slinks := g\<rparr>)) (wake_all ps (process_table s) Q) S' (sdelete i s)"
      using preempt_yields [OF inv2, of "Return 0" 0] cur by (simp add: s1_def)
    with True h(3) show ?thesis by auto
  qed (use find in \<open>simp add: sdelete_def\<close>)
qed

text \<open>
  C14: \<^verbatim>\<open>sdelete\<close>. Under the invariant of the semaphores it never faults. It refuses an unknown identifier
  with -1, without effect. Otherwise the identifier is free again, every process blocked on the semaphore
  becomes ready and will return -3 from \<^verbatim>\<open>wait\<close>, so that no process is blocked on a semaphore that does
  not exist, and the caller yields to a ready process of higher priority and returns 0.
\<close>

theorem sdelete_contract:
  fixes s :: "('m, 'z) sems_scheme"
  assumes inv: "sem_inv s Q S" and cur: "cur_pid s \<noteq> 0"
    and ps: "ps = rev (waiters i (process_table s) Q)"
    and S': "S' = S(sem_used := remove1 i (S sem_used), sem_free := key_insert (\<lambda>j. sem_id (sem_table s j)) i (S sem_free))"
  shows "if i \<notin> set (S sem_used) then sdelete i s = Inr (Some (-1), s)
    else \<exists>g h. yields (Return 0) 0 (awake (-3) ps h (s\<lparr>slinks := g\<rparr>)) (wake_all ps (process_table s) Q) S' (sdelete i s)"
  using sdelete_ok [OF assms] by (auto split: if_splits)

section \<open>Examples\<close>

text \<open>The small kernel of \<^verbatim>\<open>Process_Ops\<close>, with its semaphores as the static initialisers leave them.\<close>

definition ex_sems :: "unit sems" where
  "ex_sems = ex_state (sems.fields (\<lambda>_. \<lparr>sem_id = 0, sem_value = 0\<rparr>) static_slinks)"

lemma ex_sems_init:
  "\<exists>s. init_sem_free ex_sems = Inr s \<and> sem_inv s ex_queues ((\<lambda>_. [])(sem_free := [0..99])) \<and> cur_pid s = 1
     \<and> process_table s = ex_table"
proof -
  have "slinks ex_sems = static_slinks" "cur_pid ex_sems = 1" "process_table ex_sems = ex_table" "ex_queues sem_blocked = []"
    by (simp_all add: ex_sems_def ex_state_def ex_queues_def sems.defs)
  moreover have "running ex_sems ex_queues" unfolding ex_sems_def by (rule ex_running)
  ultimately show ?thesis using init_sem_free_ok [of ex_sems ex_queues] static_slinks_queues by auto
qed

lemma upto_head: "hd [0..99] = (0 :: int)"
  by (simp add: upto_rec1)

lemma ex_sem_created:
  assumes "0 \<le> v" and "v \<le> SHRT_MAX"
  shows "\<exists>s0 s S. init_sem_free ex_sems = Inr s0 \<and> screate v s0 = Inr (0, s) \<and> sem_inv s ex_queues S
    \<and> cur_pid s = 1 \<and> sem_value (sem_table s 0) = v \<and> set (S sem_used) = {0} \<and> process_table s = ex_table"
proof -
  obtain s0 where s0: "init_sem_free ex_sems = Inr s0" "sem_inv s0 ex_queues ((\<lambda>_. [])(sem_free := [0..99]))" "cur_pid s0 = 1"
    "process_table s0 = ex_table" using ex_sems_init by blast
  have ne: "((\<lambda>_. [])(sem_free := [0..99])) sem_free \<noteq> []" by simp
  show ?thesis
    using screate_ok [OF s0(2) assms(2,1) ne] s0(1,3,4) upto_head by auto
qed

lemma screate_contract_witness:
  "\<exists>s0 s. init_sem_free ex_sems = Inr s0 \<and> screate 3 s0 = Inr (0, s) \<and> sem_value (sem_table s 0) = 3"
proof -
  obtain s0 where s0: "init_sem_free ex_sems = Inr s0" "sem_inv s0 ex_queues ((\<lambda>_. [])(sem_free := [0..99]))"
    using ex_sems_init by blast
  obtain i s where s: "screate 3 s0 = Inr (i, s)" "0 \<le> i" "\<forall>x \<in> {0..99}. i \<le> x" "sem_value (sem_table s i) = 3"
    using screate_contract [where count = 3, OF s0(2)] by auto
  have "i = 0" using s(2) bspec [OF s(3), of 0] by simp
  with s s0(1) show ?thesis by auto
qed

lemma signal_contract_witness:
  "\<exists>s0 s s'. init_sem_free ex_sems = Inr s0 \<and> screate 3 s0 = Inr (0, s) \<and> signal 0 Iret s = Inr (Some 0, s')
     \<and> sem_value (sem_table s' 0) = 4"
proof -
  obtain s0 s S where s: "init_sem_free ex_sems = Inr s0" "screate 3 s0 = Inr (0, s)" "sem_inv s ex_queues S"
    "sem_value (sem_table s 0) = 3" "set (S sem_used) = {0}" using ex_sem_created [of 3] by auto
  show ?thesis
    using signal_contract [where i = 0 and k = Iret, OF s(3) refl refl refl] s by auto
qed

lemma signaln_contract_witness:
  "\<exists>s0 s. init_sem_free ex_sems = Inr s0 \<and> screate 3 s0 = Inr (0, s) \<and> signaln 0 32767 s = Inr (Some (-2), s)"
proof -
  obtain s0 s S where s: "init_sem_free ex_sems = Inr s0" "screate 3 s0 = Inr (0, s)" "sem_inv s ex_queues S"
    "sem_value (sem_table s 0) = 3" "set (S sem_used) = {0}" "cur_pid s = 1" using ex_sem_created [of 3] by auto
  then have "cur_pid s \<noteq> 0" by simp
  from signaln_contract [where i = 0 and count = 32767, OF s(3) this refl refl refl] s show ?thesis by auto
qed

lemma ex_no_waiters: "waiters i pt ex_queues = []" "ex_queues actionable = [0]"
  by (simp_all add: waiters_def ex_queues_def)

lemma sreset_contract_witness:
  "\<exists>s0 s s'. init_sem_free ex_sems = Inr s0 \<and> screate 3 s0 = Inr (0, s) \<and> sreset 0 5 s = Inr (Some 0, s')
     \<and> sem_value (sem_table s' 0) = 5"
proof -
  obtain s0 s S where s: "init_sem_free ex_sems = Inr s0" "screate 3 s0 = Inr (0, s)" "sem_inv s ex_queues S"
    "set (S sem_used) = {0}" "cur_pid s = 1" "process_table s = ex_table"
    using ex_sem_created [of 3] by auto
  then have "cur_pid s \<noteq> 0" by simp
  from sreset_contract [where i = 0 and count = 5, OF s(3) this _ refl refl] s show ?thesis
    by (auto simp: yields_def ex_no_waiters ex_table_def woken_table_def)
qed

lemma sdelete_contract_witness:
  "\<exists>s0 s s'. init_sem_free ex_sems = Inr s0 \<and> screate 3 s0 = Inr (0, s) \<and> sdelete 0 s = Inr (Some 0, s')
     \<and> (\<exists>S. sem_inv s' ex_queues S \<and> 0 \<notin> set (S sem_used))"
proof -
  obtain s0 s S where s: "init_sem_free ex_sems = Inr s0" "screate 3 s0 = Inr (0, s)" "sem_inv s ex_queues S"
    "set (S sem_used) = {0}" "cur_pid s = 1" "process_table s = ex_table"
    using ex_sem_created [of 3] by auto
  then have c: "cur_pid s \<noteq> 0" by simp
  have d: "0 \<notin> set (remove1 0 (S sem_used))"
    using queues_distinct [OF sems_okD(1) [OF sem_invD(2) [OF s(3)]], of sem_used] by simp
  show ?thesis
    using sdelete_contract [where i = 0, OF s(3) c refl refl] s(1,2,4,5,6) d
    by (auto simp: yields_def ex_no_waiters ex_table_def woken_table_def
        intro!: exI [of _ "S(sem_used := remove1 0 (S sem_used), sem_free := key_insert (\<lambda>j. sem_id (sem_table s j)) 0 (S sem_free))"])
qed

lemma wait_contract_witness:
  "\<exists>s0 s s'. init_sem_free ex_sems = Inr s0 \<and> screate 0 s0 = Inr (0, s) \<and> wait 0 s = Inr (None, s')
     \<and> (\<exists>Q' S. sem_inv s' Q' S)"
proof -
  obtain s0 s S where s: "init_sem_free ex_sems = Inr s0" "screate 0 s0 = Inr (0, s)" "sem_inv s ex_queues S"
    "set (S sem_used) = {0}" "cur_pid s = 1" "sem_value (sem_table s 0) = 0" using ex_sem_created [of 0] by auto
  then have c: "cur_pid s \<noteq> 0" by simp
  show ?thesis using wait_contract [where i = 0, OF s(3) c refl refl] s by auto
qed

end
