(* ===== verification/Lifecycle.thy ===== *)
theory Lifecycle
  imports Semaphore Process_Ops
begin

text \<open>
  \<^verbatim>\<open>kernel/process_handler.c\<close>, second part: the end of a process (\<^verbatim>\<open>exit\<close>, \<^verbatim>\<open>kill\<close>), its filiation
  (\<^verbatim>\<open>waitpid\<close> and the zombies) and the collection of its memory.
\<close>

section \<open>Filiation\<close>

definition report_father :: "int \<Rightarrow> ('m, 'z) procs_scheme \<Rightarrow> (int \<times> ('m, 'z) procs_scheme) result" where
  "report_father pid s =
     (let father = p_father (proc s pid) in
      if p_child_waited (proc s father) = pid \<or> p_child_waited (proc s father) = -1 then
        (let s1 = upd_proc father (\<lambda>p. p\<lparr>p_child_waited := pid\<rparr>) s in
         bnd (find_pid (QHead waiting_child) father s1) (\<lambda>r.
         bnd (del_found Chaining r s1) (\<lambda>s2.
         bnd (proc_add (QHead actionable) (Chaining father) p_pid s2) (\<lambda>s3.
           Inr (pid, upd_proc father (\<lambda>p. p\<lparr>p_state := actionable\<rparr>) s3)))))
      else Inr (-1, s))"

text \<open>The loops below remove an element of a list at each turn: as many turns as links are enough.\<close>

fun check_zombies_children_loop :: "nat \<Rightarrow> 'm env \<Rightarrow> int \<Rightarrow> ('m, 'z) procs_scheme \<Rightarrow> ('m, 'z) procs_scheme result" where
  "check_zombies_children_loop 0 E father s = Inl Hang"
| "check_zombies_children_loop (Suc n) E father s =
     bnd (queue_for_each NB_LINKS (plinks s) (ChildrenHead father) (\<lambda>l. p_state (proc s (owner l)) = zombie)) (\<lambda>r.
       case r of
         None \<Rightarrow> Inr s
       | Some l \<Rightarrow>
           (let cur = owner l; pid = p_pid (proc s cur) in
            bnd (proc_del (ChildLink cur) s) (\<lambda>s1.
            bnd (find_pid (QHead zombie) pid s1) (\<lambda>r.
            bnd (del_found Chaining r s1) (\<lambda>s2.
            bnd (free_pid E pid s2) (check_zombies_children_loop n E father))))))"

definition check_zombies_children :: "'m env \<Rightarrow> int \<Rightarrow> ('m, 'z) procs_scheme \<Rightarrow> ('m, 'z) procs_scheme result" where
  "check_zombies_children E father s = check_zombies_children_loop NB_LINKS E father s"

definition funeral :: "int \<Rightarrow> ('m, 'z) procs_scheme \<Rightarrow> ('m, 'z) procs_scheme result" where
  "funeral father s =
     bnd (queue_elems NB_LINKS (plinks s) (ChildrenHead father)) (\<lambda>ls.
       Inr (fold (\<lambda>l. upd_proc (owner l) (\<lambda>p. p\<lparr>p_father := 0\<rparr>)) ls s))"

text \<open>\<^verbatim>\<open>waitpid\<close>: the part after the wait, and the whole.\<close>

definition waitpid_end :: "'m env \<Rightarrow> addr \<Rightarrow> ('m, 'z) procs_scheme \<Rightarrow> (int \<times> ('m, 'z) procs_scheme) result" where
  "waitpid_end E retvalp s =
     (let waited = p_child_waited (proc s (cur_pid s));
          s1 = (if retvalp \<noteq> 0 then s\<lparr>mem := store32 (mem s) retvalp (of_int32 (p_retvalue (proc s waited)))\<rparr> else s)
      in bnd (find_pid (QHead zombie) waited s1) (\<lambda>r.
         bnd (del_found Chaining r s1) (\<lambda>s2.
         bnd (del_found ChildLink r s2) (\<lambda>s3.
         bnd (free_pid E (p_child_waited (proc s3 (cur_pid s3))) s3) (\<lambda>s4.
           Inr (p_child_waited (proc s4 (cur_pid s4)),
                upd_proc (cur_pid s4) (\<lambda>p. p\<lparr>p_child_waited := 0\<rparr>) s4))))))"

definition wait_for_child :: "addr \<Rightarrow> ('m, 'z) procs_scheme \<Rightarrow> (int option \<times> ('m, 'z) procs_scheme) result" where
  "wait_for_child retvalp s =
     bnd (proc_add (QHead waiting_child) (Chaining (cur_pid s)) p_pid s) (\<lambda>s1.
       reschedule (WaitChild retvalp) (upd_proc (cur_pid s1) (\<lambda>p. p\<lparr>p_state := waiting_child\<rparr>) s1))"

definition waitpid :: "'m env \<Rightarrow> int \<Rightarrow> addr \<Rightarrow> ('m, 'z) procs_scheme \<Rightarrow> (int option \<times> ('m, 'z) procs_scheme) result" where
  "waitpid E pid retvalp s =
     (if pid \<noteq> -1 \<and> (pid \<le> 0 \<or> pid \<ge> NB_PROCESS) then Inr (Some (-1), s)
      else if queue_empty (plinks s) (ChildrenHead (cur_pid s)) then Inr (Some (-1), s)
      else bnd (if pid \<ge> 0 then find_pid_children (ChildrenHead (cur_pid s)) pid s else Inr (Some pid)) (\<lambda>r.
        if r = None then Inr (Some (-1), s)
        else
          (let s1 = upd_proc (cur_pid s) (\<lambda>p. p\<lparr>p_child_waited := pid\<rparr>) s in
           bnd (if pid = -1
                then bnd (queue_for_each_prev NB_LINKS (plinks s1) (ChildrenHead (cur_pid s1))
                            (\<lambda>l. p_state (proc s1 (owner l)) = zombie)) (\<lambda>z.
                       Inr (case z of
                         None \<Rightarrow> s1
                       | Some l \<Rightarrow> upd_proc (cur_pid s1) (\<lambda>p. p\<lparr>p_child_waited := p_pid (proc s1 (owner l))\<rparr>) s1))
                else Inr s1) (\<lambda>s2.
             if (if pid = -1 then p_child_waited (proc s2 (cur_pid s2)) = -1 else p_state (proc s2 pid) \<noteq> zombie)
             then wait_for_child retvalp s2
             else bnd (waitpid_end E retvalp s2) (\<lambda>(v, s3). Inr (Some v, s3))))))"

text \<open>\<^verbatim>\<open>check_zombies\<close>; the counts of zombies before and after the loop are not used and only traverse the queue.\<close>

fun check_zombies_loop :: "nat \<Rightarrow> 'm env \<Rightarrow> int \<Rightarrow> ('m, 'z) procs_scheme \<Rightarrow> ('m, 'z) procs_scheme result" where
  "check_zombies_loop 0 E time s = Inl Hang"
| "check_zombies_loop (Suc n) E time s =
     bnd (queue_elems NB_LINKS (plinks s) (QHead zombie)) (\<lambda>ls.
     bnd (mfold (\<lambda>l r. if r \<noteq> None then Inr r
            else bnd (find_pid (QHead waiting_child) (p_father (proc s (owner l))) s) (\<lambda>w.
              Inr (if w = None \<and> p_alarm_time (proc s (owner l)) + 5 * int CLOCKFREQ < time then Some (owner l) else None)))
          ls None) (\<lambda>r.
       case r of
         None \<Rightarrow> Inr s
       | Some cur \<Rightarrow>
           (let pid = p_pid (proc s cur) in
            bnd (find_pid_children (ChildrenHead (p_father (proc s cur))) pid s) (\<lambda>c.
            bnd (del_found ChildLink c s) (\<lambda>s1.
            bnd (proc_del (Chaining cur) s1) (\<lambda>s2.
            bnd (free_pid E pid s2) (check_zombies_loop n E time)))))))"

definition check_zombies :: "'m env \<Rightarrow> ('m, 'z) procs_scheme \<Rightarrow> ('m, 'z) procs_scheme result" where
  "check_zombies E s =
     bnd (queue_elems NB_LINKS (plinks s) (QHead zombie)) (\<lambda>_.
     bnd (check_zombies_loop NB_LINKS E (to_int (current_clock s)) s) (\<lambda>s1.
     bnd (queue_elems NB_LINKS (plinks s1) (QHead zombie)) (\<lambda>_. Inr s1)))"

section \<open>Collection of memory\<close>

definition add_garbage_collection :: "int \<Rightarrow> ('m, 'z) procs_scheme \<Rightarrow> ('m, 'z) procs_scheme result" where
  "add_garbage_collection pid s = proc_add GcHead (GcLink pid) p_pid s"

definition collect_one :: "'m env \<Rightarrow> ('m, 'z) procs_scheme \<Rightarrow> ('m, 'z) procs_scheme result" where
  "collect_one E s =
     bnd (proc_out GcHead s) (\<lambda>(dead, s1).
       let s2 = s1\<lparr>heap := mem_free E (p_kernel_stack (proc s1 dead)) KERNEL_STACK_SIZE (heap s1)\<rparr>;
           s3 = s2\<lparr>heap := user_stack_free E (p_user_stack (proc s2 dead)) (p_user_stack_size (proc s2 dead)) (heap s2)\<rparr>
       in if p_father (proc s3 dead) = 0 then
            bnd (proc_del (Chaining dead) s3) (\<lambda>s4.
            bnd (proc_del (ChildLink dead) s4) (\<lambda>s5.
              free_pid E (p_pid (proc s5 dead)) s5))
          else Inr s3)"

fun garbage_collect_loop :: "nat \<Rightarrow> 'm env \<Rightarrow> ('m, 'z) procs_scheme \<Rightarrow> ('m, 'z) procs_scheme result" where
  "garbage_collect_loop 0 E s = Inl Hang"
| "garbage_collect_loop (Suc n) E s =
     (if garbage_collection_needed s then bnd (collect_one E s) (garbage_collect_loop n E) else Inr s)"

definition garbage_collect :: "'m env \<Rightarrow> ('m, 'z) procs_scheme \<Rightarrow> ('m, 'z) procs_scheme result" where
  "garbage_collect E s = garbage_collect_loop NB_LINKS E s"

text \<open>One turn of the endless loop of \<^verbatim>\<open>garbage_collector\<close>, up to its call of \<^verbatim>\<open>scheduler\<close>.\<close>

definition garbage_collector :: "'m env \<Rightarrow> ('m, 'z) procs_scheme \<Rightarrow> (unit option \<times> ('m, 'z) procs_scheme) result" where
  "garbage_collector E s = bnd (garbage_collect E s) (reschedule Collect)"

section \<open>The end of a process\<close>

abbreviation KILL_RETVAL :: int where "KILL_RETVAL \<equiv> 0"

text \<open>The common part of \<^verbatim>\<open>exit\<close> and \<^verbatim>\<open>kill\<close>: the process is out of the queues and becomes a zombie.\<close>

definition become_zombie :: "'m env \<Rightarrow> int \<Rightarrow> ('m, 'z) procs_scheme \<Rightarrow> ('m, 'z) procs_scheme result" where
  "become_zombie E pid s =
     (let s1 = upd_proc pid (\<lambda>p. p\<lparr>p_alarm_time := to_int (current_clock s)\<rparr>) s in
      bnd (proc_add (QHead zombie) (Chaining pid) p_alarm_time s1) (\<lambda>s2.
      bnd (report_father pid (upd_proc pid (\<lambda>p. p\<lparr>p_state := zombie\<rparr>) s2)) (\<lambda>(_, s3).
      bnd (check_zombies_children E pid s3) (\<lambda>s4.
      bnd (funeral pid s4) (add_garbage_collection pid)))))"

text \<open>
  \<^verbatim>\<open>exit\<close> never comes back: the last call of \<^verbatim>\<open>scheduler\<close> leaves the process in its endless loop. The
  test for \<^verbatim>\<open>sem_blocked\<close> comes after the state is set to \<^verbatim>\<open>zombie\<close>.
\<close>

definition exit :: "'m env \<Rightarrow> int \<Rightarrow> ('m, 'z) sems_scheme \<Rightarrow> (int option \<times> ('m, 'z) sems_scheme) result" where
  "exit E retval s =
     bnd (become_zombie E (cur_pid s) (upd_proc (cur_pid s) (\<lambda>p. p\<lparr>p_retvalue := retval\<rparr>) s)) (\<lambda>s1.
       if p_state (proc s1 (cur_pid s1)) = sem_blocked then
         (let semval = p_sem_blocked (proc s1 (cur_pid s1)) in
          bnd (signal semval ExitTail (upd_proc (cur_pid s1) (\<lambda>p. p\<lparr>p_sem_blocked := -1\<rparr>) s1)) (\<lambda>(r, s2).
            case r of None \<Rightarrow> Inr (None, s2) | Some _ \<Rightarrow> reschedule Dead s2))
       else reschedule Dead s1)"

definition kill_unlink :: "int \<Rightarrow> ('m, 'z) sems_scheme \<Rightarrow> ('m, 'z) sems_scheme result" where
  "kill_unlink pid s =
     (let t = p_state (proc s pid) in
      bnd (if t = sem_blocked
           then bnd (signal_death (p_sem_blocked (proc s pid)) (upd_proc pid (\<lambda>p. p\<lparr>p_sem_blocked := -1\<rparr>) s))
                  (\<lambda>(_, s1). Inr s1)
           else Inr s) (\<lambda>s1.
      bnd (find_pid (QHead t) pid s1) (\<lambda>r. del_found Chaining r s1)))"

definition kill :: "'m env \<Rightarrow> int \<Rightarrow> ('m, 'z) sems_scheme \<Rightarrow> (int option \<times> ('m, 'z) sems_scheme) result" where
  "kill E pid s =
     (if pid \<le> 0 \<or> pid \<ge> NB_PROCESS then Inr (Some (-1), s)
      else if pid = cur_pid s then exit E KILL_RETVAL s
      else
        (let s1 = upd_proc pid (\<lambda>p. p\<lparr>p_retvalue := KILL_RETVAL\<rparr>) s in
         if p_state (proc s1 pid) \<in> {zombie, freepid} then Inr (Some (-1), s1)
         else bnd (kill_unlink pid s1) (\<lambda>s2.
              bnd (become_zombie E pid s2) (\<lambda>s3.
              bnd (garbage_collect E s3) (\<lambda>s4. Inr (Some 0, s4))))))"

end
