(* ===== verification/Keyboard.thy ===== *)
theory Keyboard
  imports Semaphore
begin

text \<open>
  \<^verbatim>\<open>kernel/kbd.c\<close>: the keyboard buffer, and the input/output part of \<^verbatim>\<open>kernel/process_handler.c\<close> that reads
  from it. The buffer is a table of 100 frames in two queues, the used ones (all with the same key, so in
  order of arrival) and the free ones (by number). \<^verbatim>\<open>kbd.c\<close> and the readers call each other, so they
  share a theory.
\<close>

section \<open>State\<close>

datatype num_queue = kbd_used | kbd_free

datatype kloc = KHead num_queue | KLink int

record frame =
  f_id :: int
  f_val :: char
  f_arrival :: int

record 'm kbd = "'m sems" +
  echo :: int
  calling_pid :: int
  reading :: int
  nb_chars :: u32
  buffer :: "int \<Rightarrow> frame"
  klinks :: "kloc links"

abbreviation BUFFER_SIZE :: int where "BUFFER_SIZE \<equiv> 100"

text \<open>The number of links of the buffer's queues: 100 frames and two heads.\<close>

abbreviation NB_KLINKS :: nat where "NB_KLINKS \<equiv> 103"

fun kowner :: "kloc \<Rightarrow> int" where
  "kowner (KLink i) = i"
| "kowner (KHead t) = -1"

definition upd_frame :: "int \<Rightarrow> (frame \<Rightarrow> frame) \<Rightarrow> ('m, 'z) kbd_scheme \<Rightarrow> ('m, 'z) kbd_scheme" where
  "upd_frame i f s = s\<lparr>buffer := (buffer s)(i := f (buffer s i))\<rparr>"

definition frame_add :: "num_queue \<Rightarrow> int \<Rightarrow> (frame \<Rightarrow> int) \<Rightarrow> ('m, 'z) kbd_scheme \<Rightarrow> ('m, 'z) kbd_scheme result" where
  "frame_add t i key s =
     bnd (queue_add NB_KLINKS (klinks s) (\<lambda>l. key (buffer s (kowner l))) (KHead t) (KLink i))
       (\<lambda>h. Inr (s\<lparr>klinks := h\<rparr>))"

section \<open>The buffer\<close>

definition set_echo :: "int \<Rightarrow> ('m, 'z) kbd_scheme \<Rightarrow> ('m, 'z) kbd_scheme" where
  "set_echo on s = (if on \<noteq> 0 then s\<lparr>echo := 1\<rparr> else s\<lparr>echo := 0\<rparr>)"

definition init_buffer :: "('m, 'z) kbd_scheme \<Rightarrow> ('m, 'z) kbd_scheme result" where
  "init_buffer s =
     mfold (\<lambda>i s.
       let s1 = upd_frame i (\<lambda>f. f\<lparr>f_id := i, f_val := CHR 0x00, f_arrival := 1\<rparr>) s;
           s2 = s1\<lparr>klinks := INIT_LINK (klinks s1) (KLink i)\<rparr>
       in frame_add kbd_free i f_id s2) [0..BUFFER_SIZE - 1] (s\<lparr>nb_chars := 0\<rparr>)"

definition buff_empty :: "('m, 'z) kbd_scheme \<Rightarrow> bool" where
  "buff_empty s = queue_empty (klinks s) (KHead kbd_used)"

text \<open>The part of \<^verbatim>\<open>remove_buff\<close> and of the deletion in \<^verbatim>\<open>keyboard_data\<close> after a frame is taken out.\<close>

definition give_back :: "kloc \<Rightarrow> ('m, 'z) kbd_scheme \<Rightarrow> ('m, 'z) kbd_scheme result" where
  "give_back l s = bnd (frame_add kbd_free (kowner l) f_id s) (\<lambda>s1. Inr (s1\<lparr>nb_chars := nb_chars s1 - 1\<rparr>))"

definition remove_buff :: "('m, 'z) kbd_scheme \<Rightarrow> (char \<times> ('m, 'z) kbd_scheme) result" where
  "remove_buff s =
     bnd (queue_out (klinks s) (KHead kbd_used)) (\<lambda>(r, h). case r of
       None \<Rightarrow> Inr (CHR 0x00, s\<lparr>klinks := h\<rparr>)
     | Some l \<Rightarrow> bnd (give_back l (s\<lparr>klinks := h\<rparr>)) (\<lambda>s1. Inr (f_val (buffer s1 (kowner l)), s1)))"

text \<open>A loop that takes a frame out at each turn: as many turns as links are enough.\<close>

fun update_loop :: "nat \<Rightarrow> ('m, 'z) kbd_scheme \<Rightarrow> ('m, 'z) kbd_scheme result" where
  "update_loop 0 s = Inl Hang"
| "update_loop (Suc n) s =
     (if buff_empty s then Inr s else bnd (remove_buff s) (\<lambda>(_, s1). update_loop n s1))"

definition update_buffer :: "('m, 'z) kbd_scheme \<Rightarrow> ('m, 'z) kbd_scheme result" where
  "update_buffer s = update_loop NB_KLINKS (s\<lparr>nb_chars := 0\<rparr>)"

definition obtain_id :: "('m, 'z) kbd_scheme \<Rightarrow> (int \<times> ('m, 'z) kbd_scheme) result" where
  "obtain_id s =
     (if queue_empty (klinks s) (KHead kbd_free) then Inr (-1, s)
      else bnd (queue_out_bot (klinks s) (KHead kbd_free)) (\<lambda>(r, h). case r of
        None \<Rightarrow> Inl NullDeref
      | Some l \<Rightarrow> Inr (f_id (buffer s (kowner l)), s\<lparr>klinks := h\<rparr>)))"

definition enable_reading :: "int \<Rightarrow> ('m, 'z) kbd_scheme \<Rightarrow> ('m, 'z) kbd_scheme" where
  "enable_reading pid s = s\<lparr>calling_pid := pid, reading := 1\<rparr>"

text \<open>\<^verbatim>\<open>copy_from_buffer\<close>: the NUL after the text goes to \<^verbatim>\<open>str[length_read]\<close>, also when \<^verbatim>\<open>length_read\<close> is \<^verbatim>\<open>length\<close>.\<close>

definition end_copy :: "addr \<Rightarrow> u32 \<Rightarrow> ('m, 'z) kbd_scheme \<Rightarrow> (u32 \<times> ('m, 'z) kbd_scheme) result" where
  "end_copy str n s = Inr (n, s\<lparr>mem := (mem s)(str + n := 0)\<rparr>)"

fun copy_loop :: "nat \<Rightarrow> addr \<Rightarrow> u32 \<Rightarrow> u32 \<Rightarrow> ('m, 'z) kbd_scheme \<Rightarrow> (u32 \<times> ('m, 'z) kbd_scheme) result" where
  "copy_loop 0 str len n s = Inl Hang"
| "copy_loop (Suc k) str len n s =
     (if n = len then end_copy str n s
      else if buff_empty s then end_copy str n s
      else bnd (remove_buff s) (\<lambda>(c, s1).
        if c = CHR 0x00 then end_copy str n s1
        else if of_char c \<le> (126 :: nat)
        then copy_loop k str len (n + 1) (s1\<lparr>mem := (mem s1)(str + n := of_char c)\<rparr>)
        else copy_loop k str len n s1))"

definition copy_from_buffer :: "addr \<Rightarrow> u32 \<Rightarrow> ('m, 'z) kbd_scheme \<Rightarrow> (u32 \<times> ('m, 'z) kbd_scheme) result" where
  "copy_from_buffer str len s = copy_loop NB_KLINKS str len 0 s"

definition kbd_leds :: "u8 \<Rightarrow> 'z console_scheme \<Rightarrow> 'z console_scheme" where
  "kbd_leds leds s = outb leds 0x60 (outb 0xED 0x60 s)"

section \<open>Readers\<close>

text \<open>\<^verbatim>\<open>wait_on_io\<close>: \<^verbatim>\<open>Some\<close> if it comes back at once.\<close>

definition wait_on_io :: "cont \<Rightarrow> ('m, 'z) procs_scheme \<Rightarrow> (int option \<times> ('m, 'z) procs_scheme) result" where
  "wait_on_io k s =
     (if read_mutex s < 0 then
        (let s1 = upd_proc (cur_pid s) (\<lambda>p. p\<lparr>p_state := io_blocked\<rparr>) s in
         bnd (proc_add (QHead io_blocked) (Chaining (cur_pid s1)) p_prio s1) (reschedule k))
      else Inr (Some (cur_pid s), s))"

definition signal_cons_read_io :: "cont \<Rightarrow> ('m, 'z) procs_scheme \<Rightarrow> (int option \<times> ('m, 'z) procs_scheme) result" where
  "signal_cons_read_io k s =
     (if queue_empty (plinks s) (QHead io_blocked) then Inr (Some (-1), s)
      else bnd (proc_out (QHead io_blocked) (s\<lparr>read_mutex := read_mutex s + 1\<rparr>)) (\<lambda>(cur, s1).
        let s2 = upd_proc (p_pid (proc s1 cur)) (\<lambda>p. p\<lparr>p_state := actionable\<rparr>) s1
        in bnd (proc_add (QHead actionable) (Chaining cur) p_prio s2) (reschedule k)))"

definition cons_echo :: "int \<Rightarrow> ('m, 'z) kbd_scheme \<Rightarrow> ('m, 'z) kbd_scheme" where
  "cons_echo on s = set_echo on s"

text \<open>
  \<^verbatim>\<open>cons_read\<close> and, with \<open>sh\<close>, \<^verbatim>\<open>shell_cons_read\<close>, which resets the left margin before it goes to a new
  line. They have two points where they may switch before their last call; the parts between are
  definitions of their own. A value they return is an \<^verbatim>\<open>int\<close>, as the system call returns it.
\<close>

definition cons_read_end :: "u32 \<Rightarrow> ('m, 'z) kbd_scheme \<Rightarrow> (int option \<times> ('m, 'z) kbd_scheme) result" where
  "cons_read_end res s =
     bnd (signal_cons_read_io (Return (to_int res)) s) (\<lambda>(r, s1). Inr (map_option (\<lambda>_. to_int res) r, s1))"

definition cons_read_copy :: "bool \<Rightarrow> addr \<Rightarrow> u32 \<Rightarrow> ('m, 'z) kbd_scheme \<Rightarrow> (int option \<times> ('m, 'z) kbd_scheme) result" where
  "cons_read_copy sh str len s =
     bnd (copy_from_buffer str len s) (\<lambda>(res, s1).
     bnd (kprintf [CHR 10] [] (if sh then set_col_min 0 s1 else s1)) (\<lambda>s2. cons_read_end res s2))"

definition cons_read_enter :: "bool \<Rightarrow> addr \<Rightarrow> u32 \<Rightarrow> ('m, 'z) kbd_scheme \<Rightarrow> (int option \<times> ('m, 'z) kbd_scheme) result" where
  "cons_read_enter sh str len s =
     (if len = 0 then cons_read_end 0 s
      else if \<not> buff_empty s then cons_read_copy sh str len s
      else bnd (proc_add (QHead io_blocked) (Chaining (cur_pid s)) p_prio s) (\<lambda>s1.
        let s2 = upd_proc (cur_pid s1) (\<lambda>p. p\<lparr>p_state := io_blocked\<rparr>) s1
        in reschedule (ConsReadCopy sh str len) (enable_reading (cur_pid s2) s2)))"

definition cons_read :: "addr \<Rightarrow> u32 \<Rightarrow> ('m, 'z) kbd_scheme \<Rightarrow> (int option \<times> ('m, 'z) kbd_scheme) result" where
  "cons_read str len s =
     bnd (wait_on_io (ConsReadEnter False str len) s) (\<lambda>(r, s1).
       case r of None \<Rightarrow> Inr (None, s1) | Some _ \<Rightarrow> cons_read_enter False str len s1)"

definition shell_cons_read :: "addr \<Rightarrow> u32 \<Rightarrow> ('m, 'z) kbd_scheme \<Rightarrow> (int option \<times> ('m, 'z) kbd_scheme) result" where
  "shell_cons_read str len s =
     bnd (wait_on_io (ConsReadEnter True str len) s) (\<lambda>(r, s1).
       case r of None \<Rightarrow> Inr (None, s1) | Some _ \<Rightarrow> cons_read_enter True str len s1)"

definition signal_end_io :: "int \<Rightarrow> cont \<Rightarrow> ('m, 'z) procs_scheme \<Rightarrow> (unit option \<times> ('m, 'z) procs_scheme) result" where
  "signal_end_io pid k s =
     (let s1 = s\<lparr>read_mutex := read_mutex s + 1\<rparr> in
      bnd (find_pid (QHead io_blocked) pid s1) (\<lambda>r. case r of
        None \<Rightarrow> Inl NullDeref
      | Some cur \<Rightarrow>
          bnd (proc_del (Chaining cur) s1) (\<lambda>s2.
            let s3 = upd_proc cur (\<lambda>p. p\<lparr>p_state := actionable\<rparr>) s2
            in bnd (proc_add (QHead actionable) (Chaining cur) p_prio s3) (reschedule k))))"

section \<open>The interrupt side\<close>

definition echo_key :: "char \<Rightarrow> ('m, 'z) kbd_scheme \<Rightarrow> ('m, 'z) kbd_scheme" where
  "echo_key c s =
     (if echo s = 1 \<and> c \<noteq> CHR 13
      then if of_char c < (32 :: nat) then handle_char (char_of (of_char c + 64 :: nat)) (handle_char (CHR ''^'') s)
           else handle_char c s
      else s)"

text \<open>The insertion of a character: dropped when no frame is free.\<close>

definition put_buff :: "char \<Rightarrow> ('m, 'z) kbd_scheme \<Rightarrow> ('m, 'z) kbd_scheme result" where
  "put_buff c s =
     bnd (obtain_id s) (\<lambda>(id, s1).
       if id \<ge> 0 then
         frame_add kbd_used id f_arrival (upd_frame id (\<lambda>f. f\<lparr>f_val := c\<rparr>) (s1\<lparr>nb_chars := nb_chars s1 + 1\<rparr>))
       else Inr s1)"

definition unput_buff :: "('m, 'z) kbd_scheme \<Rightarrow> ('m, 'z) kbd_scheme result" where
  "unput_buff s =
     bnd (queue_out_bot (klinks s) (KHead kbd_used)) (\<lambda>(r, h). case r of
       None \<Rightarrow> Inr (s\<lparr>klinks := h\<rparr>)
     | Some l \<Rightarrow> give_back l (s\<lparr>klinks := h\<rparr>))"

definition keyboard_data :: "char \<Rightarrow> ('m, 'z) kbd_scheme \<Rightarrow> (unit option \<times> ('m, 'z) kbd_scheme) result" where
  "keyboard_data c s =
     (let s1 = echo_key c s in
      if reading s1 \<noteq> 0 then
        if c = CHR 13 then
          bnd (put_buff (CHR 0x00) s1) (\<lambda>s2.
            signal_end_io (calling_pid s2) Iret (s2\<lparr>calling_pid := 0, reading := 0\<rparr>))
        else if c = CHR 127 then bnd (unput_buff s1) (\<lambda>s2. Inr (Some (), s2))
        else bnd (put_buff c s1) (\<lambda>s2. Inr (Some (), s2))
      else Inr (Some (), s1))"

section \<open>Listings and the shell\<close>

definition list_procs :: "list_type \<Rightarrow> string \<Rightarrow> ('m, 'z) procs_scheme \<Rightarrow> ('m, 'z) procs_scheme result" where
  "list_procs t state s =
     bnd (queue_elems NB_LINKS (plinks s) (QHead t)) (\<lambda>ls.
       mfold (\<lambda>l. print_process (''%d              %s              %s '' @ [CHR 10])
                (\<lambda>p. [VWord (of_int32 (p_pid p))]) (\<lambda>p. [VStr (Some state)]) (owner l)) ls s)"

definition list_ps :: "('m, 'z) procs_scheme \<Rightarrow> ('m, 'z) procs_scheme result" where
  "list_ps s =
     bnd (kprintf (''pid             nom             etat'' @ [CHR 10]) [] (set_col_min 0 s)) (\<lambda>s1.
     bnd (kprintf (''---------------------------------------------'' @ [CHR 10]) [] s1) (\<lambda>s2.
     bnd (list_procs actionable ''activable'' s2) (\<lambda>s3.
     bnd (list_procs asleep ''endormi'' s3) (\<lambda>s4.
     bnd (list_procs sem_blocked ''bloque sur semaphore'' s4) (\<lambda>s5.
     bnd (list_procs io_blocked ''bloque sur entree/sortie'' s5) (\<lambda>s6.
     bnd (list_procs waiting_child (''en attente d'' @ [CHR 39] @ ''un fils'') s6) (\<lambda>s7.
     bnd (list_procs zombie ''zombie'' s7) (\<lambda>s8.
       kprintf [CHR 10] [] s8))))))))"

abbreviation PROMPT :: string where "PROMPT \<equiv> ''root@root-anonymOS:~$ ''"

definition print_prompt :: "('m, 'z) kbd_scheme \<Rightarrow> ('m, 'z) kbd_scheme result" where
  "print_prompt s =
     bnd (update_buffer s) (\<lambda>s1.
     bnd (kprintf PROMPT [] (set_col_min 0 s1)) (\<lambda>s2. Inr (set_col_min (int (length PROMPT)) s2)))"

definition clear :: "'z console_scheme \<Rightarrow> 'z console_scheme" where
  "clear s = handle_char (CHR 12) (set_col_min 0 s)"

end
