(* ===== verification/Devices.thy ===== *)
theory Devices
  imports Keyboard
begin

unbundle bit_operations_syntax

text \<open>
  \<^verbatim>\<open>kernel/interruptions/interruption.c\<close> (the interrupt table and the interrupt masks),
  \<^verbatim>\<open>kernel/audio/speaker.c\<close> and \<^verbatim>\<open>kernel/audio/audio.c\<close> (the loudspeaker and the player of tracks).

  What a device answers to \<^verbatim>\<open>inb\<close> is a parameter \<open>inp\<close> of the operations that read a port: a function of
  the port and of the bytes sent to the ports so far (latest first).
\<close>

type_synonym inputs = "u16 \<Rightarrow> (u16 \<times> u8) list \<Rightarrow> u8"

definition inb :: "inputs \<Rightarrow> u16 \<Rightarrow> 'z console_scheme \<Rightarrow> u8" where
  "inb inp port s = inp port (outs s)"

abbreviation PIC1_DATA :: u16 where "PIC1_DATA \<equiv> 0x21"
abbreviation PIC2_DATA :: u16 where "PIC2_DATA \<equiv> 0xA1"
abbreviation CMOS_ADDRESS :: u16 where "CMOS_ADDRESS \<equiv> 0x70"
abbreviation CMOS_DATA :: u16 where "CMOS_DATA \<equiv> 0x71"
abbreviation PIT2_DATA :: u16 where "PIT2_DATA \<equiv> 0x42"
abbreviation PIT_CMD :: u16 where "PIT_CMD \<equiv> 0x43"
abbreviation SPEAKER :: u16 where "SPEAKER \<equiv> 0x61"
abbreviation IDT_ADDRESS :: addr where "IDT_ADDRESS \<equiv> 0x1000"
abbreviation KERNEL_CS :: u32 where "KERNEL_CS \<equiv> 0x10"

section \<open>Interrupts\<close>

definition init_handler_IT :: "int \<Rightarrow> u32 \<Rightarrow> int \<Rightarrow> mem \<Rightarrow> mem" where
  "init_handler_IT num_IT handler user m =
     (let addr_table_IT = IDT_ADDRESS + 8 * of_int32 num_IT;
          m1 = store32 m addr_table_IT (push_bit 16 KERNEL_CS OR (handler AND 0xFFFF))
      in if user = 0 then store32 m1 (addr_table_IT + 4) ((handler AND 0xFFFF0000) OR 0x8E00)
         else store32 m1 (addr_table_IT + 4) ((handler AND 0xFFFF0000) OR 0xEE00))"

definition mask_IRQ :: "inputs \<Rightarrow> nat \<Rightarrow> int \<Rightarrow> 'z console_scheme \<Rightarrow> 'z console_scheme" where
  "mask_IRQ inp num_IRQ masked s =
     (let (port, n) = (if num_IRQ < 8 then (PIC1_DATA, num_IRQ) else (PIC2_DATA, num_IRQ - 8));
          old = inb inp port s;
          new_mask = (if masked \<noteq> 0 then old OR push_bit n 1 else old AND NOT (push_bit n 1))
      in outb new_mask port s)"

section \<open>The loudspeaker\<close>

definition init_speaker :: "'z console_scheme \<Rightarrow> 'z console_scheme" where
  "init_speaker s = outb 0xB6 PIT_CMD s"

definition set_frequency :: "u32 \<Rightarrow> 'z console_scheme \<Rightarrow> 'z console_scheme result" where
  "set_frequency freq s =
     (if freq = 0 then Inl DivideError
      else
        (let d = of_nat QUARTZ div freq;
             s1 = outb (ucast (d AND 0xFF)) PIT2_DATA s
         in Inr (outb (ucast (drop_bit 8 d AND 0xFF)) PIT2_DATA s1)))"

definition speaker_on :: "inputs \<Rightarrow> 'z console_scheme \<Rightarrow> 'z console_scheme" where
  "speaker_on inp s = outb (inb inp SPEAKER s OR 0x03) SPEAKER s"

definition speaker_off :: "inputs \<Rightarrow> 'z console_scheme \<Rightarrow> 'z console_scheme" where
  "speaker_off inp s = outb (inb inp SPEAKER s AND 0xFC) SPEAKER s"

text \<open>The delay loop of \<^verbatim>\<open>beep\<close> has no effect on the state.\<close>

definition beep :: "inputs \<Rightarrow> u32 \<Rightarrow> 'z console_scheme \<Rightarrow> 'z console_scheme result" where
  "beep inp freq s = bnd (set_frequency freq s) (\<lambda>s1. Inr (speaker_off inp (speaker_on inp s1)))"

section \<open>The player\<close>

record 'm audio = "'m kbd" +
  cur_track :: addr
  cur_note :: u32

text \<open>The fields of a \<^verbatim>\<open>track\<close> in memory: the address of its notes, and their number.\<close>

definition track_length :: "mem \<Rightarrow> addr \<Rightarrow> u32" where
  "track_length m t = load32 m (t + 4)"

definition track_note :: "mem \<Rightarrow> addr \<Rightarrow> u32 \<Rightarrow> u32" where
  "track_note m t i = load32 m (load32 m t + 4 * i)"

definition init_rtc :: "inputs \<Rightarrow> 'z console_scheme \<Rightarrow> 'z console_scheme" where
  "init_rtc inp s =
     (let s1 = outb 0x0B CMOS_ADDRESS s;
          tmp = inb inp CMOS_DATA s1;
          s2 = outb 0x0B CMOS_ADDRESS s1;
          s3 = outb (tmp OR 0x40) CMOS_DATA s2;
          s4 = outb 0x0A CMOS_ADDRESS s3;
          tmp2 = inb inp CMOS_DATA s4;
          s5 = outb 0x0A CMOS_ADDRESS s4
      in outb ((tmp2 AND 0xF0) OR 0xD) CMOS_DATA s5)"

definition init_audio :: "inputs \<Rightarrow> 'z console_scheme \<Rightarrow> 'z console_scheme" where
  "init_audio inp s = init_rtc inp (init_speaker s)"

definition play_music :: "inputs \<Rightarrow> addr \<Rightarrow> ('m, 'z) audio_scheme \<Rightarrow> ('m, 'z) audio_scheme result" where
  "play_music inp music s =
     (let s1 = s\<lparr>cur_track := music, cur_note := 1\<rparr> in
      bnd (set_frequency (track_note (mem s1) (cur_track s1) 0) s1) (\<lambda>s2.
        Inr (mask_IRQ inp 8 0 (mask_IRQ inp 2 0 (speaker_on inp s2)))))"

definition stop_music :: "inputs \<Rightarrow> 'z console_scheme \<Rightarrow> 'z console_scheme" where
  "stop_music inp s = mask_IRQ inp 8 1 (mask_IRQ inp 2 1 (speaker_off inp s))"

definition next_note :: "inputs \<Rightarrow> ('m, 'z) audio_scheme \<Rightarrow> ('m, 'z) audio_scheme result" where
  "next_note inp s =
     (if cur_note s < track_length (mem s) (cur_track s) then
        if track_note (mem s) (cur_track s) (cur_note s) \<noteq> 0 then
          bnd (set_frequency (track_note (mem s) (cur_track s) (cur_note s)) (s\<lparr>cur_note := cur_note s + 1\<rparr>))
            (\<lambda>s1. Inr (speaker_on inp s1))
        else Inr (speaker_off inp (s\<lparr>cur_note := cur_note s + 1\<rparr>))
      else Inr (stop_music inp s))"

end
