(* ===== verification/System.thy ===== *)
theory System
  imports Lifecycle Devices
begin

unbundle bit_operations_syntax

text \<open>
  The kernel as a whole: the bodies of the interrupt handlers (\<^verbatim>\<open>kernel/interruptions\<close>), the dispatch of
  the system calls, the initialisation in \<^verbatim>\<open>kernel/start.c\<close>, and how a process that was switched away
  goes on.
\<close>

section \<open>State\<close>

text \<open>The static variables of \<^verbatim>\<open>it32_clock_body\<close> and of \<^verbatim>\<open>it49_syslib_body.c\<close>.\<close>

record 'm kernel = "'m audio" +
  sched_ticks :: u32
  syslib_on :: int

abbreviation SCHEDFREQ :: nat where "SCHEDFREQ \<equiv> 50"
abbreviation USER_ADR :: u32 where "USER_ADR \<equiv> 0x1000000"

section \<open>Handlers\<close>

definition it32_clock_body :: "('m, 'z) kernel_scheme \<Rightarrow> (unit option \<times> ('m, 'z) kernel_scheme) result" where
  "it32_clock_body s =
     bnd (increment_clock s) (\<lambda>s1.
       let s2 = s1\<lparr>sched_ticks := sched_ticks s1 + 1\<rparr> in
       if sched_ticks s2 = of_nat (CLOCKFREQ div SCHEDFREQ)
       then reschedule Iret (s2\<lparr>sched_ticks := 0\<rparr>)
       else Inr (Some (), s2))"

definition it13_exception_body :: "'m env \<Rightarrow> ('m, 'z) kernel_scheme \<Rightarrow> (int option \<times> ('m, 'z) kernel_scheme) result" where
  "it13_exception_body E s = bnd (kprintf (''ERROR : Invalid instruction'' @ [CHR 10]) [] s) (exit E 0)"

definition it40_rtc_body :: "inputs \<Rightarrow> ('m, 'z) kernel_scheme \<Rightarrow> ('m, 'z) kernel_scheme result" where
  "it40_rtc_body inp s = next_note inp s"

text \<open>Results of operations that cannot switch, and of those without a result.\<close>

definition ret :: "(int \<times> 's) result \<Rightarrow> (int option \<times> 's) result" where
  "ret r = bnd r (\<lambda>(v, s). Inr (Some v, s))"

definition ret0 :: "(unit option \<times> 's) result \<Rightarrow> (int option \<times> 's) result" where
  "ret0 r = bnd r (\<lambda>(u, s). Inr (map_option (\<lambda>_. 0) u, s))"

definition user_bytes :: "mem \<Rightarrow> addr \<Rightarrow> int \<Rightarrow> char list" where
  "user_bytes m a len = map (\<lambda>i. char_of (unat (m (a + of_nat i)))) [0..<nat len]"

definition it49_syslib_body :: "inputs \<Rightarrow> 'm env \<Rightarrow> int \<Rightarrow> int \<Rightarrow> int \<Rightarrow> int \<Rightarrow> int \<Rightarrow> int
    \<Rightarrow> ('m, 'z) kernel_scheme \<Rightarrow> (int option \<times> ('m, 'z) kernel_scheme) result" where
  "it49_syslib_body inp E call par1 par2 par3 par4 par5 s =
     (if call = 1 then chprio par1 par2 s
      else if call = 2 then
        if of_int32 par1 < USER_ADR then Inr (Some (-1), s)
        else if of_int32 par2 < USER_ADR then Inr (Some (-1), s)
        else Inr (Some 0, s\<lparr>mem := clock_settings (of_int32 par1) (of_int32 par2) (mem s)\<rparr>)
      else if call = 3 then Inr (Some 0, cons_echo par1 s)
      else if call = 4 then
        if of_int32 par1 < USER_ADR then Inr (Some 0, s)
        else cons_read (of_int32 par1) (of_int32 par2) s
      else if call = 5 then
        if of_int32 par1 < USER_ADR then Inr (Some (-1), s)
        else Inr (Some 0, console_putbytes (user_bytes (mem s) (of_int32 par1) par2) s)
      else if call = 6 then Inr (Some (to_int (current_clock s)), s)
      else if call = 7 then exit E par1 s
      else if call = 8 then Inr (Some (getpid s), s)
      else if call = 9 then Inr (Some (getprio par1 s), s)
      else if call = 10 then kill E par1 s
      else if call = 11 then bnd (scount par1 s) (\<lambda>v. Inr (Some v, s))
      else if call = 12 then ret (screate (to_short par1) s)
      else if call = 13 then sdelete par1 s
      else if call = 14 then sreset par1 (to_short par2) s
      else if call = 15 then signal par1 (Return 0) s
      else if call = 16 then signaln par1 (to_short par2) s
      else if call = 17 then
        if of_int32 par4 < USER_ADR then Inr (Some (-1), s)
        else start E (of_int32 par1) (of_int32 par2) par3 (of_int32 par4) (of_int32 par5) s
      else if call = 20 then ret0 (wait_clock (of_int32 par1) (Return 0) s)
      else if call = 21 then
        if par2 \<noteq> 0 \<and> of_int32 par2 < USER_ADR then Inr (Some (-1), s)
        else waitpid E par1 (of_int32 par2) s
      else if call = 22 then wait par1 s
      else if call = 23 then ret (try_wait par1 s)
      else if call = 24 then
        (let s1 = s\<lparr>syslib_on := (syslib_on s + 1) mod 2\<rparr> in Inr (Some 0, cons_echo (syslib_on s1) s1))
      else if call = 25 then exit E 0 s
      else if call = 26 then bnd (list_ps s) (\<lambda>s1. Inr (Some 0, s1))
      else if call = 27 then bnd (list_sem_info s) (\<lambda>s1. Inr (Some 0, s1))
      else if call = 28 then Inr (Some 0, set_col_min par1 s)
      else if call = 29 then Inr (Some 0, s)
      else if call = 30 then bnd (update_buffer s) (\<lambda>s1. Inr (Some 0, s1))
      else if call = 31 \<or> call = 32 then Inr (Some 0, s)
      else if call = 33 then bnd (print_prompt s) (\<lambda>s1. Inr (Some 0, s1))
      else if call = 34 then
        if of_int32 par1 < USER_ADR then Inr (Some 0, s)
        else shell_cons_read (of_int32 par1) (of_int32 par2) s
      else if call = 35 then Inr (Some 0, clear s)
      else if call = 36 then
        if of_int32 par1 < USER_ADR then Inr (Some (-1), s)
        else bnd (play_music inp (of_int32 par1) s) (\<lambda>s1. Inr (Some 0, s1))
      else bnd (kprintf (''SYSCALL ERROR : %d, %d, %d, %d, %d, %d'' @ [CHR 10])
                  (map (\<lambda>v. VWord (of_int32 v)) [call, par1, par2, par3, par4, par5]) s) (\<lambda>_. Inl AssertFail))"

section \<open>Going on after a switch\<close>

text \<open>
  What the current process does when the processor comes back to it: the rest of the function it was in.
  \<^verbatim>\<open>Some v\<close>: it is back in its own code, with \<open>v\<close> as the result of its system call (0 if it was not in one).
\<close>

definition resume :: "'m env \<Rightarrow> ('m, 'z) kernel_scheme \<Rightarrow> (int option \<times> ('m, 'z) kernel_scheme) result" where
  "resume E s =
     (case resume_at s (cur_pid s) of
        Running \<Rightarrow> Inr (Some 0, s)
      | UserEntry \<Rightarrow> Inr (Some 0, s)
      | Return v \<Rightarrow> Inr (Some v, s)
      | Iret \<Rightarrow> Inr (Some 0, s)
      | WaitSem \<Rightarrow> Inr (Some (get_awakener s), s)
      | WaitChild retvalp \<Rightarrow> ret (waitpid_end E retvalp s)
      | ConsReadEnter sh str len \<Rightarrow> cons_read_enter sh str len s
      | ConsReadCopy sh str len \<Rightarrow> cons_read_copy sh str len s
      | Collect \<Rightarrow> ret0 (garbage_collector E s)
      | ExitTail \<Rightarrow> reschedule Dead s
      | Dead \<Rightarrow> Inl Hang)"

section \<open>Initialisation\<close>

text \<open>The addresses of the assembly entry points of the handlers, and of the name of the first process.\<close>

record handlers =
  clock_handler :: u32
  kbd_handler :: u32
  syslib_handler :: u32
  exception_handler :: u32
  rtc_handler :: u32
  str_user_start :: addr

definition init_handlers :: "handlers \<Rightarrow> inputs \<Rightarrow> ('m, 'z) procs_scheme \<Rightarrow> ('m, 'z) procs_scheme" where
  "init_handlers H inp s =
     (let s1 = mask_IRQ inp 0 0 s;
          s2 = s1\<lparr>mem := init_handler_IT 32 (clock_handler H) 0 (mem s1)\<rparr>;
          s3 = mask_IRQ inp 1 0 s2;
          s4 = s3\<lparr>mem := init_handler_IT 33 (kbd_handler H) 0 (mem s3)\<rparr>;
          s5 = s4\<lparr>mem := init_handler_IT 49 (syslib_handler H) 1 (mem s4)\<rparr>;
          s6 = s5\<lparr>mem := init_handler_IT 13 (exception_handler H) 0 (mem s5)\<rparr>
      in s6\<lparr>mem := init_handler_IT 40 (rtc_handler H) 0 (mem s6)\<rparr>)"

definition kernel_init :: "handlers \<Rightarrow> inputs \<Rightarrow> 'm env \<Rightarrow> ('m, 'z) kernel_scheme \<Rightarrow> ('m, 'z) kernel_scheme result" where
  "kernel_init H inp E s =
     bnd (init_clock (initialize_screen s)) (\<lambda>s1.
     bnd (init_process_handling E (init_handlers H inp (kbd_leds 7 s1))) (\<lambda>s2.
     bnd (init_sem_free s2) (\<lambda>s3.
     bnd (init_buffer s3) (\<lambda>s4. Inr (init_audio inp s4)))))"

text \<open>\<^verbatim>\<open>kernel_start\<close> up to the call of \<^verbatim>\<open>idle\<close>, which enables interrupts.\<close>

definition kernel_start :: "handlers \<Rightarrow> inputs \<Rightarrow> 'm env \<Rightarrow> ('m, 'z) kernel_scheme
    \<Rightarrow> (int option \<times> ('m, 'z) kernel_scheme) result" where
  "kernel_start H inp E s =
     bnd (kernel_init H inp E s) (\<lambda>s1. start E USER_ADR 0x20000 MAXPRIO (str_user_start H) 0 s1)"

end
