(* ===== verification/Userland.thy ===== *)
theory Userland
  imports System
begin

text \<open>
  The user side of the system calls: \<^verbatim>\<open>user/syslib.c\<close>, \<^verbatim>\<open>user/cmd_lib.c\<close>, \<^verbatim>\<open>user/utils.c\<close>,
  \<^verbatim>\<open>user/console_putbytes.c\<close>. Each function puts its arguments in registers and raises interrupt 49,
  whose handler hands them to \<^verbatim>\<open>it49_syslib_body\<close>. The kernel has functions of the same names; those of
  the library are prefixed here.
\<close>

type_synonym ('m, 'z) call = "('m, 'z) kernel_scheme \<Rightarrow> (int option \<times> ('m, 'z) kernel_scheme) result"

definition syscall :: "inputs \<Rightarrow> 'm env \<Rightarrow> int \<Rightarrow> int \<Rightarrow> int \<Rightarrow> int \<Rightarrow> int \<Rightarrow> int \<Rightarrow> ('m, 'z) call" where
  "syscall inp E call par1 par2 par3 par4 par5 = it49_syslib_body inp E call par1 par2 par3 par4 par5"

section \<open>syslib.c\<close>

definition user_chprio :: "inputs \<Rightarrow> 'm env \<Rightarrow> int \<Rightarrow> int \<Rightarrow> ('m, 'z) call" where
  "user_chprio inp E pid newprio = syscall inp E 1 pid newprio 0 0 0"

definition user_clock_settings :: "inputs \<Rightarrow> 'm env \<Rightarrow> addr \<Rightarrow> addr \<Rightarrow> ('m, 'z) call" where
  "user_clock_settings inp E quartz ticks = syscall inp E 2 (to_int quartz) (to_int ticks) 0 0 0"

definition user_cons_echo :: "inputs \<Rightarrow> 'm env \<Rightarrow> int \<Rightarrow> ('m, 'z) call" where
  "user_cons_echo inp E on = syscall inp E 3 on 0 0 0 0"

definition user_cons_read :: "inputs \<Rightarrow> 'm env \<Rightarrow> addr \<Rightarrow> u32 \<Rightarrow> ('m, 'z) call" where
  "user_cons_read inp E string len = syscall inp E 4 (to_int string) (to_int len) 0 0 0"

text \<open>\<^verbatim>\<open>cons_write\<close> drops the result of the call and returns 0.\<close>

definition user_cons_write :: "inputs \<Rightarrow> 'm env \<Rightarrow> addr \<Rightarrow> int \<Rightarrow> ('m, 'z) call" where
  "user_cons_write inp E str len s =
     bnd (syscall inp E 5 (to_int str) len 0 0 0 s) (\<lambda>(r, s1). Inr (map_option (\<lambda>_. 0) r, s1))"

definition user_current_clock :: "inputs \<Rightarrow> 'm env \<Rightarrow> ('m, 'z) call" where
  "user_current_clock inp E = syscall inp E 6 0 0 0 0 0"

text \<open>If system call 7 came back, \<^verbatim>\<open>exit\<close> would loop.\<close>

definition user_exit :: "inputs \<Rightarrow> 'm env \<Rightarrow> int \<Rightarrow> ('m, 'z) call" where
  "user_exit inp E retval s =
     bnd (syscall inp E 7 retval 0 0 0 0 s) (\<lambda>(r, s1). case r of None \<Rightarrow> Inr (None, s1) | Some _ \<Rightarrow> Inl Hang)"

definition user_getpid :: "inputs \<Rightarrow> 'm env \<Rightarrow> ('m, 'z) call" where
  "user_getpid inp E = syscall inp E 8 0 0 0 0 0"

definition user_getprio :: "inputs \<Rightarrow> 'm env \<Rightarrow> int \<Rightarrow> ('m, 'z) call" where
  "user_getprio inp E pid = syscall inp E 9 pid 0 0 0 0"

definition user_kill :: "inputs \<Rightarrow> 'm env \<Rightarrow> int \<Rightarrow> ('m, 'z) call" where
  "user_kill inp E pid = syscall inp E 10 pid 0 0 0 0"

definition user_scount :: "inputs \<Rightarrow> 'm env \<Rightarrow> int \<Rightarrow> ('m, 'z) call" where
  "user_scount inp E sem = syscall inp E 11 sem 0 0 0 0"

definition user_screate :: "inputs \<Rightarrow> 'm env \<Rightarrow> int \<Rightarrow> ('m, 'z) call" where
  "user_screate inp E count = syscall inp E 12 count 0 0 0 0"

definition user_sdelete :: "inputs \<Rightarrow> 'm env \<Rightarrow> int \<Rightarrow> ('m, 'z) call" where
  "user_sdelete inp E sem = syscall inp E 13 sem 0 0 0 0"

definition user_sreset :: "inputs \<Rightarrow> 'm env \<Rightarrow> int \<Rightarrow> int \<Rightarrow> ('m, 'z) call" where
  "user_sreset inp E sem count = syscall inp E 14 sem count 0 0 0"

definition user_signal :: "inputs \<Rightarrow> 'm env \<Rightarrow> int \<Rightarrow> ('m, 'z) call" where
  "user_signal inp E sem = syscall inp E 15 sem 0 0 0 0"

definition user_signaln :: "inputs \<Rightarrow> 'm env \<Rightarrow> int \<Rightarrow> int \<Rightarrow> ('m, 'z) call" where
  "user_signaln inp E sem count = syscall inp E 16 sem count 0 0 0"

definition user_start :: "inputs \<Rightarrow> 'm env \<Rightarrow> addr \<Rightarrow> u32 \<Rightarrow> int \<Rightarrow> addr \<Rightarrow> u32 \<Rightarrow> ('m, 'z) call" where
  "user_start inp E ptfunc ssize prio name arg =
     syscall inp E 17 (to_int ptfunc) (to_int ssize) prio (to_int name) (to_int arg)"

definition user_wait_clock :: "inputs \<Rightarrow> 'm env \<Rightarrow> u32 \<Rightarrow> ('m, 'z) call" where
  "user_wait_clock inp E clock = syscall inp E 20 (to_int clock) 0 0 0 0"

definition user_waitpid :: "inputs \<Rightarrow> 'm env \<Rightarrow> int \<Rightarrow> addr \<Rightarrow> ('m, 'z) call" where
  "user_waitpid inp E pid retvalp = syscall inp E 21 pid (to_int retvalp) 0 0 0"

definition user_wait :: "inputs \<Rightarrow> 'm env \<Rightarrow> int \<Rightarrow> ('m, 'z) call" where
  "user_wait inp E sem = syscall inp E 22 sem 0 0 0 0"

definition user_try_wait :: "inputs \<Rightarrow> 'm env \<Rightarrow> int \<Rightarrow> ('m, 'z) call" where
  "user_try_wait inp E sem = syscall inp E 23 sem 0 0 0 0"

definition user_play_music :: "inputs \<Rightarrow> 'm env \<Rightarrow> addr \<Rightarrow> ('m, 'z) call" where
  "user_play_music inp E music = syscall inp E 36 (to_int music) 0 0 0 0"

section \<open>cmd_lib.c, utils.c and console_putbytes.c\<close>

definition shell_echo :: "inputs \<Rightarrow> 'm env \<Rightarrow> ('m, 'z) call" where
  "shell_echo inp E = syscall inp E 24 0 0 0 0 0"

definition shell_exit :: "inputs \<Rightarrow> 'm env \<Rightarrow> ('m, 'z) call" where
  "shell_exit inp E = syscall inp E 25 0 0 0 0 0"

definition shell_ps :: "inputs \<Rightarrow> 'm env \<Rightarrow> ('m, 'z) call" where
  "shell_ps inp E = syscall inp E 26 0 0 0 0 0"

definition shell_sinfo :: "inputs \<Rightarrow> 'm env \<Rightarrow> ('m, 'z) call" where
  "shell_sinfo inp E = syscall inp E 27 0 0 0 0 0"

definition user_set_col_min :: "inputs \<Rightarrow> 'm env \<Rightarrow> int \<Rightarrow> ('m, 'z) call" where
  "user_set_col_min inp E limit = syscall inp E 28 limit 0 0 0 0"

definition user_update_buffer :: "inputs \<Rightarrow> 'm env \<Rightarrow> ('m, 'z) call" where
  "user_update_buffer inp E = syscall inp E 30 0 0 0 0 0"

definition shell_ls :: "inputs \<Rightarrow> 'm env \<Rightarrow> ('m, 'z) call" where
  "shell_ls inp E = syscall inp E 31 0 0 0 0 0"

definition shell_cd :: "inputs \<Rightarrow> 'm env \<Rightarrow> ('m, 'z) call" where
  "shell_cd inp E = syscall inp E 32 0 0 0 0 0"

definition user_print_prompt :: "inputs \<Rightarrow> 'm env \<Rightarrow> ('m, 'z) call" where
  "user_print_prompt inp E = syscall inp E 33 0 0 0 0 0"

definition user_shell_cons_read :: "inputs \<Rightarrow> 'm env \<Rightarrow> addr \<Rightarrow> u32 \<Rightarrow> ('m, 'z) call" where
  "user_shell_cons_read inp E str len = syscall inp E 34 (to_int str) (to_int len) 0 0 0"

definition user_clear :: "inputs \<Rightarrow> 'm env \<Rightarrow> ('m, 'z) call" where
  "user_clear inp E = syscall inp E 35 0 0 0 0 0"

definition user_sleep :: "inputs \<Rightarrow> 'm env \<Rightarrow> u32 \<Rightarrow> ('m, 'z) call" where
  "user_sleep inp E time = user_wait_clock inp E (time * of_nat CLOCKFREQ)"

definition user_console_putbytes :: "inputs \<Rightarrow> 'm env \<Rightarrow> addr \<Rightarrow> int \<Rightarrow> ('m, 'z) call" where
  "user_console_putbytes inp E s len = user_cons_write inp E s len"

end
