(* ===== verification/Pci.thy ===== *)
theory Pci
  imports Console
begin

unbundle bit_operations_syntax

text \<open>
  \<^verbatim>\<open>kernel/pci\<close>: access to the configuration space of the PCI bus, the names of known devices, the search
  for a network card and its setup. The 32-bit words sent to the ports are recorded, latest first; the
  answer of \<^verbatim>\<open>inl\<close> is a parameter of the operations, a function of the port and of the words sent.
\<close>

section \<open>Configuration space\<close>

record pci = console +
  network_bus :: u16
  network_device :: u16
  longs :: "(u16 \<times> u32) list"

type_synonym long_inputs = "u16 \<Rightarrow> (u16 \<times> u32) list \<Rightarrow> u32"

definition outl :: "u32 \<Rightarrow> u16 \<Rightarrow> 'z pci_scheme \<Rightarrow> 'z pci_scheme" where
  "outl v port s = s\<lparr>longs := (port, v) # longs s\<rparr>"

definition inl :: "long_inputs \<Rightarrow> u16 \<Rightarrow> 'z pci_scheme \<Rightarrow> u32" where
  "inl inp port s = inp port (longs s)"

definition pci_address :: "u16 \<Rightarrow> u16 \<Rightarrow> u16 \<Rightarrow> u16 \<Rightarrow> u32" where
  "pci_address bus device func reg =
     push_bit 16 (ucast bus) OR push_bit 11 (ucast device) OR push_bit 8 (ucast func) OR (ucast reg AND 0xfc) OR 0x80000000"

definition pci_read_word :: "long_inputs \<Rightarrow> u16 \<Rightarrow> u16 \<Rightarrow> u16 \<Rightarrow> u16 \<Rightarrow> 'z pci_scheme \<Rightarrow> u32 \<times> 'z pci_scheme" where
  "pci_read_word inp bus device func reg s =
     (let s1 = outl (pci_address bus device func reg) 0xCF8 s in (inl inp 0xCFC s1, s1))"

definition pci_write_word :: "u16 \<Rightarrow> u16 \<Rightarrow> u16 \<Rightarrow> u16 \<Rightarrow> u32 \<Rightarrow> 'z pci_scheme \<Rightarrow> 'z pci_scheme" where
  "pci_write_word bus device func reg data s =
     outl data 0xCFC (outl (pci_address bus device func reg) 0xCF8 s)"

section \<open>Names\<close>

definition vendor :: "u16 \<Rightarrow> string option" where
  "vendor vendor_id =
     (if vendor_id = 0x1013 then Some ''Cirrus Logic''
      else if vendor_id = 0x1022 then Some ''Advanced Micro Devices''
      else if vendor_id = 0x10de then Some ''NVIDIA Corporation''
      else if vendor_id = 0x10ec then Some ''Realtek Semiconductor Corp.''
      else if vendor_id = 0x8086 then Some ''Intel Corporation''
      else if vendor_id = 0x8087 then Some ''Intel''
      else if vendor_id = 0x80ee then Some ''Oracle Corporation''
      else None)"

definition model :: "u32 \<Rightarrow> string option" where
  "model ident =
     (let vendor_id = ucast (ident AND 0xffff) :: u16; device_id = ucast (drop_bit 16 ident) :: u16 in
      if vendor_id = 0x1013 then
        if device_id = 0x00B8 then Some ''64-bit VisualMedia Accelerator CL-GD5446'' else None
      else if vendor_id = 0x10ec then
        if device_id = 0x8139 then Some ''Realtek RTL8139 Family PCI Fast Ethernet NIC'' else None
      else if vendor_id = 0x1022 then
        if device_id = 0x2000 then Some ''PCnet LANCE PCI Ethernet Controller Am79C970/1/2/3/5/6'' else None
      else if vendor_id = 0x8086 then
        if device_id = 0x100e then Some ''Intel Pro 1000/MT 02000''
        else if device_id = 0x100f then Some ''Gigabit Ethernet Controller (copper) 82545EM''
        else if device_id = 0x101d then Some ''Gigabit Ethernet Controller (copper) 82546EB''
        else if device_id = 0x1237 then Some ''PCI & Memory 82440LX/EX''
        else if device_id = 0x7000 then Some ''PIIX3 PCI-to-ISA Bridge (Triton II) 82371SB''
        else if device_id = 0x7113 then Some ''PIIX4/4E/4M Power Management Controller 82371AB/EB/MB''
        else None
      else None)"

definition device_type :: "u16 \<Rightarrow> string option" where
  "device_type device_func =
     (if device_func = 0x0000 then Some ''''
      else if device_func = 0x0200 then Some ''Ethernet Controller ''
      else if device_func = 0x0230 then Some ''ATM Controller ''
      else if device_func = 0x0280 then Some ''Network Controller ''
      else None)"

section \<open>The search for a network card\<close>

definition compatible_ids :: "u16 list" where
  "compatible_ids = [0x100E, 0x100F, 0x1010, 0x1011, 0x1012, 0x1013, 0x1015, 0x1016, 0x1017, 0x1018, 0x1019, 0x101A,
     0x101D, 0x1026, 0x1027, 0x1028, 0x1076, 0x1077, 0x1078, 0x1079, 0x107A, 0x107B, 0x1107, 0x1112]"

definition test_network_card :: "long_inputs \<Rightarrow> u16 \<Rightarrow> u16 \<Rightarrow> 'z pci_scheme \<Rightarrow> 'z pci_scheme" where
  "test_network_card inp bus device s =
     (let (device_model, s1) = pci_read_word inp bus device 0 0x00 s;
          device_id = ucast (drop_bit 16 device_model) :: u16
      in if (ucast (device_model AND 0xffff) :: u16) = 0x8086 then
           if device_id \<in> set compatible_ids then s1\<lparr>network_bus := bus, network_device := device\<rparr> else s1
         else s1)"

datatype lspci = INIT | PRINT

text \<open>The line printed for a device: its type, maker and model by name where they are known.\<close>

definition print_device :: "nat \<Rightarrow> u16 \<Rightarrow> u32 \<Rightarrow> 'z pci_scheme \<Rightarrow> 'z pci_scheme result" where
  "print_device i device_func device_model s =
     (let vid = VWord (ucast (ucast (device_model AND 0xffff) :: u16));
          did = VWord (ucast (ucast (drop_bit 16 device_model) :: u16));
          n = VWord (of_nat i)
      in case device_type device_func of
           None \<Rightarrow>
             (case vendor (ucast (device_model AND 0xffff)) of
                None \<Rightarrow> kprintf (''device %d : %d %d %d'' @ [CHR 10]) [n, VWord (ucast device_func), vid, did] s
              | Some v \<Rightarrow>
                  (case model device_model of
                     None \<Rightarrow> kprintf (''device %d : %d %s %d'' @ [CHR 10]) [n, VWord (ucast device_func), VStr (Some v), did] s
                   | Some m \<Rightarrow> kprintf (''device %d : %d %s %s'' @ [CHR 10])
                       [n, VWord (ucast device_func), VStr (Some v), VStr (Some m)] s))
         | Some d \<Rightarrow>
             (case vendor (ucast (device_model AND 0xffff)) of
                None \<Rightarrow> kprintf (''device %d : %s%d %d'' @ [CHR 10]) [n, VStr (Some d), vid, did] s
              | Some v \<Rightarrow>
                  (case model device_model of
                     None \<Rightarrow> kprintf (''device %d : %s%s %d'' @ [CHR 10]) [n, VStr (Some d), VStr (Some v), did] s
                   | Some m \<Rightarrow> kprintf (''device %d : %s%s %s'' @ [CHR 10])
                       [n, VStr (Some d), VStr (Some v), VStr (Some m)] s)))"

definition list_pci_device :: "long_inputs \<Rightarrow> lspci \<Rightarrow> nat \<times> nat \<Rightarrow> nat \<times> 'z pci_scheme \<Rightarrow> (nat \<times> 'z pci_scheme) result" where
  "list_pci_device inp behaviour = (\<lambda>(bus, device) (i, s).
     (let (device_model, s1) = pci_read_word inp (of_nat bus) (of_nat device) 0 0x00 s in
      if device_model AND 0xffff \<noteq> 0xffff then
        (let (w, s2) = pci_read_word inp (of_nat bus) (of_nat device) 0 0x04 s1;
             device_func = ucast (drop_bit 16 w) :: u16
         in case behaviour of
              PRINT \<Rightarrow> bnd (print_device (i + 1) device_func device_model s2) (\<lambda>s3. Inr (i + 1, s3))
            | INIT \<Rightarrow> Inr (i + 1, test_network_card inp (of_nat bus) (of_nat device) s2))
      else Inr (i, s1)))"

definition list_pci_devices :: "long_inputs \<Rightarrow> lspci \<Rightarrow> 'z pci_scheme \<Rightarrow> 'z pci_scheme result" where
  "list_pci_devices inp behaviour s =
     bnd (mfold (list_pci_device inp behaviour) (List.product [0..<256] [0..<32]) (0, s)) (\<lambda>(i, s1). Inr s1)"

section \<open>Setup of the network card\<close>

abbreviation IO_ADDRESS :: u32 where "IO_ADDRESS \<equiv> 0x300"
abbreviation NET_IRQ :: u32 where "NET_IRQ \<equiv> 5"
abbreviation NET_PIN :: u32 where "NET_PIN \<equiv> 1"

definition net_init :: "long_inputs \<Rightarrow> 'z pci_scheme \<Rightarrow> 'z pci_scheme" where
  "net_init inp s =
     (let (l0, s1) = pci_read_word inp (network_bus s) (network_device s) 0 0x3c s;
          (line_content, s2) = pci_read_word inp (network_bus s1) (network_device s1) 0 0x04 s1;
          s3 = pci_write_word (network_bus s2) (network_device s2) 0 0x04 (line_content OR 12) s2;
          s4 = pci_write_word (network_bus s3) (network_device s3) 0 0x18 (IO_ADDRESS OR 1) s3
      in pci_write_word (network_bus s4) (network_device s4) 0 0x3c
           ((line_content AND 0xffff0000) OR push_bit 8 NET_PIN OR NET_IRQ) s4)"

section \<open>The bus as the host bridge sees it\<close>

text \<open>
  The host bridge answers a read of the data port from the configuration register that the word last sent to
  the address port selects: \<open>conf bus device function register\<close>. A word without the top bit selects nothing.
\<close>

type_synonym configuration = "u32 \<Rightarrow> u32 \<Rightarrow> u32 \<Rightarrow> u32 \<Rightarrow> u32"

definition host_bridge :: "configuration \<Rightarrow> u32 \<Rightarrow> u32" where
  "host_bridge conf a =
     (if bit a 31 then conf (take_bit 8 (drop_bit 16 a)) (take_bit 5 (drop_bit 11 a)) (take_bit 3 (drop_bit 8 a)) (take_bit 8 a)
      else 0xffffffff)"

definition bridged :: "configuration \<Rightarrow> long_inputs \<Rightarrow> bool" where
  "bridged conf inp \<longleftrightarrow> (\<forall>a ls. inp 0xCFC ((0xCF8, a) # ls) = host_bridge conf a)"

lemma take_bit_self: "bit w n \<Longrightarrow> n < k" if "take_bit k w = w"
  using that by (metis bit_take_bit_iff)

lemma pci_address_masks: "(0xfc :: u32) = push_bit 2 (mask 6)" "(0x80000000 :: u32) = push_bit 31 1"
  by (simp_all add: mask_eq_exp_minus_1)

lemma bit_pci_address:
  assumes "take_bit 8 bus = bus" "take_bit 5 device = device" "take_bit 3 func = func"
  shows "bit (pci_address bus device func reg) n
    \<longleftrightarrow> (if n < 8 then 2 \<le> n \<and> bit reg n else if n < 11 then bit func (n - 8) else if n < 16 then bit device (n - 11)
       else if n < 24 then bit bus (n - 16) else n = 31)"
proof -
  have bus: "bit (push_bit 16 (ucast bus :: u32)) n \<longleftrightarrow> 16 \<le> n \<and> n < 24 \<and> bit bus (n - 16)"
    using take_bit_self [OF assms(1), of "n - 16"] by (auto simp: bit_simps)
  have device: "bit (push_bit 11 (ucast device :: u32)) n \<longleftrightarrow> 11 \<le> n \<and> n < 16 \<and> bit device (n - 11)"
    using take_bit_self [OF assms(2), of "n - 11"] by (auto simp: bit_simps)
  have func: "bit (push_bit 8 (ucast func :: u32)) n \<longleftrightarrow> 8 \<le> n \<and> n < 11 \<and> bit func (n - 8)"
    using take_bit_self [OF assms(3), of "n - 8"] by (auto simp: bit_simps)
  have reg: "bit (ucast reg AND 0xfc :: u32) n \<longleftrightarrow> 2 \<le> n \<and> n < 8 \<and> bit reg n"
    unfolding pci_address_masks by (auto simp: bit_simps)
  have top: "bit (0x80000000 :: u32) n \<longleftrightarrow> n = 31"
    unfolding pci_address_masks bit_push_bit_iff bit_1_iff by auto
  show ?thesis unfolding pci_address_def bit_or_iff bus device func reg top by auto
qed

lemma host_bridge_address:
  assumes "take_bit 8 bus = bus" "take_bit 5 device = device" "take_bit 3 func = func"
  shows "host_bridge conf (pci_address bus device func reg)
    = conf (ucast bus) (ucast device) (ucast func) (ucast reg AND 0xfc)"
proof -
  note bits = bit_pci_address [OF assms] bit_take_bit_iff bit_drop_bit_eq bit_ucast_iff
  note bnds = take_bit_self [OF assms(1)] take_bit_self [OF assms(2)] take_bit_self [OF assms(3)]
  let ?a = "pci_address bus device func reg"
  have "bit ?a 31" by (simp add: bits)
  moreover have "take_bit 8 (drop_bit 16 ?a) = ucast bus"
    by (rule bit_word_eqI) (auto simp: bits dest: bnds(1))
  moreover have "take_bit 5 (drop_bit 11 ?a) = ucast device"
    by (rule bit_word_eqI) (auto simp: bits dest: bnds(2))
  moreover have "take_bit 3 (drop_bit 8 ?a) = ucast func"
    by (rule bit_word_eqI) (auto simp: bits dest: bnds(3))
  moreover have "take_bit 8 ?a = ucast reg AND 0xfc"
    unfolding pci_address_masks by (rule bit_word_eqI) (auto simp: bits bit_and_iff bit_push_bit_iff bit_mask_iff)
  ultimately show ?thesis by (simp add: host_bridge_def)
qed

section \<open>What the search finds\<close>

definition slots :: "(nat \<times> nat) list" where
  "slots = List.product [0..<256] [0..<32]"

text \<open>The register with maker and model of a slot, and whether it names a card the driver knows.\<close>

definition slot_id :: "configuration \<Rightarrow> nat \<times> nat \<Rightarrow> u32" where
  "slot_id conf = (\<lambda>(bus, device). conf (of_nat bus) (of_nat device) 0 0)"

definition card_at :: "configuration \<Rightarrow> nat \<times> nat \<Rightarrow> bool" where
  "card_at conf p \<longleftrightarrow> take_bit 16 (slot_id conf p) = 0x8086
     \<and> (ucast (drop_bit 16 (slot_id conf p)) :: u16) \<in> set compatible_ids"

definition chosen :: "configuration \<Rightarrow> (nat \<times> nat) list \<Rightarrow> u16 \<times> u16 \<Rightarrow> u16 \<times> u16" where
  "chosen conf ps none = (case rev (filter (card_at conf) ps) of [] \<Rightarrow> none | (bus, device) # _ \<Rightarrow> (of_nat bus, of_nat device))"

lemma chosen_Cons:
  "chosen conf (p # ps) none = chosen conf ps (if card_at conf p then (of_nat (fst p), of_nat (snd p)) else none)"
  by (cases p) (auto simp: chosen_def split: list.splits)

lemma of_nat_take_bit: "take_bit k (of_nat n :: u16) = of_nat n" if "n < 2 ^ k" "k \<le> 16"
  using that by (metis of_nat_take_bit take_bit_nat_eq_self)

lemma ucast_of_nat_u16: "ucast (of_nat n :: u16) = (of_nat n :: u32)" if "n < 256"
  using that by (simp add: unsigned_of_nat take_bit_nat_eq_self)

lemma pci_read_slot:
  assumes "bridged conf inp" "bus < 256" "device < 32"
  shows "pci_read_word inp (of_nat bus) (of_nat device) 0 0 s
    = (slot_id conf (bus, device), outl (pci_address (of_nat bus) (of_nat device) 0 0) 0xCF8 s)"
proof -
  have "host_bridge conf (pci_address (of_nat bus) (of_nat device) 0 0) = slot_id conf (bus, device)"
    using assms(2,3) host_bridge_address [of "of_nat bus" "of_nat device" 0 conf 0]
    by (simp add: slot_id_def of_nat_take_bit ucast_of_nat_u16)
  then show ?thesis using assms(1) by (simp add: pci_read_word_def inl_def outl_def bridged_def Let_def)
qed

lemma and_low16: "w AND 0xffff = take_bit 16 (w :: u32)"
  by (simp add: take_bit_eq_mask mask_eq_exp_minus_1)

lemma ucast_low16: "(ucast (take_bit 16 w :: u32) :: u16) = 0x8086 \<longleftrightarrow> take_bit 16 w = 0x8086"
proof
  assume "(ucast (take_bit 16 w) :: u16) = 0x8086"
  then have "(ucast (ucast (take_bit 16 w) :: u16) :: u32) = 0x8086" by simp
  moreover have "(ucast (ucast (take_bit 16 w) :: u16) :: u32) = take_bit 16 w"
    by (rule bit_word_eqI) (auto simp: bit_simps)
  ultimately show "take_bit 16 w = 0x8086" by simp
qed simp

text \<open>
  The word that selects register \<open>reg\<close> of function 0 of a slot, as the bus specification lays it out: the top bit,
  the bus from bit 16, the device from bit 11. A slot is asked for its maker; if there is one, for its class too, and,
  by \<^verbatim>\<open>test_network_card\<close>, for its maker again.
\<close>

definition config_word :: "nat \<times> nat \<Rightarrow> u32 \<Rightarrow> u32" where
  "config_word = (\<lambda>(bus, device) reg. 0x80000000 + 0x10000 * of_nat bus + 0x800 * of_nat device + reg)"

definition slot_words :: "configuration \<Rightarrow> nat \<times> nat \<Rightarrow> u32 list" where
  "slot_words conf p = (if take_bit 16 (slot_id conf p) = 0xffff then [config_word p 0]
     else [config_word p 0, config_word p 4, config_word p 0])"

definition search_words :: "configuration \<Rightarrow> (nat \<times> nat) list \<Rightarrow> (u16 \<times> u32) list" where
  "search_words conf ps = rev (map (Pair 0xCF8) (concat (map (slot_words conf) ps)))"

lemma pci_address_word:
  assumes "bus < 256" "device < 32" "reg = 0 \<or> reg = 4"
  shows "pci_address (of_nat bus) (of_nat device) 0 reg = config_word (bus, device) (ucast reg)"
proof -
  define b d :: u32 where "b = of_nat bus" and "d = of_nat device"
  have "take_bit 8 b = b" "take_bit 5 d = d"
    unfolding b_def d_def using assms(1,2) by (simp_all add: take_bit_of_nat take_bit_nat_eq_self)
  note bnds = take_bit_self [OF this(1)] take_bit_self [OF this(2)]
  have bits: "bit (push_bit 16 b) n \<longleftrightarrow> 16 \<le> n \<and> n < 24 \<and> bit b (n - 16)" "bit (push_bit 11 d) n \<longleftrightarrow> 11 \<le> n \<and> n < 16 \<and> bit d (n - 11)"
    "bit (push_bit 31 1 :: u32) n \<longleftrightarrow> n = 31" "bit (4 :: u32) n \<longleftrightarrow> n = 2" for n
    using bnds(1) [of "n - 16"] bnds(2) [of "n - 11"] bit_exp_iff [where 'a = u32, of 2 n] bit_exp_iff [where 'a = u32, of 31 n]
    by (auto simp: bit_push_bit_iff)
  let ?r = "ucast reg :: u32"
  have r: "?r AND 0xfc = ?r" "?r = 0 \<or> ?r = 4" using assms(3) by auto
  have "pci_address (of_nat bus) (of_nat device) 0 reg = ((push_bit 31 1 OR push_bit 16 b) OR push_bit 11 d) OR ?r"
    using assms(1,2) r(1) pci_address_masks(2)
    by (simp add: pci_address_def ucast_of_nat_u16 b_def d_def ac_simps)
  also have "\<dots> = ((push_bit 31 1 OR push_bit 16 b) OR push_bit 11 d) + ?r"
  proof (rule disjunctive_add_eq_or [symmetric], rule bit_word_eqI)
    fix n
    have "bit ?r n \<Longrightarrow> n = 2" using r(2) bits(4) [of n] by (elim disjE) simp_all
    then show "bit (((push_bit 31 1 OR push_bit 16 b) OR push_bit 11 d) AND ?r) n = bit 0 n"
      unfolding bit_and_iff bit_or_iff bits(1-3) by auto
  qed
  also have "(push_bit 31 1 OR push_bit 16 b) OR push_bit 11 d = (push_bit 31 1 OR push_bit 16 b) + push_bit 11 d"
    by (rule disjunctive_add_eq_or [symmetric]) (rule bit_word_eqI, unfold bit_and_iff bit_or_iff bits(1-3), auto)
  also have "push_bit 31 1 OR push_bit 16 b = push_bit 31 1 + push_bit 16 b"
    by (rule disjunctive_add_eq_or [symmetric]) (rule bit_word_eqI, unfold bit_and_iff bit_or_iff bits(1-3), auto)
  finally show ?thesis by (simp add: config_word_def b_def d_def push_bit_eq_mult algebra_simps)
qed

lemma list_pci_device_init:
  assumes "bridged conf inp" "fst p < 256" "snd p < 32"
  shows "\<exists>i'. list_pci_device inp INIT p (i, s) =
    (let c = chosen conf [p] (network_bus s, network_device s) in
     Inr (i', s\<lparr>network_bus := fst c, network_device := snd c, longs := search_words conf [p] @ longs s\<rparr>))"
proof -
  obtain bus device where p: "p = (bus, device)" by fastforce
  note read = pci_read_slot [OF assms(1), of bus device]
  have s: "s\<lparr>longs := ls\<rparr> = s\<lparr>network_bus := network_bus s, network_device := network_device s, longs := ls\<rparr>" for ls by simp
  have swap: "s\<lparr>longs := ls, network_bus := b, network_device := d\<rparr> = s\<lparr>network_bus := b, network_device := d, longs := ls\<rparr>" for ls b d
    by simp
  let ?a = "\<lambda>r. pci_address (of_nat bus) (of_nat device) 0 r"
  have "list_pci_device inp INIT p (i, s) = (if take_bit 16 (slot_id conf p) = 0xffff then Inr (i, s\<lparr>longs := (0xCF8, ?a 0) # longs s\<rparr>)
    else let s1 = s\<lparr>longs := (0xCF8, ?a 0) # (0xCF8, ?a 4) # (0xCF8, ?a 0) # longs s\<rparr> in
         Inr (i + 1, if card_at conf p then s1\<lparr>network_bus := of_nat bus, network_device := of_nat device\<rparr> else s1))"
    using assms(2,3) unfolding p
    by (simp add: list_pci_device_def read test_network_card_def and_low16 ucast_low16 card_at_def outl_def Let_def
        pci_read_word_def [of inp _ _ 0 4])
  moreover have "?a 0 = config_word p 0" "?a 4 = config_word p 4"
    using assms(2,3) by (simp_all add: p pci_address_word)
  ultimately show ?thesis
    using s by (auto simp: swap chosen_Cons chosen_def Let_def p card_at_def search_words_def slot_words_def)
qed

lemma mfold_pci_init:
  assumes "bridged conf inp" "\<forall>p\<in>set ps. fst p < 256 \<and> snd p < 32"
  shows "\<exists>i'. mfold (list_pci_device inp INIT) ps (i, s) =
    (let c = chosen conf ps (network_bus s, network_device s) in
     Inr (i', s\<lparr>network_bus := fst c, network_device := snd c, longs := search_words conf ps @ longs s\<rparr>))"
  using assms(2)
proof (induction ps arbitrary: i s)
  case Nil
  then show ?case by (intro exI [of _ i]) (simp add: chosen_def search_words_def)
next
  case (Cons p ps)
  define c where "c = chosen conf [p] (network_bus s, network_device s)"
  obtain i1 where 1: "list_pci_device inp INIT p (i, s)
      = Inr (i1, s\<lparr>network_bus := fst c, network_device := snd c, longs := search_words conf [p] @ longs s\<rparr>)"
    using list_pci_device_init [OF assms(1), of p i s] Cons.prems by (auto simp: c_def Let_def)
  have "chosen conf (p # ps) (network_bus s, network_device s) = chosen conf ps c"
    unfolding c_def chosen_Cons [of _ p] by (simp add: chosen_def)
  moreover have "search_words conf (p # ps) = search_words conf ps @ search_words conf [p]"
    by (simp add: search_words_def)
  ultimately show ?case
    using 1 Cons.IH [of i1 "s\<lparr>network_bus := fst c, network_device := snd c, longs := search_words conf [p] @ longs s\<rparr>"] Cons.prems
    by (auto simp: Let_def)
qed

text \<open>
  C25: the search for a network card never stops, changes nothing but the slot of the card and what was sent to the
  ports, and selects the last slot, in the order of the buses and of the devices on a bus, that holds a card the
  driver knows; if there is none, the variables keep the values they had. What is sent is known word by word: all goes
  to the address port, each of the 8192 slots is asked for its maker by the word of the bus specification, a slot that
  answers is asked for its class and for its maker again, and nothing else is sent. Here \<open>conf\<close> is the configuration
  space behind the host bridge, which decodes the addresses that \<^verbatim>\<open>pci_read_word\<close> builds.
\<close>

theorem network_card_found:
  fixes s :: "'z pci_scheme"
  assumes "bridged conf inp"
  shows "list_pci_devices inp INIT s =
    (let c = (case rev (filter (card_at conf) slots) of
                [] \<Rightarrow> (network_bus s, network_device s)
              | (bus, device) # _ \<Rightarrow> (of_nat bus, of_nat device))
     in Inr (s\<lparr>network_bus := fst c, network_device := snd c,
          longs := rev (map (Pair 0xCF8) (concat (map (slot_words conf) slots))) @ longs s\<rparr>))"
proof -
  have "\<forall>p\<in>set slots. fst p < 256 \<and> snd p < 32" by (auto simp: slots_def)
  from mfold_pci_init [OF assms this, of 0 s] show ?thesis
    by (auto simp: list_pci_devices_def slots_def Let_def chosen_def search_words_def)
qed

text \<open>A bus with one Intel card in slot 3 of bus 0.\<close>

definition one_card :: configuration where
  "one_card bus device func reg =
     (if bus = 0 \<and> device = 3 \<and> func = 0 \<and> reg = 0 then 0x100e8086 else 0xffffffff)"

definition one_card_answers :: long_inputs where
  "one_card_answers port ls = (case ls of [] \<Rightarrow> 0 | (p, a) # _ \<Rightarrow> host_bridge one_card a)"

definition pci_after_init :: pci where
  "pci_after_init = console.extend console_after_init (pci.fields 0xffff 0xffff [])"

lemma filter_single: "distinct xs \<Longrightarrow> x \<in> set xs \<Longrightarrow> \<forall>y\<in>set xs. P y \<longleftrightarrow> y = x \<Longrightarrow> filter P xs = [x]"
proof (induction xs)
  case (Cons y ys)
  then show ?case by (cases "y = x") (auto simp: filter_empty_conv)
qed simp

lemma of_nat_u32_eq: "(of_nat n :: u32) = of_nat k \<longleftrightarrow> n = k" if "n < 256" "k < 256"
  using that by (simp add: word_of_nat_eq_iff take_bit_nat_eq_self)

lemma one_card_slots: "filter (card_at one_card) slots = [(0, 3)]"
proof (rule filter_single)
  show "distinct slots" by (simp add: slots_def distinct_product)
  show "(0, 3) \<in> set slots" by (simp add: slots_def)
  show "\<forall>p\<in>set slots. card_at one_card p \<longleftrightarrow> p = (0, 3)"
    using of_nat_u32_eq [of _ 0] of_nat_u32_eq [of _ 3]
    by (auto simp: slots_def card_at_def slot_id_def one_card_def compatible_ids_def split: if_splits)
qed

theorem network_card_found_witness:
  "bridged one_card one_card_answers
   \<and> list_pci_devices one_card_answers INIT pci_after_init
         = Inr (pci_after_init\<lparr>network_bus := 0, network_device := 3,
             longs := rev (map (Pair 0xCF8) (concat (map (slot_words one_card) slots)))\<rparr>)
   \<and> slot_words one_card (0, 3) = [0x80001800, 0x80001804, 0x80001800]"
proof -
  have "bridged one_card one_card_answers" by (simp add: bridged_def one_card_answers_def)
  moreover have "slot_words one_card (0, 3) = [0x80001800, 0x80001804, 0x80001800]"
    by (simp add: slot_words_def slot_id_def one_card_def config_word_def)
  moreover have "longs pci_after_init = []" by (simp add: pci_after_init_def pci.defs console.defs console_after_init_def)
  ultimately show ?thesis
    using network_card_found [of one_card one_card_answers pci_after_init] by (simp add: one_card_slots)
qed

end
