(* ===== verification/Descriptors.thy ===== *)
theory Descriptors
  imports Console
begin

unbundle bit_operations_syntax

text \<open>
  \<^verbatim>\<open>kernel/processor_structs.c\<close>: the descriptor tables of the processor, the task state segments and the
  programming of the interrupt controllers. A table is a function from its index; the addresses of the
  tables, of the stacks, of the page directory and of the assembly entry points are given by the linker and
  come as a record. Loading a segment register marks the descriptor as accessed, and loading
  the task register marks the task segment as busy: these are the effects of the privileged instructions on the
  tables in memory; their other effects are inside the processor.
\<close>

section \<open>Descriptors\<close>

type_synonym u64 = "64 word"

abbreviation SZ_32 :: u32 where "SZ_32 \<equiv> 0x4"
abbreviation SZ_G :: u32 where "SZ_G \<equiv> 0x8"
abbreviation ACC_TASK_GATE :: u32 where "ACC_TASK_GATE \<equiv> 0x05"
abbreviation ACC_TSS :: u32 where "ACC_TSS \<equiv> 0x09"
abbreviation ACC_DATA_W :: u32 where "ACC_DATA_W \<equiv> 0x12"
abbreviation ACC_CODE_R :: u32 where "ACC_CODE_R \<equiv> 0x1a"
abbreviation ACC_PL_K :: u32 where "ACC_PL_K \<equiv> 0x00"
abbreviation ACC_PL_U :: u32 where "ACC_PL_U \<equiv> 0x60"
abbreviation ACC_P :: u32 where "ACC_P \<equiv> 0x80"
abbreviation BASE_TSS :: nat where "BASE_TSS \<equiv> 0x08"
abbreviation SEL_KERNEL_CS :: nat where "SEL_KERNEL_CS \<equiv> 0x10"
abbreviation SEL_KERNEL_DS :: nat where "SEL_KERNEL_DS \<equiv> 0x18"
abbreviation SEL_USER_CS :: nat where "SEL_USER_CS \<equiv> 0x43"
abbreviation SEL_USER_DS :: nat where "SEL_USER_DS \<equiv> 0x4b"
abbreviation TRAP_TSS_BASE :: nat where "TRAP_TSS_BASE \<equiv> 0x50"
abbreviation HANDLER_ENTRIES :: nat where "HANDLER_ENTRIES \<equiv> 32"
abbreviation ACC_A :: u32 where "ACC_A \<equiv> 0x01"
abbreviation ACC_TSS_BUSY :: u32 where "ACC_TSS_BUSY \<equiv> 0x02"
abbreviation TSS_SIZE :: u32 where "TSS_SIZE \<equiv> 104"

definition fill_descriptor :: "u32 \<Rightarrow> u32 \<Rightarrow> u32 \<Rightarrow> u32 \<Rightarrow> u64" where
  "fill_descriptor base limit0 access sizebits0 =
     (let limit = (if limit0 > 0xfffff then drop_bit 12 limit0 else limit0);
          sizebits = (if limit0 > 0xfffff then sizebits0 OR SZ_G else sizebits0);
          p0 = (limit AND 0xffff) + push_bit 16 (base AND 0xffff);
          p1 = (drop_bit 16 base AND 0xff) OR push_bit 8 ((access OR ACC_P) AND 0xff) OR (limit AND 0xf0000)
                 OR push_bit 20 (sizebits AND 0xf) OR (base AND 0xff000000)
      in push_bit 32 (ucast p1) OR ucast p0)"

definition fill_gate :: "u32 \<Rightarrow> u16 \<Rightarrow> u8 \<Rightarrow> u8 \<Rightarrow> u64" where
  "fill_gate offset selector access word_count =
     (let p0 = (offset AND 0xffff) OR push_bit 16 (ucast selector);
          p1 = (ucast word_count AND 0xf) OR push_bit 8 (ucast access OR ACC_P) OR (offset AND 0xffff0000)
      in push_bit 32 (ucast p1) OR ucast p0)"

section \<open>The tables\<close>

record x86_tss =
  t_back_link :: u32
  t_esp0 :: u32
  t_ss0 :: u32
  t_esp1 :: u32
  t_ss1 :: u32
  t_esp2 :: u32
  t_ss2 :: u32
  t_cr3 :: u32
  t_eip :: u32
  t_eflags :: u32
  t_eax :: u32
  t_ecx :: u32
  t_edx :: u32
  t_ebx :: u32
  t_esp :: u32
  t_ebp :: u32
  t_esi :: u32
  t_edi :: u32
  t_es :: u32
  t_cs :: u32
  t_ss :: u32
  t_ds :: u32
  t_fs :: u32
  t_gs :: u32
  t_ldt :: u32
  t_trace_trap :: u16
  t_io_bit_map_offset :: u16

record linked =
  tss_adr :: u32
  trap_tss_adr :: u32
  trap_stack_end :: u32
  first_stack_end :: u32
  pgdir :: u32
  exception_handler_tasks :: "nat \<Rightarrow> u32"

record cpu = console +
  gdt :: "nat \<Rightarrow> u64"
  idt :: "nat \<Rightarrow> u64"
  tss :: x86_tss
  trap_tss :: "nat \<Rightarrow> x86_tss"

definition zero_tss :: x86_tss where
  "zero_tss = \<lparr>t_back_link = 0, t_esp0 = 0, t_ss0 = 0, t_esp1 = 0, t_ss1 = 0, t_esp2 = 0, t_ss2 = 0, t_cr3 = 0, t_eip = 0,
     t_eflags = 0, t_eax = 0, t_ecx = 0, t_edx = 0, t_ebx = 0, t_esp = 0, t_ebp = 0, t_esi = 0, t_edi = 0, t_es = 0,
     t_cs = 0, t_ss = 0, t_ds = 0, t_fs = 0, t_gs = 0, t_ldt = 0, t_trace_trap = 0, t_io_bit_map_offset = 0\<rparr>"

text \<open>
  What the processor writes in the table: \<^verbatim>\<open>ljmp\<close> and \<^verbatim>\<open>movw\<close> to a segment register set the accessed bit of the
  descriptor (a null selector is loaded without a look at the table), \<^verbatim>\<open>ltr\<close> sets the busy bit.
\<close>

definition load_segment :: "nat \<Rightarrow> (nat \<Rightarrow> u64) \<Rightarrow> nat \<Rightarrow> u64" where
  "load_segment sel g = (if sel div 8 = 0 then g else g(sel div 8 := g (sel div 8) OR push_bit 40 (ucast ACC_A)))"

definition load_task :: "nat \<Rightarrow> (nat \<Rightarrow> u64) \<Rightarrow> nat \<Rightarrow> u64" where
  "load_task sel g = g(sel div 8 := g (sel div 8) OR push_bit 40 (ucast ACC_TSS_BUSY))"

definition setup_gdt :: "linked \<Rightarrow> 'z cpu_scheme \<Rightarrow> 'z cpu_scheme" where
  "setup_gdt L s =
     (let g0 = (\<lambda>_. 0)
            (BASE_TSS div 8 := fill_descriptor (tss_adr L) (TSS_SIZE - 1) (ACC_PL_K OR ACC_TSS OR ACC_P) 0,
             SEL_KERNEL_CS div 8 := fill_descriptor 0 0xffffffff (ACC_PL_K OR ACC_CODE_R) SZ_32,
             SEL_KERNEL_DS div 8 := fill_descriptor 0 0xffffffff (ACC_PL_K OR ACC_DATA_W) SZ_32,
             SEL_USER_CS div 8 := fill_descriptor 0 0xffffffff (ACC_PL_U OR ACC_CODE_R) SZ_32,
             SEL_USER_DS div 8 := fill_descriptor 0 0xffffffff (ACC_PL_U OR ACC_DATA_W) SZ_32);
          g1 = fold (\<lambda>i g. g(i + TRAP_TSS_BASE div 8 :=
            fill_descriptor (trap_tss_adr L + TSS_SIZE * of_nat i) (TSS_SIZE - 1) (ACC_PL_K OR ACC_TSS OR ACC_P) 0))
          [0..<HANDLER_ENTRIES] g0
      in s\<lparr>gdt := fold load_segment [SEL_KERNEL_CS, SEL_KERNEL_DS, SEL_KERNEL_DS, 0, 0, SEL_KERNEL_DS] g1\<rparr>)"

definition setup_trap :: "linked \<Rightarrow> nat \<Rightarrow> 'z cpu_scheme \<Rightarrow> 'z cpu_scheme" where
  "setup_trap L i s =
     (let ts = (trap_tss s i)\<lparr>t_ss0 := of_nat SEL_KERNEL_DS, t_esp0 := trap_stack_end L, t_ss := of_nat SEL_KERNEL_DS,
            t_esp := trap_stack_end L, t_io_bit_map_offset := ucast TSS_SIZE, t_cs := of_nat SEL_KERNEL_CS,
            t_eip := exception_handler_tasks L i, t_ds := of_nat SEL_KERNEL_DS, t_es := of_nat SEL_KERNEL_DS,
            t_fs := 0, t_gs := 0, t_eflags := 2, t_trace_trap := 0, t_cr3 := pgdir L\<rparr>;
          access = ACC_TASK_GATE + (if i = 3 then 0x60 else 0)
      in s\<lparr>trap_tss := (trap_tss s)(i := ts),
           idt := (idt s)(i := fill_gate 0 (of_nat (TRAP_TSS_BASE + 8 * i)) (ucast access) 0)\<rparr>)"

definition setup_idt :: "linked \<Rightarrow> 'z cpu_scheme \<Rightarrow> 'z cpu_scheme" where
  "setup_idt L s = fold (setup_trap L) [0..<HANDLER_ENTRIES] (s\<lparr>idt := (\<lambda>_. 0)\<rparr>)"

definition setup_tss :: "linked \<Rightarrow> 'z cpu_scheme \<Rightarrow> 'z cpu_scheme" where
  "setup_tss L s = s\<lparr>tss := zero_tss\<lparr>t_ss0 := of_nat SEL_KERNEL_DS, t_esp0 := first_stack_end L,
     t_io_bit_map_offset := ucast TSS_SIZE, t_cr3 := pgdir L\<rparr>, gdt := load_task BASE_TSS (gdt s)\<rparr>"

definition setup_pic :: "'z console_scheme \<Rightarrow> 'z console_scheme" where
  "setup_pic s = fold (\<lambda>(v, p). outb v p)
     [(0x11, 0x20), (0x20, 0x21), (0x4, 0x21), (0x1, 0x21),
      (0x11, 0xa0), (0x28, 0xa1), (0x2, 0xa1), (0x1, 0xa1),
      (0x20, 0x20), (0x20, 0xa0), (0xff, 0x21), (0xff, 0xa1)] s"

text \<open>\<^verbatim>\<open>cpu_init\<close>, without the page table, which \<^verbatim>\<open>setup_pgtab\<close> sets up in assembly.\<close>

definition cpu_init :: "linked \<Rightarrow> 'z cpu_scheme \<Rightarrow> 'z cpu_scheme" where
  "cpu_init L s = setup_pic (setup_tss L (setup_idt L (setup_gdt L s)))"

section \<open>The bits of a descriptor\<close>

lemma masks32:
  "(0xffff :: u32) = mask 16" "(0xff :: u32) = mask 8" "(0xf :: u32) = mask 4" "(0xf0000 :: u32) = push_bit 16 (mask 4)"
  "(0xff000000 :: u32) = push_bit 24 (mask 8)" "(0xffff0000 :: u32) = push_bit 16 (mask 16)"
  by (simp_all add: mask_eq_exp_minus_1 push_bit_eq_mult)

lemma low_half: "(l AND mask 16) + push_bit 16 (b AND mask 16) = (l AND mask 16) OR push_bit 16 (b AND mask 16)" for l b :: u32
  by (rule disjunctive_add_eq_or) (auto simp: bit_eq_iff bit_simps)

text \<open>A descriptor is two double words.\<close>

lemma bit_two_words: "bit (push_bit 32 (ucast p1) OR ucast p0 :: u64) n = (if n < 32 then bit p0 n else n < 64 \<and> bit p1 (n - 32))"
  for p0 p1 :: u32
  using bit_imp_le_length [of p0 n] bit_imp_le_length [of p1 "n - 32"] by (auto simp: bit_simps)

lemma bit_p0: "n < 32 \<Longrightarrow> bit ((l AND mask 16) OR push_bit 16 (b AND mask 16)) n = (if n < 16 then bit l n else bit b (n - 16))" for l b :: u32
  by (auto simp: bit_simps)

lemma bit_p1:
  fixes b a l s :: u32
  assumes "n < 32"
  shows "bit ((drop_bit 16 b AND mask 8) OR push_bit 8 (a AND mask 8) OR (l AND push_bit 16 (mask 4)) OR push_bit 20 (s AND mask 4)
      OR (b AND push_bit 24 (mask 8))) n
    = (if n < 8 then bit b (n + 16) else if n < 16 then bit a (n - 8) else if n < 20 then bit l n else if n < 24 then bit s (n - 20) else bit b n)"
proof -
  consider "n < 8" | "8 \<le> n" "n < 16" | "16 \<le> n" "n < 20" | "20 \<le> n" "n < 24" | "24 \<le> n" by linarith
  then show ?thesis
    using assms by cases (auto simp: bit_or_iff bit_and_iff bit_push_bit_iff bit_mask_iff bit_drop_bit_eq add.commute)
qed

lemma fill_descriptor_bit:
  assumes "limit = (if limit0 > 0xfffff then drop_bit 12 limit0 else limit0)" and "sizebits = (if limit0 > 0xfffff then sizebits0 OR SZ_G else sizebits0)"
  shows "bit (fill_descriptor base limit0 access sizebits0) n = (if n < 16 then bit limit n else if n < 40 then bit base (n - 16)
    else if n < 48 then bit (access OR ACC_P) (n - 40) else if n < 52 then bit limit (n - 32) else if n < 56 then bit sizebits (n - 52)
    else n < 64 \<and> bit base (n - 32))"
proof -
  let ?p1 = "(drop_bit 16 base AND mask 8) OR push_bit 8 ((access OR ACC_P) AND mask 8) OR (limit AND push_bit 16 (mask 4))
    OR push_bit 20 (sizebits AND mask 4) OR (base AND push_bit 24 (mask 8))"
  let ?p0 = "(limit AND mask 16) OR push_bit 16 (base AND mask 16)"
  have d: "fill_descriptor base limit0 access sizebits0 = push_bit 32 (ucast ?p1) OR ucast ?p0"
    unfolding fill_descriptor_def Let_def assms [symmetric] masks32 low_half ..
  show ?thesis
  proof (cases "n < 32")
    case True
    then show ?thesis unfolding d bit_two_words if_P [OF True] bit_p0 [OF True] by simp
  next
    case False
    show ?thesis
    proof (cases "n < 64")
      case True
      then have "n - 32 < 32" by simp
      then show ?thesis using False True unfolding d bit_two_words if_not_P [OF False] bit_p1 [OF \<open>n - 32 < 32\<close>] by auto
    qed (use False in \<open>simp add: d bit_two_words\<close>)
  qed
qed

section \<open>What the processor reads in the tables\<close>

text \<open>The fields of a segment descriptor: base, access rights, limit in bytes.\<close>

definition desc_base :: "u64 \<Rightarrow> u32" where
  "desc_base d = ucast (drop_bit 16 d AND mask 24) OR push_bit 24 (ucast (drop_bit 56 d))"

definition desc_access :: "u64 \<Rightarrow> u8" where
  "desc_access d = ucast (drop_bit 40 d)"

definition desc_limit :: "u64 \<Rightarrow> u32" where
  "desc_limit d = (let l = ucast (d AND mask 16) OR push_bit 16 (ucast (drop_bit 48 d AND mask 4))
     in if bit d 55 then push_bit 12 l OR mask 12 else l)"

lemma desc_base_fill: "desc_base (fill_descriptor base limit access sizebits) = base"
proof (rule bit_word_eqI)
  fix n assume "n < LENGTH(32)"
  then have n: "n < 32" by simp
  then show "bit (desc_base (fill_descriptor base limit access sizebits)) n = bit base n"
    by (cases "n < 24") (auto simp: desc_base_def bit_or_iff bit_and_iff bit_push_bit_iff bit_mask_iff bit_drop_bit_eq bit_ucast_iff
        fill_descriptor_bit [OF refl refl] add.commute)
qed

lemma desc_access_fill: "desc_access (fill_descriptor base limit access sizebits) = ucast (access OR ACC_P)"
proof (rule bit_word_eqI)
  fix n assume n: "n < LENGTH(8)"
  show "bit (desc_access (fill_descriptor base limit access sizebits)) n = bit (ucast (access OR ACC_P) :: u8) n"
    unfolding desc_access_def using n by (simp only: bit_ucast_iff bit_drop_bit_eq comp_def fill_descriptor_bit [OF refl refl]) simp
qed

lemma limit_low:
  assumes "limit = (if limit0 > 0xfffff then drop_bit 12 limit0 else limit0)"
  shows "ucast (fill_descriptor base limit0 access sizebits AND mask 16) OR push_bit 16 (ucast (drop_bit 48 (fill_descriptor base limit0 access sizebits) AND mask 4))
    = (take_bit 20 limit :: u32)"
proof (rule bit_word_eqI)
  fix n assume "n < LENGTH(32)"
  then have n: "n < 32" by simp
  then show "bit (ucast (fill_descriptor base limit0 access sizebits AND mask 16) OR push_bit 16 (ucast (drop_bit 48 (fill_descriptor base limit0 access sizebits) AND mask 4)) :: u32) n
      = bit (take_bit 20 limit) n"
    by (cases "n < 16") (auto simp: bit_or_iff bit_and_iff bit_push_bit_iff bit_mask_iff bit_drop_bit_eq bit_ucast_iff bit_take_bit_iff
        fill_descriptor_bit [OF assms refl])
qed

lemma desc_granular:
  assumes "\<not> bit sizebits 3"
  shows "bit (fill_descriptor base limit access sizebits) 55 \<longleftrightarrow> limit > 0xfffff"
  using assms by (simp add: fill_descriptor_bit [OF refl refl] bit_or_iff)

lemma desc_limit_fill:
  assumes "\<not> bit sizebits 3"
  shows "desc_limit (fill_descriptor base limit access sizebits) = (if limit > 0xfffff then limit OR 0xfff else limit)"
proof (cases "limit > 0xfffff")
  case True
  have "push_bit 12 (take_bit 20 (drop_bit 12 limit)) OR mask 12 = limit OR mask 12"
    by (rule bit_word_eqI) (auto simp: bit_or_iff bit_push_bit_iff bit_mask_iff bit_take_bit_iff bit_drop_bit_eq)
  moreover have "(0xfff :: u32) = mask 12" by (simp add: mask_eq_exp_minus_1)
  ultimately show ?thesis using True desc_granular [OF assms] limit_low [OF refl, of base limit access sizebits]
    by (simp add: desc_limit_def Let_def)
next
  case False
  then have "limit \<le> 0xfffff" by simp
  then have "unat limit \<le> unat (0xfffff :: u32)" by (simp only: word_le_nat_alt)
  then have "unat limit < 2 ^ 20" by simp
  then have "unat (take_bit 20 limit) = unat limit" by (simp add: unsigned_take_bit_eq take_bit_nat_eq_self)
  then have "take_bit 20 limit = limit" by (simp only: word_unat_eq_iff)
  then show ?thesis using False desc_granular [OF assms] limit_low [OF refl, of base limit access sizebits]
    by (simp add: desc_limit_def Let_def)
qed


text \<open>The fields of a gate.\<close>

definition gate_selector :: "u64 \<Rightarrow> u16" where
  "gate_selector d = ucast (drop_bit 16 d)"

definition gate_access :: "u64 \<Rightarrow> u8" where
  "gate_access d = ucast (drop_bit 40 d)"

definition gate_offset :: "u64 \<Rightarrow> u32" where
  "gate_offset d = ucast (d AND mask 16) OR push_bit 16 (ucast (drop_bit 48 d))"

lemma bit_g0: "n < 32 \<Longrightarrow> bit ((off AND mask 16) OR push_bit 16 (ucast sel)) n = (if n < 16 then bit off n else bit sel (n - 16))"
  for off :: u32 and sel :: u16
  using bit_imp_le_length [of sel "n - 16"] by (auto simp: bit_or_iff bit_and_iff bit_push_bit_iff bit_mask_iff bit_ucast_iff)

lemma bit_g1:
  fixes off :: u32 and wc acc :: u8
  assumes "n < 32"
  shows "bit ((ucast wc AND mask 4) OR push_bit 8 (ucast acc OR ACC_P) OR (off AND push_bit 16 (mask 16))) n
    = (if n < 4 then bit wc n else if n < 8 then False else if n < 16 then bit (acc OR 0x80) (n - 8) else bit off n)"
proof -
  have P: "(ucast acc OR ACC_P :: u32) = ucast (acc OR 0x80)" by (simp add: unsigned_or_eq)
  consider "n < 4" | "4 \<le> n" "n < 8" | "8 \<le> n" "n < 16" | "16 \<le> n" by linarith
  then show ?thesis
    unfolding P using assms bit_imp_le_length [of wc n] bit_imp_le_length [of "acc OR 0x80" "n - 8"]
    by cases (auto simp del: bit_or_iff simp: bit_or_iff [of "_ AND _"] bit_or_iff [of "push_bit _ _"]
        bit_and_iff bit_push_bit_iff bit_mask_iff bit_ucast_iff)
qed


lemma fill_gate_bit:
  "bit (fill_gate offset selector access wc) n = (if n < 16 then bit offset n else if n < 32 then bit selector (n - 16)
     else if n < 36 then bit wc (n - 32) else if n < 40 then False else if n < 48 then bit (access OR 0x80) (n - 40)
     else n < 64 \<and> bit offset (n - 32))"
proof -
  let ?p0 = "(offset AND mask 16) OR push_bit 16 (ucast selector)"
  let ?p1 = "(ucast wc AND mask 4) OR push_bit 8 (ucast access OR ACC_P) OR (offset AND push_bit 16 (mask 16))"
  have d: "fill_gate offset selector access wc = push_bit 32 (ucast ?p1) OR ucast ?p0"
    unfolding fill_gate_def Let_def masks32 ..
  show ?thesis
  proof (cases "n < 32")
    case True
    then show ?thesis unfolding d bit_two_words if_P [OF True] bit_g0 [OF True] by simp
  next
    case False
    show ?thesis
    proof (cases "n < 64")
      case True
      then have "n - 32 < 32" by simp
      then show ?thesis using False True unfolding d bit_two_words if_not_P [OF False] bit_g1 [OF \<open>n - 32 < 32\<close>] by auto
    qed (use False in \<open>simp add: d bit_two_words\<close>)
  qed
qed

lemma gate_fields:
  "gate_selector (fill_gate offset selector access wc) = selector" "gate_access (fill_gate offset selector access wc) = access OR 0x80"
  "gate_offset (fill_gate offset selector access wc) = offset"
proof -
  let ?d = "fill_gate offset selector access wc"
  show "gate_selector ?d = selector"
  proof (rule bit_word_eqI)
    fix n assume "n < LENGTH(16)"
    then have "n < 16" by simp
    then show "bit (gate_selector ?d) n = bit selector n"
      by (simp add: gate_selector_def bit_ucast_iff bit_drop_bit_eq fill_gate_bit add.commute)
  qed
  show "gate_access ?d = access OR 0x80"
  proof (rule bit_word_eqI)
    fix n assume "n < LENGTH(8)"
    then have "n < 8" by simp
    then show "bit (gate_access ?d) n = bit (access OR 0x80) n"
      unfolding gate_access_def by (simp only: bit_ucast_iff bit_drop_bit_eq comp_def fill_gate_bit) simp
  qed
  show "gate_offset ?d = offset"
  proof (rule bit_word_eqI)
    fix n assume "n < LENGTH(32)"
    then have "n < 32" by simp
    then show "bit (gate_offset ?d) n = bit offset n"
      by (cases "n < 16") (auto simp: gate_offset_def bit_or_iff bit_and_iff bit_push_bit_iff bit_mask_iff bit_drop_bit_eq bit_ucast_iff fill_gate_bit)
  qed
qed

lemma gdt_trap:
  "fold (\<lambda>i g. g(i + k := v i)) [0..<n] g x = (if k \<le> x \<and> x < k + n then v (x - k) else g x)" for k :: nat
  by (induction n) auto

lemma setup_idt_fields:
  "idt (fold (setup_trap L) [0..<n] s) x = (if x < n then fill_gate 0 (of_nat (TRAP_TSS_BASE + 8 * x)) (ucast (ACC_TASK_GATE + (if x = 3 then 0x60 else 0))) 0 else idt s x)"
  "gdt (fold (setup_trap L) [0..<n] s) = gdt s"
  "x < n \<Longrightarrow> t_eip (trap_tss (fold (setup_trap L) [0..<n] s) x) = exception_handler_tasks L x"
  "x < n \<Longrightarrow> t_cs (trap_tss (fold (setup_trap L) [0..<n] s) x) = of_nat SEL_KERNEL_CS"
  "x < n \<Longrightarrow> t_esp (trap_tss (fold (setup_trap L) [0..<n] s) x) = trap_stack_end L"
  by (induction n) (auto simp: setup_trap_def Let_def less_Suc_eq)

lemma setup_pic_fields: "gdt (setup_pic s) = gdt s" "idt (setup_pic s) = idt s" "trap_tss (setup_pic s) = trap_tss s" "tss (setup_pic s) = tss s"
  for s :: "'z cpu_scheme"
  by (simp_all add: setup_pic_def outb_def)


definition segment :: "u64 \<Rightarrow> u32 \<times> u32 \<times> u8" where
  "segment d = (desc_base d, desc_limit d, desc_access d)"

lemma segment_fill:
  assumes "\<not> bit sizebits 3"
  shows "segment (fill_descriptor base limit access sizebits)
    = (base, if limit > 0xfffff then limit OR 0xfff else limit, ucast (access OR ACC_P))"
  by (simp add: segment_def desc_base_fill desc_limit_fill [OF assms] desc_access_fill)

text \<open>The bits the processor sets are bits of the access rights.\<close>

lemma fill_descriptor_mark:
  assumes "k < 8"
  shows "fill_descriptor base limit access sizebits OR push_bit (40 + k) 1 = fill_descriptor base limit (access OR push_bit k 1) sizebits"
proof (rule bit_word_eqI)
  fix n assume "n < LENGTH(64)"
  then have n: "n < 64" by simp
  have "bit (push_bit (40 + k) 1 :: u64) n \<longleftrightarrow> n = 40 + k" using n assms by (auto simp: bit_exp_iff)
  moreover have "bit ((access OR push_bit k 1) OR ACC_P) (n - 40) \<longleftrightarrow> bit (access OR ACC_P) (n - 40) \<or> n = 40 + k" if "40 \<le> n" "n < 48"
    using that assms by (auto simp: bit_or_iff bit_exp_iff)
  ultimately show "bit (fill_descriptor base limit access sizebits OR push_bit (40 + k) 1) n
      = bit (fill_descriptor base limit (access OR push_bit k 1) sizebits) n"
    using assms n by (auto simp: bit_or_iff [of "fill_descriptor _ _ _ _"] fill_descriptor_bit [OF refl refl])
qed

lemmas mark_accessed = fill_descriptor_mark [of 0, simplified]

lemma mark_busy: "fill_descriptor base limit access sizebits OR 0x20000000000 = fill_descriptor base limit (access OR 2) sizebits"
  using fill_descriptor_mark [of 1 base limit access sizebits] by (simp add: push_bit_eq_mult)

lemma cpu_init_fields:
  "gdt (cpu_init L s) = load_task BASE_TSS (gdt (setup_gdt L s))" "tss (cpu_init L s) = tss (setup_tss L s)"
  "idt (cpu_init L s) = idt (setup_idt L s)" "trap_tss (cpu_init L s) i = trap_tss (setup_idt L (setup_gdt L s)) i"
  by (simp_all add: cpu_init_def setup_pic_fields setup_tss_def setup_idt_def setup_idt_fields load_task_def fun_eq_iff)

lemma cpu_init_gdt:
  "gdt (cpu_init L s) x = (if 10 \<le> x \<and> x < 42 then fill_descriptor (trap_tss_adr L + 104 * of_nat (x - 10)) 103 0x89 0
     else if x = 1 then fill_descriptor (tss_adr L) 103 0x8b 0 else if x = 2 then fill_descriptor 0 0xffffffff 0x1b SZ_32
     else if x = 3 then fill_descriptor 0 0xffffffff 0x13 SZ_32 else if x = 8 then fill_descriptor 0 0xffffffff 0x7a SZ_32
     else if x = 9 then fill_descriptor 0 0xffffffff 0x72 SZ_32 else 0)"
  by (auto simp: cpu_init_fields setup_gdt_def Let_def gdt_trap load_segment_def load_task_def mark_accessed mark_busy)

text \<open>
  C23: what the processor finds in the tables. After \<^verbatim>\<open>cpu_init\<close> the four flat segments cover the whole address
  space, with code and data types and the privilege of the kernel or of the user, those of the kernel marked as
  accessed by the loads of the segment registers; the task register has a task segment, marked as busy, whose
  kernel stack is the first stack; the gate of each of the 32 exceptions is a task gate, open to user
  code for the breakpoint only, whose selector leads through the descriptor table to the task segment of this very
  exception, with the entry point and the stack of its handler; no other gate is present.
\<close>

theorem cpu_init_tables:
  fixes s :: "'z cpu_scheme"
  assumes s': "s' = cpu_init L s" and i: "i < HANDLER_ENTRIES"
  shows "segment (gdt s' (SEL_KERNEL_CS div 8)) = (0, 0xffffffff, 0x9b) \<and> segment (gdt s' (SEL_KERNEL_DS div 8)) = (0, 0xffffffff, 0x93)
    \<and> segment (gdt s' (SEL_USER_CS div 8)) = (0, 0xffffffff, 0xfa) \<and> segment (gdt s' (SEL_USER_DS div 8)) = (0, 0xffffffff, 0xf2)
    \<and> segment (gdt s' (BASE_TSS div 8)) = (tss_adr L, 103, 0x8b) \<and> t_esp0 (tss s') = first_stack_end L \<and> t_ss0 (tss s') = of_nat SEL_KERNEL_DS
    \<and> gate_access (idt s' i) = (if i = 3 then 0xe5 else 0x85)
    \<and> segment (gdt s' (unat (gate_selector (idt s' i)) div 8)) = (trap_tss_adr L + 104 * of_nat i, 103, 0x89)
    \<and> t_eip (trap_tss s' i) = exception_handler_tasks L i \<and> t_cs (trap_tss s' i) = of_nat SEL_KERNEL_CS
    \<and> t_esp (trap_tss s' i) = trap_stack_end L \<and> (\<forall>j \<ge> HANDLER_ENTRIES. idt s' j = 0)"
proof -
  have "unat (of_nat (TRAP_TSS_BASE + 8 * i) :: u16) = TRAP_TSS_BASE + 8 * i" unfolding unat_of_nat using i by simp
  then have sel: "unat (of_nat (TRAP_TSS_BASE + 8 * i) :: u16) div 8 = i + 10" by simp
  have gate: "idt s' i = fill_gate 0 (of_nat (TRAP_TSS_BASE + 8 * i)) (ucast (ACC_TASK_GATE + (if i = 3 then 0x60 else 0))) 0"
    using i by (simp add: s' cpu_init_fields setup_idt_def setup_idt_fields(1))
  note gdt = cpu_init_gdt [of L s, folded s']
  have z: "\<not> bit (0 :: u32) 3" "\<not> bit (4 :: u32) 3" by simp_all
  have "segment (gdt s' (unat (gate_selector (idt s' i)) div 8)) = (trap_tss_adr L + 104 * of_nat i, 103, 0x89)"
    unfolding gate gate_fields sel gdt using i by (simp add: segment_fill [OF z(1)])
  moreover have "gate_access (idt s' i) = (if i = 3 then 0xe5 else 0x85)" unfolding gate gate_fields by simp
  moreover have "\<forall>j \<ge> HANDLER_ENTRIES. idt s' j = 0" by (simp add: s' cpu_init_fields setup_idt_def setup_idt_fields(1))
  moreover have "t_eip (trap_tss s' i) = exception_handler_tasks L i" "t_cs (trap_tss s' i) = of_nat SEL_KERNEL_CS"
    "t_esp (trap_tss s' i) = trap_stack_end L" using i by (simp_all add: s' cpu_init_fields setup_idt_def setup_idt_fields)
  moreover have "t_esp0 (tss s') = first_stack_end L" "t_ss0 (tss s') = of_nat SEL_KERNEL_DS" by (simp_all add: s' cpu_init_fields setup_tss_def)
  ultimately show ?thesis by (simp add: gdt segment_fill [OF z(1)] segment_fill [OF z(2)])
qed

definition ex_linked :: linked where
  "ex_linked = \<lparr>tss_adr = 0x110000, trap_tss_adr = 0x111000, trap_stack_end = 0x113000, first_stack_end = 0x114000, pgdir = 0x115000,
     exception_handler_tasks = (\<lambda>i. 0x100000 + 16 * of_nat i)\<rparr>"

definition ex_cpu :: cpu where
  "ex_cpu = \<lparr>line_cur = 1, col_cur = 0, ct_cur = 15, cf_cur = 0, col_min = 0, vmem = (\<lambda>_. 0), outs = [], gdt = (\<lambda>_. 0), idt = (\<lambda>_. 0),
     tss = zero_tss, trap_tss = (\<lambda>_. zero_tss)\<rparr>"

lemma cpu_init_tables_witness:
  "segment (gdt (cpu_init ex_linked ex_cpu) (unat (gate_selector (idt (cpu_init ex_linked ex_cpu) 14)) div 8)) = (0x111000 + 104 * 14, 103, 0x89)
     \<and> t_eip (trap_tss (cpu_init ex_linked ex_cpu) 14) = 0x1000e0"
  using cpu_init_tables [OF refl, of 14 ex_linked ex_cpu] by (simp add: ex_linked_def)

end
