(* ===== verification/Keyboard_Ops.thy ===== *)
theory Keyboard_Ops
  imports Keyboard Process_Ops
begin

text \<open>
  The keyboard buffer refines a bounded queue of characters: what each operation of \<^verbatim>\<open>kbd.c\<close> does to the
  characters typed and not yet read.
\<close>

section \<open>The invariant of the buffer\<close>

interpretation kq: link_family KHead KLink
  by unfold_locales auto

definition kids :: "int set" where
  "kids = {0..<BUFFER_SIZE}"

lemma kids_iff: "i \<in> kids \<longleftrightarrow> 0 \<le> i \<and> i < BUFFER_SIZE"
  by (simp add: kids_def)

lemma card_kids: "finite kids" "card kids < NB_KLINKS"
  by (simp_all add: kids_def)

text \<open>\<open>K\<close> gives the used and the free frames, in the order of their queues.\<close>

definition kbd_ok :: "('m, 'z) kbd_scheme \<Rightarrow> (num_queue \<Rightarrow> int list) \<Rightarrow> bool" where
  "kbd_ok s K \<longleftrightarrow> queues KHead KLink (klinks s) kids K
     \<and> (\<forall>i \<in> kids. f_id (buffer s i) = i \<and> f_arrival (buffer s i) = 1 \<and> i \<in> set (K kbd_used) \<union> set (K kbd_free))"

text \<open>The abstraction: the characters of the used frames, the oldest first.\<close>

definition typed :: "('m, 'z) kbd_scheme \<Rightarrow> (num_queue \<Rightarrow> int list) \<Rightarrow> char list" where
  "typed s K = map (\<lambda>i. f_val (buffer s i)) (rev (K kbd_used))"

text \<open>The state outside the buffer: what the operations on the buffer leave alone.\<close>

definition outside_buffer :: "('m, 'z) kbd_scheme \<Rightarrow> ('m, 'z) kbd_scheme" where
  "outside_buffer s = s\<lparr>nb_chars := 0, buffer := undefined, klinks := undefined\<rparr>"

lemma kbd_okD:
  assumes "kbd_ok s K"
  shows "queues KHead KLink (klinks s) kids K" "i \<in> kids \<Longrightarrow> f_id (buffer s i) = i" "i \<in> kids \<Longrightarrow> f_arrival (buffer s i) = 1"
    "i \<in> set (K t) \<Longrightarrow> i \<in> kids" "i \<in> kids \<Longrightarrow> i \<in> set (K kbd_used) \<or> i \<in> set (K kbd_free)"
    "distinct (K t)" "i \<in> set (K kbd_used) \<Longrightarrow> i \<notin> set (K kbd_free)"
  using assms queuesD(2) [of KHead KLink "klinks s" kids K t] queues_distinct [of KHead KLink "klinks s" kids K t]
    queuesD(3) [of KHead KLink "klinks s" kids K kbd_used kbd_free]
  by (auto simp: kbd_ok_def)

lemma all_num_queue: "(\<forall>t. P t) \<longleftrightarrow> P kbd_used \<and> P kbd_free"
  by (metis num_queue.exhaust)

lemma kbd_count: "kbd_ok s K \<Longrightarrow> length (K kbd_used) + length (K kbd_free) = 100"
proof -
  assume ok: "kbd_ok s K"
  have "kids = set (K kbd_used) \<union> set (K kbd_free)" using kbd_okD(4,5) [OF ok] by auto
  moreover have "set (K kbd_used) \<inter> set (K kbd_free) = {}" using kbd_okD(7) [OF ok] by auto
  ultimately have "card kids = card (set (K kbd_used)) + card (set (K kbd_free))" by (metis List.finite_set card_Un_disjoint)
  then show ?thesis using distinct_card [OF kbd_okD(6) [OF ok]] by (simp add: kids_def)
qed

section \<open>The operations on the buffer\<close>

lemma frame_add_ok:
  fixes s :: "('m, 'z) kbd_scheme"
  assumes q: "queues KHead KLink (klinks s) kids K" and i: "i \<in> kids" "in_no_queue K i"
  shows "\<exists>h. frame_add t i key s = Inr (s\<lparr>klinks := h\<rparr>)
    \<and> queues KHead KLink h kids (K(t := key_insert (\<lambda>j. key (buffer s j)) i (K t)))"
  using kq.queues_add [OF q card_kids i, of "\<lambda>l. key (buffer s (kowner l))" t] by (auto simp: frame_add_def)

lemma give_back_ok:
  fixes s :: "('m, 'z) kbd_scheme"
  assumes q: "queues KHead KLink (klinks s) kids (K(kbd_used := xs))" and i: "i \<in> kids" "i \<notin> set xs" "i \<notin> set (K kbd_free)"
    and all: "\<And>j. j \<in> kids \<Longrightarrow> f_id (buffer s j) = j \<and> f_arrival (buffer s j) = 1 \<and> (j = i \<or> j \<in> set xs \<or> j \<in> set (K kbd_free))"
  shows "\<exists>s' K'. give_back (KLink i) s = Inr s' \<and> kbd_ok s' K' \<and> K' kbd_used = xs
    \<and> buffer s' = buffer s \<and> outside_buffer s' = outside_buffer s"
proof -
  have "in_no_queue (K(kbd_used := xs)) i" using i by (simp add: in_no_queue_def all_num_queue)
  then obtain h where h: "frame_add kbd_free i f_id s = Inr (s\<lparr>klinks := h\<rparr>)"
    "queues KHead KLink h kids ((K(kbd_used := xs))(kbd_free := key_insert (\<lambda>j. f_id (buffer s j)) i (K kbd_free)))"
    using frame_add_ok [OF q i(1), of kbd_free f_id] by auto
  let ?s = "s\<lparr>klinks := h, nb_chars := nb_chars s - 1\<rparr>"
  let ?K = "(K(kbd_used := xs))(kbd_free := key_insert (\<lambda>j. f_id (buffer s j)) i (K kbd_free))"
  have "kbd_ok ?s ?K" using h(2) all by (auto simp: kbd_ok_def)
  with h(1) show ?thesis
    by (intro exI [of _ ?s] exI [of _ ?K]) (simp add: give_back_def outside_buffer_def)
qed

lemma remove_buff_ok:
  fixes s :: "('m, 'z) kbd_scheme"
  assumes ok: "kbd_ok s K"
  shows "\<exists>s' K'. remove_buff s = Inr (if typed s K = [] then CHR 0x00 else hd (typed s K), s')
    \<and> kbd_ok s' K' \<and> typed s' K' = tl (typed s K) \<and> outside_buffer s' = outside_buffer s"
proof (cases "K kbd_used" rule: rev_cases)
  case Nil
  then have "queue_out (klinks s) (KHead kbd_used) = Inr (None, klinks s)"
    using queue_out_dll_empty queuesD(1) [OF kbd_okD(1) [OF ok], of kbd_used] by simp
  then show ?thesis using ok Nil by (intro exI [of _ s] exI [of _ K]) (simp add: remove_buff_def typed_def)
next
  case (snoc xs i)
  obtain h where h: "queue_out (klinks s) (KHead kbd_used) = Inr (Some (KLink i), h)"
    "queues KHead KLink h kids (K(kbd_used := xs))"
    using kq.queues_out [OF kbd_okD(1) [OF ok], of kbd_used] snoc by auto
  have i: "i \<in> kids" "i \<notin> set xs" "i \<notin> set (K kbd_free)"
    using kbd_okD(4) [OF ok, of i kbd_used] kbd_okD(7) [OF ok, of i] kbd_okD(6) [OF ok, of kbd_used] snoc by auto
  have all: "f_id (buffer (s\<lparr>klinks := h\<rparr>) j) = j \<and> f_arrival (buffer (s\<lparr>klinks := h\<rparr>) j) = 1
      \<and> (j = i \<or> j \<in> set xs \<or> j \<in> set (K kbd_free))" if "j \<in> kids" for j
    using kbd_okD(2,3,5) [OF ok that] snoc by auto
  obtain s' K' where s': "give_back (KLink i) (s\<lparr>klinks := h\<rparr>) = Inr s'" "kbd_ok s' K'" "K' kbd_used = xs"
    "buffer s' = buffer s" "outside_buffer s' = outside_buffer s"
    using give_back_ok [of "s\<lparr>klinks := h\<rparr>" K xs i] h(2) i all by (auto simp: outside_buffer_def)
  then show ?thesis
    using h(1) snoc by (intro exI [of _ s'] exI [of _ K']) (simp add: remove_buff_def typed_def)
qed

lemma unput_buff_ok:
  fixes s :: "('m, 'z) kbd_scheme"
  assumes ok: "kbd_ok s K"
  shows "\<exists>s' K'. unput_buff s = Inr s' \<and> kbd_ok s' K' \<and> typed s' K' = butlast (typed s K)
    \<and> outside_buffer s' = outside_buffer s"
proof (cases "K kbd_used")
  case Nil
  then have "queue_out_bot (klinks s) (KHead kbd_used) = Inr (None, klinks s)"
    using queue_out_bot_dll_empty queuesD(1) [OF kbd_okD(1) [OF ok], of kbd_used] by simp
  then show ?thesis using ok Nil by (intro exI [of _ s] exI [of _ K]) (simp add: unput_buff_def typed_def)
next
  case (Cons i xs)
  obtain h where h: "queue_out_bot (klinks s) (KHead kbd_used) = Inr (Some (KLink i), h)"
    "queues KHead KLink h kids (K(kbd_used := xs))"
    using kq.queues_out_bot [OF kbd_okD(1) [OF ok], of kbd_used] Cons by auto
  have i: "i \<in> kids" "i \<notin> set xs" "i \<notin> set (K kbd_free)"
    using kbd_okD(4) [OF ok, of i kbd_used] kbd_okD(7) [OF ok, of i] kbd_okD(6) [OF ok, of kbd_used] Cons by auto
  have all: "f_id (buffer (s\<lparr>klinks := h\<rparr>) j) = j \<and> f_arrival (buffer (s\<lparr>klinks := h\<rparr>) j) = 1
      \<and> (j = i \<or> j \<in> set xs \<or> j \<in> set (K kbd_free))" if "j \<in> kids" for j
    using kbd_okD(2,3,5) [OF ok that] Cons by auto
  obtain s' K' where s': "give_back (KLink i) (s\<lparr>klinks := h\<rparr>) = Inr s'" "kbd_ok s' K'" "K' kbd_used = xs"
    "buffer s' = buffer s" "outside_buffer s' = outside_buffer s"
    using give_back_ok [of "s\<lparr>klinks := h\<rparr>" K xs i] h(2) i all by (auto simp: outside_buffer_def)
  then show ?thesis
    using h(1) Cons by (intro exI [of _ s'] exI [of _ K']) (simp add: unput_buff_def typed_def)
qed

lemma put_buff_ok:
  fixes s :: "('m, 'z) kbd_scheme"
  assumes ok: "kbd_ok s K"
  shows "\<exists>s' K'. put_buff c s = Inr s' \<and> kbd_ok s' K'
    \<and> typed s' K' = (if length (typed s K) < 100 then typed s K @ [c] else typed s K)
    \<and> outside_buffer s' = outside_buffer s"
proof (cases "K kbd_free")
  case Nil
  then have "put_buff c s = Inr s"
    using kq.queues_empty [OF kbd_okD(1) [OF ok], of kbd_free] by (simp add: put_buff_def obtain_id_def)
  then show ?thesis using ok Nil kbd_count [OF ok] by (intro exI [of _ s] exI [of _ K]) (simp add: typed_def)
next
  case (Cons i xs)
  have len: "length (typed s K) < 100" using kbd_count [OF ok] Cons by (simp add: typed_def)
  obtain h where h: "queue_out_bot (klinks s) (KHead kbd_free) = Inr (Some (KLink i), h)"
    "queues KHead KLink h kids (K(kbd_free := xs))"
    using kq.queues_out_bot [OF kbd_okD(1) [OF ok], of kbd_free] Cons by auto
  have i: "i \<in> kids" "i \<notin> set xs" "i \<notin> set (K kbd_used)" "f_id (buffer s i) = i" "0 \<le> i"
    using kbd_okD(4) [OF ok, of i kbd_free] kbd_okD(7) [OF ok, of i] kbd_okD(6) [OF ok, of kbd_free] kbd_okD(2) [OF ok, of i] Cons
    by (auto simp: kids_iff)
  define s1 where "s1 = s\<lparr>klinks := h, nb_chars := nb_chars s + 1, buffer := (buffer s)(i := (buffer s i)\<lparr>f_val := c\<rparr>)\<rparr>"
  have nq: "in_no_queue (K(kbd_free := xs)) i" using i by (simp add: in_no_queue_def all_num_queue)
  have "queues KHead KLink (klinks s1) kids (K(kbd_free := xs))" using h(2) by (simp add: s1_def)
  from frame_add_ok [OF this i(1) nq, of kbd_used f_arrival] obtain h' where
    h': "frame_add kbd_used i f_arrival s1 = Inr (s1\<lparr>klinks := h'\<rparr>)"
    "queues KHead KLink h' kids ((K(kbd_free := xs))(kbd_used := key_insert (\<lambda>j. f_arrival (buffer s1 j)) i (K kbd_used)))"
    by auto
  have ins: "key_insert (\<lambda>j. f_arrival (buffer s1 j)) i (K kbd_used) = i # K kbd_used"
    using kbd_okD(3) [OF ok] kbd_okD(4) [OF ok, of _ kbd_used] i(1)
    by (intro key_insert_same) (simp add: s1_def)
  let ?K = "(K(kbd_free := xs))(kbd_used := i # K kbd_used)" and ?s = "s1\<lparr>klinks := h'\<rparr>"
  have "kbd_ok ?s ?K"
    unfolding kbd_ok_def
  proof (intro conjI ballI)
    show "queues KHead KLink (klinks ?s) kids ?K" using h'(2) unfolding ins by simp
    fix j assume j: "j \<in> kids"
    show "f_id (buffer ?s j) = j" "f_arrival (buffer ?s j) = 1" using kbd_okD(2,3) [OF ok j] by (auto simp: s1_def)
    show "j \<in> set (?K kbd_used) \<union> set (?K kbd_free)" using kbd_okD(5) [OF ok j] Cons by auto
  qed
  moreover have "typed ?s ?K = typed s K @ [c]" using i(3) by (auto simp: typed_def s1_def)
  moreover have "put_buff c s = Inr ?s"
  proof -
    have "obtain_id s = Inr (i, s\<lparr>klinks := h\<rparr>)"
      using kq.queues_empty [OF kbd_okD(1) [OF ok], of kbd_free] Cons h(1) i(4) by (simp add: obtain_id_def)
    moreover have "upd_frame i (\<lambda>f. f\<lparr>f_val := c\<rparr>) (s\<lparr>klinks := h, nb_chars := nb_chars s + 1\<rparr>) = s1"
      by (simp add: upd_frame_def s1_def)
    ultimately show ?thesis using h'(1) i(5) by (simp add: put_buff_def)
  qed
  moreover have "outside_buffer ?s = outside_buffer s" by (simp add: outside_buffer_def s1_def)
  ultimately show ?thesis using len by (intro exI [of _ ?s] exI [of _ ?K]) simp
qed

lemma buff_empty_ok: "kbd_ok s K \<Longrightarrow> buff_empty s \<longleftrightarrow> typed s K = []"
  using kq.queues_empty [OF kbd_okD(1), of s K kbd_used] by (simp add: buff_empty_def typed_def)

section \<open>Emptying the buffer\<close>

lemma update_loop_ok:
  fixes s :: "('m, 'z) kbd_scheme"
  assumes "kbd_ok s K" and "length (typed s K) < n"
  shows "\<exists>s' K'. update_loop n s = Inr s' \<and> kbd_ok s' K' \<and> typed s' K' = [] \<and> outside_buffer s' = outside_buffer s"
  using assms
proof (induction n arbitrary: s K)
  case (Suc n)
  show ?case
  proof (cases "typed s K")
    case Nil
    then show ?thesis using Suc.prems buff_empty_ok [OF Suc.prems(1)] by auto
  next
    case (Cons c cs)
    obtain s1 K1 where s1: "remove_buff s = Inr (c, s1)" "kbd_ok s1 K1" "typed s1 K1 = cs" "outside_buffer s1 = outside_buffer s"
      using remove_buff_ok [OF Suc.prems(1)] Cons by auto
    then show ?thesis
      using Suc.IH [OF s1(2)] Suc.prems(2) Cons buff_empty_ok [OF Suc.prems(1)] by auto
  qed
qed simp

lemma typed_length: "kbd_ok s K \<Longrightarrow> length (typed s K) \<le> 100"
  using kbd_count [of s K] by (simp add: typed_def)

text \<open>
  \<^verbatim>\<open>update_buffer\<close> terminates with an empty buffer, on a sound buffer, and touches nothing else.
\<close>

theorem update_buffer_empties:
  fixes s :: "('m, 'z) kbd_scheme"
  assumes "kbd_ok s K"
  shows "\<exists>s' K'. update_buffer s = Inr s' \<and> kbd_ok s' K' \<and> typed s' K' = [] \<and> buff_empty s'
    \<and> outside_buffer s' = outside_buffer s"
proof -
  have "kbd_ok (s\<lparr>nb_chars := 0\<rparr>) K" "length (typed (s\<lparr>nb_chars := 0\<rparr>) K) < NB_KLINKS"
    using assms typed_length [OF assms] by (auto simp: kbd_ok_def typed_def)
  from update_loop_ok [OF this] obtain s' K' where
    s': "update_buffer s = Inr s'" "kbd_ok s' K'" "typed s' K' = []" "outside_buffer s' = outside_buffer s"
    by (auto simp: update_buffer_def outside_buffer_def)
  with buff_empty_ok [OF s'(2)] show ?thesis by blast
qed

section \<open>Reading a line\<close>

text \<open>
  What a read of at most \<open>n\<close> characters takes from the characters typed: up to the end of the line (a NUL),
  without the characters that are not ASCII (and without 127). The second component is what is left.
\<close>

fun read_line :: "nat \<Rightarrow> char list \<Rightarrow> char list \<times> char list" where
  "read_line 0 cs = ([], cs)"
| "read_line (Suc n) [] = ([], [])"
| "read_line (Suc n) (c # cs) =
     (if c = CHR 0x00 then ([], cs)
      else if of_char c \<le> (126 :: nat) then (let (l, r) = read_line n cs in (c # l, r))
      else read_line (Suc n) cs)"

lemma read_line_Nil [simp]: "read_line n [] = ([], [])"
  by (cases n) simp_all

definition bytes :: "char list \<Rightarrow> u8 list" where
  "bytes cs = map of_char cs"

lemma read_line_length: "length (fst (read_line n cs)) \<le> n \<and> length (fst (read_line n cs)) \<le> length cs"
  by (induction n cs rule: read_line.induct) (auto split: prod.splits)

lemma outside_buffer_mem:
  fixes s s1 :: "('m, 'z) kbd_scheme"
  shows "outside_buffer s1 = outside_buffer s \<Longrightarrow> mem s1 = mem s"
    and "outside_buffer s1 = outside_buffer s \<Longrightarrow> outside_buffer (s1\<lparr>mem := m\<rparr>) = outside_buffer (s\<lparr>mem := m\<rparr>)"
proof -
  assume e: "outside_buffer s1 = outside_buffer s"
  have "mem (outside_buffer s1) = mem s1" "mem (outside_buffer s) = mem s" by (simp_all add: outside_buffer_def)
  then show "mem s1 = mem s" using e by simp
  have "outside_buffer (x\<lparr>mem := m\<rparr>) = (outside_buffer x)\<lparr>mem := m\<rparr>" for x :: "('m, 'z) kbd_scheme"
    by (simp add: outside_buffer_def)
  then show "outside_buffer (s1\<lparr>mem := m\<rparr>) = outside_buffer (s\<lparr>mem := m\<rparr>)" using e by simp
qed

lemma unat_pred_diff:
  fixes n len :: u32
  assumes "n < len"
  shows "unat (len - n) = Suc (unat (len - (n + 1)))"
proof -
  have "unat n < unat len" "unat len < 2 ^ 32" using assms unsigned_less [of len, where 'a = nat] by (simp_all add: word_less_nat_alt)
  then have n1: "unat (n + 1) = unat n + 1" by (simp add: unat_word_ariths)
  then have "n + 1 \<le> len" using assms by (simp add: word_le_nat_alt word_less_nat_alt)
  moreover have "n \<le> len" using assms by simp
  ultimately show ?thesis using assms n1 by (simp add: unat_sub word_less_nat_alt)
qed

lemma copy_loop_ok:
  fixes s :: "('m, 'z) kbd_scheme"
  assumes "kbd_ok s K" and "length (typed s K) < k" and "n \<le> len"
    and "read_line (unat (len - n)) (typed s K) = (l, r)"
  shows "\<exists>s' K'. copy_loop k str len n s = Inr (n + of_nat (length l), s') \<and> kbd_ok s' K' \<and> typed s' K' = r
    \<and> outside_buffer s' = outside_buffer (s\<lparr>mem := write_bytes (mem s) (str + n) (bytes l @ [0])\<rparr>)"
  using assms
proof (induction k arbitrary: s K n l)
  case (Suc k)
  note empty = buff_empty_ok [OF Suc.prems(1)]
  have ok_mem: "kbd_ok (x\<lparr>mem := m\<rparr>) L \<longleftrightarrow> kbd_ok x L" "typed (x\<lparr>mem := m\<rparr>) L = typed x L"
    for x :: "('m, 'z) kbd_scheme" and m L by (simp_all add: kbd_ok_def typed_def)
  show ?case
  proof (cases "n = len \<or> typed s K = []")
    case True
    then have "l = []" "r = typed s K" using Suc.prems(4) by (cases "unat (len - n)"; auto)+
    then show ?thesis
      using True Suc.prems(1) empty ok_mem
      by (intro exI [of _ "s\<lparr>mem := (mem s)(str + n := 0)\<rparr>"] exI [of _ K]) (auto simp: end_copy_def bytes_def fun_upd_def)
  next
    case False
    then obtain c cs where t: "typed s K = c # cs" and ne: "n \<noteq> len" by (cases "typed s K") auto
    have lt: "n < len" using Suc.prems(3) ne by simp
    then have un: "unat (len - n) = Suc (unat (len - (n + 1)))" by (rule unat_pred_diff)
    obtain s1 K1 where s1: "remove_buff s = Inr (c, s1)" "kbd_ok s1 K1" "typed s1 K1 = cs" "outside_buffer s1 = outside_buffer s"
      using remove_buff_ok [OF Suc.prems(1)] t by auto
    note m1 = outside_buffer_mem [OF s1(4)]
    show ?thesis
    proof (cases "c = CHR 0x00")
      case True
      then have "l = []" "r = cs" using Suc.prems(4) by (simp_all add: un t)
      moreover have "end_copy str n s1 = Inr (n, s1\<lparr>mem := (mem s)(str + n := 0)\<rparr>)"
        by (simp add: end_copy_def m1(1))
      ultimately show ?thesis
        using True s1 t ne empty m1(2) ok_mem
        by (intro exI [of _ "s1\<lparr>mem := (mem s)(str + n := 0)\<rparr>"] exI [of _ K1]) (auto simp: bytes_def fun_upd_def)
    next
      case nz: False
      show ?thesis
      proof (cases "of_char c \<le> (126 :: nat)")
        case True
        obtain l' where l': "read_line (unat (len - (n + 1))) cs = (l', r)" "l = c # l'"
          using Suc.prems(4) nz True by (auto simp: un t split: prod.splits)
        let ?s2 = "s1\<lparr>mem := (mem s1)(str + n := of_char c)\<rparr>"
        have p: "kbd_ok ?s2 K1" "length (typed ?s2 K1) < k" "n + 1 \<le> len" "read_line (unat (len - (n + 1))) (typed ?s2 K1) = (l', r)"
          using s1 ok_mem Suc.prems(2) t l'(1) lt by (simp_all add: inc_le)
        obtain s' K' where s': "copy_loop k str len (n + 1) ?s2 = Inr (n + 1 + of_nat (length l'), s')" "kbd_ok s' K'" "typed s' K' = r"
          "outside_buffer s' = outside_buffer (?s2\<lparr>mem := write_bytes (mem ?s2) (str + (n + 1)) (bytes l' @ [0])\<rparr>)"
          using Suc.IH [OF p] by blast
        then show ?thesis
          using s1(1) nz True t ne empty l'(2) m1
          by (intro exI [of _ s'] exI [of _ K']) (auto simp: bytes_def algebra_simps)
      next
        case False
        have p: "kbd_ok s1 K1" "length (typed s1 K1) < k" "n \<le> len" "read_line (unat (len - n)) (typed s1 K1) = (l, r)"
          using s1 Suc.prems t nz False by (simp_all add: un)
        then show ?thesis using Suc.IH [OF p] s1(1) nz False t ne empty m1 by auto
      qed
    qed
  qed
qed simp

text \<open>
  C16: \<^verbatim>\<open>copy_from_buffer\<close> refines \<open>read_line\<close>. On a sound buffer it terminates, its result is the number of
  characters of the line, the line and a NUL are in memory at the destination, the characters read (and
  those dropped) are out of the buffer, and nothing else changes. The bytes written are at most one more
  than the length it was given.
\<close>

theorem copy_from_buffer_refines:
  fixes s :: "('m, 'z) kbd_scheme"
  assumes ok: "kbd_ok s K" and rl: "read_line (unat len) (typed s K) = (l, r)"
  shows "\<exists>s' K'. copy_from_buffer str len s = Inr (of_nat (length l), s') \<and> length l \<le> unat len
    \<and> kbd_ok s' K' \<and> typed s' K' = r
    \<and> outside_buffer s' = outside_buffer (s\<lparr>mem := write_bytes (mem s) str (bytes l @ [0])\<rparr>)"
proof -
  have "length (typed s K) < NB_KLINKS" using typed_length [OF ok] by simp
  moreover have "read_line (unat (len - 0)) (typed s K) = (l, r)" using rl by simp
  ultimately obtain s' K' where "copy_loop NB_KLINKS str len 0 s = Inr (0 + of_nat (length l), s')" "kbd_ok s' K'" "typed s' K' = r"
    "outside_buffer s' = outside_buffer (s\<lparr>mem := write_bytes (mem s) (str + 0) (bytes l @ [0])\<rparr>)"
    using copy_loop_ok [OF ok, of NB_KLINKS 0 len] by fastforce
  then show ?thesis using read_line_length [of "unat len" "typed s K"] rl by (auto simp: copy_from_buffer_def)
qed

section \<open>Typing\<close>

lemma newline: "kprintf [CHR 10] [] s = Inr (handle_char (CHR 10) s)"
  by (simp add: kcon.vprintf_unbuffered console_putbytes_def)

lemma more_kbd:
  fixes s s' :: "('m, 'z) kbd_scheme"
  assumes "console.more s' = console.more s"
  shows "klinks s' = klinks s" "buffer s' = buffer s" "reading s' = reading s" "calling_pid s' = calling_pid s"
   "process_table s' = process_table s" "plinks s' = plinks s" "cur_pid s' = cur_pid s" "mem s' = mem s"
  using assms by (cases s; cases s'; simp)+

lemma echo_key_fields:
  fixes s :: "('m, 'z) kbd_scheme"
  shows "kbd_ok (echo_key c s) K \<longleftrightarrow> kbd_ok s K" "typed (echo_key c s) K = typed s K" "reading (echo_key c s) = reading s"
    "calling_pid (echo_key c s) = calling_pid s" "running (echo_key c s) Q \<longleftrightarrow> running s Q"
    "process_table (echo_key c s) = process_table s"
proof -
  have "console.more (echo_key c s) = console.more s" by (simp add: echo_key_def handle_char_more)
  note f = more_kbd [OF this]
  show "kbd_ok (echo_key c s) K \<longleftrightarrow> kbd_ok s K" "typed (echo_key c s) K = typed s K" "reading (echo_key c s) = reading s"
    "calling_pid (echo_key c s) = calling_pid s" "running (echo_key c s) Q \<longleftrightarrow> running s Q"
    "process_table (echo_key c s) = process_table s"
    by (simp_all add: kbd_ok_def typed_def running_def f)
qed

lemma outside_buffer_fields:
  fixes s s1 :: "('m, 'z) kbd_scheme"
  assumes "outside_buffer s1 = outside_buffer s"
  shows "reading s1 = reading s" "calling_pid s1 = calling_pid s" "running s1 Q \<longleftrightarrow> running s Q"
    "process_table s1 = process_table s" "plinks s1 = plinks s" "cur_pid s1 = cur_pid s"
proof -
  have "reading (outside_buffer x) = reading x" "calling_pid (outside_buffer x) = calling_pid x"
    "process_table (outside_buffer x) = process_table x" "plinks (outside_buffer x) = plinks x" "cur_pid (outside_buffer x) = cur_pid x"
    for x :: "('m, 'z) kbd_scheme" by (simp_all add: outside_buffer_def)
  note f = this [of s] this [of s1]
  show g: "reading s1 = reading s" "calling_pid s1 = calling_pid s" "process_table s1 = process_table s" "plinks s1 = plinks s"
    "cur_pid s1 = cur_pid s" using f unfolding assms by simp_all
  show "running s1 Q \<longleftrightarrow> running s Q" by (simp add: running_def g)
qed

text \<open>The effect of a key other than Enter on the line being typed: 127 erases, the 101st character is dropped.\<close>

definition press :: "char \<Rightarrow> char list \<Rightarrow> char list" where
  "press c t = (if c = CHR 127 then butlast t else if length t < 100 then t @ [c] else t)"

definition keys :: "char list \<Rightarrow> ('m, 'z) kbd_scheme \<Rightarrow> ('m, 'z) kbd_scheme result" where
  "keys ks s = mfold (\<lambda>c s. bnd (keyboard_data c s) (\<lambda>(_, s1). Inr s1)) ks s"

lemma key_ok:
  fixes s :: "('m, 'z) kbd_scheme"
  assumes ok: "kbd_ok s K" and rd: "reading s \<noteq> 0" and c: "c \<noteq> CHR 13"
  shows "\<exists>s' K'. keyboard_data c s = Inr (Some (), s') \<and> kbd_ok s' K' \<and> typed s' K' = press c (typed s K)
    \<and> reading s' = reading s \<and> calling_pid s' = calling_pid s \<and> (\<forall>Q. running s' Q \<longleftrightarrow> running s Q)
    \<and> process_table s' = process_table s"
proof -
  note e = echo_key_fields [of c s]
  have ok1: "kbd_ok (echo_key c s) K" using ok by (simp add: e)
  show ?thesis
  proof (cases "c = CHR 127")
    case True
    obtain s' K' where "unput_buff (echo_key c s) = Inr s'" "kbd_ok s' K'" "typed s' K' = butlast (typed (echo_key c s) K)"
      "outside_buffer s' = outside_buffer (echo_key c s)" using unput_buff_ok [OF ok1] by blast
    then show ?thesis
      using True rd e outside_buffer_fields [of s' "echo_key c s"]
      by (intro exI [of _ s'] exI [of _ K']) (simp add: keyboard_data_def Let_def press_def)
  next
    case False
    obtain s' K' where "put_buff c (echo_key c s) = Inr s'" "kbd_ok s' K'"
      "typed s' K' = (if length (typed (echo_key c s) K) < 100 then typed (echo_key c s) K @ [c] else typed (echo_key c s) K)"
      "outside_buffer s' = outside_buffer (echo_key c s)" using put_buff_ok [OF ok1, of c] by blast
    then show ?thesis
      using False rd c e outside_buffer_fields [of s' "echo_key c s"]
      by (intro exI [of _ s'] exI [of _ K']) (simp add: keyboard_data_def Let_def press_def)
  qed
qed

lemma keys_ok:
  fixes s :: "('m, 'z) kbd_scheme"
  assumes "kbd_ok s K" and "reading s \<noteq> 0" and "CHR 13 \<notin> set ks"
  shows "\<exists>s' K'. keys ks s = Inr s' \<and> kbd_ok s' K' \<and> typed s' K' = fold press ks (typed s K)
    \<and> reading s' = reading s \<and> calling_pid s' = calling_pid s \<and> (\<forall>Q. running s' Q \<longleftrightarrow> running s Q)
    \<and> process_table s' = process_table s"
  using assms
proof (induction ks arbitrary: s K)
  case Nil
  then show ?case by (auto simp: keys_def)
next
  case (Cons c ks)
  obtain s1 K1 where s1: "keyboard_data c s = Inr (Some (), s1)" "kbd_ok s1 K1" "typed s1 K1 = press c (typed s K)"
    "reading s1 = reading s" "calling_pid s1 = calling_pid s" "\<forall>Q. running s1 Q \<longleftrightarrow> running s Q" "process_table s1 = process_table s"
    using key_ok [OF Cons.prems(1,2), of c] Cons.prems(3) by auto
  then show ?case using Cons.IH [OF s1(2)] Cons.prems by (auto simp: keys_def)
qed

section \<open>The end of a line\<close>

definition io_done :: "int \<Rightarrow> (int \<Rightarrow> process) \<Rightarrow> (list_type \<Rightarrow> int list) \<Rightarrow> list_type \<Rightarrow> int list" where
  "io_done p pt Q = Q(io_blocked := remove1 p (Q io_blocked), actionable := prio_insert pt p (Q actionable))"

lemma signal_end_io_ok:
  fixes s :: "('m, 'z) procs_scheme"
  assumes run: "running s Q" and p: "p \<in> set (Q io_blocked)"
    and s1: "s1 = s\<lparr>read_mutex := read_mutex s + 1,
      process_table := (process_table s)(p := (proc s p)\<lparr>p_state := actionable\<rparr>)\<rparr>"
  shows "\<exists>h s' Q'. signal_end_io p k s = Inr (None, s') \<and> running (s1\<lparr>plinks := h\<rparr>) (io_done p (process_table s) Q)
    \<and> switched k (s1\<lparr>plinks := h\<rparr>) (io_done p (process_table s) Q) s' Q'"
proof -
  define s0 where "s0 = s\<lparr>read_mutex := read_mutex s + 1\<rparr>"
  define p' where "p' = (proc s p)\<lparr>p_state := actionable\<rparr>"
  have run0: "running s0 Q" using run by (simp add: running_def s0_def)
  have t0: "process_table s0 = process_table s" "cur_pid s0 = cur_pid s" by (simp_all add: s0_def)
  have pp: "p_pid p' = p_pid (proc s0 p)" "p_state p' = actionable" by (simp_all add: p'_def t0)
  obtain h1 where h1: "proc_del (Chaining p) s0 = Inr (s0\<lparr>plinks := h1\<rparr>)"
    "\<And>(s3 :: ('m, 'z) procs_scheme) key k. plinks s3 = h1 \<Longrightarrow> \<forall>x. key (proc s3 x) = k x \<Longrightarrow>
        \<exists>h2. proc_add (QHead actionable) (Chaining p) key s3 = Inr (s3\<lparr>plinks := h2\<rparr>)
          \<and> sched_ok h2 ((process_table s0)(p := p'))
              (Q(io_blocked := remove1 p (Q io_blocked), actionable := key_insert k p (Q actionable))) {cur_pid s0}
          \<and> same_rest (plinks s0) h2"
    using move_to_ready [OF runningD(1) [OF run0] p _ pp] by auto
  define s3 where "s3 = s0\<lparr>plinks := h1, process_table := (process_table s0)(p := p')\<rparr>"
  have l3: "plinks s3 = h1" and key: "\<forall>x. p_prio (proc s3 x) = p_prio (proc s x)" by (simp_all add: s3_def p'_def t0)
  obtain h2 where h2: "proc_add (QHead actionable) (Chaining p) p_prio s3 = Inr (s3\<lparr>plinks := h2\<rparr>)"
    "sched_ok h2 ((process_table s0)(p := p')) (io_done p (process_table s) Q) {cur_pid s0}" "same_rest (plinks s0) h2"
    using h1(2) [OF l3 key] by (auto simp: io_done_def)
  have s3h: "s3\<lparr>plinks := h2\<rparr> = s1\<lparr>plinks := h2\<rparr>" by (simp add: s3_def s0_def s1 p'_def)
  have run1: "running (s1\<lparr>plinks := h2\<rparr>) (io_done p (process_table s) Q)"
  proof -
    have "s3\<lparr>plinks := h2\<rparr> = s0\<lparr>plinks := h2, process_table := (process_table s0)(p := p')\<rparr>" by (simp add: s3_def)
    then show ?thesis using running_moved [OF run0 p pp(2) h2(2,3)] unfolding s3h [symmetric] by metis
  qed
  have "signal_end_io p k s = reschedule k (s1\<lparr>plinks := h2\<rparr>)"
    using find_pid_ok [OF runningD(1) [OF run0], of io_blocked p] p h1(1) h2(1)
    by (simp add: signal_end_io_def Let_def s0_def [symmetric] upd_proc_def s3h [symmetric]) (simp add: s3_def p'_def t0)
  with run1 reschedule_preempt [OF run1, of k] show ?thesis by auto
qed

text \<open>The return key while a process waits for a line.\<close>

lemma enter_ok:
  fixes s :: "('m, 'z) kbd_scheme"
  assumes run: "running s Q" and ok: "kbd_ok s K" and rd: "reading s \<noteq> 0"
    and p: "calling_pid s \<in> set (Q io_blocked)"
  shows "\<exists>s' Q' K'. keyboard_data (CHR 13) s = Inr (None, s')
    \<and> running s' Q' \<and> kbd_ok s' K' \<and> reading s' = 0
    \<and> typed s' K' = (if length (typed s K) < 100 then typed s K @ [CHR 0x00] else typed s K)
    \<and> p_state (proc s' (calling_pid s)) = actionable \<and> calling_pid s \<notin> set (Q' io_blocked)"
proof -
  let ?p = "calling_pid s" and ?line = "typed s K"
  note e = echo_key_fields [of "CHR 13" s]
  have ok2: "kbd_ok (echo_key (CHR 13) s) K" using ok by (simp add: e)
  obtain s2 K2 where s2: "put_buff (CHR 0x00) (echo_key (CHR 13) s) = Inr s2" "kbd_ok s2 K2"
    "typed s2 K2 = (if length ?line < 100 then ?line @ [CHR 0x00] else ?line)"
    "outside_buffer s2 = outside_buffer (echo_key (CHR 13) s)"
    using put_buff_ok [OF ok2, of "CHR 0x00"] by (auto simp: e)
  note f = outside_buffer_fields [OF s2(4)]
  define s3 where "s3 = s2\<lparr>calling_pid := 0, reading := 0\<rparr>"
  have run3: "running s3 Q" using run f(3) e by (simp add: s3_def running_def)
  define s4 where "s4 = s3\<lparr>read_mutex := read_mutex s3 + 1,
      process_table := (process_table s3)(?p := (proc s3 ?p)\<lparr>p_state := actionable\<rparr>)\<rparr>"
  obtain h s' Q' where sw: "signal_end_io ?p Iret s3 = Inr (None, s')"
    "switched Iret (s4\<lparr>plinks := h\<rparr>) (io_done ?p (process_table s3) Q) s' Q'"
    using signal_end_io_ok [OF run3 p s4_def, of Iret] by blast
  have "keyboard_data (CHR 13) s = Inr (None, s')"
    using s2(1) sw(1) rd f e by (simp add: keyboard_data_def Let_def s3_def)
  moreover have "klinks s' = klinks s2" "buffer s' = buffer s2" "reading s' = 0"
    using sw(2) by (auto simp: switched_def Let_def after_switch_def s4_def s3_def)
  then have "kbd_ok s' K2" "typed s' K2 = typed s2 K2" "reading s' = 0" using s2(2) by (simp_all add: kbd_ok_def typed_def)
  moreover have "p_state (proc s' ?p) = actionable"
    using sw(2) by (auto simp: switched_def Let_def after_switch_def s4_def p_state_wake_table)
  moreover have "?p \<notin> set (Q' io_blocked)"
    using sched_okD(4) [OF runningD(1) [OF switched_running [OF sw(2)]], of ?p io_blocked] calculation(5) by auto
  ultimately show ?thesis
    using s2(3) switched_running [OF sw(2)] by (intro exI [of _ s'] exI [of _ Q'] exI [of _ K2]) simp
qed

text \<open>
  C18: typing a line. While a process waits for a line with an empty buffer, the keys typed before Enter
  edit the line (127 erases a character, characters after the 100th are dropped) and do not disturb the
  processes; Enter ends the line with a NUL if there is room, ends the reading, and makes the waiting
  process ready. No step faults.
\<close>

theorem typed_line_wakes_reader:
  fixes s :: "('m, 'z) kbd_scheme"
  assumes run: "running s Q" and ok: "kbd_ok s K" "typed s K = []" and rd: "reading s \<noteq> 0"
    and p: "calling_pid s \<in> set (Q io_blocked)" and ks: "CHR 13 \<notin> set ks"
    and line: "line = fold press ks []"
  shows "\<exists>s1 s' Q' K'. keys ks s = Inr s1 \<and> running s1 Q \<and> keyboard_data (CHR 13) s1 = Inr (None, s')
    \<and> running s' Q' \<and> kbd_ok s' K' \<and> reading s' = 0
    \<and> typed s' K' = (if length line < 100 then line @ [CHR 0x00] else line)
    \<and> p_state (proc s' (calling_pid s)) = actionable \<and> calling_pid s \<notin> set (Q' io_blocked)"
proof -
  obtain s1 K1 where s1: "keys ks s = Inr s1" "kbd_ok s1 K1" "typed s1 K1 = line" "reading s1 = reading s"
    "calling_pid s1 = calling_pid s" "running s1 Q"
    using keys_ok [OF ok(1) rd ks] ok(2) run line by auto
  have "reading s1 \<noteq> 0" "calling_pid s1 \<in> set (Q io_blocked)" using s1 rd p by simp_all
  from enter_ok [OF s1(6,2) this] show ?thesis unfolding s1(3,5) using s1(1,6) by blast
qed

section \<open>cons_read\<close>

text \<open>The state in which \<^verbatim>\<open>cons_read\<close> gives the processor away: the caller waits for a line.\<close>

definition awaiting_line :: "('m, 'z) kbd_scheme \<Rightarrow> ('m, 'z) kbd_scheme" where
  "awaiting_line s = s\<lparr>process_table := (process_table s)(cur_pid s := (proc s (cur_pid s))\<lparr>p_state := io_blocked\<rparr>),
     calling_pid := cur_pid s, reading := 1\<rparr>"

definition io_queue :: "('m, 'z) procs_scheme \<Rightarrow> (list_type \<Rightarrow> int list) \<Rightarrow> list_type \<Rightarrow> int list" where
  "io_queue s Q = Q(io_blocked := prio_insert (process_table s) (cur_pid s) (Q io_blocked))"

lemma cons_read_blocks:
  fixes s :: "('m, 'z) kbd_scheme"
  assumes run: "running s Q" and cur: "cur_pid s \<noteq> 0" and ok: "kbd_ok s K" "typed s K = []" and len: "len \<noteq> 0"
  shows "\<exists>h s' Q'. cons_read_enter sh str len s = Inr (None, s')
    \<and> switched (ConsReadCopy sh str len) ((awaiting_line s)\<lparr>plinks := h\<rparr>) (io_queue s Q) s' Q'"
proof -
  let ?c = "cur_pid s"
  define p' where "p' = (proc s ?c)\<lparr>p_state := io_blocked\<rparr>"
  define pt where "pt = (process_table s)(?c := p')"
  have pp: "p_pid p' = p_pid (proc s ?c)" "p_state p' = io_blocked" by (simp_all add: p'_def)
  have same: "s = s\<lparr>process_table := process_table s\<rparr>" by simp
  from block_current [where key = p_prio and k = "\<lambda>x. p_prio (proc s x)", OF run pp refl same pt_def]
  obtain h where h: "proc_add (QHead io_blocked) (Chaining ?c) p_prio s = Inr (s\<lparr>plinks := h\<rparr>)"
    "sched_ok h pt (io_queue s Q) {}" "gc_ok h []" by (auto simp: io_queue_def)
  define s2 where "s2 = (awaiting_line s)\<lparr>plinks := h\<rparr>"
  have f: "process_table s2 = (process_table s)(?c := p')" "cur_pid s2 = ?c" "plinks s2 = h"
    by (simp_all add: s2_def awaiting_line_def p'_def)
  have "sched_ok (plinks s2) (process_table s2) (io_queue s Q) {}" "gc_ok (plinks s2) []"
    using h(2,3) by (simp_all add: f pt_def)
  from switch_blocked [OF run cur _ _ f(1,2) pp(2) this, of "ConsReadCopy sh str len"]
  obtain s' Q' where sw: "scheduler (ConsReadCopy sh str len) s2 = Inr s'" "switched (ConsReadCopy sh str len) s2 (io_queue s Q) s' Q'"
    by auto
  have "enable_reading ?c (upd_proc ?c (\<lambda>p. p\<lparr>p_state := io_blocked\<rparr>) (s\<lparr>plinks := h\<rparr>)) = s2"
    by (simp add: enable_reading_def upd_proc_def s2_def awaiting_line_def)
  moreover have "cur_pid (upd_proc ?c (\<lambda>p. p\<lparr>p_state := io_blocked\<rparr>) (s\<lparr>plinks := h\<rparr>)) = ?c" by (simp add: upd_proc_def)
  ultimately have "cons_read_enter sh str len s = reschedule (ConsReadCopy sh str len) s2"
    using h(1) len buff_empty_ok [OF ok(1)] ok(2) by (simp add: cons_read_enter_def Let_def)
  with sw show ?thesis by (auto simp: reschedule_def s2_def)
qed

lemma to_int_of_nat:
  assumes "n < 2 ^ 31"
  shows "to_int (of_nat n) = int n"
proof -
  have "uint (of_nat n :: u32) = int n" using assms by (simp add: unsigned_of_nat take_bit_nat_eq_self)
  then show ?thesis using to_int_small [of "of_nat n"] assms by simp
qed

lemma cons_read_end_alone:
  fixes s :: "('m, 'z) kbd_scheme"
  assumes "running s Q" and "Q io_blocked = []"
  shows "cons_read_end res s = Inr (Some (to_int res), s)"
  using pq.queues_empty [OF sched_okD(1) [OF runningD(1) [OF assms(1)]], of io_blocked] assms(2)
  by (simp add: cons_read_end_def signal_cons_read_io_def)

text \<open>
  C17: \<^verbatim>\<open>cons_read\<close>. With a sound buffer and no other reader waiting it never faults. A length of 0 reads
  nothing. If characters are in the buffer, the line they start with is copied to memory with a NUL after
  it, its length is returned, and the cursor goes to a new line. If the buffer is empty the caller waits:
  it is queued with its priority, the next lines typed are for it, and another process is elected.
\<close>

theorem cons_read_contract:
  fixes s :: "('m, 'z) kbd_scheme"
  assumes run: "running s Q" and cur: "cur_pid s \<noteq> 0" and ok: "kbd_ok s K" and mutex: "0 \<le> read_mutex s"
    and alone: "Q io_blocked = []" and rl: "read_line (unat len) (typed s K) = (l, r)"
  shows "if len = 0 then cons_read str len s = Inr (Some 0, s)
    else if typed s K \<noteq> [] then \<exists>s1 K'. cons_read str len s = Inr (Some (int (length l)), handle_char (CHR 10) s1)
      \<and> kbd_ok (handle_char (CHR 10) s1) K' \<and> typed (handle_char (CHR 10) s1) K' = r \<and> running (handle_char (CHR 10) s1) Q
      \<and> outside_buffer s1 = outside_buffer (s\<lparr>mem := write_bytes (mem s) str (bytes l @ [0])\<rparr>)
    else \<exists>h s' Q'. cons_read str len s = Inr (None, s')
      \<and> switched (ConsReadCopy False str len) ((awaiting_line s)\<lparr>plinks := h\<rparr>) (io_queue s Q) s' Q'"
proof -
  have enter: "cons_read str len s = cons_read_enter False str len s" using mutex by (simp add: cons_read_def wait_on_io_def)
  consider "len = 0" | "len \<noteq> 0" "typed s K = []" | "len \<noteq> 0" "typed s K \<noteq> []" by blast
  then show ?thesis
  proof cases
    case 1
    then show ?thesis using cons_read_end_alone [OF run alone, of 0] using enter by (simp add: cons_read_enter_def to_int_def)
  next
    case 2
    then show ?thesis using cons_read_blocks [OF run cur ok] by (simp add: enter)
  next
    case 3
    have "length (typed s K) < NB_KLINKS" using typed_length [OF ok] by simp
    with rl obtain s1 K' where s1: "copy_from_buffer str len s = Inr (of_nat (length l), s1)" "kbd_ok s1 K'" "typed s1 K' = r"
      "outside_buffer s1 = outside_buffer (s\<lparr>mem := write_bytes (mem s) str (bytes l @ [0])\<rparr>)"
      using copy_loop_ok [OF ok, of NB_KLINKS 0 len l r str] by (auto simp: copy_from_buffer_def)
    let ?s2 = "handle_char (CHR 10) s1"
    note f = more_kbd [OF handle_char_more [of "CHR 10" s1]]
    have run1: "running s1 Q" using outside_buffer_fields(3) [OF s1(4)] run by (simp add: running_def)
    have run2: "running ?s2 Q" using run1 by (simp add: running_def f)
    have "kbd_ok ?s2 K'" "typed ?s2 K' = r" using s1(2,3) by (simp_all add: kbd_ok_def typed_def f)
    moreover have "to_int (of_nat (length l)) = int (length l)"
      using read_line_length [of "unat len" "typed s K"] rl typed_length [OF ok]
      by (intro to_int_of_nat) simp
    then have "cons_read str len s = Inr (Some (int (length l)), ?s2)"
      using 3 s1(1) buff_empty_ok [OF ok] cons_read_end_alone [OF run2 alone, of "of_nat (length l)"]
      by (simp add: enter cons_read_enter_def cons_read_copy_def newline)
    ultimately show ?thesis using 3 s1(4) run2 by auto
  qed
qed

section \<open>Initialisation\<close>

definition blank_frames :: "int \<Rightarrow> (int \<Rightarrow> frame) \<Rightarrow> int \<Rightarrow> frame" where
  "blank_frames n b = (\<lambda>i. if 0 \<le> i \<and> i < n then (b i)\<lparr>f_id := i, f_val := CHR 0x00, f_arrival := 1\<rparr> else b i)"

lemma init_buffer_steps:
  fixes s :: "('m, 'z) kbd_scheme"
  assumes "queues KHead KLink (klinks s) kids (\<lambda>_. [])" and "int n \<le> BUFFER_SIZE"
  shows "\<exists>h. mfold (\<lambda>i s.
       let s1 = upd_frame i (\<lambda>f. f\<lparr>f_id := i, f_val := CHR 0x00, f_arrival := 1\<rparr>) s;
           s2 = s1\<lparr>klinks := INIT_LINK (klinks s1) (KLink i)\<rparr>
       in frame_add kbd_free i f_id s2) [0..int n - 1] s
      = Inr (s\<lparr>buffer := blank_frames (int n) (buffer s), klinks := h\<rparr>)
    \<and> queues KHead KLink h kids ((\<lambda>_. [])(kbd_free := [0..int n - 1]))"
  (is "\<exists>h. mfold ?f _ _ = _ \<and> _")
  using assms(2)
proof (induction n)
  case 0
  have "blank_frames 0 b = b" for b by (auto simp: blank_frames_def fun_eq_iff)
  then show ?case using assms(1) by (intro exI [of _ "klinks s"]) simp
next
  case (Suc n)
  let ?K = "(\<lambda>_. [])(kbd_free := [0..int n - 1])"
  obtain h where h: "mfold ?f [0..int n - 1] s = Inr (s\<lparr>buffer := blank_frames (int n) (buffer s), klinks := h\<rparr>)"
    "queues KHead KLink h kids ?K" using Suc.IH Suc.prems by (fastforce simp del: fun_upd_apply)
  define s1 where "s1 = s\<lparr>buffer := blank_frames (int (Suc n)) (buffer s), klinks := h\<rparr>"
  have q1: "queues KHead KLink (klinks s1) kids ?K" using h(2) by (simp add: s1_def)
  have i: "int n \<in> kids" "in_no_queue ?K (int n)"
    using Suc.prems by (auto simp: kids_iff in_no_queue_def)
  then have un: "unlinked h (KLink (int n))" using queuesD(4) [OF h(2) i] by simp
  obtain h' where h': "frame_add kbd_free (int n) f_id s1 = Inr (s1\<lparr>klinks := h'\<rparr>)"
    "queues KHead KLink h' kids (?K(kbd_free := key_insert (\<lambda>j. f_id (buffer s1 j)) (int n) [0..int n - 1]))"
    using frame_add_ok [OF q1 i, of kbd_free f_id] by (auto simp del: fun_upd_upd)
  have ins: "key_insert (\<lambda>j. f_id (buffer s1 j)) (int n) [0..int n - 1] = [0..int n - 1] @ [int n]"
    by (subst key_insert_end) (auto simp: s1_def blank_frames_def)
  have "?f (int n) (s\<lparr>buffer := blank_frames (int n) (buffer s), klinks := h\<rparr>) = frame_add kbd_free (int n) f_id s1"
  proof -
    have "(blank_frames (int n) b)(int n := (b (int n))\<lparr>f_id := int n, f_val := CHR 0x00, f_arrival := 1\<rparr>)
        = blank_frames (int (Suc n)) b" for b :: "int \<Rightarrow> frame"
      by (auto simp: blank_frames_def fun_eq_iff)
    then show ?thesis
      by (simp add: upd_frame_def s1_def INIT_LINK_unlinked [OF un] blank_frames_def [of "int n", THEN fun_cong, of _ "int n"])
  qed
  then show ?case
    using h(1) h' ins by (intro exI [of _ h']) (simp add: mfold_append s1_def upto_rec2 del: fun_upd_apply)
qed

lemma init_buffer_ok:
  fixes s :: "('m, 'z) kbd_scheme"
  assumes "queues KHead KLink (klinks s) kids (\<lambda>_. [])"
  shows "\<exists>s'. init_buffer s = Inr s' \<and> kbd_ok s' ((\<lambda>_. [])(kbd_free := [0..99])) \<and> typed s' ((\<lambda>_. [])(kbd_free := [0..99])) = []
    \<and> outside_buffer s' = outside_buffer s"
proof -
  have "queues KHead KLink (klinks (s\<lparr>nb_chars := 0\<rparr>)) kids (\<lambda>_. [])" using assms by simp
  from init_buffer_steps [OF this, of 100] obtain h where
    h: "init_buffer s = Inr (s\<lparr>nb_chars := 0, buffer := blank_frames BUFFER_SIZE (buffer s), klinks := h\<rparr>)"
    "queues KHead KLink h kids ((\<lambda>_. [])(kbd_free := [0..99]))" by (auto simp: init_buffer_def)
  let ?s = "s\<lparr>nb_chars := 0, buffer := blank_frames BUFFER_SIZE (buffer s), klinks := h\<rparr>"
  have "kbd_ok ?s ((\<lambda>_. [])(kbd_free := [0..99]))"
    using h(2) by (auto simp: kbd_ok_def blank_frames_def kids_iff)
  then show ?thesis using h(1) by (auto simp: typed_def outside_buffer_def)
qed

section \<open>Examples\<close>

definition static_klinks :: "kloc links" where
  "static_klinks l = (case l of KHead t \<Rightarrow> \<lparr>lprev = Some l, lnext = Some l\<rparr> | KLink i \<Rightarrow> \<lparr>lprev = None, lnext = None\<rparr>)"

lemma static_klinks_queues: "queues KHead KLink static_klinks kids (\<lambda>_. [])"
  by (auto simp: queues_def dll_def static_klinks_def unlinked_def)

text \<open>The small kernel of \<^verbatim>\<open>Process_Ops\<close>, with the keyboard as the static initialisers leave it.\<close>

definition ex_kbd :: "unit kbd" where
  "ex_kbd = sems.extend (ex_state (sems.fields (\<lambda>_. \<lparr>sem_id = 0, sem_value = 0\<rparr>) (\<lambda>_. \<lparr>lprev = None, lnext = None\<rparr>)))
     (kbd.fields 1 0 0 0 (\<lambda>_. \<lparr>f_id = 0, f_val = CHR 0x00, f_arrival = 0\<rparr>) static_klinks)"

lemma ex_kbd_init:
  "\<exists>s K. init_buffer ex_kbd = Inr s \<and> kbd_ok s K \<and> typed s K = [] \<and> running s ex_queues \<and> cur_pid s = 1
     \<and> read_mutex s = 1"
proof -
  have e: "klinks ex_kbd = static_klinks" "cur_pid ex_kbd = 1" "process_table ex_kbd = ex_table" "plinks ex_kbd = ex_links"
    "read_mutex ex_kbd = 1"
    by (simp_all add: ex_kbd_def ex_state_def sems.defs kbd.defs)
  have run: "running ex_kbd ex_queues"
    using ex_running [of "()"] by (simp add: running_def e) (simp add: ex_state_def)
  have q: "queues KHead KLink (klinks ex_kbd) kids (\<lambda>_. [])" using static_klinks_queues by (simp add: e)
  obtain s K where s: "init_buffer ex_kbd = Inr s" "kbd_ok s K" "typed s K = []" "outside_buffer s = outside_buffer ex_kbd"
    using init_buffer_ok [OF q] by blast
  have "read_mutex s = read_mutex (outside_buffer s)" by (simp add: outside_buffer_def)
  also have "\<dots> = 1" unfolding s(4) by (simp add: outside_buffer_def e)
  finally show ?thesis using s outside_buffer_fields [OF s(4)] run e by auto
qed

lemma update_buffer_empties_witness:
  "\<exists>s s'. init_buffer ex_kbd = Inr s \<and> update_buffer s = Inr s' \<and> buff_empty s'"
proof -
  obtain s K where s: "init_buffer ex_kbd = Inr s" "kbd_ok s K" using ex_kbd_init by blast
  from update_buffer_empties [OF s(2)] s(1) show ?thesis by blast
qed

lemma ex_keys:
  "\<exists>s0 s K. init_buffer ex_kbd = Inr s0 \<and> keys ''ab'' (enable_reading 1 s0) = Inr s \<and> kbd_ok s K \<and> typed s K = ''ab''"
proof -
  obtain s0 K where s0: "init_buffer ex_kbd = Inr s0" "kbd_ok s0 K" "typed s0 K = []" using ex_kbd_init by blast
  let ?s = "enable_reading 1 s0"
  have "kbd_ok ?s K" "reading ?s \<noteq> 0" "typed ?s K = []" using s0 by (simp_all add: enable_reading_def kbd_ok_def typed_def)
  with keys_ok [of ?s K "''ab''"] s0(1) show ?thesis by (auto simp: press_def)
qed

lemma copy_from_buffer_refines_witness:
  "\<exists>s0 s s'. init_buffer ex_kbd = Inr s0 \<and> keys ''ab'' (enable_reading 1 s0) = Inr s
     \<and> copy_from_buffer 0x1000000 1 s = Inr (1, s') \<and> mem s' 0x1000000 = 97 \<and> mem s' 0x1000001 = 0"
proof -
  obtain s0 s K where s: "init_buffer ex_kbd = Inr s0" "keys ''ab'' (enable_reading 1 s0) = Inr s" "kbd_ok s K" "typed s K = ''ab''"
    using ex_keys by blast
  have rl: "read_line (unat (1 :: u32)) (typed s K) = (''a'', ''b'')" by (simp add: s(4))
  obtain s' where s': "copy_from_buffer 0x1000000 1 s = Inr (1, s')"
    "outside_buffer s' = outside_buffer (s\<lparr>mem := write_bytes (mem s) 0x1000000 (bytes ''a'' @ [0])\<rparr>)"
    using copy_from_buffer_refines [OF s(3) rl, of "0x1000000"] by auto
  then have "mem s' = write_bytes (mem s) 0x1000000 [97, 0]"
    using outside_buffer_mem(1) [OF s'(2)] by (simp add: bytes_def)
  with s(1,2) s'(1) show ?thesis by simp
qed

lemma ex_waiting:
  "\<exists>s0 s Q K. init_buffer ex_kbd = Inr s0 \<and> cons_read 0x1000000 10 s0 = Inr (None, s) \<and> running s Q \<and> kbd_ok s K
     \<and> typed s K = [] \<and> reading s = 1 \<and> calling_pid s = 1 \<and> 1 \<in> set (Q io_blocked)"
proof -
  obtain s0 K where s0: "init_buffer ex_kbd = Inr s0" "kbd_ok s0 K" "typed s0 K = []" "running s0 ex_queues" "cur_pid s0 = 1"
    "read_mutex s0 = 1" using ex_kbd_init by blast
  have cur: "cur_pid s0 \<noteq> 0" and len: "(10 :: u32) \<noteq> 0" by (simp_all add: s0(5))
  obtain h s Q where s: "cons_read_enter False 0x1000000 10 s0 = Inr (None, s)"
    "switched (ConsReadCopy False 0x1000000 10) ((awaiting_line s0)\<lparr>plinks := h\<rparr>) (io_queue s0 ex_queues) s Q"
    using cons_read_blocks [OF s0(4) cur s0(2,3) len, of False "0x1000000"] by blast
  have "klinks s = klinks s0" "buffer s = buffer s0" "reading s = 1" "calling_pid s = 1" "1 \<in> set (Q io_blocked)"
    using s(2) s0(5) by (auto simp: switched_def Let_def after_switch_def awaiting_line_def io_queue_def)
  then show ?thesis
    using s s0 switched_running [OF s(2)] by (auto simp: cons_read_def wait_on_io_def kbd_ok_def typed_def)
qed

lemma typed_line_wakes_reader_witness:
  "\<exists>s0 s s1 s' K'. init_buffer ex_kbd = Inr s0 \<and> cons_read 0x1000000 10 s0 = Inr (None, s) \<and> keys ''ab'' s = Inr s1
     \<and> keyboard_data (CHR 13) s1 = Inr (None, s') \<and> typed s' K' = [CHR ''a'', CHR ''b'', CHR 0x00]
     \<and> p_state (proc s' 1) = actionable"
proof -
  obtain s0 s Q K where s: "init_buffer ex_kbd = Inr s0" "cons_read 0x1000000 10 s0 = Inr (None, s)" "running s Q" "kbd_ok s K"
    "typed s K = []" "reading s = 1" "calling_pid s = 1" "1 \<in> set (Q io_blocked)" using ex_waiting by blast
  have "reading s \<noteq> 0" "calling_pid s \<in> set (Q io_blocked)" "CHR 13 \<notin> set ''ab''" using s by simp_all
  from typed_line_wakes_reader [OF s(3,4,5) this refl] s(1,2,7) show ?thesis by (auto simp: press_def)
qed

lemma cons_read_contract_witness:
  "\<exists>s0 s Q'. init_buffer ex_kbd = Inr s0 \<and> cons_read 0x1000000 10 s0 = Inr (None, s) \<and> running s Q'"
proof -
  obtain s0 K where s0: "init_buffer ex_kbd = Inr s0" "kbd_ok s0 K" "typed s0 K = []" "running s0 ex_queues" "cur_pid s0 = 1"
    "read_mutex s0 = 1" using ex_kbd_init by blast
  have a: "cur_pid s0 \<noteq> 0" "0 \<le> read_mutex s0" "ex_queues io_blocked = []" by (simp_all add: s0 ex_queues_def)
  have rl: "read_line (unat (10 :: u32)) (typed s0 K) = ([], [])" by (simp add: s0(3))
  show ?thesis
    using cons_read_contract [OF s0(4) a(1) s0(2) a(2,3) rl, of "0x1000000"] s0 by (auto dest: switched_running)
qed

end
