(* ===== verification/Family.thy ===== *)
theory Family
  imports Lifecycle
begin

text \<open>
  What \<^verbatim>\<open>exit\<close>, \<^verbatim>\<open>kill\<close>, \<^verbatim>\<open>waitpid\<close> and the collector of memory do: the invariant of the family tree, and the
  effect of each operation on the three kinds of lists (state queues, lists of children, list of the dead).
\<close>

section \<open>The three families of lists\<close>

definition same_but_gc :: "ploc links \<Rightarrow> ploc links \<Rightarrow> bool" where
  "same_but_gc h h' \<longleftrightarrow> (\<forall>l \<in> gq.outside. h' l = h l)"

lemma same_but_gcD:
  assumes "same_but_gc h h'"
  shows "h' (QHead t) = h (QHead t)" "h' (Chaining p) = h (Chaining p)" "h' (ChildLink p) = h (ChildLink p)"
    "h' (ChildrenHead p) = h (ChildrenHead p)"
  using assms by (auto simp: same_but_gc_def gq.outside_def)

lemma gc_frames:
  assumes "same_but_gc h h'"
  shows "sched_ok h pt Q R \<Longrightarrow> sched_ok h' pt Q R" and "kids_ok T h C \<Longrightarrow> kids_ok T h' C"
  using queues_frame [of h' QHead h Chaining pids Q] queues_on_frame [of T h' ChildrenHead h ChildLink pids C]
  by (simp_all add: sched_ok_def kids_ok_def same_but_gcD [OF assms])

lemma kids_del_ok:
  fixes s :: "('m, 'z) procs_scheme"
  assumes "kids_ok T (plinks s) C" and "p \<in> set (C f)"
  shows "\<exists>h. proc_del (ChildLink p) s = Inr (s\<lparr>plinks := h\<rparr>) \<and> kids_ok T h (C(f := remove1 p (C f)))
    \<and> same_but_kids (plinks s) h"
  using cq.queues_on_del [OF assms(1) [unfolded kids_ok_def] assms(2)]
  by (auto simp: proc_del_def on_links_def kids_ok_def same_but_kids_def)

lemma gc_add_ok:
  fixes s :: "('m, 'z) procs_scheme"
  assumes "gc_ok (plinks s) []" and "p \<in> pids"
  shows "\<exists>h. add_garbage_collection p s = Inr (s\<lparr>plinks := h\<rparr>) \<and> gc_ok h [p] \<and> same_but_gc (plinks s) h"
proof -
  have "in_no_queue (\<lambda>_ :: unit. []) p" by (simp add: in_no_queue_def)
  from gq.queues_add [OF assms(1) [unfolded gc_ok_def] card_pids assms(2) this, of "\<lambda>e. p_pid (proc s (owner e))" "()"]
  obtain h where h: "queue_add NB_LINKS (plinks s) (\<lambda>e. p_pid (proc s (owner e))) GcHead (GcLink p) = Inr h"
    "queues (\<lambda>_ :: unit. GcHead) GcLink h pids ((\<lambda>_. [])(() := [p]))" "\<forall>l \<in> gq.outside. h l = plinks s l" by auto
  moreover have "(\<lambda>_ :: unit. [])(() := [p]) = (\<lambda>_. [p])" by auto
  ultimately show ?thesis
    by (auto simp: add_garbage_collection_def proc_add_def on_links_def gc_ok_def same_but_gc_def)
qed

lemma gc_out_ok:
  fixes s :: "('m, 'z) procs_scheme"
  assumes "gc_ok (plinks s) [p]"
  shows "\<exists>h. proc_out GcHead s = Inr (p, s\<lparr>plinks := h\<rparr>) \<and> gc_ok h [] \<and> same_but_gc (plinks s) h"
proof -
  from gq.queues_out [OF assms [unfolded gc_ok_def], of "()"]
  obtain h where h: "queue_out (plinks s) GcHead = Inr (Some (GcLink p), h)"
    "queues (\<lambda>_ :: unit. GcHead) GcLink h pids ((\<lambda>_. [p])(() := []))" "\<forall>l \<in> gq.outside. h l = plinks s l" by auto
  moreover have "(\<lambda>_ :: unit. [p])(() := []) = (\<lambda>_. [])" by auto
  ultimately show ?thesis by (auto simp: proc_out_def gc_ok_def same_but_gc_def)
qed

section \<open>Freeing an identifier\<close>

definition freed :: "process \<Rightarrow> process" where
  "freed p = p\<lparr>p_awakener := -1, p_sem_blocked := -1, p_state := freepid\<rparr>"

lemma freed_fields [simp]:
  "p_pid (freed p) = p_pid p" "p_state (freed p) = freepid" "p_father (freed p) = p_father p" "p_prio (freed p) = p_prio p"
  "p_child_waited (freed p) = p_child_waited p" "p_retvalue (freed p) = p_retvalue p"
  by (simp_all add: freed_def)

lemma free_pid_ok:
  fixes s :: "('m, 'z) procs_scheme"
  assumes ok: "sched_ok (plinks s) (process_table s) Q (insert p R)" and p: "p \<in> pids" "p \<notin> R"
  shows "\<exists>h hp. free_pid E p s = Inr (s\<lparr>heap := hp, process_table := (process_table s)(p := freed (proc s p)), plinks := h\<rparr>)
    \<and> sched_ok h ((process_table s)(p := freed (proc s p)))
        (Q(freepid := key_insert (\<lambda>x. p_pid (proc s x)) p (Q freepid))) R
    \<and> same_rest (plinks s) h"
proof -
  let ?pt = "(process_table s)(p := freed (proc s p))"
  obtain hp where s1: "free_name E p s = s\<lparr>heap := hp\<rparr>" by (auto simp: free_name_def)
  define s2 where "s2 = s\<lparr>heap := hp, process_table := ?pt\<rparr>"
  have ok2: "sched_ok (plinks s2) ?pt Q (insert p R)" using sched_ok_upd [OF ok, of "freed (proc s p)" p] by (simp add: s2_def)
  have st: "p_state (?pt p) = freepid" by simp
  have key: "p_pid (proc s2 x) = p_pid (proc s x)" for x by (simp add: s2_def)
  obtain h where h: "proc_add (QHead freepid) (Chaining p) p_pid s2 = Inr (s2\<lparr>plinks := h\<rparr>)"
    "sched_ok h ?pt (Q(freepid := key_insert (\<lambda>x. p_pid (proc s x)) p (Q freepid))) R" "same_rest (plinks s) h"
    using proc_add_ok [where key = p_pid and k = "\<lambda>x. p_pid (proc s x)" and pt = ?pt, OF ok2 insertI1 p(1) st key refl] p(2)
    by (auto simp: s2_def insert_Diff_if)
  have "upd_proc p (\<lambda>q. q\<lparr>p_awakener := -1, p_sem_blocked := -1, p_state := freepid\<rparr>) (free_name E p s) = s2"
    by (simp add: s1 upd_proc_def s2_def freed_def)
  with h show ?thesis
    by (intro exI [of _ h] exI [of _ hp]) (simp add: free_pid_def Let_def, simp add: s2_def)
qed

section \<open>The lists together\<close>

text \<open>The state queues, the lists of children and the list of the dead of a state.\<close>

definition lists_ok :: "int set \<Rightarrow> ('m, 'z) procs_scheme \<Rightarrow> (list_type \<Rightarrow> int list) \<Rightarrow> (int \<Rightarrow> int list) \<Rightarrow> int list \<Rightarrow> int set \<Rightarrow> bool" where
  "lists_ok T s Q C G R \<longleftrightarrow> sched_ok (plinks s) (process_table s) Q R \<and> kids_ok T (plinks s) C \<and> gc_ok (plinks s) G"

text \<open>\<open>s'\<close> is \<open>s\<close> with the table \<open>pt\<close>, other links and another state of the allocators.\<close>

definition becomes :: "('m, 'z) procs_scheme \<Rightarrow> (int \<Rightarrow> process) \<Rightarrow> ('m, 'z) procs_scheme \<Rightarrow> bool" where
  "becomes s pt s' \<longleftrightarrow> (\<exists>h hp. s' = s\<lparr>process_table := pt, plinks := h, heap := hp\<rparr>)"

lemma becomesI: "s' = s\<lparr>process_table := pt, plinks := h, heap := hp\<rparr> \<Longrightarrow> becomes s pt s'"
  by (auto simp: becomes_def)

lemma becomesD:
  assumes "becomes s pt s'"
  shows "process_table s' = pt" "cur_pid s' = cur_pid s" "mem s' = mem s" "current_clock s' = current_clock s"
    "procs.more s' = procs.more s" "resume_at s' = resume_at s"
  using assms by (auto simp: becomes_def current_clock_def)

lemma becomes_trans [trans]: "becomes s pt s1 \<Longrightarrow> becomes s1 pt' s2 \<Longrightarrow> becomes s pt' s2"
  unfolding becomes_def by fastforce

lemma lists_okD:
  assumes "lists_ok T s Q C G R"
  shows "sched_ok (plinks s) (process_table s) Q R" "kids_ok T (plinks s) C" "gc_ok (plinks s) G"
  using assms by (simp_all add: lists_ok_def)

lemma lists_upd:
  assumes "lists_ok T s Q C G R" and "p_pid (f (proc s p)) = p_pid (proc s p)"
    and "p \<in> R \<or> p \<notin> pids \<or> p_state (f (proc s p)) = p_state (proc s p)"
  shows "lists_ok T (upd_proc p f s) Q C G R" "becomes s ((process_table s)(p := f (proc s p))) (upd_proc p f s)"
proof -
  show "lists_ok T (upd_proc p f s) Q C G R"
    using sched_ok_upd [OF lists_okD(1) [OF assms(1)] assms(2,3)] assms(1) by (simp add: lists_ok_def upd_proc_def)
  show "becomes s ((process_table s)(p := f (proc s p))) (upd_proc p f s)"
    by (rule becomesI [where h = "plinks s" and hp = "heap s"]) (simp add: upd_proc_def)
qed

lemma lists_kids_del:
  assumes "lists_ok T s Q C G R" and "p \<in> set (C f)"
  shows "\<exists>s'. proc_del (ChildLink p) s = Inr s' \<and> lists_ok T s' Q (C(f := remove1 p (C f))) G R \<and> becomes s (process_table s) s'"
proof -
  note ok = lists_okD [OF assms(1)]
  obtain h where h: "proc_del (ChildLink p) s = Inr (s\<lparr>plinks := h\<rparr>)" "kids_ok T h (C(f := remove1 p (C f)))"
    "same_but_kids (plinks s) h" using kids_del_ok [OF ok(2) assms(2)] by blast
  then show ?thesis
    using sched_ok_kids_frame [OF h(3) ok(1)] gc_ok_kids_frame [OF h(3)] ok(3)
    by (intro exI [of _ "s\<lparr>plinks := h\<rparr>"]) (auto simp: lists_ok_def intro!: becomesI [where h = h and hp = "heap s"])
qed

lemma lists_del:
  assumes "lists_ok T s Q C G R" and "p \<in> set (Q t)"
  shows "\<exists>s'. proc_del (Chaining p) s = Inr s' \<and> lists_ok T s' (Q(t := remove1 p (Q t))) C G (insert p R) \<and> becomes s (process_table s) s'"
proof -
  note ok = lists_okD [OF assms(1)]
  obtain h where h: "proc_del (Chaining p) s = Inr (s\<lparr>plinks := h\<rparr>)"
    "sched_ok h (process_table s) (Q(t := remove1 p (Q t))) (insert p R)" "same_rest (plinks s) h"
    using proc_del_ok [OF ok(1) assms(2)] by blast
  then show ?thesis
    using kids_ok_frame [OF h(3) ok(2)] gc_ok_frame [OF h(3)] ok(3)
    by (intro exI [of _ "s\<lparr>plinks := h\<rparr>"]) (auto simp: lists_ok_def intro!: becomesI [where h = h and hp = "heap s"])
qed

lemma lists_free_pid:
  assumes ok: "lists_ok T s Q C G (insert p R)" and p: "p \<in> pids" "p \<notin> R"
  shows "\<exists>s' xs. free_pid E p s = Inr s' \<and> lists_ok T s' (Q(freepid := xs)) C G R
    \<and> becomes s ((process_table s)(p := freed (proc s p))) s'"
proof -
  note l = lists_okD [OF ok]
  obtain h hp where h: "free_pid E p s = Inr (s\<lparr>heap := hp, process_table := (process_table s)(p := freed (proc s p)), plinks := h\<rparr>)"
    "sched_ok h ((process_table s)(p := freed (proc s p))) (Q(freepid := key_insert (\<lambda>x. p_pid (proc s x)) p (Q freepid))) R"
    "same_rest (plinks s) h" using free_pid_ok [OF l(1) p] by blast
  define s' where "s' = s\<lparr>heap := hp, process_table := (process_table s)(p := freed (proc s p)), plinks := h\<rparr>"
  have "becomes s ((process_table s)(p := freed (proc s p))) s'"
    by (rule becomesI [where h = h and hp = hp]) (simp add: s'_def)
  moreover have "lists_ok T s' (Q(freepid := key_insert (\<lambda>x. p_pid (proc s x)) p (Q freepid))) C G R"
    using h(2) kids_ok_frame [OF h(3) l(2)] gc_ok_frame [OF h(3)] l(3) by (simp add: lists_ok_def s'_def)
  ultimately show ?thesis using h(1) s'_def by blast
qed

section \<open>The death of a process\<close>

abbreviation is_zombie :: "(int \<Rightarrow> process) \<Rightarrow> int \<Rightarrow> bool" where
  "is_zombie pt p \<equiv> p_state (pt p) = zombie"

definition free_all :: "int list \<Rightarrow> (int \<Rightarrow> process) \<Rightarrow> int \<Rightarrow> process" where
  "free_all Z pt = (\<lambda>p. if p \<in> set Z then freed (pt p) else pt p)"

text \<open>The queues \<open>Q'\<close> are \<open>Q\<close> without the zombies \<open>Z\<close>; only the queue of the free identifiers may differ more.\<close>

definition without_zombies :: "int list \<Rightarrow> (list_type \<Rightarrow> int list) \<Rightarrow> (list_type \<Rightarrow> int list) \<Rightarrow> bool" where
  "without_zombies Z Q Q' \<longleftrightarrow> (\<forall>t. t \<noteq> freepid \<longrightarrow> Q' t = (if t = zombie then filter (\<lambda>p. p \<notin> set Z) (Q zombie) else Q t))"

lemma find_filter: "find P xs = (case filter P xs of [] \<Rightarrow> None | x # _ \<Rightarrow> Some x)"
  by (induction xs) auto

lemma filter_remove_found:
  assumes "filter P xs = x # ys" and "distinct xs"
  shows "filter P (remove1 x xs) = ys" "filter (\<lambda>y. \<not> P y) (remove1 x xs) = filter (\<lambda>y. \<not> P y) xs" "x \<in> set xs" "P x" "x \<notin> set ys"
proof -
  have d: "distinct (x # ys)" using distinct_filter [OF assms(2), of P] assms(1) by simp
  have "x \<in> set (filter P xs)" unfolding assms(1) by simp
  then show x: "x \<in> set xs" "P x" "x \<notin> set ys" using d by auto
  show "filter P (remove1 x xs) = ys" using assms x by (simp add: filter_remove1)
  show "filter (\<lambda>y. \<not> P y) (remove1 x xs) = filter (\<lambda>y. \<not> P y) xs" using x(2) by (simp add: filter_remove1 remove1_idem)
qed

lemma check_zombies_children_loop_ok:
  assumes "lists_ok T s Q C G R" and "f \<in> T" and "Z = filter (is_zombie (process_table s)) (C f)" and "set Z \<inter> R = {}"
    and "length Z < n"
  shows "\<exists>s' Q'. check_zombies_children_loop n E f s = Inr s'
    \<and> lists_ok T s' Q' (C(f := filter (\<lambda>p. \<not> is_zombie (process_table s) p) (C f))) G R \<and> without_zombies Z Q Q'
    \<and> becomes s (free_all Z (process_table s)) s'"
  using assms
proof (induction Z arbitrary: n s Q C)
  case Nil
  obtain m where n: "n = Suc m" using Nil.prems(5) by (cases n) auto
  note ok = lists_okD [OF Nil.prems(1)]
  have none: "\<not> is_zombie (process_table s) p" if "p \<in> set (C f)" for p
    using Nil.prems(3) [symmetric] that by (simp add: filter_empty_conv)
  then have "filter (\<lambda>p. \<not> is_zombie (process_table s) p) (C f) = C f" by (simp add: filter_id_conv)
  moreover have "find (\<lambda>p. is_zombie (process_table s) p) (C f) = None" using none by (simp add: find_None_iff)
  moreover have "free_all [] (process_table s) = process_table s" by (simp add: free_all_def)
  moreover have "becomes s (process_table s) s" by (rule becomesI [where h = "plinks s" and hp = "heap s"]) simp
  moreover have "without_zombies [] Q Q" by (simp add: without_zombies_def)
  ultimately show ?case
    using Nil.prems(1) cq.queues_on_for_each(1) [OF ok(2) [unfolded kids_ok_def] card_pids Nil.prems(2)]
    by (intro exI [of _ s] exI [of _ Q]) (simp add: n)
next
  case (Cons z Z)
  let ?pt = "process_table s" and ?C1 = "C(f := remove1 z (C f))"
  obtain m where n: "n = Suc m" using Cons.prems(5) by (cases n) auto
  note ok = lists_okD [OF Cons.prems(1)]
  have dist: "distinct (C f)" by (rule queues_on_distinct [OF ok(2) [unfolded kids_ok_def]])
  note z = filter_remove_found [OF Cons.prems(3) [symmetric] dist]
  have zp: "z \<in> pids" "z \<notin> R" using z(3) queues_onD(2) [OF ok(2) [unfolded kids_ok_def]] Cons.prems(4) by auto
  have pid: "p_pid (?pt z) = z" by (rule sched_okD(2) [OF ok(1) zp(1)])
  have zq: "z \<in> set (Q zombie)" using sched_okD(6) [OF ok(1) zp] z(4) by simp
  have each: "queue_for_each NB_LINKS (plinks s) (ChildrenHead f) (\<lambda>l. is_zombie ?pt (owner l)) = Inr (Some (ChildLink z))"
    using cq.queues_on_for_each(1) [OF ok(2) [unfolded kids_ok_def] card_pids Cons.prems(2)]
      Cons.prems(3) [symmetric] by (simp add: find_filter)
  obtain s1 where s1: "proc_del (ChildLink z) s = Inr s1" "lists_ok T s1 Q ?C1 G R" "becomes s ?pt s1"
    using lists_kids_del [OF Cons.prems(1) z(3)] by blast
  have found: "find_pid (QHead zombie) z s1 = Inr (Some z)" using find_pid_ok [OF lists_okD(1) [OF s1(2)]] zq by simp
  obtain s2 where s2: "proc_del (Chaining z) s1 = Inr s2" "lists_ok T s2 (Q(zombie := remove1 z (Q zombie))) ?C1 G (insert z R)"
    "becomes s ?pt s2"
    using lists_del [OF s1(2) zq] becomes_trans [OF s1(3)] becomesD(1) [OF s1(3)] by auto
  obtain s3 xs where s3: "free_pid E z s2 = Inr s3" "lists_ok T s3 (Q(zombie := remove1 z (Q zombie), freepid := xs)) ?C1 G R"
    "becomes s (?pt(z := freed (?pt z))) s3"
    using lists_free_pid [OF s2(2) zp, of E] becomes_trans [OF s2(3)] becomesD(1) [OF s2(3)] by auto
  note tab = becomesD(1) [OF s3(3)]
  have Z: "Z = filter (is_zombie (process_table s3)) (?C1 f)"
    using z(1) dist by (auto simp: tab intro!: filter_cong)
  have "set Z \<inter> R = {}" "length Z < m" using Cons.prems(4,5) by (auto simp: n)
  from Cons.IH [OF s3(2) Cons.prems(2) Z this] obtain s' Q' where
    s': "check_zombies_children_loop m E f s3 = Inr s'"
    "lists_ok T s' Q' (?C1(f := filter (\<lambda>p. \<not> is_zombie (process_table s3) p) (?C1 f))) G R"
    "without_zombies Z (Q(zombie := remove1 z (Q zombie), freepid := xs)) Q'" "becomes s3 (free_all Z (process_table s3)) s'" by blast
  have "filter (\<lambda>p. \<not> is_zombie (process_table s3) p) (?C1 f) = filter (\<lambda>p. \<not> is_zombie ?pt p) (C f)"
    using z(2) filter_cong [OF refl, of "remove1 z (C f)" "\<lambda>p. \<not> is_zombie (process_table s3) p" "\<lambda>p. \<not> is_zombie ?pt p"] dist
    by (simp add: tab)
  then have C': "?C1(f := filter (\<lambda>p. \<not> is_zombie (process_table s3) p) (?C1 f)) = C(f := filter (\<lambda>p. \<not> is_zombie ?pt p) (C f))" by simp
  have Q': "without_zombies (z # Z) Q Q'"
    using s'(3) sched_ok_distinct [OF ok(1), of zombie]
    by (auto simp: without_zombies_def distinct_remove1_removeAll removeAll_filter_not_eq intro!: filter_cong)
  have "free_all Z (process_table s3) = free_all (z # Z) ?pt" using z(5) by (auto simp: tab free_all_def)
  then have "becomes s (free_all (z # Z) ?pt) s'" using becomes_trans [OF s3(3) s'(4)] by simp
  moreover have "check_zombies_children_loop n E f s = Inr s'"
    using each s1(1) found s2(1) s3(1) s'(1) by (simp add: n pid Let_def del_found_def)
  ultimately show ?case using s'(2) [unfolded C'] Q' by blast
qed

lemma check_zombies_children_ok:
  assumes ok: "lists_ok T s Q C G R" and f: "f \<in> T" and Z: "Z = filter (is_zombie (process_table s)) (C f)" "set Z \<inter> R = {}"
  shows "\<exists>s' Q'. check_zombies_children E f s = Inr s'
    \<and> lists_ok T s' Q' (C(f := filter (\<lambda>p. \<not> is_zombie (process_table s) p) (C f))) G R \<and> without_zombies Z Q Q'
    \<and> becomes s (free_all Z (process_table s)) s'"
proof -
  have "length Z \<le> length (C f)" by (simp add: Z(1))
  also have "\<dots> \<le> card pids" by (rule queues_on_length [OF lists_okD(2) [OF ok, unfolded kids_ok_def] card_pids(1)])
  finally have "length Z < NB_LINKS" using card_pids(2) by simp
  from check_zombies_children_loop_ok [OF ok f Z this] show ?thesis by (simp add: check_zombies_children_def)
qed

text \<open>The table when the processes \<open>xs\<close> have become orphans.\<close>

definition orphaned :: "int list \<Rightarrow> (int \<Rightarrow> process) \<Rightarrow> int \<Rightarrow> process" where
  "orphaned xs pt = (\<lambda>p. if p \<in> set xs then (pt p)\<lparr>p_father := 0\<rparr> else pt p)"

lemma funeral_fold:
  "fold (\<lambda>l. upd_proc (owner l) (\<lambda>p. p\<lparr>p_father := 0\<rparr>)) (map ChildLink xs) s = s\<lparr>process_table := orphaned xs (process_table s)\<rparr>"
  by (induction xs arbitrary: s) (auto simp: orphaned_def upd_proc_def fun_eq_iff intro!: arg_cong2 [where f = "\<lambda>pt x. x\<lparr>process_table := pt\<rparr>"])

lemma funeral_ok:
  assumes ok: "lists_ok T s Q C G R" and f: "f \<in> T"
  shows "\<exists>s'. funeral f s = Inr s' \<and> lists_ok T s' Q C G R \<and> becomes s (orphaned (C f) (process_table s)) s'"
proof -
  let ?pt = "orphaned (C f) (process_table s)"
  note l = lists_okD [OF ok]
  have "sched_ok (plinks s) ?pt Q R" by (rule sched_ok_table [OF l(1)]) (simp add: orphaned_def)
  then have "lists_ok T (s\<lparr>process_table := ?pt\<rparr>) Q C G R" using l by (simp add: lists_ok_def)
  moreover have "funeral f s = Inr (s\<lparr>process_table := ?pt\<rparr>)"
    using cq.queues_on_for_each(3) [OF l(2) [unfolded kids_ok_def] card_pids f] by (simp add: funeral_def funeral_fold)
  moreover have "becomes s ?pt (s\<lparr>process_table := ?pt\<rparr>)" by (rule becomesI [where h = "plinks s" and hp = "heap s"]) simp
  ultimately show ?thesis by blast
qed


text \<open>The table after \<^verbatim>\<open>report_father\<close>: a father that waits for this child, or for any child, is ready.\<close>

abbreviation awaited :: "(int \<Rightarrow> process) \<Rightarrow> int \<Rightarrow> bool" where
  "awaited pt p \<equiv> p_child_waited (pt (p_father (pt p))) \<in> {p, -1}"

definition reported :: "int \<Rightarrow> (int \<Rightarrow> process) \<Rightarrow> int \<Rightarrow> process" where
  "reported p pt = (if awaited pt p then pt(p_father (pt p) := (pt (p_father (pt p)))\<lparr>p_child_waited := p, p_state := actionable\<rparr>)
     else pt)"

definition report_queues :: "int \<Rightarrow> (int \<Rightarrow> process) \<Rightarrow> (list_type \<Rightarrow> int list) \<Rightarrow> list_type \<Rightarrow> int list" where
  "report_queues p pt Q = (let f = p_father (pt p) in if awaited pt p
     then Q(waiting_child := remove1 f (Q waiting_child), actionable := key_insert (\<lambda>x. p_pid (pt x)) f (Q actionable)) else Q)"

lemma report_father_ok:
  fixes s :: "('m, 'z) procs_scheme"
  assumes ok: "lists_ok T s Q C G R" and w: "awaited (process_table s) p \<Longrightarrow> p_father (proc s p) \<in> set (Q waiting_child)"
  shows "\<exists>r s'. report_father p s = Inr (r, s') \<and> lists_ok T s' (report_queues p (process_table s) Q) C G R
    \<and> becomes s (reported p (process_table s)) s'"
proof (cases "awaited (process_table s) p")
  case False
  moreover have "becomes s (process_table s) s" by (rule becomesI [where h = "plinks s" and hp = "heap s"]) simp
  ultimately show ?thesis using ok by (simp add: report_father_def reported_def report_queues_def)
next
  case True
  let ?f = "p_father (proc s p)" and ?pt = "process_table s"
  define p' where "p' = (proc s ?f)\<lparr>p_child_waited := p, p_state := actionable\<rparr>"
  define s1 where "s1 = upd_proc ?f (\<lambda>q. q\<lparr>p_child_waited := p\<rparr>) s"
  note fw = w [OF True]
  have ok1: "lists_ok T s1 Q C G R" unfolding s1_def by (rule lists_upd(1) [OF ok]) simp_all
  have tab1: "process_table s1 = ?pt(?f := (proc s ?f)\<lparr>p_child_waited := p\<rparr>)" by (simp add: s1_def upd_proc_def)
  have found: "find_pid (QHead waiting_child) ?f s1 = Inr (Some ?f)" using find_pid_ok [OF lists_okD(1) [OF ok1]] fw by simp
  have p': "p_pid p' = p_pid (proc s1 ?f)" "p_state p' = actionable" by (simp_all add: p'_def tab1)
  obtain h1 where h1: "proc_del (Chaining ?f) s1 = Inr (s1\<lparr>plinks := h1\<rparr>)"
    and add: "\<And>(s3 :: ('m, 'z) procs_scheme) key k. plinks s3 = h1 \<Longrightarrow> \<forall>x. key (proc s3 x) = k x \<Longrightarrow>
        (\<exists>h2. proc_add (QHead actionable) (Chaining ?f) key s3 = Inr (s3\<lparr>plinks := h2\<rparr>)
          \<and> sched_ok h2 ((process_table s1)(?f := p')) (Q(waiting_child := remove1 ?f (Q waiting_child),
              actionable := key_insert k ?f (Q actionable))) R
          \<and> same_rest (plinks s1) h2)"
    using move_to_ready [OF lists_okD(1) [OF ok1] fw _ p'] by auto
  have key: "\<forall>x. p_pid (proc (s1\<lparr>plinks := h1\<rparr>) x) = p_pid (proc s x)" by (simp add: tab1)
  have rq: "report_queues p ?pt Q = Q(waiting_child := remove1 ?f (Q waiting_child),
      actionable := key_insert (\<lambda>x. p_pid (?pt x)) ?f (Q actionable))" using True by (simp add: report_queues_def Let_def)
  obtain h2 where h2: "proc_add (QHead actionable) (Chaining ?f) p_pid (s1\<lparr>plinks := h1\<rparr>) = Inr (s1\<lparr>plinks := h2\<rparr>)"
    "sched_ok h2 (?pt(?f := p')) (report_queues p ?pt Q) R" "same_rest (plinks s1) h2"
    using add [OF _ key] by (auto simp: tab1 rq)
  define s' where "s' = s\<lparr>process_table := ?pt(?f := p'), plinks := h2\<rparr>"
  have fin: "upd_proc ?f (\<lambda>q. q\<lparr>p_state := actionable\<rparr>) (s1\<lparr>plinks := h2\<rparr>) = s'"
    by (simp add: s1_def s'_def upd_proc_def p'_def)
  have "report_father p s = Inr (p, s')"
    using True found h1 h2(1) fin by (auto simp: report_father_def Let_def s1_def [symmetric] del_found_def)
  moreover have "lists_ok T s' (report_queues p ?pt Q) C G R"
    using h2(2) kids_ok_frame [OF h2(3) lists_okD(2) [OF ok1]] gc_ok_frame [OF h2(3)] lists_okD(3) [OF ok1]
    by (simp add: lists_ok_def s'_def)
  moreover have "becomes s (reported p ?pt) s'"
    by (rule becomesI [where h = h2 and hp = "heap s"]) (use True in \<open>simp add: s'_def reported_def p'_def\<close>)
  ultimately show ?thesis by blast
qed


text \<open>
  The table after the death of \<open>p\<close> at the time \<open>time\<close>, when \<open>xs\<close> is its list of children: the father is told, the
  zombies among the children are freed, the others become orphans.
\<close>

definition dead :: "int \<Rightarrow> process \<Rightarrow> process" where
  "dead time q = q\<lparr>p_alarm_time := time, p_state := zombie\<rparr>"

definition mourned :: "int \<Rightarrow> int \<Rightarrow> int list \<Rightarrow> (int \<Rightarrow> process) \<Rightarrow> int \<Rightarrow> process" where
  "mourned time p xs pt = orphaned (filter (\<lambda>x. \<not> is_zombie pt x) xs)
     (free_all (filter (is_zombie pt) xs) (reported p (pt(p := dead time (pt p)))))"

lemma become_zombie_ok:
  assumes ok: "lists_ok T s Q C [] (insert p R)" and p: "p \<in> pids" "p \<notin> R" "p \<in> T" "p \<notin> set (C p)" "p_father (proc s p) \<noteq> p"
    and R: "\<forall>r \<in> R. \<not> is_zombie (process_table s) r"
    and w: "awaited (process_table s) p \<Longrightarrow> p_father (proc s p) \<in> set (Q waiting_child)"
  shows "\<exists>s' Q'. become_zombie E p s = Inr s' \<and> becomes s (mourned (to_int (current_clock s)) p (C p) (process_table s)) s'
    \<and> lists_ok T s' Q' (C(p := filter (\<lambda>x. \<not> is_zombie (process_table s) x) (C p))) [p] R"
proof -
  let ?pt = "process_table s" and ?time = "to_int (current_clock s)"
  define pt1 where "pt1 = ?pt(p := dead ?time (?pt p))"
  define s1 where "s1 = upd_proc p (\<lambda>q. q\<lparr>p_alarm_time := ?time\<rparr>) s"
  have ok1: "sched_ok (plinks s1) pt1 Q (insert p R)"
    using sched_ok_upd [OF lists_okD(1) [OF ok], of "dead ?time (?pt p)" p] by (simp add: s1_def pt1_def dead_def upd_proc_def)
  have st1: "p_state (pt1 p) = zombie" by (simp add: pt1_def dead_def)
  obtain h where h: "proc_add (QHead zombie) (Chaining p) p_alarm_time s1 = Inr (s1\<lparr>plinks := h\<rparr>)"
    "sched_ok h pt1 (Q(zombie := key_insert (\<lambda>x. p_alarm_time (proc s1 x)) p (Q zombie))) R" "same_rest (plinks s) h"
    using proc_add_ok [where key = p_alarm_time and pt = pt1, OF ok1 insertI1 p(1) st1 refl refl] p(2)
    by (auto simp: s1_def upd_proc_def insert_Diff_if)
  define Q2 where "Q2 = Q(zombie := key_insert (\<lambda>x. p_alarm_time (proc s1 x)) p (Q zombie))"
  define s2 where "s2 = s\<lparr>process_table := pt1, plinks := h\<rparr>"
  have s2: "upd_proc p (\<lambda>q. q\<lparr>p_state := zombie\<rparr>) (s1\<lparr>plinks := h\<rparr>) = s2"
    by (simp add: s1_def s2_def upd_proc_def pt1_def dead_def)
  have b2: "becomes s pt1 s2" by (rule becomesI [where h = h and hp = "heap s"]) (simp add: s2_def)
  have ok2: "lists_ok T s2 Q2 C [] R"
    using h(2) kids_ok_frame [OF h(3) lists_okD(2) [OF ok]] gc_ok_frame [OF h(3)] lists_okD(3) [OF ok]
    by (simp add: lists_ok_def s2_def Q2_def)
  have aw: "awaited pt1 p \<longleftrightarrow> awaited ?pt p" "p_father (pt1 p) = p_father (?pt p)" using p(5) by (simp_all add: pt1_def dead_def)
  obtain r s3 where s3: "report_father p s2 = Inr (r, s3)" "lists_ok T s3 (report_queues p pt1 Q2) C [] R" "becomes s (reported p pt1) s3"
    using report_father_ok [OF ok2, of p] w aw becomes_trans [OF b2] becomesD(1) [OF b2] by (auto simp: Q2_def)
  have zom: "is_zombie (reported p pt1) x \<longleftrightarrow> is_zombie ?pt x" if "x \<noteq> p" for x
    using that w sched_okD(4) [OF lists_okD(1) [OF ok], of "p_father (?pt p)" waiting_child] aw p(5)
    by (auto simp: reported_def pt1_def dead_def)
  have kids: "filter (is_zombie (process_table s3)) (C p) = filter (is_zombie ?pt) (C p)"
    "filter (\<lambda>x. \<not> is_zombie (process_table s3) x) (C p) = filter (\<lambda>x. \<not> is_zombie ?pt x) (C p)"
    unfolding becomesD(1) [OF s3(3)] by (rule filter_cong [OF refl]; use p(4) zom in metis)+
  have "set (filter (is_zombie ?pt) (C p)) \<inter> R = {}" using R by auto
  then obtain s4 Q4 where s4: "check_zombies_children E p s3 = Inr s4"
    "lists_ok T s4 Q4 (C(p := filter (\<lambda>x. \<not> is_zombie ?pt x) (C p))) [] R"
    "becomes s (free_all (filter (is_zombie ?pt) (C p)) (reported p pt1)) s4"
    using check_zombies_children_ok [OF s3(2) p(3) kids(1) [symmetric], of E] becomes_trans [OF s3(3)] unfolding kids(2)
    unfolding becomesD(1) [OF s3(3)] by blast
  obtain s5 where s5: "funeral p s4 = Inr s5" "lists_ok T s5 Q4 (C(p := filter (\<lambda>x. \<not> is_zombie ?pt x) (C p))) [] R"
    "becomes s (mourned ?time p (C p) ?pt) s5"
    using funeral_ok [OF s4(2) p(3)] becomes_trans [OF s4(3)] unfolding becomesD(1) [OF s4(3)] mourned_def pt1_def by auto
  obtain h6 where h6: "add_garbage_collection p s5 = Inr (s5\<lparr>plinks := h6\<rparr>)" "gc_ok h6 [p]" "same_but_gc (plinks s5) h6"
    using gc_add_ok [OF lists_okD(3) [OF s5(2)] p(1)] by blast
  have "lists_ok T (s5\<lparr>plinks := h6\<rparr>) Q4 (C(p := filter (\<lambda>x. \<not> is_zombie ?pt x) (C p))) [p] R"
    using gc_frames [OF h6(3)] h6(2) lists_okD(1,2) [OF s5(2)] by (simp add: lists_ok_def)
  moreover have "becomes s5 (process_table s5) (s5\<lparr>plinks := h6\<rparr>)" by (rule becomesI [where h = h6 and hp = "heap s5"]) simp
  then have "becomes s (mourned ?time p (C p) ?pt) (s5\<lparr>plinks := h6\<rparr>)"
    using becomes_trans [OF s5(3)] becomesD(1) [OF s5(3)] by simp
  moreover have "become_zombie E p s = Inr (s5\<lparr>plinks := h6\<rparr>)"
    using h(1) s3(1) s4(1) s5(1) h6(1) by (simp add: become_zombie_def Let_def s1_def [symmetric] s2)
  ultimately show ?thesis by blast
qed


section \<open>Collecting the memory of a dead process\<close>

lemma lists_gc_out:
  fixes s :: "('m, 'z) procs_scheme"
  assumes "lists_ok T s Q C [p] R"
  shows "\<exists>s'. proc_out GcHead s = Inr (p, s') \<and> lists_ok T s' Q C [] R \<and> becomes s (process_table s) s'"
proof -
  note ok = lists_okD [OF assms]
  obtain h where h: "proc_out GcHead s = Inr (p, s\<lparr>plinks := h\<rparr>)" "gc_ok h []" "same_but_gc (plinks s) h"
    using gc_out_ok [OF ok(3)] by blast
  then show ?thesis
    using gc_frames [OF h(3)] ok(1,2)
    by (intro exI [of _ "s\<lparr>plinks := h\<rparr>"]) (auto simp: lists_ok_def intro!: becomesI [where h = h and hp = "heap s"])
qed

text \<open>A dead process without a father (an orphan, or a child of \<^verbatim>\<open>idle\<close>) is freed, the others stay as zombies.\<close>

definition collected :: "int \<Rightarrow> (int \<Rightarrow> process) \<Rightarrow> int \<Rightarrow> process" where
  "collected p pt = (if p_father (pt p) = 0 then pt(p := freed (pt p)) else pt)"

definition collected_kids :: "int \<Rightarrow> int \<Rightarrow> (int \<Rightarrow> process) \<Rightarrow> (int \<Rightarrow> int list) \<Rightarrow> int \<Rightarrow> int list" where
  "collected_kids p f pt C = (if p_father (pt p) = 0 then C(f := remove1 p (C f)) else C)"

lemma garbage_collect_ok:
  fixes s :: "('m, 'z) procs_scheme"
  assumes ok: "lists_ok T s Q C [p] R" and p: "p \<in> set (Q zombie)" "p \<in> set (C f)"
  shows "\<exists>s' Q'. garbage_collect E s = Inr s' \<and> lists_ok T s' Q' (collected_kids p f (process_table s) C) [] R
    \<and> becomes s (collected p (process_table s)) s'"
proof -
  let ?pt = "process_table s"
  note pk = sched_okD(3,5) [OF lists_okD(1) [OF ok] p(1)]
  have need: "garbage_collection_needed s" using gc_ok_needed [OF lists_okD(3) [OF ok]] by simp
  obtain s1 where s1: "proc_out GcHead s = Inr (p, s1)" "lists_ok T s1 Q C [] R" "becomes s ?pt s1"
    using lists_gc_out [OF ok] by blast
  define hp where "hp = user_stack_free E (p_user_stack (?pt p)) (p_user_stack_size (?pt p))
    (mem_free E (p_kernel_stack (?pt p)) KERNEL_STACK_SIZE (heap s1))"
  define s3 where "s3 = s1\<lparr>heap := hp\<rparr>"
  note tab1 = becomesD(1) [OF s1(3)]
  have b3: "becomes s ?pt s3"
    by (rule becomes_trans [OF s1(3)], rule becomesI [where h = "plinks s1" and hp = hp]) (simp add: s3_def tab1)
  have ok3: "lists_ok T s3 Q C [] R" using s1(2) by (simp add: lists_ok_def s3_def)
  note tab3 = becomesD(1) [OF b3]
  have "\<exists>s' Q'. collect_one E s = Inr s' \<and> lists_ok T s' Q' (collected_kids p f ?pt C) [] R \<and> becomes s (collected p ?pt) s'"
  proof (cases "p_father (?pt p) = 0")
    case False
    then have "collect_one E s = Inr s3" using s1(1) by (simp add: collect_one_def Let_def tab1 s3_def hp_def)
    then show ?thesis using ok3 b3 False by (auto simp: collected_def collected_kids_def)
  next
    case True
    obtain s4 where s4: "proc_del (Chaining p) s3 = Inr s4" "lists_ok T s4 (Q(zombie := remove1 p (Q zombie))) C [] (insert p R)"
      "becomes s ?pt s4" using lists_del [OF ok3 p(1)] becomes_trans [OF b3] unfolding tab3 by blast
    obtain s5 where s5: "proc_del (ChildLink p) s4 = Inr s5"
      "lists_ok T s5 (Q(zombie := remove1 p (Q zombie))) (C(f := remove1 p (C f))) [] (insert p R)" "becomes s ?pt s5"
      using lists_kids_del [OF s4(2) p(2)] becomes_trans [OF s4(3)] unfolding becomesD(1) [OF s4(3)] by blast
    obtain s6 Q6 where s6: "free_pid E p s5 = Inr s6" "lists_ok T s6 Q6 (C(f := remove1 p (C f))) [] R"
      "becomes s (?pt(p := freed (?pt p))) s6"
      using lists_free_pid [OF s5(2) pk, of E] becomes_trans [OF s5(3)] unfolding becomesD(1) [OF s5(3)] by blast
    have pid: "p_pid (proc s5 p) = p" using sched_okD(2) [OF lists_okD(1) [OF s5(2)] pk(1)] .
    have "collect_one E s = Inr s6"
      using s1(1) s4(1) s5(1) s6(1) True pid by (simp add: collect_one_def Let_def tab1 s3_def hp_def)
    then show ?thesis using s6 True by (auto simp: collected_def collected_kids_def)
  qed
  then obtain s' Q' where s': "collect_one E s = Inr s'" "lists_ok T s' Q' (collected_kids p f ?pt C) [] R" "becomes s (collected p ?pt) s'"
    by blast
  have "\<not> garbage_collection_needed s'" using gc_ok_needed [OF lists_okD(3) [OF s'(2)]] by simp
  then have "garbage_collect E s = Inr s'" using need s'(1) by (simp add: garbage_collect_def eval_nat_numeral)
  with s' show ?thesis by blast
qed

section \<open>The family tree\<close>

definition alive :: "(int \<Rightarrow> process) \<Rightarrow> int \<Rightarrow> bool" where
  "alive pt p \<longleftrightarrow> p_state (pt p) \<noteq> zombie \<and> p_state (pt p) \<noteq> freepid"

text \<open>
  What a process waits for: nothing, or a child while it is blocked, or a child that is already a zombie
  and whose end it will read when it runs.
\<close>

definition waits_ok :: "(int \<Rightarrow> process) \<Rightarrow> int \<Rightarrow> bool" where
  "waits_ok pt f \<longleftrightarrow> (let c = p_child_waited (pt f) in
     c = 0 \<or> p_state (pt f) = waiting_child \<or> (c \<in> pids \<and> is_zombie pt c \<and> p_father (pt c) = f))"

text \<open>
  The invariant of the family tree. Every process that is not free is linked in the list of children of
  its father, or of a dead process if it is an orphan; fathers are alive; a zombie has a father that can
  read its end; \<^verbatim>\<open>idle\<close> does not wait for its children.
\<close>

definition family :: "(int \<Rightarrow> process) \<Rightarrow> int set \<Rightarrow> (int \<Rightarrow> int list) \<Rightarrow> bool" where
  "family pt T C \<longleftrightarrow>
     (\<forall>p \<in> pids. p_state (pt p) \<noteq> freepid \<longrightarrow> p \<in> T \<and> (\<exists>f. p \<in> set (C f)) \<and> p_father (pt p) \<in> pids \<and> alive pt (p_father (pt p)))
     \<and> (\<forall>f. \<forall>c \<in> set (C f). p_state (pt c) \<noteq> freepid \<and> p_father (pt c) \<in> {f, 0} \<and> (c \<noteq> 0 \<longrightarrow> c \<noteq> f))
     \<and> (\<forall>p \<in> pids. is_zombie pt p \<longrightarrow> p_father (pt p) \<noteq> 0)
     \<and> (\<forall>f \<in> pids. alive pt f \<longrightarrow> waits_ok pt f) \<and> alive pt 0 \<and> p_child_waited (pt 0) = 0"

lemma familyD:
  assumes "family pt T C"
  shows "p \<in> pids \<Longrightarrow> p_state (pt p) \<noteq> freepid \<Longrightarrow> p \<in> T" "p \<in> pids \<Longrightarrow> p_state (pt p) \<noteq> freepid \<Longrightarrow> \<exists>f. p \<in> set (C f)"
    "p \<in> pids \<Longrightarrow> p_state (pt p) \<noteq> freepid \<Longrightarrow> p_father (pt p) \<in> pids"
    "p \<in> pids \<Longrightarrow> p_state (pt p) \<noteq> freepid \<Longrightarrow> alive pt (p_father (pt p))"
    "c \<in> set (C f) \<Longrightarrow> p_state (pt c) \<noteq> freepid" "c \<in> set (C f) \<Longrightarrow> p_father (pt c) = f \<or> p_father (pt c) = 0"
    "c \<in> set (C f) \<Longrightarrow> c \<noteq> 0 \<Longrightarrow> c \<noteq> f"
    "p \<in> pids \<Longrightarrow> is_zombie pt p \<Longrightarrow> p_father (pt p) \<noteq> 0" "f \<in> pids \<Longrightarrow> alive pt f \<Longrightarrow> waits_ok pt f" "alive pt 0"
    "p_child_waited (pt 0) = 0"
  using assms unfolding family_def by blast+


lemma family_father:
  assumes "family pt T C" and "p \<in> pids" "p \<noteq> 0" "p_state (pt p) \<noteq> freepid"
  shows "p_father (pt p) \<noteq> p" and "p_father (pt p) \<noteq> 0 \<Longrightarrow> p \<in> set (C (p_father (pt p)))"
  using familyD(2) [OF assms(1,2,4)] familyD(6,7) [OF assms(1)] assms(3) by metis+

lemma family_awaited:
  assumes fam: "family pt T C" and p: "p \<in> pids" "p \<noteq> 0" "alive pt p" and aw: "awaited pt p"
  shows "p_state (pt (p_father (pt p))) = waiting_child" "p_father (pt p) \<noteq> 0"
proof -
  let ?f = "p_father (pt p)"
  have f: "?f \<in> pids" "alive pt ?f" using familyD(3,4) [OF fam p(1)] p(3) by (simp_all add: alive_def)
  have "waits_ok pt ?f" by (rule familyD(9) [OF fam f])
  then show "p_state (pt ?f) = waiting_child"
    using aw p by (auto simp: waits_ok_def Let_def alive_def pids_iff)
  show "?f \<noteq> 0" using aw p(2) familyD(11) [OF fam] by auto
qed

text \<open>The fields of the table after a death.\<close>

lemma mourned_fields:
  assumes "p \<notin> set xs" and "p_father (pt p) \<noteq> p" and "awaited pt p \<Longrightarrow> \<not> is_zombie pt (p_father (pt p))"
  shows "p_state (mourned time p xs pt x) = (if x = p then zombie else if x \<in> set xs \<and> is_zombie pt x then freepid
      else if x = p_father (pt p) \<and> awaited pt p then actionable else p_state (pt x))"
    and "p_father (mourned time p xs pt x) = (if x \<in> set xs \<and> \<not> is_zombie pt x then 0 else p_father (pt x))"
    and "p_child_waited (mourned time p xs pt x) = (if x = p_father (pt p) \<and> awaited pt p then p else p_child_waited (pt x))"
    and "p_retvalue (mourned time p xs pt x) = p_retvalue (pt x)" "p_pid (mourned time p xs pt x) = p_pid (pt x)"
    "p_sem_blocked (mourned time p xs pt x) = (if x \<in> set xs \<and> is_zombie pt x then -1 else p_sem_blocked (pt x))"
  using assms by (simp_all add: mourned_def orphaned_def free_all_def reported_def dead_def freed_def)

text \<open>The father after a death and the collection of the memory.\<close>

definition bury :: "int \<Rightarrow> int \<Rightarrow> int list \<Rightarrow> (int \<Rightarrow> process) \<Rightarrow> int \<Rightarrow> process" where
  "bury time p xs pt = collected p (mourned time p xs pt)"

lemma bury_fields:
  assumes "p \<notin> set xs" and "p_father (pt p) \<noteq> p" and "awaited pt p \<Longrightarrow> \<not> is_zombie pt (p_father (pt p))"
  shows "p_state (bury time p xs pt x) = (if x = p then if p_father (pt p) = 0 then freepid else zombie
      else if x \<in> set xs \<and> is_zombie pt x then freepid
      else if x = p_father (pt p) \<and> awaited pt p then actionable else p_state (pt x))"
    and "p_father (bury time p xs pt x) = (if x \<in> set xs \<and> \<not> is_zombie pt x then 0 else p_father (pt x))"
    and "p_child_waited (bury time p xs pt x) = (if x = p_father (pt p) \<and> awaited pt p then p else p_child_waited (pt x))"
    and "p_retvalue (bury time p xs pt x) = p_retvalue (pt x)" "p_pid (bury time p xs pt x) = p_pid (pt x)"
  using assms(1) mourned_fields [OF assms] by (auto simp: bury_def collected_def)

definition bury_kids :: "int \<Rightarrow> int \<Rightarrow> (int \<Rightarrow> process) \<Rightarrow> (int \<Rightarrow> int list) \<Rightarrow> int \<Rightarrow> int list" where
  "bury_kids p f pt C = collected_kids p f pt (C(p := filter (\<lambda>x. \<not> is_zombie pt x) (C p)))"

lemma family_bury:
  assumes fam: "family pt T C" and p: "p \<in> pids" "p \<noteq> 0" "alive pt p" "p \<in> set (C f)"
    and C: "\<And>t t'. t \<noteq> t' \<Longrightarrow> set (C t) \<inter> set (C t') = {}" "\<And>t. set (C t) \<subseteq> pids" "\<And>t. distinct (C t)"
  shows "family (bury time p (C p) pt) T (bury_kids p f pt C)"
proof -
  let ?pt = "bury time p (C p) pt" and ?C = "bury_kids p f pt C" and ?f = "p_father (pt p)"
  have free: "p_state (pt p) \<noteq> freepid" using p(3) by (simp add: alive_def)
  note ff = family_father [OF fam p(1,2) free]
  have pC: "p \<notin> set (C p)" using familyD(7) [OF fam] p(2) by blast
  have fa: "?f \<in> pids" "alive pt ?f" using familyD(3,4) [OF fam p(1) free] by simp_all
  then have fz: "\<not> is_zombie pt ?f" by (simp add: alive_def)
  note b = bury_fields [OF pC ff(1) fz]
  have uniq: "t = f" if "p \<in> set (C t)" for t using C(1) [of t f] that p(4) by blast
  have sub: "set (?C t) \<subseteq> set (C t)" for t
    using set_remove1_subset [of p "C t"] set_remove1_subset [of p "filter (\<lambda>x. \<not> is_zombie pt x) (C p)"]
    by (auto simp: bury_kids_def collected_kids_def)
  have live: "alive ?pt x" if "alive pt x" "x \<noteq> p" for x using that b(1) [of time x] by (auto simp: alive_def)
  have live': "alive pt x" "x \<noteq> p" if "alive ?pt x" for x
    using that b(1) [of time x] fa(2) by (auto simp: alive_def split: if_splits)
  have stay: "x \<in> set (?C t)" if "x \<in> set (C t)" "p_state (?pt x) \<noteq> freepid" for x t
  proof -
    have "x \<noteq> p \<or> ?f \<noteq> 0" using that(2) b(1) [of time x] by auto
    moreover have "t = p \<Longrightarrow> \<not> is_zombie pt x" using that pC b(1) [of time x] by (auto split: if_splits)
    ultimately show ?thesis using that(1) ff(1) by (auto simp: bury_kids_def collected_kids_def)
  qed
  show ?thesis
    unfolding family_def
  proof (intro conjI ballI allI impI)
    fix x assume x: "x \<in> pids" "p_state (?pt x) \<noteq> freepid"
    then have xf: "p_state (pt x) \<noteq> freepid" using b(1) [of time x] free fa(2) by (auto simp: alive_def split: if_splits)
    show "x \<in> T" by (rule familyD(1) [OF fam x(1) xf])
    show "\<exists>t. x \<in> set (?C t)" using familyD(2) [OF fam x(1) xf] stay x(2) by blast
    show "p_father (?pt x) \<in> pids" using familyD(3) [OF fam x(1) xf] by (simp add: b(2))
    show "alive ?pt (p_father (?pt x))"
    proof (cases "x \<in> set (C p)")
      case True
      then have "x \<noteq> p" "\<not> is_zombie pt x" using pC x(2) b(1) [of time x] by (auto split: if_splits)
      then show ?thesis using True live [OF familyD(10) [OF fam]] p(2) by (simp add: b(2))
    next
      case False
      have "p_father (pt x) \<noteq> p"
      proof
        assume "p_father (pt x) = p"
        with familyD(2) [OF fam x(1) xf] familyD(6) [OF fam] p(2) have "x \<in> set (C p)" by metis
        with False show False ..
      qed
      then show ?thesis using live [OF familyD(4) [OF fam x(1) xf]] False by (simp add: b(2))
    qed
  next
    fix t c assume c: "c \<in> set (?C t)"
    then have ct: "c \<in> set (C t)" using sub by blast
    have z: "\<not> is_zombie pt c" if "c \<in> set (C p)"
    proof -
      have "t = p" using C(1) [of t p] ct that by blast
      then show ?thesis using c by (auto simp: bury_kids_def collected_kids_def notin_set_remove1 split: if_splits)
    qed
    have "?f \<noteq> 0" if "c = p"
      using c that uniq [of t] ct C(3) [of f] ff(1) by (auto simp: bury_kids_def collected_kids_def split: if_splits)
    then show "p_state (?pt c) \<noteq> freepid" using z familyD(5) [OF fam ct] b(1) [of time c] by auto
    show "p_father (?pt c) \<in> {t, 0}" using familyD(6) [OF fam ct] by (auto simp: b(2))
    assume "c \<noteq> 0"
    then show "c \<noteq> t" by (rule familyD(7) [OF fam ct])
  next
    fix x assume x: "x \<in> pids" "is_zombie ?pt x"
    show "p_father (?pt x) \<noteq> 0"
      using x familyD(8) [OF fam x(1)] b(1) [of time x] pC by (auto simp: b(2) split: if_splits)
  next
    fix g assume g: "g \<in> pids" "alive ?pt g"
    note gl = live' [OF g(2)]
    have w: "waits_ok pt g" by (rule familyD(9) [OF fam g(1) gl(1)])
    show "waits_ok ?pt g"
    proof (cases "g = ?f \<and> awaited pt p")
      case True
      then have "p_child_waited (?pt g) = p" "is_zombie ?pt p" "p_father (?pt p) = g"
        using family_awaited(2) [OF fam p(1-3)] b(1) [of time p] b(2) [of time p] b(3) [of time g] pC by auto
      then show ?thesis using p(1) by (simp add: waits_ok_def)
    next
      case False
      let ?c = "p_child_waited (pt g)"
      have same: "p_child_waited (?pt g) = ?c" "p_state (?pt g) = p_state (pt g)"
        using False gl b(1,3) [of time g] by (auto simp: alive_def)
      have "is_zombie ?pt ?c \<and> p_father (?pt ?c) = g" if c: "?c \<in> pids" "is_zombie pt ?c" "p_father (pt ?c) = g"
      proof -
        have "?c \<noteq> p" using c(2) p(3) by (auto simp: alive_def)
        moreover have "?c \<notin> set (C p)" using familyD(6) [OF fam, of ?c p] familyD(8) [OF fam c(1,2)] c(3) gl(2) by auto
        ultimately show ?thesis using c fz b(1,2) [of time ?c] by auto
      qed
      then show ?thesis using w unfolding waits_ok_def Let_def same by blast
    qed
  next
    show "alive ?pt 0" using live [OF familyD(10) [OF fam]] p(2) by simp
    show "p_child_waited (?pt 0) = 0"
    proof -
      have "\<not> (0 = ?f \<and> awaited pt p)" using family_awaited(2) [OF fam p(1-3)] by argo
      then show ?thesis unfolding b(3) using familyD(11) [OF fam] by argo
    qed
  qed
qed

end
