(* ===== verification/Family_Contracts.thy ===== *)
theory Family_Contracts
  imports Family Sem_Contracts
begin

text \<open>
  The contracts of \<^verbatim>\<open>exit\<close>, \<^verbatim>\<open>waitpid\<close> and \<^verbatim>\<open>kill\<close>: no fault, the family tree is kept, and the end of a process
  reaches its father exactly once.
\<close>

section \<open>The scheduler and the family\<close>

lemma family_cong:
  assumes "family pt T C"
    and "\<And>p. p_father (pt' p) = p_father (pt p) \<and> p_child_waited (pt' p) = p_child_waited (pt p)
      \<and> (is_zombie pt' p \<longleftrightarrow> is_zombie pt p) \<and> (p_state (pt' p) = freepid \<longleftrightarrow> p_state (pt p) = freepid)
      \<and> (p_state (pt' p) = waiting_child \<longleftrightarrow> p_state (pt p) = waiting_child)"
  shows "family pt' T C"
  using assms by (simp add: family_def alive_def waits_ok_def)

lemma family_wake:
  assumes "family pt T C" and "\<forall>d \<in> set D. p_state (pt d) = asleep"
  shows "family (wake_table D pt) T C"
  by (rule family_cong [OF assms(1)]) (use assms(2) in \<open>auto simp: p_state_wake_table\<close>)

lemma collected_wake: "p \<notin> set D \<Longrightarrow> collected p (wake_table D pt) = wake_table D (collected p pt)"
  by (auto simp: collected_def wake_table_def fun_eq_iff)

text \<open>The state is sound and so is the family tree.\<close>

definition family_ok :: "('m, 'z) procs_scheme \<Rightarrow> (list_type \<Rightarrow> int list) \<Rightarrow> (int \<Rightarrow> int list) \<Rightarrow> int set \<Rightarrow> bool" where
  "family_ok s Q C T \<longleftrightarrow> running s Q \<and> kids_ok T (plinks s) C \<and> family (process_table s) T C"

lemma family_okD:
  assumes "family_ok s Q C T"
  shows "running s Q" "kids_ok T (plinks s) C" "family (process_table s) T C" "lists_ok T s Q C [] {cur_pid s}"
    "t \<noteq> t' \<Longrightarrow> set (C t) \<inter> set (C t') = {}" "set (C t) \<subseteq> pids" "distinct (C t)"
proof -
  show r: "running s Q" and k: "kids_ok T (plinks s) C" and "family (process_table s) T C" using assms by (simp_all add: family_ok_def)
  show "lists_ok T s Q C [] {cur_pid s}" using runningD(1,2) [OF r] k by (simp add: lists_ok_def)
  note q = k [unfolded kids_ok_def]
  show "t \<noteq> t' \<Longrightarrow> set (C t) \<inter> set (C t') = {}" by (rule queues_onD(3) [OF q])
  show "set (C t) \<subseteq> pids" by (rule queues_onD(2) [OF q])
  show "distinct (C t)" by (rule queues_on_distinct [OF q])
qed

text \<open>A call of the scheduler by a process that cannot go on: the collector runs if there is a dead process.\<close>

lemma scheduler_leaves:
  fixes s :: "('m, 'z) procs_scheme"
  assumes ok: "lists_ok T s Q C G {}" and no: "p_state (proc s (cur_pid s)) \<noteq> actionable \<or> cur_pid s = PID_GARBAGE"
    and na: "cur_pid s \<notin> set (Q asleep)" and idle: "p_state (proc s 0) = actionable"
  shows "\<exists>s' Q' D. scheduler k s = Inr s' \<and> lists_ok T s' Q' C G ({cur_pid s'} \<inter> pids)
    \<and> process_table s' = wake_table D (process_table s) \<and> (\<forall>d \<in> set D. p_state (proc s d) = asleep)
    \<and> (if G = [] then running s' Q' else cur_pid s' = PID_GARBAGE)
    \<and> procs.more s' = procs.more s \<and> mem s' = mem s \<and> resume_at s' = (resume_at s)(cur_pid s := k)
    \<and> current_clock s' = current_clock s"
proof -
  note l = lists_okD [OF ok]
  define D where "D = due (to_int (current_clock s)) (process_table s) Q"
  define r where "r = ready_after D False (cur_pid s) (process_table s) Q"
  have Dq: "set D \<subseteq> set (Q asleep)" using set_due [of "to_int (current_clock s)" "process_table s" Q] by (auto simp: D_def)
  have D: "\<forall>d \<in> set D. p_state (proc s d) = asleep" using Dq sched_okD(4) [OF l(1)] by blast
  have z: "0 \<in> set r" using sched_okD(6) [OF l(1) zero_pid] idle by (simp add: r_def ready_after_def)
  have run: "False \<longleftrightarrow> p_state (proc s (cur_pid s)) = actionable \<and> cur_pid s \<noteq> PID_GARBAGE" using no by blast
  have nd: "cur_pid s \<notin> set D" and ne: "r \<noteq> []" using Dq na z by auto
  define n where "n = elected G r"
  obtain h where h: "scheduler k s = Inr (after_switch k D n s h)"
    "sched_ok h (wake_table D (process_table s)) (Q(asleep := drop (length D) (Q asleep), actionable := (if G = [] then butlast r else r)))
       ({n} \<inter> pids)" "same_rest (plinks s) h" "G = [] \<longrightarrow> n \<in> pids"
    using scheduler_ok [where k = k, OF l(1,3) run _ _ D_def nd r_def ne] unfolding n_def by auto
  define s' where "s' = after_switch k D n s h"
  have f: "process_table s' = wake_table D (process_table s)" "plinks s' = h" "cur_pid s' = n" "procs.more s' = procs.more s"
    "mem s' = mem s" "resume_at s' = (resume_at s)(cur_pid s := k)" "current_clock s' = current_clock s"
    by (simp_all add: s'_def after_switch_def current_clock_def)
  have lok: "lists_ok T s' (Q(asleep := drop (length D) (Q asleep), actionable := (if G = [] then butlast r else r))) C G ({n} \<inter> pids)"
    using h(2) kids_ok_frame [OF h(3) l(2)] gc_ok_frame [OF h(3)] l(3) by (simp add: lists_ok_def f)
  have "running s' (Q(asleep := drop (length D) (Q asleep), actionable := butlast r))" if G: "G = []"
  proof -
    have "n \<in> set r" using ne G by (simp add: n_def elected_def)
    then have "p_state (wake_table D (process_table s) n) = actionable"
      using sched_okD(4) [OF l(1), of n actionable] by (auto simp: r_def ready_after_def p_state_wake_table)
    then show ?thesis
      using lists_okD [OF lok] G h(4) idle by (simp add: running_def f p_state_wake_table)
  qed
  moreover have "scheduler k s = Inr s'" using h(1) by (simp add: s'_def)
  moreover have "G \<noteq> [] \<Longrightarrow> cur_pid s' = PID_GARBAGE" by (simp add: f n_def elected_def)
  ultimately show ?thesis
    using lok f D by (intro exI [of _ s'] exI [of _ "Q(asleep := drop (length D) (Q asleep), actionable := (if G = [] then butlast r else r))"]
      exI [of _ D]) simp
qed


section \<open>exit\<close>

text \<open>
  \<open>x\<close> is as in \<open>pt\<close>, except that a sleeper may have been woken.
\<close>

definition same_but_woken :: "process \<Rightarrow> process \<Rightarrow> bool" where
  "same_but_woken q q' \<longleftrightarrow> q' = q \<or> (p_state q = asleep \<and> q' = q\<lparr>p_alarm_time := 0, p_state := actionable\<rparr>)"

lemma wake_same_but_woken: "\<forall>d \<in> set D. p_state (pt d) = asleep \<Longrightarrow> same_but_woken (pt p) (wake_table D pt p)"
  by (auto simp: same_but_woken_def wake_table_def)

lemma same_but_woken_trans [trans]: "same_but_woken q q1 \<Longrightarrow> same_but_woken q1 q2 \<Longrightarrow> same_but_woken q q2"
  by (auto simp: same_but_woken_def)

text \<open>A death of the running process and the turn of the collector that follows.\<close>

lemma death_and_collection:
  fixes s :: "('m, 'z) procs_scheme"
  assumes fam: "family_ok s Q C T" and cur: "cur_pid s \<noteq> 0" and pt': "pt' = bury (to_int (current_clock s)) (cur_pid s) (C (cur_pid s)) (process_table s)"
  shows "\<exists>s0 s1 s' Q' C'. become_zombie E (cur_pid s) s = Inr s0 \<and> p_state (proc s0 (cur_pid s0)) = zombie
    \<and> cur_pid s0 = cur_pid s \<and> scheduler Dead s0 = Inr s1 \<and> cur_pid s1 = PID_GARBAGE \<and> resume_at s1 = (resume_at s)(cur_pid s := Dead)
    \<and> garbage_collector E s1 = Inr (None, s') \<and> family_ok s' Q' C' T
    \<and> (\<forall>x. same_but_woken (pt' x) (proc s' x)) \<and> procs.more s' = procs.more s \<and> mem s' = mem s
    \<and> resume_at s' = (resume_at s)(cur_pid s := Dead, PID_GARBAGE := Collect)"
proof -
  let ?p = "cur_pid s" and ?pt = "process_table s"
  note F = family_okD [OF fam]
  note R = runningD [OF F(1)]
  have al: "alive ?pt ?p" and free: "p_state (?pt ?p) \<noteq> freepid" using R(4) by (simp_all add: alive_def)
  obtain f where f: "?p \<in> set (C f)" using familyD(2) [OF F(3) R(3) free] by blast
  have fp: "f \<noteq> ?p" using familyD(7) [OF F(3) f cur] by blast
  have pC: "?p \<notin> set (C ?p)" using familyD(7) [OF F(3)] cur by blast
  note ff = family_father(1) [OF F(3) R(3) cur free]
  have w: "p_father (?pt ?p) \<in> set (Q waiting_child)" if "awaited ?pt ?p"
  proof -
    have "p_state (?pt (p_father (?pt ?p))) = waiting_child" by (rule family_awaited(1) [OF F(3) R(3) cur al that])
    then show ?thesis using sched_okD(6) [OF R(1) familyD(3) [OF F(3) R(3) free]] R(4) by fastforce
  qed
  define M where "M = mourned (to_int (current_clock s)) ?p (C ?p) ?pt"
  define C1 where "C1 = C(?p := filter (\<lambda>x. \<not> is_zombie ?pt x) (C ?p))"
  obtain s0 Q0 where s0: "become_zombie E ?p s = Inr s0" "becomes s M s0" "lists_ok T s0 Q0 C1 [?p] {}"
    using become_zombie_ok [OF F(4) R(3) _ familyD(1) [OF F(3) R(3) free] pC ff _ w, of E] by (auto simp: M_def C1_def)
  note b0 = becomesD [OF s0(2)]
  have nz: "awaited ?pt ?p \<Longrightarrow> \<not> is_zombie ?pt (p_father (?pt ?p))" using family_awaited(1) [OF F(3) R(3) cur al] by auto
  note M = mourned_fields [OF pC ff nz, of "to_int (current_clock s)", folded M_def]
  have st0: "p_state (proc s0 ?p) = zombie" "p_state (proc s0 0) = actionable"
    using R(5) cur M(1) [of ?p] M(1) [of 0] by (auto simp: b0(1))
  have na: "?p \<notin> set (Q0 asleep)" using sched_okD(4) [OF lists_okD(1) [OF s0(3)], of ?p asleep] st0(1) by auto
  obtain s1 Q1 D1 where s1: "scheduler Dead s0 = Inr s1" "lists_ok T s1 Q1 C1 [?p] {}" "process_table s1 = wake_table D1 M"
    "\<forall>d \<in> set D1. p_state (M d) = asleep" "cur_pid s1 = PID_GARBAGE" "procs.more s1 = procs.more s" "mem s1 = mem s"
    "resume_at s1 = (resume_at s0)(?p := Dead)"
    using scheduler_leaves [OF s0(3), of Dead] st0 na by (auto simp: b0 pids_iff)
  have pD: "?p \<notin> set D1" using s1(4) st0(1) by (auto simp: b0(1))
  then have pz: "?p \<in> set (Q1 zombie)"
    using sched_okD(6) [OF lists_okD(1) [OF s1(2)] R(3)] s1(3) st0(1) by (simp add: b0(1) p_state_wake_table)
  have fC1: "?p \<in> set (C1 f)" using f fp by (simp add: C1_def)
  define B where "B = collected ?p M"
  have B: "B = pt'" by (simp add: B_def M_def pt' bury_def)
  obtain s2 Q2 where s2: "garbage_collect E s1 = Inr s2" "lists_ok T s2 Q2 (collected_kids ?p f (process_table s1) C1) [] {}"
    "becomes s1 (wake_table D1 B) s2"
    using garbage_collect_ok [OF s1(2) pz fC1, of E] unfolding s1(3) collected_wake [OF pD] B_def by blast
  note b2 = becomesD [OF s2(3)]
  define C2 where "C2 = bury_kids ?p f ?pt C"
  have "p_father (process_table s1 ?p) = p_father (?pt ?p)" using M(2) [of ?p] pC by (simp add: s1(3))
  then have C2: "collected_kids ?p f (process_table s1) C1 = C2" by (simp add: C2_def bury_kids_def collected_kids_def C1_def)
  have B0: "p_state (B 0) = actionable" using M(1) [of 0] R(5) cur by (auto simp: B_def collected_def)
  have DB: "\<forall>d \<in> set D1. p_state (B d) = asleep" using s1(4) pD by (auto simp: B_def collected_def)
  have na2: "cur_pid s2 \<notin> set (Q2 asleep)" using sched_okD(3) [OF lists_okD(1) [OF s2(2)], of "cur_pid s2" asleep] b2(2) s1(5) by auto
  have no2: "p_state (proc s2 (cur_pid s2)) \<noteq> actionable \<or> cur_pid s2 = PID_GARBAGE" and idle2: "p_state (proc s2 0) = actionable"
    using B0 by (simp_all add: b2 s1(5) p_state_wake_table)
  obtain s' Q' D2 where s': "scheduler Collect s2 = Inr s'" "lists_ok T s' Q' C2 [] ({cur_pid s'} \<inter> pids)"
    "process_table s' = wake_table D2 (wake_table D1 B)" "\<forall>d \<in> set D2. p_state (wake_table D1 B d) = asleep" "running s' Q'"
    "procs.more s' = procs.more s" "mem s' = mem s" "resume_at s' = (resume_at s1)(PID_GARBAGE := Collect)"
    using scheduler_leaves [OF s2(2) no2 na2 idle2, of Collect] unfolding C2 b2 s1(5-7) simp_thms if_True by blast
  have "family B T C2" unfolding B pt' C2_def by (rule family_bury [OF F(3) R(3) cur al f F(5-7)])
  then have "family (process_table s') T C2" unfolding s'(3) by (intro family_wake) (use DB s'(4) in auto)
  then have "family_ok s' Q' C2 T" using s'(5) lists_okD(2) [OF s'(2)] by (simp add: family_ok_def)
  moreover have "same_but_woken (pt' x) (proc s' x)" for x
    unfolding s'(3) B [symmetric]
    using same_but_woken_trans [OF wake_same_but_woken [OF DB, of x] wake_same_but_woken [OF s'(4), of x]] .
  moreover have "garbage_collector E s1 = Inr (None, s')" using s2(1) s'(1) by (simp add: garbage_collector_def reschedule_def)
  ultimately show ?thesis
    using s0(1) s1(1,5,8) s'(6,7,8) st0(1) b0(2,6) by (intro exI [of _ s0] exI [of _ s1] exI [of _ s'] exI [of _ Q'] exI [of _ C2]) simp
qed


lemma family_ok_upd:
  assumes "family_ok s Q C T" and "p_pid (g (proc s p)) = p_pid (proc s p)" "p_state (g (proc s p)) = p_state (proc s p)"
    "p_father (g (proc s p)) = p_father (proc s p)" "p_child_waited (g (proc s p)) = p_child_waited (proc s p)"
  shows "family_ok (upd_proc p g s) Q C T"
proof -
  have "running (upd_proc p g s) Q" using running_upd [OF family_okD(1) [OF assms(1)] assms(2,3)] by (simp add: upd_proc_def)
  moreover have "family (process_table (upd_proc p g s)) T C"
    by (rule family_cong [OF family_okD(3) [OF assms(1)]]) (simp add: upd_proc_def assms(3-5))
  ultimately show ?thesis using family_okD(2) [OF assms(1)] by (simp add: family_ok_def upd_proc_def)
qed

text \<open>\<^verbatim>\<open>exit\<close> and the turn of the collector after it, on the table.\<close>

lemma exit_ok:
  fixes s :: "('m, 'z) sems_scheme"
  assumes fam: "family_ok s Q C T" and cur: "p = cur_pid s" "p \<noteq> 0"
    and pt': "pt' = bury (to_int (current_clock s)) p (C p) ((process_table s)(p := (proc s p)\<lparr>p_retvalue := v\<rparr>))"
  shows "\<exists>s1 s' Q' C'. exit E v s = Inr (None, s1) \<and> cur_pid s1 = PID_GARBAGE \<and> resume_at s1 = (resume_at s)(p := Dead)
    \<and> garbage_collector E s1 = Inr (None, s') \<and> family_ok s' Q' C' T \<and> (\<forall>x. same_but_woken (pt' x) (proc s' x))
    \<and> procs.more s' = procs.more s \<and> resume_at s' = (resume_at s)(p := Dead, PID_GARBAGE := Collect)"
proof -
  define s9 where "s9 = upd_proc p (\<lambda>q. q\<lparr>p_retvalue := v\<rparr>) s"
  have tab: "process_table s9 = (process_table s)(p := (proc s p)\<lparr>p_retvalue := v\<rparr>)" by (simp add: s9_def upd_proc_def)
  have f9: "cur_pid s9 = p" "current_clock s9 = current_clock s" "procs.more s9 = procs.more s" "resume_at s9 = resume_at s"
    by (simp_all add: s9_def upd_proc_def cur current_clock_def)
  have fam9: "family_ok s9 Q C T" unfolding s9_def by (rule family_ok_upd [OF fam]) simp_all
  obtain s0 s1 s' Q' C' where d: "become_zombie E p s9 = Inr s0" "p_state (proc s0 (cur_pid s0)) = zombie"
    "scheduler Dead s0 = Inr s1" "cur_pid s1 = PID_GARBAGE" "resume_at s1 = (resume_at s)(p := Dead)"
    "garbage_collector E s1 = Inr (None, s')" "family_ok s' Q' C' T" "\<forall>x. same_but_woken (pt' x) (proc s' x)"
    "procs.more s' = procs.more s" "resume_at s' = (resume_at s)(p := Dead, PID_GARBAGE := Collect)"
    using death_and_collection [OF fam9, of pt' E] cur(2) unfolding pt' tab f9 by blast
  have "exit E v s = Inr (None, s1)"
    using d(1-3) by (simp add: exit_def cur(1) [symmetric] s9_def [symmetric] reschedule_def)
  with d(4-10) show ?thesis by blast
qed

text \<open>
  C6: \<^verbatim>\<open>exit\<close>. On a kernel with a sound family tree it never faults and never returns to the caller: the
  processor goes to the collector, whose turn frees the stacks of the dead process and elects another
  process, with a sound family tree again. The dead process is a zombie that holds its return value, or is
  free if it has no father to read it. Its own zombie children are freed, its other children become
  orphans. A father that waits for it, or for any child, is ready and will be given this child. No other
  process changes, except sleepers whose time has come.
\<close>

theorem exit_contract:
  fixes s :: "('m, 'z) sems_scheme"
  assumes fam: "family_ok s Q C T" and cur: "p = cur_pid s" "p \<noteq> 0" and f: "f = p_father (proc s p)"
  shows "\<exists>s1 s' Q' C'. exit E v s = Inr (None, s1) \<and> cur_pid s1 = PID_GARBAGE \<and> resume_at s1 p = Dead
    \<and> garbage_collector E s1 = Inr (None, s') \<and> family_ok s' Q' C' T
    \<and> p_state (proc s' p) = (if f = 0 then freepid else zombie) \<and> p_retvalue (proc s' p) = v
    \<and> (\<forall>c \<in> set (C p). if p_state (proc s c) = zombie then p_state (proc s' c) = freepid else p_father (proc s' c) = 0)
    \<and> (if p_child_waited (proc s f) \<in> {p, -1} then p_state (proc s' f) = actionable \<and> p_child_waited (proc s' f) = p
       else p_state (proc s f) = asleep \<or> p_state (proc s' f) = p_state (proc s f))
    \<and> (\<forall>x. x \<noteq> p \<longrightarrow> x \<noteq> f \<longrightarrow> x \<notin> set (C p) \<longrightarrow> same_but_woken (proc s x) (proc s' x))"
proof -
  define pt0 where "pt0 = (process_table s)(p := (proc s p)\<lparr>p_retvalue := v\<rparr>)"
  define pt' where "pt' = bury (to_int (current_clock s)) p (C p) pt0"
  obtain s1 s' Q' C' where d: "exit E v s = Inr (None, s1)" "cur_pid s1 = PID_GARBAGE" "resume_at s1 = (resume_at s)(p := Dead)"
    "garbage_collector E s1 = Inr (None, s')" "family_ok s' Q' C' T" "\<forall>x. same_but_woken (pt' x) (proc s' x)"
    using exit_ok [OF fam cur, of pt' v E] unfolding pt'_def pt0_def by blast
  note F = family_okD [OF fam]
  note R = runningD [OF F(1), folded cur(1)]
  have al: "alive (process_table s) p" and free: "p_state (proc s p) \<noteq> freepid" using R(4) by (simp_all add: alive_def)
  have pC: "p \<notin> set (C p)" using familyD(7) [OF F(3)] cur by blast
  have ff: "f \<noteq> p" using family_father(1) [OF F(3) R(3) cur(2) free] f by simp
  have nz: "\<not> is_zombie (process_table s) f" using familyD(4) [OF F(3) R(3) free] f by (simp add: alive_def)
  have fs: "p_father (pt0 p) = f" by (simp add: pt0_def f)
  have aw: "awaited (pt0) p \<longleftrightarrow> p_child_waited (proc s f) \<in> {p, -1}" using ff by (simp add: pt0_def f [symmetric])
  have zc: "is_zombie (pt0) x \<longleftrightarrow> is_zombie (process_table s) x" for x by (simp add: pt0_def)
  note b = bury_fields [of p "C p" "pt0", unfolded fs, OF pC ff, of "to_int (current_clock s)", folded pt'_def, unfolded zc aw, OF nz]
  have wk: "p_retvalue (proc s' x) = p_retvalue (pt' x)" "p_father (proc s' x) = p_father (pt' x)"
    "p_child_waited (proc s' x) = p_child_waited (pt' x)" "p_state (proc s' x) = p_state (pt' x) \<or> p_state (pt' x) = asleep" for x
    using spec [OF d(6), of x] by (auto simp: same_but_woken_def)
  have "p_state (proc s' p) = (if f = 0 then freepid else zombie)" using wk(4) [of p] b(1) [of p] by auto
  moreover have "p_retvalue (proc s' p) = v" using wk(1) [of p] b(4) [of p] by (simp add: pt0_def)
  moreover have "if p_state (proc s c) = zombie then p_state (proc s' c) = freepid else p_father (proc s' c) = 0"
    if "c \<in> set (C p)" for c
    using that wk(2,4) [of c] b(1,2) [of c] pC by (auto split: if_splits)
  moreover have "if p_child_waited (proc s f) \<in> {p, -1} then p_state (proc s' f) = actionable \<and> p_child_waited (proc s' f) = p
       else p_state (proc s f) = asleep \<or> p_state (proc s' f) = p_state (proc s f)"
    using wk(3,4) [of f] b(1,3) [of f] ff nz by (auto simp: pt0_def)
  moreover have "same_but_woken (proc s x) (proc s' x)" if "x \<noteq> p" "x \<noteq> f" "x \<notin> set (C p)" for x
  proof -
    have "pt' x = proc s x"
      using that fs by (simp add: pt'_def bury_def collected_def mourned_def orphaned_def free_all_def reported_def dead_def pt0_def)
    then show ?thesis using spec [OF d(6), of x] by simp
  qed
  moreover have "resume_at s1 p = Dead" using d(3) by simp
  ultimately show ?thesis using d(1,2,4,5) by blast
qed


section \<open>waitpid\<close>

text \<open>The table when the running process \<open>f\<close> has read the end of its zombie child \<open>c\<close>.\<close>

definition reaped :: "int \<Rightarrow> int \<Rightarrow> (int \<Rightarrow> process) \<Rightarrow> int \<Rightarrow> process" where
  "reaped f c pt = pt(c := freed (pt c), f := (pt f)\<lparr>p_child_waited := 0\<rparr>)"

lemma family_reaped:
  assumes fam: "family pt T C" and f: "f \<in> pids" "f \<noteq> 0" "alive pt f" and c: "c \<in> set (C f)" "is_zombie pt c" "p_father (pt c) = f"
    and C: "\<And>t t'. t \<noteq> t' \<Longrightarrow> set (C t) \<inter> set (C t') = {}" "\<And>t. distinct (C t)"
  shows "family (reaped f c pt) T (C(f := remove1 c (C f)))"
proof -
  let ?pt = "reaped f c pt" and ?C = "C(f := remove1 c (C f))"
  have cf: "c \<noteq> f" "c \<noteq> 0" using c(2) f(3) familyD(10) [OF fam] by (auto simp: alive_def)
  have st: "p_state (?pt x) = (if x = c then freepid else p_state (pt x))" "p_father (?pt x) = p_father (pt x)"
    "p_child_waited (?pt x) = (if x = f then 0 else p_child_waited (pt x))" for x
    using cf by (simp_all add: reaped_def)
  have live: "alive ?pt x \<longleftrightarrow> alive pt x" for x using c(2) by (auto simp: alive_def st)
  have mem: "x \<in> set (?C t) \<longleftrightarrow> x \<in> set (C t) \<and> x \<noteq> c" for x t
    using C(1) [of t f] C(2) [of f] c(1) by (auto split: if_splits)
  show ?thesis
    unfolding family_def live
  proof (intro conjI ballI allI impI)
    fix x assume x: "x \<in> pids" "p_state (?pt x) \<noteq> freepid"
    then have x': "p_state (pt x) \<noteq> freepid" "x \<noteq> c" by (auto simp: st split: if_splits)
    note fx = familyD(1-4) [OF fam x(1) x'(1)]
    show "x \<in> T" "\<exists>t. x \<in> set (?C t)" "p_father (?pt x) \<in> pids" "alive pt (p_father (?pt x))"
      using fx x'(2) unfolding mem by (simp_all add: st)
  next
    fix t x assume "x \<in> set (?C t)"
    then have x: "x \<in> set (C t)" "x \<noteq> c" using mem by blast+
    show "p_state (?pt x) \<noteq> freepid" "p_father (?pt x) \<in> {t, 0}" "x \<noteq> 0 \<Longrightarrow> x \<noteq> t"
      using familyD(5-7) [OF fam x(1)] x(2) by (auto simp: st)
  next
    fix g assume g: "g \<in> pids" "alive pt g"
    show "waits_ok ?pt g"
    proof (cases "g = f")
      case False
      then show ?thesis using familyD(9) [OF fam g] c(2,3) g(2) by (auto simp: waits_ok_def Let_def st alive_def)
    qed (simp add: waits_ok_def st)
  qed (use familyD(8,10,11) [OF fam] f(2) cf(2) c(2) in \<open>auto simp: st split: if_splits\<close>)
qed

text \<open>The result of reading the end of the child \<open>c\<close>.\<close>

definition reads_end :: "addr \<Rightarrow> int \<Rightarrow> ('m, 'z) procs_scheme \<Rightarrow> ('m, 'z) procs_scheme \<Rightarrow> bool" where
  "reads_end retvalp c s s' \<longleftrightarrow> process_table s' = reaped (cur_pid s) c (process_table s) \<and> cur_pid s' = cur_pid s
     \<and> mem s' = (if retvalp \<noteq> 0 then store32 (mem s) retvalp (of_int32 (p_retvalue (proc s c))) else mem s)
     \<and> procs.more s' = procs.more s \<and> resume_at s' = resume_at s"

lemma waitpid_end_ok:
  fixes s :: "('m, 'z) procs_scheme"
  assumes ok: "lists_ok T s Q C [] {cur_pid s}" and c: "c = p_child_waited (proc s (cur_pid s))" "c \<in> set (C (cur_pid s))"
    "is_zombie (process_table s) c" "c \<noteq> cur_pid s" and cur: "cur_pid s \<in> pids"
  shows "\<exists>s' Q'. waitpid_end E retvalp s = Inr (c, s') \<and> reads_end retvalp c s s'
    \<and> lists_ok T s' Q' (C(cur_pid s := remove1 c (C (cur_pid s)))) [] {cur_pid s}"
proof -
  let ?f = "cur_pid s" and ?pt = "process_table s"
  let ?C = "C(?f := remove1 c (C ?f))"
  define m where "m = (if retvalp \<noteq> 0 then store32 (mem s) retvalp (of_int32 (p_retvalue (proc s c))) else mem s)"
  define s1 where "s1 = s\<lparr>mem := m\<rparr>"
  have s1: "(if retvalp \<noteq> 0 then s\<lparr>mem := store32 (mem s) retvalp (of_int32 (p_retvalue (proc s c)))\<rparr> else s) = s1"
    by (simp add: s1_def m_def)
  have ok1: "lists_ok T s1 Q C [] {?f}" using ok by (simp add: lists_ok_def s1_def)
  have cp: "c \<in> pids" using queues_onD(2) [OF lists_okD(2) [OF ok, unfolded kids_ok_def]] c(2) by blast
  have cz: "c \<in> set (Q zombie)" using sched_okD(6) [OF lists_okD(1) [OF ok] cp] c(3,4) by simp
  have found: "find_pid (QHead zombie) c s1 = Inr (Some c)" using find_pid_ok [OF lists_okD(1) [OF ok1]] cz by simp
  have tab1: "process_table s1 = ?pt" "cur_pid s1 = ?f" by (simp_all add: s1_def)
  obtain s2 where s2: "proc_del (Chaining c) s1 = Inr s2" "lists_ok T s2 (Q(zombie := remove1 c (Q zombie))) C [] (insert c {?f})"
    "becomes s1 ?pt s2" using lists_del [OF ok1 cz] unfolding tab1 by blast
  obtain s3 where s3: "proc_del (ChildLink c) s2 = Inr s3" "lists_ok T s3 (Q(zombie := remove1 c (Q zombie))) ?C [] (insert c {?f})"
    "becomes s1 ?pt s3" using lists_kids_del [OF s2(2) c(2)] becomes_trans [OF s2(3)] unfolding becomesD(1) [OF s2(3)] by blast
  have cw: "p_child_waited (proc s3 (cur_pid s3)) = c" by (simp add: becomesD [OF s3(3)] tab1 c(1))
  have "c \<notin> {?f}" using c(4) by simp
  then obtain s4 Q4 where s4: "free_pid E c s3 = Inr s4" "lists_ok T s4 Q4 ?C [] {?f}" "becomes s1 (?pt(c := freed (?pt c))) s4"
    using lists_free_pid [OF s3(2) cp, of E] becomes_trans [OF s3(3)] unfolding becomesD(1) [OF s3(3)] by blast
  note b4 = becomesD [OF s4(3)]
  have cw4: "p_child_waited (proc s4 (cur_pid s4)) = c" using c(4) by (simp add: b4 tab1 c(1) [symmetric])
  define s5 where "s5 = upd_proc (cur_pid s4) (\<lambda>p. p\<lparr>p_child_waited := 0\<rparr>) s4"
  have "lists_ok T s5 Q4 ?C [] {?f}" unfolding s5_def by (rule lists_upd(1) [OF s4(2)]) simp_all
  moreover have "waitpid_end E retvalp s = Inr (c, s5)"
    using found s2(1) s3(1) s4(1) by (simp add: waitpid_end_def Let_def c(1) [symmetric] s1 del_found_def cw cw4 s5_def)
  moreover have "reads_end retvalp c s s5"
    using b4 tab1 c(4) by (simp add: reads_end_def s5_def upd_proc_def reaped_def) (simp add: s1_def m_def)
  ultimately show ?thesis by blast
qed

lemma reads_end_family:
  assumes fam: "family_ok s Q C T" and cur: "cur_pid s \<noteq> 0" and c: "c \<in> set (C (cur_pid s))" "is_zombie (process_table s) c"
    and re: "reads_end retvalp c s s'" and ok: "lists_ok T s' Q' (C(cur_pid s := remove1 c (C (cur_pid s)))) [] {cur_pid s}"
  shows "family_ok s' Q' (C(cur_pid s := remove1 c (C (cur_pid s)))) T"
proof -
  note F = family_okD [OF fam]
  note R = runningD [OF F(1)]
  have al: "alive (process_table s) (cur_pid s)" using R(4) by (simp add: alive_def)
  have cp: "c \<in> pids" using F(6) c(1) by blast
  have fa: "p_father (proc s c) = cur_pid s" using familyD(6) [OF F(3) c(1)] familyD(8) [OF F(3) cp c(2)] by blast
  have ne: "c \<noteq> cur_pid s" "c \<noteq> 0" using c(2) R(4,5) by auto
  have "family (process_table s') T (C(cur_pid s := remove1 c (C (cur_pid s))))"
    using family_reaped [OF F(3) R(3) cur al c fa F(5,7)] re by (simp add: reads_end_def)
  moreover have "running s' Q'"
    using lists_okD(1,3) [OF ok] re R ne by (simp add: running_def reads_end_def reaped_def)
  ultimately show ?thesis using lists_okD(2) [OF ok] by (simp add: family_ok_def)
qed

lemma waitpid_resumes_ok:
  fixes s :: "('m, 'z) procs_scheme"
  assumes fam: "family_ok s Q C T" and cur: "cur_pid s \<noteq> 0" and c: "c = p_child_waited (proc s (cur_pid s))" "c \<noteq> 0"
  shows "\<exists>s' Q'. waitpid_end E retvalp s = Inr (c, s') \<and> c \<in> set (C (cur_pid s)) \<and> p_state (proc s c) = zombie
    \<and> reads_end retvalp c s s' \<and> family_ok s' Q' (C(cur_pid s := remove1 c (C (cur_pid s)))) T"
proof -
  note F = family_okD [OF fam]
  note R = runningD [OF F(1)]
  have al: "alive (process_table s) (cur_pid s)" using R(4) by (simp add: alive_def)
  have z: "c \<in> pids" "is_zombie (process_table s) c" "p_father (proc s c) = cur_pid s"
    using familyD(9) [OF F(3) R(3) al] c R(4) by (auto simp: waits_ok_def Let_def)
  have kid: "c \<in> set (C (cur_pid s))" using family_father(2) [OF F(3) z(1) c(2)] z cur by simp
  have ne: "c \<noteq> cur_pid s" using z(2) R(4) by auto
  show ?thesis using waitpid_end_ok [OF F(4) c(1) kid z(2) ne R(3), of E retvalp] reads_end_family [OF fam cur kid z(2)] kid z(2) by blast
qed

text \<open>
  C9: the end of \<^verbatim>\<open>waitpid\<close> after the wait. When a process whose wait was answered runs again, the child it is
  given is one of its zombies: the code after the wait does not fault, gives the identifier of this child,
  stores its return value, frees it, and leaves the family tree sound.
\<close>

theorem waitpid_resumes:
  fixes s :: "('m, 'z) procs_scheme"
  assumes fam: "family_ok s Q C T" and cur: "cur_pid s \<noteq> 0" and c: "c = p_child_waited (proc s (cur_pid s))" "c \<noteq> 0"
  shows "\<exists>s' Q'. waitpid_end E retvalp s = Inr (c, s') \<and> c \<in> set (C (cur_pid s)) \<and> p_state (proc s c) = zombie
    \<and> reads_end retvalp c s s' \<and> family_ok s' Q' (C(cur_pid s := remove1 c (C (cur_pid s)))) T"
  by (rule waitpid_resumes_ok [OF assms])


text \<open>The queues after the switch, when the caller is one of the blocked processes.\<close>

lemma switched_family:
  fixes s :: "('m, 'z) procs_scheme"
  assumes sw: "switched k s Q s' Q'" and ok: "sched_ok (plinks s) (process_table s) Q R" and kids: "kids_ok T (plinks s) C"
    and fam: "family (process_table s) T C"
  shows "family_ok s' Q' C T"
proof -
  define D where "D = due (to_int (current_clock s)) (process_table s) Q"
  obtain h where s': "process_table s' = wake_table D (process_table s)" "plinks s' = h" "same_rest (plinks s) h"
    using sw by (auto simp: switched_def Let_def D_def after_switch_def)
  have "\<forall>d \<in> set D. p_state (proc s d) = asleep"
    using set_due [of "to_int (current_clock s)" "process_table s" Q] sched_okD(4) [OF ok] by (auto simp: D_def)
  from family_wake [OF fam this] show ?thesis
    using switched_running [OF sw] kids_ok_frame [OF s'(3) kids] s' by (simp add: family_ok_def)
qed

text \<open>The state in which \<^verbatim>\<open>waitpid\<close> calls the scheduler.\<close>

definition awaiting_child :: "int \<Rightarrow> ('m, 'z) procs_scheme \<Rightarrow> ('m, 'z) procs_scheme" where
  "awaiting_child pid s = upd_proc (cur_pid s) (\<lambda>p. p\<lparr>p_child_waited := pid, p_state := waiting_child\<rparr>) s"

definition child_queue :: "('m, 'z) procs_scheme \<Rightarrow> (list_type \<Rightarrow> int list) \<Rightarrow> list_type \<Rightarrow> int list" where
  "child_queue s Q = Q(waiting_child := key_insert (\<lambda>x. p_pid (proc s x)) (cur_pid s) (Q waiting_child))"

lemma wait_for_child_ok:
  fixes s :: "('m, 'z) procs_scheme"
  assumes fam: "family_ok s Q C T" and cur: "cur_pid s \<noteq> 0"
    and s2: "s2 = upd_proc (cur_pid s) (\<lambda>p. p\<lparr>p_child_waited := pid\<rparr>) s"
  shows "\<exists>h s' Q'. wait_for_child retvalp s2 = Inr (None, s')
    \<and> switched (WaitChild retvalp) ((awaiting_child pid s)\<lparr>plinks := h\<rparr>) (child_queue s Q) s' Q' \<and> family_ok s' Q' C T"
proof -
  let ?c = "cur_pid s" and ?pt = "process_table s"
  note F = family_okD [OF fam]
  note R = runningD [OF F(1)]
  define p' where "p' = (?pt ?c)\<lparr>p_child_waited := pid, p_state := waiting_child\<rparr>"
  have p': "p_pid p' = p_pid (?pt ?c)" "p_state p' = waiting_child" by (simp_all add: p'_def)
  have s2t: "s2 = s\<lparr>process_table := ?pt(?c := (?pt ?c)\<lparr>p_child_waited := pid\<rparr>)\<rparr>" by (simp add: s2 upd_proc_def)
  have key: "p_pid (proc s2 x) = p_pid (?pt x)" for x by (simp add: s2t)
  obtain h where h: "proc_add (QHead waiting_child) (Chaining ?c) p_pid s2 = Inr (s2\<lparr>plinks := h\<rparr>)"
    "sched_ok h (?pt(?c := p')) (child_queue s Q) {}" "gc_ok h []" "same_rest (plinks s) h"
    using block_current [where key = p_pid and k = "\<lambda>x. p_pid (?pt x)", OF F(1) p' key s2t refl] by (auto simp: child_queue_def)
  define s3 where "s3 = (awaiting_child pid s)\<lparr>plinks := h\<rparr>"
  have f3: "process_table s3 = ?pt(?c := p')" "cur_pid s3 = ?c" "plinks s3 = h"
    by (simp_all add: s3_def awaiting_child_def upd_proc_def p'_def)
  have ok3: "sched_ok (plinks s3) (process_table s3) (child_queue s Q) {}" "gc_ok (plinks s3) []" using h(2,3) by (simp_all add: f3)
  obtain s' Q' where s': "scheduler (WaitChild retvalp) s3 = Inr s'" "switched (WaitChild retvalp) s3 (child_queue s Q) s' Q'"
    using switch_blocked [where t = waiting_child, OF F(1) cur _ _ f3(1,2) p'(2) ok3, of "WaitChild retvalp"] by auto
  have "upd_proc (cur_pid (s2\<lparr>plinks := h\<rparr>)) (\<lambda>p. p\<lparr>p_state := waiting_child\<rparr>) (s2\<lparr>plinks := h\<rparr>) = s3"
    by (simp add: s2t s3_def awaiting_child_def upd_proc_def)
  then have w: "wait_for_child retvalp s2 = Inr (None, s')"
    using h(1) s'(1) by (simp add: wait_for_child_def s2t reschedule_def)
  have "family (process_table s3) T C"
  proof -
    have "alive (process_table s3) x \<longleftrightarrow> alive ?pt x" for x using R(4) by (simp add: f3 alive_def p'_def)
    moreover have "waits_ok (process_table s3) x" if "waits_ok ?pt x" for x
      using that R(4) by (auto simp: waits_ok_def Let_def f3 p'_def)
    ultimately show ?thesis using F(3) R(4) cur by (auto simp: family_def f3(1) p'_def)
  qed
  from switched_family [OF s'(2) ok3(1) _ this] kids_ok_frame [OF h(4) F(2)] f3(3)
  have "family_ok s' Q' C T" by simp
  with w s'(2) s3_def show ?thesis by blast
qed


lemma find_pid_children_ok:
  fixes s :: "('m, 'z) procs_scheme"
  assumes ok: "lists_ok T s Q C G R" and f: "f \<in> T"
  shows "find_pid_children (ChildrenHead f) pid s = Inr (if pid \<in> set (C f) then Some pid else None)"
proof -
  have "find (\<lambda>p. p_pid (proc s p) = pid) xs = (if pid \<in> set xs then Some pid else None)" if "set xs \<subseteq> pids" for xs
    using that by (induction xs) (auto simp: sched_okD(2) [OF lists_okD(1) [OF ok]])
  moreover note q = lists_okD(2) [OF ok, unfolded kids_ok_def]
  ultimately show ?thesis
    using queues_onD(2) [OF q, of f]
    by (simp add: find_pid_children_def cq.queues_on_for_each(1) [OF q card_pids f] option.map_comp o_def)
qed

text \<open>The three branches of \<^verbatim>\<open>waitpid\<close>, on the lists.\<close>

lemma waitpid_branches:
  fixes s :: "('m, 'z) procs_scheme"
  assumes fam: "family_ok s Q C T" and Z: "Z = filter (is_zombie (process_table s)) (C (cur_pid s))"
    and c: "c = (if pid = -1 then last Z else pid)" and s1: "s1 = upd_proc (cur_pid s) (\<lambda>p. p\<lparr>p_child_waited := pid\<rparr>) s"
  shows "waitpid E pid retvalp s =
    (if C (cur_pid s) = [] \<or> pid \<noteq> -1 \<and> (pid \<le> 0 \<or> pid \<notin> set (C (cur_pid s))) then Inr (Some (-1), s)
     else if pid = -1 \<and> Z \<noteq> [] \<or> pid \<in> set Z
     then bnd (waitpid_end E retvalp (upd_proc (cur_pid s) (\<lambda>p. p\<lparr>p_child_waited := c\<rparr>) s)) (\<lambda>(v, s3). Inr (Some v, s3))
     else wait_for_child retvalp s1)"
proof -
  let ?f = "cur_pid s"
  note F = family_okD [OF fam]
  note R = runningD [OF F(1)]
  have fT: "?f \<in> T" by (rule familyD(1) [OF F(3) R(3)]) (simp add: R(4))
  note q = lists_okD(2) [OF F(4), unfolded kids_ok_def]
  note find = find_pid_children_ok [OF F(4) fT] and empty = cq.queues_on_empty [OF q fT]
  have sub: "set (C ?f) \<subseteq> pids" by (rule F(6))
  have t1: "cur_pid s1 = ?f" "plinks s1 = plinks s" "p_state (proc s1 x) = p_state (proc s x)" "p_pid (proc s1 x) = p_pid (proc s x)" for x
    by (simp_all add: s1 upd_proc_def)
  have kid: "find (is_zombie (process_table s)) (rev (C ?f)) = (if Z = [] then None else Some (last Z))"
    by (simp add: find_rev_last Z)
  show ?thesis
  proof (cases "pid = -1")
    case True
    then have np: "pid \<notin> set Z" using sub by (auto simp: Z pids_iff)
    have pl: "p_pid (proc s (last Z)) = last Z" "last Z \<noteq> -1" if "Z \<noteq> []"
    proof -
      have "last Z \<in> pids" using last_in_set [OF that] sub by (auto simp: Z)
      then show "p_pid (proc s (last Z)) = last Z" "last Z \<noteq> -1" using sched_okD(2) [OF R(1)] by (auto simp: pids_iff)
    qed
    have s1': "upd_proc ?f (\<lambda>p. p\<lparr>p_child_waited := -1\<rparr>) s = s1" using True s1 by simp
    have w1: "p_child_waited (proc s1 ?f) = -1" "upd_proc ?f (\<lambda>p. p\<lparr>p_child_waited := d\<rparr>) s1 = upd_proc ?f (\<lambda>p. p\<lparr>p_child_waited := d\<rparr>) s"
      "p_child_waited (proc (upd_proc ?f (\<lambda>p. p\<lparr>p_child_waited := d\<rparr>) s) ?f) = d" "cur_pid (upd_proc ?f (\<lambda>p. p\<lparr>p_child_waited := d\<rparr>) s) = ?f" for d
      by (simp_all add: s1' [symmetric] upd_proc_def)
    show ?thesis
      using True np pl c empty cq.queues_on_for_each(2) [OF q card_pids fT]
      by (auto simp: waitpid_def Let_def s1' t1 kid w1)
  next
    case False
    then have "pid \<in> set (C ?f) \<Longrightarrow> pid \<in> set Z \<longleftrightarrow> is_zombie (process_table s) pid" by (simp add: Z)
    then show ?thesis
      using False c empty find sub
      by (auto simp: waitpid_def Let_def s1 [symmetric] t1 pids_iff)
  qed
qed

lemma waitpid_ok:
  fixes s :: "('m, 'z) procs_scheme"
  assumes fam: "family_ok s Q C T" and cur: "cur_pid s \<noteq> 0" and Z: "Z = filter (\<lambda>c. p_state (proc s c) = zombie) (C (cur_pid s))"
    and c: "c = (if pid = -1 then last Z else pid)"
  shows "if C (cur_pid s) = [] \<or> pid \<noteq> -1 \<and> (pid \<le> 0 \<or> pid \<notin> set (C (cur_pid s))) then waitpid E pid retvalp s = Inr (Some (-1), s)
    else if pid = -1 \<and> Z \<noteq> [] \<or> pid \<in> set Z
    then \<exists>s' Q'. waitpid E pid retvalp s = Inr (Some c, s') \<and> reads_end retvalp c s s'
      \<and> family_ok s' Q' (C(cur_pid s := remove1 c (C (cur_pid s)))) T
    else \<exists>h s' Q'. waitpid E pid retvalp s = Inr (None, s')
      \<and> switched (WaitChild retvalp) ((awaiting_child pid s)\<lparr>plinks := h\<rparr>) (child_queue s Q) s' Q' \<and> family_ok s' Q' C T"
proof -
  let ?f = "cur_pid s"
  note F = family_okD [OF fam]
  note R = runningD [OF F(1)]
  define s1 where "s1 = upd_proc ?f (\<lambda>p. p\<lparr>p_child_waited := pid\<rparr>) s"
  define bad where "bad \<longleftrightarrow> C ?f = [] \<or> pid \<noteq> -1 \<and> (pid \<le> 0 \<or> pid \<notin> set (C ?f))"
  note w = waitpid_branches [OF fam Z c s1_def, of E retvalp, folded bad_def]
  show ?thesis
  proof (cases "\<not> bad \<and> (pid = -1 \<and> Z \<noteq> [] \<or> pid \<in> set Z)")
    case True
    have "-1 \<notin> set Z" using F(6) [of ?f] by (auto simp: Z pids_iff)
    then have "c \<in> set Z" using True c by (auto split: if_splits)
    then have zc: "c \<in> set (C ?f)" "is_zombie (process_table s) c" by (auto simp: Z)
    define s2 where "s2 = upd_proc ?f (\<lambda>p. p\<lparr>p_child_waited := c\<rparr>) s"
    have ok2: "lists_ok T s2 Q C [] {cur_pid s2}" using lists_upd(1) [OF F(4), of _ ?f] by (simp add: s2_def upd_proc_def)
    have c2: "c = p_child_waited (proc s2 (cur_pid s2))" "is_zombie (process_table s2) c" "c \<noteq> cur_pid s2" "cur_pid s2 = ?f"
      using zc(2) R(4) by (auto simp: s2_def upd_proc_def)
    obtain s' Q' where s': "waitpid_end E retvalp s2 = Inr (c, s')" "reads_end retvalp c s2 s'"
      "lists_ok T s' Q' (C(?f := remove1 c (C ?f))) [] {?f}"
      using waitpid_end_ok [OF ok2 c2(1) _ c2(2,3), of E retvalp] zc(1) R(3) unfolding c2(4) by blast
    have "reads_end retvalp c s s'" using s'(2) c2(3) by (simp add: reads_end_def s2_def upd_proc_def reaped_def fun_upd_twist)
    with reads_end_family [OF fam cur zc this s'(3)] s'(1) w True show ?thesis by (auto simp: bad_def s2_def)
  next
    case False
    then show ?thesis using w wait_for_child_ok [OF fam cur s1_def, of retvalp] by (auto simp: bad_def)
  qed
qed

text \<open>
  C7: \<^verbatim>\<open>waitpid\<close>. On a kernel with a sound family tree it never faults. It refuses, without effect, an
  identifier that is not that of a child. If the child (for -1, any child) is a zombie it returns its
  identifier at once -- for -1 the last zombie of the list of children --, stores its return value at
  \<^verbatim>\<open>retvalp\<close> unless this is null, and frees the child. Otherwise the caller waits and another process is
  elected.
\<close>

theorem waitpid_contract:
  fixes s :: "('m, 'z) procs_scheme"
  assumes fam: "family_ok s Q C T" and cur: "cur_pid s \<noteq> 0" and Z: "Z = filter (\<lambda>c. p_state (proc s c) = zombie) (C (cur_pid s))"
    and c: "c = (if pid = -1 then last Z else pid)"
  shows "if C (cur_pid s) = [] \<or> pid \<noteq> -1 \<and> (pid \<le> 0 \<or> pid \<notin> set (C (cur_pid s))) then waitpid E pid retvalp s = Inr (Some (-1), s)
    else if pid = -1 \<and> Z \<noteq> [] \<or> pid \<in> set Z
    then \<exists>s' Q'. waitpid E pid retvalp s = Inr (Some c, s') \<and> reads_end retvalp c s s'
      \<and> family_ok s' Q' (C(cur_pid s := remove1 c (C (cur_pid s)))) T
    else \<exists>h s' Q'. waitpid E pid retvalp s = Inr (None, s')
      \<and> switched (WaitChild retvalp) ((awaiting_child pid s)\<lparr>plinks := h\<rparr>) (child_queue s Q) s' Q' \<and> family_ok s' Q' C T"
  by (rule waitpid_ok [OF assms])


section \<open>kill\<close>

text \<open>The death of another process than the running one.\<close>

lemma killed_ok:
  fixes s :: "('m, 'z) procs_scheme"
  assumes ok: "lists_ok T s Q C [] {p, cur_pid s}" and fam: "family (process_table s) T C"
    and p: "p \<in> pids" "p \<noteq> 0" "alive (process_table s) p" "p \<noteq> cur_pid s"
    and cur: "cur_pid s \<in> pids" "p_state (proc s (cur_pid s)) = actionable" "p_state (proc s 0) = actionable"
  shows "\<exists>s1 s' Q' C'. become_zombie E p s = Inr s1 \<and> garbage_collect E s1 = Inr s' \<and> family_ok s' Q' C' T
    \<and> becomes s (bury (to_int (current_clock s)) p (C p) (process_table s)) s'"
proof -
  let ?pt = "process_table s" and ?time = "to_int (current_clock s)"
  have free: "p_state (?pt p) \<noteq> freepid" using p(3) by (simp add: alive_def)
  note q = lists_okD(2) [OF ok, unfolded kids_ok_def]
  obtain f where f: "p \<in> set (C f)" using familyD(2) [OF fam p(1) free] by blast
  have fp: "f \<noteq> p" using familyD(7) [OF fam f p(2)] by blast
  have pC: "p \<notin> set (C p)" using familyD(7) [OF fam] p(2) by blast
  note ff = family_father(1) [OF fam p(1,2) free]
  have w: "p_father (?pt p) \<in> set (Q waiting_child)" if "awaited ?pt p"
  proof -
    have "p_state (?pt (p_father (?pt p))) = waiting_child" by (rule family_awaited(1) [OF fam p(1-3) that])
    then show ?thesis using sched_okD(6) [OF lists_okD(1) [OF ok] familyD(3) [OF fam p(1) free]] cur(2) ff by fastforce
  qed
  have nz: "awaited ?pt p \<Longrightarrow> \<not> is_zombie ?pt (p_father (?pt p))" using family_awaited(1) [OF fam p(1-3)] by auto
  note M = mourned_fields [OF pC ff nz, of ?time]
  define C1 where "C1 = C(p := filter (\<lambda>x. \<not> is_zombie ?pt x) (C p))"
  have pR: "p \<notin> {cur_pid s}" and Rz: "\<forall>r \<in> {cur_pid s}. \<not> is_zombie ?pt r" using p(4) cur(2) by simp_all
  obtain s1 Q1 where s1: "become_zombie E p s = Inr s1" "becomes s (mourned ?time p (C p) ?pt) s1" "lists_ok T s1 Q1 C1 [p] {cur_pid s}"
    using become_zombie_ok [OF ok p(1) pR familyD(1) [OF fam p(1) free] pC ff Rz w, of E] by (auto simp: C1_def)
  note b1 = becomesD [OF s1(2)]
  have pz: "p \<in> set (Q1 zombie)" using sched_okD(6) [OF lists_okD(1) [OF s1(3)] p(1)] p(4) M(1) [of p] by (simp add: b1)
  have fC: "p \<in> set (C1 f)" using f fp by (simp add: C1_def)
  define B where "B = bury ?time p (C p) ?pt"
  obtain s' Q' where s': "garbage_collect E s1 = Inr s'" "lists_ok T s' Q' (collected_kids p f (process_table s1) C1) [] {cur_pid s}"
    "becomes s B s'"
    using garbage_collect_ok [OF s1(3) pz fC, of E] becomes_trans [OF s1(2)] unfolding b1(1) B_def bury_def by blast
  have "p_father (process_table s1 p) = p_father (?pt p)" using M(2) [of p] pC by (simp add: b1)
  then have C2: "collected_kids p f (process_table s1) C1 = bury_kids p f ?pt C"
    by (simp add: bury_kids_def collected_kids_def C1_def)
  have "family B T (bury_kids p f ?pt C)"
    unfolding B_def by (rule family_bury [OF fam p(1-3) f queues_onD(3) [OF q] queues_onD(2) [OF q] queues_on_distinct [OF q]])
  moreover note b = bury_fields [OF pC ff nz, of ?time, folded B_def] and b' = becomesD [OF s'(3)]
  have "running s' Q'"
    using lists_okD(1,3) [OF s'(2)] cur p(2,4) b(1) [of 0] b(1) [of "cur_pid s"] by (auto simp: running_def b')
  ultimately have "family_ok s' Q' (bury_kids p f ?pt C) T"
    using lists_okD(2) [OF s'(2)] b'(1) unfolding C2 by (simp add: family_ok_def)
  with s1(1) s'(1,3) show ?thesis unfolding B_def by blast
qed


text \<open>
  The signal that \<^verbatim>\<open>kill\<close> sends to the semaphore on which the process was blocked, after the process was
  taken off the semaphore: the value grows by one and the last of the other waiters is woken.
\<close>

lemma signal_death_ok:
  fixes s :: "('m, 'z) sems_scheme"
  assumes run: "running s Q" and ok: "sems_ok s S" and i: "i \<in> set (S sem_used)"
    and v: "v = sem_value (sem_table s i)" "v < 0" and ws: "ws = waiters i (process_table s) Q" "W = (if ws = [] then [] else [last ws])"
  shows "\<exists>r h. signal_death i s = Inr (r, awake 0 W h (upd_sem i (\<lambda>c. c\<lparr>sem_value := v + 1\<rparr>) s))
    \<and> running (awake 0 W h (upd_sem i (\<lambda>c. c\<lparr>sem_value := v + 1\<rparr>) s)) (wake_all W (process_table s) Q) \<and> same_rest (plinks s) h"
proof -
  define s1 where "s1 = upd_sem i (\<lambda>c. c\<lparr>sem_value := v + 1\<rparr>) s"
  have run1: "running s1 Q" and f: "plinks s1 = plinks s" "process_table s1 = process_table s" using run by (simp_all add: s1_def)
  have sd: "signal_death i s = bnd (unblock_sem i s1) (\<lambda>(pid, s2). Inr (0, s2))"
    using find_sem_ok [OF ok, of sem_used i] i v by (simp add: signal_death_def Let_def s1_def)
  show ?thesis
  proof (cases "ws = []")
    case True
    then have "unblock_sem i s1 = Inr (-1, s1)"
      using find_by_sem_ok [OF runningD(1) [OF run1], of i] ws by (simp add: unblock_sem_def f)
    then show ?thesis using True sd run1 awake_Nil [of 0 s1] ws(2) f(1)
      by (intro exI [of _ 0] exI [of _ "plinks s"]) (simp add: s1_def [symmetric])
  next
    case False
    then show ?thesis using unblock_sem_ok [OF run1, of i "last ws"] sd ws f by (auto simp: s1_def [symmetric] wake_all_def)
  qed
qed

text \<open>The table when \<^verbatim>\<open>kill\<close> has taken the process \<open>p\<close> out of its queue; \<open>W\<close> are the processes it wakes on the way.\<close>

definition struck :: "int \<Rightarrow> int list \<Rightarrow> (int \<Rightarrow> process) \<Rightarrow> int \<Rightarrow> process" where
  "struck p W pt = (let q = (pt p)\<lparr>p_retvalue := KILL_RETVAL\<rparr> in
     woken_table 0 W (pt(p := if p_state q = sem_blocked then q\<lparr>p_sem_blocked := -1\<rparr> else q)))"

definition other_waiter :: "int \<Rightarrow> (int \<Rightarrow> process) \<Rightarrow> (list_type \<Rightarrow> int list) \<Rightarrow> int list" where
  "other_waiter p pt Q = (let ws = filter (\<lambda>x. x \<noteq> p) (waiters (p_sem_blocked (pt p)) pt Q) in
     if p_state (pt p) \<noteq> sem_blocked \<or> ws = [] then [] else [last ws])"

definition relieved :: "int \<Rightarrow> (int \<Rightarrow> process) \<Rightarrow> (int \<Rightarrow> sem) \<Rightarrow> int \<Rightarrow> sem" where
  "relieved p pt tbl = (if p_state (pt p) = sem_blocked
     then tbl(p_sem_blocked (pt p) := (tbl (p_sem_blocked (pt p)))\<lparr>sem_value := sem_value (tbl (p_sem_blocked (pt p))) + 1\<rparr>) else tbl)"

lemma kill_relieves:
  fixes s :: "('m, 'z) sems_scheme"
  assumes ok: "lists_ok T s Q C [] {cur_pid s}" and inv: "sem_inv s Q S" and p: "p \<in> pids" "p \<noteq> cur_pid s"
    and W: "W = other_waiter p (process_table s) Q" and s1: "s1 = upd_proc p (\<lambda>q. q\<lparr>p_retvalue := KILL_RETVAL\<rparr>) s"
  shows "\<exists>s4 Q4. (if p_state (proc s p) = sem_blocked
      then bnd (signal_death (p_sem_blocked (proc s p)) (upd_proc p (\<lambda>q. q\<lparr>p_sem_blocked := -1\<rparr>) s1)) (\<lambda>(_, s1). Inr s1)
      else Inr s1) = Inr s4
    \<and> lists_ok T s4 Q4 C [] {cur_pid s} \<and> process_table s4 = struck p W (process_table s)
    \<and> sem_table s4 = relieved p (process_table s) (sem_table s) \<and> cur_pid s4 = cur_pid s \<and> current_clock s4 = current_clock s
    \<and> slinks s4 = slinks s \<and> resume_at s4 = resume_at s"
proof -
  let ?pt = "process_table s" and ?t = "p_state (proc s p)"
  have ok1: "lists_ok T s1 Q C [] {cur_pid s}" unfolding s1 by (rule lists_upd(1) [OF ok]) simp_all
  show ?thesis
  proof (cases "?t = sem_blocked")
    case False
    then show ?thesis
      using ok1 by (intro exI [of _ s1] exI [of _ Q]) 
        (auto simp: W other_waiter_def struck_def relieved_def woken_table_def s1 upd_proc_def current_clock_def Let_def)
  next
    case True
    let ?i = "p_sem_blocked (?pt p)"
    define s2 where "s2 = upd_proc p (\<lambda>q. q\<lparr>p_sem_blocked := -1\<rparr>) s1"
    have pQ: "p \<in> set (Q sem_blocked)" using sched_okD(6) [OF lists_okD(1) [OF ok] p(1)] p(2) True by simp
    have iS: "?i \<in> set (S sem_used)" using sem_invD(3) [OF inv] pQ by (simp add: balanced_def)
    have i1: "?i \<noteq> -1" by (rule used_not_minus1 [OF sem_invD(2) [OF inv] iS])
    have pw: "p \<in> set (waiters ?i ?pt Q)" using pQ by (simp add: waiters_def)
    have v: "sem_value (sem_table s ?i) < 0" using balanced_values(3) [OF sem_invD(3) [OF inv] iS] length_pos_if_in_set [OF pw] by linarith
    have ok2: "lists_ok T s2 Q C [] {cur_pid s}" unfolding s2_def by (rule lists_upd(1) [OF ok1]) simp_all
    have f2: "sem_table s2 = sem_table s" "slinks s2 = slinks s" "cur_pid s2 = cur_pid s" "current_clock s2 = current_clock s" "resume_at s2 = resume_at s"
      "process_table s2 = ?pt(p := (?pt p)\<lparr>p_retvalue := KILL_RETVAL, p_sem_blocked := -1\<rparr>)"
      by (simp_all add: s2_def s1 upd_proc_def current_clock_def)
    have run2: "running s2 Q" using lists_okD(1,3) [OF ok2] runningD(3-5) [OF sem_invD(1) [OF inv]] True by (auto simp: running_def f2)
    have sok2: "sems_ok s2 S" using sem_invD(2) [OF inv] by (simp add: sems_ok_def f2)
    have ws: "waiters ?i (process_table s2) Q = filter (\<lambda>x. x \<noteq> p) (waiters ?i ?pt Q)"
      using i1 by (auto simp: waiters_def f2(6) intro!: filter_cong)
    have W2: "W = (if waiters ?i (process_table s2) Q = [] then [] else [last (waiters ?i (process_table s2) Q)])"
      unfolding ws by (simp add: W other_waiter_def Let_def True)
    define s3 where "s3 = upd_sem ?i (\<lambda>c. c\<lparr>sem_value := sem_value (sem_table s ?i) + 1\<rparr>) s2"
    obtain r h where h: "signal_death ?i s2 = Inr (r, awake 0 W h s3)" "running (awake 0 W h s3) (wake_all W (process_table s2) Q)"
      "same_rest (plinks s2) h"
      using signal_death_ok [OF run2 sok2 iS _ _ refl W2] v by (auto simp: f2 s3_def)
    have "lists_ok T (awake 0 W h s3) (wake_all W (process_table s2) Q) C [] {cur_pid s}"
      using runningD(1,2) [OF h(2)] kids_ok_frame [OF h(3) lists_okD(2) [OF ok2]]
      by (simp add: lists_ok_def) (simp add: awake_def s3_def f2)
    moreover have "process_table (awake 0 W h s3) = struck p W ?pt" using True by (simp add: awake_def s3_def f2 struck_def Let_def)
    moreover have "sem_table (awake 0 W h s3) = relieved p ?pt (sem_table s)" "cur_pid (awake 0 W h s3) = cur_pid s"
      "slinks (awake 0 W h s3) = slinks s" "resume_at (awake 0 W h s3) = resume_at s"
      "current_clock (awake 0 W h s3) = current_clock s"
      using True f2 by (simp_all add: awake_def s3_def relieved_def upd_sem_def current_clock_def)
    ultimately show ?thesis using h(1) True by (auto simp: s2_def)
  qed
qed

lemma kill_unlink_ok:
  fixes s :: "('m, 'z) sems_scheme"
  assumes ok: "lists_ok T s Q C [] {cur_pid s}" and inv: "sem_inv s Q S" and p: "p \<in> pids" "p \<noteq> cur_pid s"
    and t: "p_state (proc s p) \<noteq> freepid" and W: "W = other_waiter p (process_table s) Q"
  shows "\<exists>s' Q'. kill_unlink p (upd_proc p (\<lambda>q. q\<lparr>p_retvalue := KILL_RETVAL\<rparr>) s) = Inr s'
    \<and> lists_ok T s' Q' C [] {p, cur_pid s} \<and> process_table s' = struck p W (process_table s)
    \<and> sem_table s' = relieved p (process_table s) (sem_table s) \<and> cur_pid s' = cur_pid s \<and> current_clock s' = current_clock s
    \<and> slinks s' = slinks s \<and> resume_at s' = resume_at s"
proof -
  let ?pt = "process_table s" and ?t = "p_state (proc s p)"
  define s1 where "s1 = upd_proc p (\<lambda>q. q\<lparr>p_retvalue := KILL_RETVAL\<rparr>) s"
  have f1: "p_state (proc s1 p) = ?t" "p_sem_blocked (proc s1 p) = p_sem_blocked (?pt p)" by (simp_all add: s1_def upd_proc_def)
  obtain s4 Q4 where s4: "(if ?t = sem_blocked
           then bnd (signal_death (p_sem_blocked (?pt p)) (upd_proc p (\<lambda>q. q\<lparr>p_sem_blocked := -1\<rparr>) s1)) (\<lambda>(_, s1). Inr s1)
           else Inr s1) = Inr s4" "lists_ok T s4 Q4 C [] {cur_pid s}" "process_table s4 = struck p W ?pt"
      "sem_table s4 = relieved p ?pt (sem_table s)" "cur_pid s4 = cur_pid s" "current_clock s4 = current_clock s"
      "slinks s4 = slinks s" "resume_at s4 = resume_at s" using kill_relieves [OF ok inv p W s1_def] by blast
  have "p \<notin> set W" by (auto simp: W other_waiter_def Let_def dest!: last_in_set)
  then have st: "p_state (proc s4 p) = ?t" by (simp add: s4(3) struck_def Let_def woken_table_def)
  then have pq: "p \<in> set (Q4 ?t)" using sched_okD(6) [OF lists_okD(1) [OF s4(2)] p(1)] p(2) t by simp
  obtain s5 where s5: "proc_del (Chaining p) s4 = Inr s5" "lists_ok T s5 (Q4(?t := remove1 p (Q4 ?t))) C [] {p, cur_pid s}"
    "becomes s4 (process_table s4) s5" using lists_del [OF s4(2) pq] by blast
  note b5 = becomesD [OF s5(3)]
  have "kill_unlink p s1 = Inr s5"
    unfolding kill_unlink_def Let_def f1 s4(1)
    using find_pid_ok [OF lists_okD(1) [OF s4(2)], of ?t p] pq s5(1) by (simp add: del_found_def)
  moreover have "sem_table s5 = sem_table s4" "slinks s5 = slinks s4" using b5(5) by (cases s4, cases s5, simp)+
  ultimately show ?thesis
    using s5(2) b5 s4(3-8) unfolding s1_def by (intro exI [of _ s5] exI [of _ "Q4(?t := remove1 p (Q4 ?t))"]) simp
qed


lemma struck_fields:
  assumes "p \<notin> set W" and "\<forall>q \<in> set W. p_state (pt q) = sem_blocked"
  shows "p_state (struck p W pt p) = p_state (pt p)" "p_father (struck p W pt x) = p_father (pt x)"
    "p_child_waited (struck p W pt x) = p_child_waited (pt x)" "p_retvalue (struck p W pt p) = KILL_RETVAL"
    "p_state (struck p W pt x) = (if x \<in> set W then actionable else p_state (pt x))" "q \<in> set W \<Longrightarrow> p_awakener (struck p W pt q) = 0"
  using assms by (auto simp: struck_def Let_def woken_table_def woken_def)

lemma other_waiter_blocked:
  assumes "sched_ok h pt Q R" and "q \<in> set (other_waiter p pt Q)"
  shows "q \<noteq> p" "p_state (pt q) = sem_blocked" "p_sem_blocked (pt q) = p_sem_blocked (pt p)" "p_state (pt p) = sem_blocked"
proof -
  define ws where "ws = filter (\<lambda>x. x \<noteq> p) (waiters (p_sem_blocked (pt p)) pt Q)"
  have "q \<in> set ws" and st: "p_state (pt p) = sem_blocked"
    using assms(2) by (auto simp: other_waiter_def Let_def ws_def [symmetric] split: if_splits)
  then show "q \<noteq> p" "p_state (pt q) = sem_blocked" "p_sem_blocked (pt q) = p_sem_blocked (pt p)" "p_state (pt p) = sem_blocked"
    using sched_okD(4) [OF assms(1), of q sem_blocked] by (auto simp: ws_def waiters_def)
qed

lemma kill_ok:
  fixes s :: "('m, 'z) sems_scheme"
  assumes fam: "family_ok s Q C T" and inv: "sem_inv s Q S" and other: "pid \<noteq> cur_pid s"
    and W: "W = other_waiter pid (process_table s) Q"
  shows "if pid \<le> 0 \<or> pid \<ge> NB_PROCESS then kill E pid s = Inr (Some (-1), s)
    else if p_state (proc s pid) \<in> {zombie, freepid}
    then kill E pid s = Inr (Some (-1), upd_proc pid (\<lambda>p. p\<lparr>p_retvalue := KILL_RETVAL\<rparr>) s)
    else \<exists>s' Q' C'. kill E pid s = Inr (Some 0, s') \<and> family_ok s' Q' C' T \<and> cur_pid s' = cur_pid s
      \<and> process_table s' = bury (to_int (current_clock s)) pid (C pid) (struck pid W (process_table s))
      \<and> p_state (proc s' pid) = (if p_father (proc s pid) = 0 then freepid else zombie) \<and> p_retvalue (proc s' pid) = KILL_RETVAL
      \<and> (\<forall>q \<in> set W. p_state (proc s q) = sem_blocked \<and> p_state (proc s' q) = actionable \<and> p_awakener (proc s' q) = 0)
      \<and> sem_table s' = relieved pid (process_table s) (sem_table s) \<and> slinks s' = slinks s \<and> resume_at s' = resume_at s"
proof (cases "pid \<le> 0 \<or> pid \<ge> NB_PROCESS \<or> p_state (proc s pid) \<in> {zombie, freepid}")
  case True
  then show ?thesis using other by (auto simp: kill_def Let_def upd_proc_def)
next
  case False
  let ?pt = "process_table s" and ?time = "to_int (current_clock s)"
  note F = family_okD [OF fam]
  note R = runningD [OF F(1)]
  have p: "pid \<in> pids" "pid \<noteq> 0" "alive ?pt pid" "p_state (?pt pid) \<noteq> freepid" using False by (auto simp: pids_iff alive_def)
  define s1 where "s1 = upd_proc pid (\<lambda>p. p\<lparr>p_retvalue := KILL_RETVAL\<rparr>) s"
  have st1: "p_state (proc s1 pid) = p_state (?pt pid)" by (simp add: s1_def upd_proc_def)
  obtain s2 Q2 where s2: "kill_unlink pid s1 = Inr s2" "lists_ok T s2 Q2 C [] {pid, cur_pid s2}" "process_table s2 = struck pid W ?pt"
    "sem_table s2 = relieved pid ?pt (sem_table s)" "cur_pid s2 = cur_pid s" "current_clock s2 = current_clock s" "slinks s2 = slinks s" "resume_at s2 = resume_at s"
    using kill_unlink_ok [OF F(4) inv p(1) other p(4) W] unfolding s1_def by auto
  note ow = other_waiter_blocked [OF R(1), of _ pid, folded W]
  have pW: "pid \<notin> set W" and Wb: "\<forall>q \<in> set W. p_state (?pt q) = sem_blocked" using ow by blast+
  note st = struck_fields [OF pW Wb, folded s2(3)]
  have "family (process_table s2) T C" by (rule family_cong [OF F(3)]) (use st(2,3,5) Wb in auto)
  moreover have "alive (process_table s2) pid" using p(3) st(1) by (simp add: alive_def)
  moreover have "p_state (proc s2 (cur_pid s2)) = actionable" "p_state (proc s2 0) = actionable" using R(4,5) by (simp_all add: st(5) s2(5))
  ultimately obtain s3 s' Q' C' where s': "become_zombie E pid s2 = Inr s3" "garbage_collect E s3 = Inr s'" "family_ok s' Q' C' T"
    "becomes s2 (bury ?time pid (C pid) (process_table s2)) s'"
    using killed_ok [OF s2(2) _ p(1,2), of E] other R(3) by (auto simp: s2(5,6))
  note b' = becomesD [OF s'(4)]
  have "kill E pid s = Inr (Some 0, s')"
    using False other s2(1) s'(1,2) st1 by (simp add: kill_def Let_def s1_def [symmetric])
  moreover have "sem_table s' = sem_table s2" "slinks s' = slinks s2" using b'(5) by (cases s', cases s2, simp)+
  moreover
  have pC: "pid \<notin> set (C pid)" using familyD(7) [OF F(3)] p(2) by blast
  note ff = family_father(1) [OF F(3) p(1,2,4)]
  have nz: "\<not> is_zombie (process_table s2) (p_father (proc s2 pid))"
    using familyD(4) [OF F(3) p(1,4)] by (simp add: st(2,5) alive_def)
  note b = bury_fields [OF pC ff [folded st(2)] nz, of ?time]
  have "p_state (proc s' pid) = (if p_father (?pt pid) = 0 then freepid else zombie)" "p_retvalue (proc s' pid) = KILL_RETVAL"
    using b(1,4) [of pid] st(2,4) by (simp_all add: b'(1))
  moreover have "p_state (proc s' q) = actionable \<and> p_awakener (proc s' q) = 0" if "q \<in> set W" for q
  proof -
    have q: "q \<noteq> pid" "p_state (proc s2 q) = actionable" "p_awakener (proc s2 q) = 0" using that pW st(5,6) by auto
    then have "p_awakener (bury ?time pid (C pid) (process_table s2) q) = p_awakener (proc s2 q)"
      by (auto simp: bury_def collected_def mourned_def orphaned_def free_all_def reported_def dead_def)
    then show ?thesis using q b(1) [of q] by (simp add: b'(1))
  qed
  ultimately show ?thesis using False s'(3) b'(1,2,6) s2(3-5,7,8) Wb by auto
qed

text \<open>
  C8: \<^verbatim>\<open>kill\<close> of another process. On a kernel with a sound family tree and sound semaphores it never faults
  and the caller goes on. It refuses \<^verbatim>\<open>idle\<close>, bad identifiers, and processes that are dead or do not exist --
  but the return value of a zombie is lost in this case. Otherwise the process dies as by \<^verbatim>\<open>exit\<close>, with
  return value 0: it is a zombie or free, the father is told, its children are freed or orphaned, its memory
  is collected, and the family tree is sound. When the process was blocked on a semaphore, the value of the
  semaphore grows by one and the last of the other processes blocked there is also woken: its \<^verbatim>\<open>wait\<close> succeeds
  although nobody signalled the semaphore.
\<close>

theorem kill_contract:
  fixes s :: "('m, 'z) sems_scheme"
  assumes fam: "family_ok s Q C T" and inv: "sem_inv s Q S" and other: "pid \<noteq> cur_pid s"
    and W: "W = other_waiter pid (process_table s) Q"
  shows "if pid \<le> 0 \<or> pid \<ge> NB_PROCESS then kill E pid s = Inr (Some (-1), s)
    else if p_state (proc s pid) \<in> {zombie, freepid}
    then kill E pid s = Inr (Some (-1), upd_proc pid (\<lambda>p. p\<lparr>p_retvalue := KILL_RETVAL\<rparr>) s)
    else \<exists>s' Q' C'. kill E pid s = Inr (Some 0, s') \<and> family_ok s' Q' C' T \<and> cur_pid s' = cur_pid s
      \<and> process_table s' = bury (to_int (current_clock s)) pid (C pid) (struck pid W (process_table s))
      \<and> p_state (proc s' pid) = (if p_father (proc s pid) = 0 then freepid else zombie) \<and> p_retvalue (proc s' pid) = KILL_RETVAL
      \<and> (\<forall>q \<in> set W. p_state (proc s q) = sem_blocked \<and> p_state (proc s' q) = actionable \<and> p_awakener (proc s' q) = 0)
      \<and> sem_table s' = relieved pid (process_table s) (sem_table s)"
  using kill_ok [OF assms, of E] by (auto split: if_splits)


section \<open>Examples\<close>

text \<open>
  Process 1 runs. It is a child of \<^verbatim>\<open>idle\<close>, its own children are 2, a zombie, and 3, which is ready; it waits for
  the child \<open>w\<close>.
\<close>

definition fam_links :: "ploc links" where
  "fam_links l = (case l of
     QHead t \<Rightarrow> (if t = actionable then \<lparr>lprev = Some (Chaining 3), lnext = Some (Chaining 0)\<rparr>
                 else if t = zombie then \<lparr>lprev = Some (Chaining 2), lnext = Some (Chaining 2)\<rparr>
                 else \<lparr>lprev = Some l, lnext = Some l\<rparr>)
   | GcHead \<Rightarrow> \<lparr>lprev = Some l, lnext = Some l\<rparr>
   | ChildrenHead p \<Rightarrow> (if p = 0 then \<lparr>lprev = Some (ChildLink 1), lnext = Some (ChildLink 0)\<rparr>
                       else if p = 1 then \<lparr>lprev = Some (ChildLink 3), lnext = Some (ChildLink 2)\<rparr>
                       else \<lparr>lprev = Some l, lnext = Some l\<rparr>)
   | Chaining p \<Rightarrow> (if p = 0 then \<lparr>lprev = Some (QHead actionable), lnext = Some (Chaining 3)\<rparr>
                   else if p = 3 then \<lparr>lprev = Some (Chaining 0), lnext = Some (QHead actionable)\<rparr>
                   else if p = 2 then \<lparr>lprev = Some (QHead zombie), lnext = Some (QHead zombie)\<rparr>
                   else \<lparr>lprev = None, lnext = None\<rparr>)
   | ChildLink p \<Rightarrow> (if p = 0 then \<lparr>lprev = Some (ChildrenHead 0), lnext = Some (ChildLink 1)\<rparr>
                    else if p = 1 then \<lparr>lprev = Some (ChildLink 0), lnext = Some (ChildrenHead 0)\<rparr>
                    else if p = 2 then \<lparr>lprev = Some (ChildrenHead 1), lnext = Some (ChildLink 3)\<rparr>
                    else if p = 3 then \<lparr>lprev = Some (ChildLink 2), lnext = Some (ChildrenHead 1)\<rparr>
                    else \<lparr>lprev = None, lnext = None\<rparr>)
   | _ \<Rightarrow> \<lparr>lprev = None, lnext = None\<rparr>)"

definition fam_table :: "int \<Rightarrow> int \<Rightarrow> process" where
  "fam_table w p = (ex_table p)\<lparr>p_state := (if p \<in> {0, 1, 3} then actionable else if p = 2 then zombie else freepid),
     p_father := (if p \<in> {2, 3} then 1 else 0), p_retvalue := (if p = 2 then 42 else 0), p_child_waited := (if p = 1 then w else 0)\<rparr>"

definition fam_queues :: "list_type \<Rightarrow> int list" where
  "fam_queues = (\<lambda>_. [])(actionable := [0, 3], zombie := [2])"

definition fam_kids :: "int \<Rightarrow> int list" where
  "fam_kids = (\<lambda>_. [])(0 := [0, 1], 1 := [2, 3])"

definition fam_state :: "int \<Rightarrow> unit sems" where
  "fam_state w = ex_sems\<lparr>process_table := fam_table w, plinks := fam_links\<rparr>"

lemma fam_queues_ok: "queues QHead Chaining fam_links pids fam_queues"
  unfolding queues_def
proof (intro conjI allI ballI impI)
  fix t show "dll fam_links (QHead t) (map Chaining (fam_queues t))"
    by (cases t) (simp_all add: dll_def fam_links_def fam_queues_def)
next
  fix p assume p: "p \<in> pids" "\<forall>t. p \<notin> set (fam_queues t)"
  then have "p \<noteq> 0" "p \<noteq> 2" "p \<noteq> 3" using spec [OF p(2), of actionable] spec [OF p(2), of zombie] by (auto simp: fam_queues_def)
  then show "unlinked fam_links (Chaining p)" by (simp add: unlinked_def fam_links_def)
qed (auto simp: fam_queues_def pids_iff)

lemma fam_kids_ok: "kids_ok UNIV fam_links fam_kids"
  unfolding kids_ok_def queues_on_def
proof (intro conjI allI ballI impI)
  fix t show "dll fam_links (ChildrenHead t) (map ChildLink (fam_kids t))"
    by (cases "t = 0"; cases "t = 1") (simp_all add: dll_def fam_links_def fam_kids_def)
next
  fix p assume p: "p \<in> pids" "\<forall>t. p \<notin> set (fam_kids t)"
  then have "p \<noteq> 0" "p \<noteq> 1" "p \<noteq> 2" "p \<noteq> 3" using spec [OF p(2), of 0] spec [OF p(2), of 1] by (auto simp: fam_kids_def)
  then show "unlinked fam_links (ChildLink p)" by (simp add: unlinked_def fam_links_def)
qed (auto simp: fam_kids_def pids_iff split: if_splits)

lemma fam_state_fields [simp]:
  "process_table (fam_state w) = fam_table w" "plinks (fam_state w) = fam_links" "cur_pid (fam_state w) = 1" "slinks (fam_state w) = static_slinks"
  by (simp_all add: fam_state_def ex_sems_def ex_state_def sems.defs)

lemma fam_state_ok:
  assumes "w = 0 \<or> w = 2"
  shows "family_ok (fam_state w) fam_queues fam_kids UNIV"
proof -
  have "sched_ok fam_links (fam_table w) fam_queues {1}"
    using fam_queues_ok by (auto simp: sched_ok_def fam_table_def ex_table_def fam_queues_def split: if_splits)
  moreover have "gc_ok fam_links []" by (auto simp: gc_ok_def queues_def dll_def fam_links_def unlinked_def)
  ultimately have "running (fam_state w) fam_queues" by (simp add: running_def fam_table_def pids_iff)
  moreover have "family (fam_table w) UNIV fam_kids"
  proof -
    have k: "\<exists>f. p \<in> set (fam_kids f)" if "p_state (fam_table w p) \<noteq> freepid" for p
      using that by (intro exI [of _ "if p \<in> {0, 1} then 0 else 1"]) (auto simp: fam_table_def fam_kids_def split: if_splits)
    show ?thesis unfolding family_def
    proof (intro conjI ballI allI impI)
      fix p assume "p \<in> pids" "p_state (fam_table w p) \<noteq> freepid"
      with k [OF this(2)] show "p \<in> UNIV" "\<exists>f. p \<in> set (fam_kids f)" "p_father (fam_table w p) \<in> pids" "alive (fam_table w) (p_father (fam_table w p))"
        by (auto simp: fam_table_def ex_table_def pids_iff alive_def)
    next
      fix f assume "f \<in> pids" "alive (fam_table w) f"
      then show "waits_ok (fam_table w) f" using assms by (auto simp: waits_ok_def Let_def fam_table_def pids_iff)
    qed (auto simp: fam_table_def fam_kids_def alive_def split: if_splits)
  qed
  ultimately show ?thesis using fam_kids_ok by (simp add: family_ok_def)
qed

lemma exit_contract_witness:
  "\<exists>s1 s'. exit ex_env 5 (fam_state 0) = Inr (None, s1) \<and> garbage_collector ex_env s1 = Inr (None, s')
     \<and> p_state (proc s' 1) = freepid \<and> p_state (proc s' 2) = freepid \<and> p_father (proc s' 3) = 0"
proof -
  have f: "p_father (proc (fam_state 0) 1) = 0" "p_state (proc (fam_state 0) 2) = zombie" "p_state (proc (fam_state 0) 3) \<noteq> zombie"
    "fam_kids 1 = [2, 3]" by (simp_all add: fam_table_def fam_kids_def)
  show ?thesis
    using exit_contract [where s = "fam_state 0" and p = 1 and f = 0 and v = 5 and E = ex_env, OF fam_state_ok] f by fastforce
qed

lemma waitpid_contract_witness:
  "\<exists>s'. waitpid ex_env (-1) 0x2000000 (fam_state 0) = Inr (Some 2, s') \<and> p_state (proc s' 2) = freepid
     \<and> mem s' = store32 (mem (fam_state 0)) 0x2000000 42"
proof -
  have f: "filter (\<lambda>c. p_state (proc (fam_state 0) c) = zombie) (fam_kids 1) = [2]" "fam_kids 1 \<noteq> []" "p_retvalue (fam_table 0 2) = 42"
    by (simp_all add: fam_table_def fam_kids_def)
  show ?thesis
    using waitpid_contract [where s = "fam_state 0" and pid = "-1" and retvalp = "0x2000000" and E = ex_env and Z = "[2]" and c = 2, OF fam_state_ok] f
    by (auto simp: reads_end_def reaped_def of_int32_def)
qed

lemma waitpid_resumes_witness:
  "\<exists>s'. waitpid_end ex_env 0 (fam_state 2) = Inr (2, s') \<and> p_state (proc s' 2) = freepid \<and> p_child_waited (proc s' 1) = 0"
proof -
  have c: "2 = p_child_waited (proc (fam_state 2) (cur_pid (fam_state 2)))" by (simp add: fam_table_def)
  show ?thesis
    using waitpid_resumes [where s = "fam_state 2" and c = 2 and retvalp = 0 and E = ex_env, OF fam_state_ok _ c] by (auto simp: reads_end_def reaped_def)
qed

lemma kill_contract_witness:
  "\<exists>s0 s'. init_sem_free (fam_state 0) = Inr s0 \<and> kill ex_env 3 s0 = Inr (Some 0, s') \<and> p_state (proc s' 3) = zombie
     \<and> p_retvalue (proc s' 3) = 0 \<and> kill ex_env 2 s0 = Inr (Some (-1), upd_proc 2 (\<lambda>p. p\<lparr>p_retvalue := 0\<rparr>) s0)"
proof -
  have run: "running (fam_state 0) fam_queues" by (rule family_okD(1) [OF fam_state_ok]) simp
  have none: "fam_queues sem_blocked = []" by (simp add: fam_queues_def)
  have q: "queues SHead SLink (slinks (fam_state 0)) sids (\<lambda>_. [])" using static_slinks_queues by simp
  obtain tbl h where s0: "init_sem_free (fam_state 0) = Inr ((fam_state 0)\<lparr>sem_table := tbl, slinks := h\<rparr>)"
    using init_sem_free_steps [OF q, of 100] by (auto simp: init_sem_free_def)
  let ?s = "(fam_state 0)\<lparr>sem_table := tbl, slinks := h\<rparr>"
  obtain S where inv: "sem_inv ?s fam_queues S" using init_sem_free_ok [OF run q none] s0 by auto
  have fam: "family_ok ?s fam_queues fam_kids UNIV" using fam_state_ok [of 0] by (simp add: family_ok_def running_def)
  have f: "p_state (proc ?s 3) = actionable" "p_state (proc ?s 2) = zombie" "p_father (proc ?s 3) = 1" "cur_pid ?s = 1"
    by (simp_all add: fam_table_def)
  show ?thesis
    using kill_contract [where pid = 3 and E = ex_env, OF fam inv _ refl] kill_contract [where pid = 2 and E = ex_env, OF fam inv _ refl] s0 f by auto
qed

end
