(* ===== verification/Boot.thy ===== *)
theory Boot
  imports Family_Contracts
begin

text \<open>
  The initialisation of the process handling: from the static initialisers of the queues,
  \<^verbatim>\<open>init_process_handling\<close> makes a kernel in which \<^verbatim>\<open>idle\<close> runs and the invariants hold.
\<close>

section \<open>The free identifiers\<close>

text \<open>The links as the static initialisers leave them: heads are empty lists, links of processes are null.\<close>

definition static_plinks :: "ploc links" where
  "static_plinks l = (case l of QHead t \<Rightarrow> \<lparr>lprev = Some l, lnext = Some l\<rparr> | GcHead \<Rightarrow> \<lparr>lprev = Some l, lnext = Some l\<rparr>
     | _ \<Rightarrow> \<lparr>lprev = None, lnext = None\<rparr>)"

lemma static_plinks_ok:
  "queues QHead Chaining static_plinks pids (\<lambda>_. [])" "kids_ok {} static_plinks (\<lambda>_. [])" "gc_ok static_plinks []"
  by (auto simp: queues_def kids_ok_def queues_on_def gc_ok_def dll_def static_plinks_def unlinked_def)

definition fresh :: "int \<Rightarrow> process \<Rightarrow> process" where
  "fresh i p = p\<lparr>p_pid := i, p_state := freepid, p_child_waited := 0, p_awakener := -1, p_sem_blocked := -1\<rparr>"

definition fresh_table :: "int \<Rightarrow> (int \<Rightarrow> process) \<Rightarrow> int \<Rightarrow> process" where
  "fresh_table n pt = (\<lambda>i. if 0 \<le> i \<and> i < n then fresh i (pt i) else pt i)"

definition free_queue :: "int \<Rightarrow> list_type \<Rightarrow> int list" where
  "free_queue n = (\<lambda>_. [])(freepid := [0..n - 1])"

lemma free_queue_insert: "(free_queue (int n))(freepid := [0..int n - 1] @ [int n]) = free_queue (int (Suc n))"
  by (auto simp: free_queue_def upto_rec2 fun_eq_iff)

lemma init_free_list_steps:
  fixes s :: "('m, 'z) procs_scheme"
  assumes q: "queues QHead Chaining (plinks s) pids (\<lambda>_. [])" and un: "\<And>p. p \<in> pids \<Longrightarrow> unlinked (plinks s) (ChildLink p)" and "int n \<le> NB_PROCESS"
  shows "\<exists>h. mfold init_free_entry [0..int n - 1] s = Inr (s\<lparr>process_table := fresh_table (int n) (process_table s), plinks := h\<rparr>)
    \<and> queues QHead Chaining h pids (free_queue (int n)) \<and> same_rest (plinks s) h"
  using assms(3)
proof (induction n)
  case 0
  have "fresh_table 0 pt = pt" for pt by (auto simp: fresh_table_def fun_eq_iff)
  moreover have "free_queue 0 = (\<lambda>_. [])" by (simp add: free_queue_def fun_eq_iff)
  ultimately show ?case using q by (intro exI [of _ "plinks s"]) simp
next
  case (Suc n)
  let ?Q = "free_queue (int n)"
  obtain h where h: "mfold init_free_entry [0..int n - 1] s = Inr (s\<lparr>process_table := fresh_table (int n) (process_table s), plinks := h\<rparr>)"
    "queues QHead Chaining h pids ?Q" "same_rest (plinks s) h"
    using Suc.IH Suc.prems by auto
  have np: "int n \<in> pids" using Suc.prems by (simp add: pids_iff)
  have no: "in_no_queue ?Q (int n)" by (simp add: in_no_queue_def free_queue_def)
  define s1 where "s1 = s\<lparr>process_table := fresh_table (int (Suc n)) (process_table s), plinks := h\<rparr>"
  have s1: "upd_proc (int n) (\<lambda>p. p\<lparr>p_pid := int n, p_state := freepid, p_child_waited := 0, p_awakener := -1, p_sem_blocked := -1\<rparr>)
      (s\<lparr>process_table := fresh_table (int n) (process_table s), plinks := h\<rparr>) = s1"
    by (auto simp: upd_proc_def s1_def fresh_table_def fresh_def fun_eq_iff)
  have l: "INIT_LINK h (Chaining (int n)) = h" "INIT_LINK h (ChildLink (int n)) = h"
    using queuesD(4) [OF h(2) np no] un [OF np] same_restD(3) [OF h(3)] by (simp_all add: INIT_LINK_unlinked unlinked_def)
  have s1': "s1\<lparr>plinks := INIT_LINK (INIT_LINK (plinks s1) (Chaining (int n))) (ChildLink (int n))\<rparr> = s1" by (simp add: s1_def l)
  have "queues QHead Chaining (plinks s1) pids ?Q" using h(2) by (simp add: s1_def)
  from pq.queues_add [OF this card_pids np no, of "\<lambda>e. p_pid (proc s1 (owner e))" freepid]
  obtain h' where h': "proc_add (QHead freepid) (Chaining (int n)) p_pid s1 = Inr (s1\<lparr>plinks := h'\<rparr>)"
    "queues QHead Chaining h' pids (?Q(freepid := key_insert (\<lambda>x. p_pid (proc s1 x)) (int n) (?Q freepid)))" "same_rest h h'"
    by (auto simp: proc_add_def on_links_def same_rest_def s1_def)
  have "key_insert (\<lambda>x. p_pid (proc s1 x)) (int n) [0..int n - 1] = [0..int n - 1] @ [int n]"
    by (subst key_insert_end) (auto simp: s1_def fresh_table_def fresh_def)
  then have Q': "?Q(freepid := key_insert (\<lambda>x. p_pid (proc s1 x)) (int n) (?Q freepid)) = free_queue (int (Suc n))"
    using free_queue_insert [of n] by (simp add: free_queue_def)
  have "[0..int (Suc n) - 1] = [0..int n - 1] @ [int n]" by (simp add: upto_rec2)
  moreover have "init_free_entry (int n) (s\<lparr>process_table := fresh_table (int n) (process_table s), plinks := h\<rparr>) = Inr (s1\<lparr>plinks := h'\<rparr>)"
    using h'(1) by (simp add: init_free_entry_def s1 s1')
  ultimately show ?case
    using h(1) h'(2,3) same_rest_trans [OF h(3)] unfolding Q' by (intro exI [of _ h']) (simp add: mfold_append s1_def)
qed

lemma init_free_list_ok:
  fixes s :: "('m, 'z) procs_scheme"
  assumes "plinks s = static_plinks"
  shows "\<exists>h pt. init_free_list s = Inr (s\<lparr>process_table := pt, plinks := h\<rparr>) \<and> pt = fresh_table NB_PROCESS (process_table s)
    \<and> sched_ok h pt (free_queue NB_PROCESS) {} \<and> kids_ok {} h (\<lambda>_. []) \<and> gc_ok h []"
proof -
  have un: "unlinked (plinks s) (ChildLink p)" for p by (simp add: assms static_plinks_def unlinked_def)
  obtain h where h: "init_free_list s = Inr (s\<lparr>process_table := fresh_table NB_PROCESS (process_table s), plinks := h\<rparr>)"
    "queues QHead Chaining h pids (free_queue NB_PROCESS)" "same_rest static_plinks h"
    using init_free_list_steps [of s 100] static_plinks_ok(1) un by (auto simp: assms init_free_list_def)
  have "sched_ok h (fresh_table NB_PROCESS (process_table s)) (free_queue NB_PROCESS) {}"
    using h(2) by (auto simp: sched_ok_def fresh_table_def fresh_def free_queue_def pids_iff)
  with h static_plinks_ok(2,3) kids_ok_frame [OF h(3)] gc_ok_frame [OF h(3)] show ?thesis by auto
qed


section \<open>The first process\<close>

text \<open>
  \<^verbatim>\<open>idle\<close> is created by a \<^verbatim>\<open>start\<close> in which the new process is the current one: it becomes its own father, and
  \<^verbatim>\<open>init_scheduler\<close> takes it out of the ready queue again.
\<close>

definition idle_table :: "addr \<Rightarrow> addr \<Rightarrow> addr \<Rightarrow> (int \<Rightarrow> process) \<Rightarrow> int \<Rightarrow> process" where
  "idle_table nm ust kst pt = pt(0 := (pt 0)\<lparr>p_name := nm, p_pid := 0, p_prio := 0, p_retvalue := 0, p_alarm_time := 0,
     p_esp := kst + KERNEL_STACK_SIZE - 24, p_user_stack_size := 8, p_kernel_stack := kst, p_user_stack := ust, p_father := 0,
     p_child_waited := 0, p_state := actionable\<rparr>)"

definition idle_mem :: "'m env \<Rightarrow> addr \<Rightarrow> addr \<Rightarrow> addr \<Rightarrow> mem \<Rightarrow> mem" where
  "idle_mem E nm ust kst m = init_kernel_stack E kst (idle_adr E) ust
     (init_user_stack ust 8 0 (strncpy m nm (str_idle E) (strnlen m (str_idle E) MAX_SIZE_PROCESS_NAME + 1)))"

definition idle_kids :: "int \<Rightarrow> int list" where
  "idle_kids = (\<lambda>_. [])(0 := [0])"

lemma upto_zero: "[0..99] = (0 :: int) # [1..99]"
  by (simp add: upto_rec1)

lemma start_idle:
  fixes s :: "('m, 'z) procs_scheme"
  assumes ok: "sched_ok (plinks s) (process_table s) (free_queue NB_PROCESS) {}" "kids_ok {} (plinks s) (\<lambda>_. [])" "gc_ok (plinks s) []"
    and cur: "cur_pid s = 0"
    and nm: "mem_alloc E (strnlen (mem s) (str_idle E) MAX_SIZE_PROCESS_NAME + 1) (heap s) = (nm, hp1)" "nm \<noteq> 0"
    and us: "user_stack_alloc E 8 hp1 = (ust, hp2)" "ust \<noteq> 0" and ks: "mem_alloc E KERNEL_STACK_SIZE hp2 = (kst, hp3)" "kst \<noteq> 0"
  shows "\<exists>s'. init_scheduler E s = Inr s' \<and> cur_pid s' = 0 \<and> heap s' = hp3 \<and> mem s' = idle_mem E nm ust kst (mem s)
    \<and> process_table s' = idle_table nm ust kst (process_table s) \<and> procs.more s' = procs.more s
    \<and> lists_ok {0} s' ((\<lambda>_. [])(freepid := [1..99])) idle_kids [] {0}"
proof -
  let ?Q = "free_queue NB_PROCESS" and ?Q1 = "(\<lambda>_. [])(freepid := [1..99]) :: list_type \<Rightarrow> int list"
  have ne: "?Q freepid \<noteq> []" "hd (?Q freepid) = 0" "tl (?Q freepid) = [1..99]" by (simp_all add: free_queue_def upto_zero)
  have Q1: "?Q(freepid := [1..99]) = ?Q1" by (auto simp: free_queue_def)
  obtain h1 where h1: "proc_out_bot (QHead freepid) s = Inr (0, s\<lparr>plinks := h1\<rparr>)" "sched_ok h1 (process_table s) ?Q1 {0}" "same_rest (plinks s) h1"
    using proc_out_bot_ok [OF ok(1) ne(1)] ne Q1 by auto
  have ob: "obtain_pid s = Inr (0, s\<lparr>plinks := h1\<rparr>)"
    using h1(1) pq.queues_empty [OF sched_okD(1) [OF ok(1)], of freepid] ne(1) sched_okD(2) [OF ok(1) zero_pid] by (simp add: obtain_pid_def)
  define pn where "pn = (proc s 0)\<lparr>p_name := nm, p_user_stack_size := 8, p_user_stack := ust, p_kernel_stack := kst, p_esp := kst + KERNEL_STACK_SIZE - 24\<rparr>"
  define s9 where "s9 = s\<lparr>plinks := h1, heap := hp3, process_table := (process_table s)(0 := pn), mem := idle_mem E nm ust kst (mem s)\<rparr>"
  have st: "start E (idle_adr E) 0 1 (str_idle E) 0 s = start_enqueue 0 1 s9"
    using start_stacks [OF ob, of 0 1 E "str_idle E" nm hp1 ust hp2 kst hp3 "idle_adr E" 0] nm us ks by (simp add: s9_def pn_def idle_mem_def)
  have k9: "kids_ok {} h1 (\<lambda>_. [])" "gc_ok h1 []" using kids_ok_frame [OF h1(3) ok(2)] gc_ok_frame [OF h1(3)] ok(3) by simp_all
  define p1 where "p1 = pn\<lparr>p_pid := 0, p_alarm_time := 0, p_prio := 1, p_retvalue := 0, p_state := actionable\<rparr>"
  define s3 where "s3 = s9\<lparr>process_table := (process_table s)(0 := p1)\<rparr>"
  have unl: "INIT_LINK h1 (GcLink 0) = h1" "INIT_LINK h1 (Chaining 0) = h1"
    using INIT_LINK_unlinked [OF gc_empty_unlinked [OF k9(2) zero_pid]]
      INIT_LINK_unlinked [OF queuesD(4) [OF sched_okD(1) [OF h1(2)] zero_pid sched_okD(7) [OF h1(2)]]] by simp_all
  have ok3: "sched_ok (plinks s3) (process_table s3) ?Q1 {0}"
    using sched_ok_upd [OF h1(2), of p1 0] sched_okD(2) [OF ok(1) zero_pid] by (simp add: s3_def s9_def p1_def pn_def)
  have st3: "p_state (process_table s3 0) = actionable" by (simp add: s3_def p1_def)
  obtain h4 where h4: "proc_add (QHead actionable) (Chaining 0) p_prio s3 = Inr (s3\<lparr>plinks := h4\<rparr>)"
    "sched_ok h4 (process_table s3) (?Q1(actionable := [0])) {}" "same_rest h1 h4"
    using proc_add_ok [where key = p_prio and pt = "process_table s3", OF ok3 insertI1 zero_pid st3 refl refl] by (auto simp: s3_def s9_def)
  have se: "start_enqueue 0 1 s9 = start_filiation 0 1 (s3\<lparr>plinks := h4\<rparr>)"
  proof -
    have "s9\<lparr>plinks := INIT_LINK (plinks s9) (GcLink 0)\<rparr> = s9" "s3\<lparr>plinks := INIT_LINK (plinks s3) (Chaining 0)\<rparr> = s3"
      "upd_proc 0 (\<lambda>p. p\<lparr>p_pid := 0, p_alarm_time := 0, p_prio := 1, p_retvalue := 0, p_state := actionable\<rparr>) s9 = s3"
      by (simp_all add: s3_def s9_def unl upd_proc_def p1_def)
    then show ?thesis using h4(1) by (simp only: start_enqueue_def Let_def bnd_Inr)
  qed
  define h5 where "h5 = INIT_LIST_HEAD h4 (ChildrenHead 0)"
  have k4: "kids_ok {} h4 (\<lambda>_. [])" by (rule kids_ok_frame [OF h4(3) k9(1)])
  have cl: "INIT_LINK h4 (ChildLink 0) = h4"
    by (rule INIT_LINK_unlinked [OF queues_onD(4) [OF k4 [unfolded kids_ok_def] zero_pid]]) (simp add: in_no_queue_def)
  note k5 = kids_init [OF k4 refl, of 0, folded h5_def]
  define p6 where "p6 = p1\<lparr>p_child_waited := 0, p_father := 0\<rparr>"
  define s6 where "s6 = s9\<lparr>process_table := (process_table s)(0 := p6), plinks := h5\<rparr>"
  have "kids_ok {0} (plinks s6) (\<lambda>_. [])" using k5(1) by (simp add: s6_def)
  from kids_add_ok [OF this zero_pid _ singletonI, of p_prio] obtain h6 where
    h6: "proc_add (ChildrenHead 0) (ChildLink 0) p_prio s6 = Inr (s6\<lparr>plinks := h6\<rparr>)" "kids_ok {0} h6 idle_kids" "same_but_kids h5 h6"
    by (auto simp: in_no_queue_def idle_kids_def s6_def simp del: fun_upd_apply)
  define s7 where "s7 = s6\<lparr>plinks := h6, resume_at := (resume_at s)(0 := UserEntry)\<rparr>"
  have "start_filiation 0 1 (s3\<lparr>plinks := h4\<rparr>) = Inr (Some 0, s7)"
  proof -
    have "upd_proc 0 (\<lambda>p. p\<lparr>p_child_waited := 0, p_father := 0\<rparr>) (s3\<lparr>plinks := h5\<rparr>) = s6" "cur_pid s3 = 0" "cur_pid s6 = 0" "resume_at s6 = resume_at s"
      by (simp_all add: s3_def s6_def s9_def upd_proc_def p6_def cur)
    then show ?thesis using h6(1) by (simp add: start_filiation_def Let_def cl h5_def [symmetric] s7_def)
  qed
  with st se have start: "start E (idle_adr E) 0 1 (str_idle E) 0 s = Inr (Some 0, s7)" by simp
  define s8 where "s8 = upd_proc 0 (\<lambda>p. p\<lparr>p_prio := 0\<rparr>) s7"
  have tab8: "process_table s8 = idle_table nm ust kst (process_table s)" "plinks s8 = h6"
    by (cases "proc s 0"; simp add: s8_def s7_def s6_def upd_proc_def idle_table_def p6_def p1_def pn_def)+
  have f8: "cur_pid s8 = 0" "heap s8 = hp3" "mem s8 = idle_mem E nm ust kst (mem s)" "procs.more s8 = procs.more s"
    by (simp_all add: s8_def s7_def s6_def s9_def upd_proc_def cur)
  have ok7: "sched_ok h6 (process_table s3) (?Q1(actionable := [0])) {}"
    by (rule sched_ok_kids_frame [OF same_but_kids_trans [OF k5(2) h6(3)] h4(2)])
  have "sched_ok h6 (process_table s8) (?Q1(actionable := [0])) {}"
    by (rule sched_ok_table [OF ok7]) (simp add: tab8 s3_def idle_table_def p1_def pn_def)
  moreover have "gc_ok h6 []"
    using gc_ok_kids_frame [OF same_but_kids_trans [OF k5(2) h6(3)]] gc_ok_frame [OF h4(3)] k9(2) by simp
  ultimately have ok8: "lists_ok {0} s8 (?Q1(actionable := [0])) idle_kids [] {}" using h6(2) by (simp add: lists_ok_def tab8)
  obtain s' where s': "proc_del (Chaining 0) s8 = Inr s'" "lists_ok {0} s' ?Q1 idle_kids [] {0}" "becomes s8 (process_table s8) s'"
  proof -
    have "0 \<in> set ((?Q1(actionable := [0])) actionable)" by simp
    moreover have "(?Q1(actionable := [0]))(actionable := remove1 0 ((?Q1(actionable := [0])) actionable)) = ?Q1" by (auto simp: fun_eq_iff)
    ultimately show ?thesis using lists_del [OF ok8, of 0 actionable] that by auto
  qed
  obtain h hp where b: "s' = s8\<lparr>process_table := process_table s8, plinks := h, heap := hp\<rparr>" using s'(3) by (auto simp: becomes_def)
  have "heap s' = heap s8" using s'(1) by (auto simp: proc_del_def on_links_def bnd_eq_Inr)
  moreover have "init_scheduler E s = Inr s'" using start s'(1) by (simp add: init_scheduler_def s8_def)
  ultimately show ?thesis using s'(2) becomesD [OF s'(3)] f8 tab8(1) by (intro exI [of _ s']) simp
qed


lemma idle_family:
  assumes st: "\<And>p. p \<in> pids \<Longrightarrow> p \<noteq> 0 \<Longrightarrow> p_state (pt p) = freepid"
    and z: "p_state (pt 0) = actionable" "p_father (pt 0) = 0" "p_child_waited (pt 0) = 0"
  shows "family pt {0} idle_kids"
  unfolding family_def
proof (intro conjI ballI allI impI)
    fix p assume "p \<in> pids" "p_state (pt p) \<noteq> freepid"
    then have "p = 0" using st by blast
    then show "p \<in> {0}" "\<exists>f. p \<in> set (idle_kids f)" "p_father (pt p) \<in> pids" "alive pt (p_father (pt p))"
      using z by (auto simp: idle_kids_def alive_def)
  next
    fix p assume "p \<in> pids" "is_zombie pt p"
    then show "p_father (pt p) \<noteq> 0" using st z by (cases "p = 0") auto
  next
    fix f assume "f \<in> pids" "alive pt f"
    then show "waits_ok pt f" using st [of f] z by (cases "f = 0") (auto simp: waits_ok_def alive_def)
qed (use z in \<open>auto simp: idle_kids_def alive_def split: if_splits\<close>)

lemma boot_ok:
  fixes s :: "('m, 'z) procs_scheme"
  assumes static: "plinks s = static_plinks" "cur_pid s = 0"
    and nm: "mem_alloc E (strnlen (mem s) (str_idle E) MAX_SIZE_PROCESS_NAME + 1) (heap s) = (nm, hp1)" "nm \<noteq> 0"
    and us: "user_stack_alloc E 8 hp1 = (ust, hp2)" "ust \<noteq> 0" and ks: "mem_alloc E KERNEL_STACK_SIZE hp2 = (kst, hp3)" "kst \<noteq> 0"
    and gnm: "mem_alloc E 18 hp3 = (gnm, hp4)" and lit: "cstr (idle_mem E nm ust kst (mem s)) (str_garbage E) cs"
    and apart: "\<forall>i \<le> length cs. \<forall>j < i. gnm + of_nat j \<noteq> str_garbage E + of_nat i"
  shows "\<exists>s'. init_process_handling E s = Inr s' \<and> cur_pid s' = 0 \<and> resume_at s' PID_GARBAGE = Collect
    \<and> family_ok s' ((\<lambda>_. [])(freepid := [1..99])) idle_kids {0} \<and> p_prio (proc s' 0) = 0
    \<and> (\<forall>p. 0 < p \<and> p < NB_PROCESS \<longrightarrow> p_state (proc s' p) = freepid)
    \<and> p_pid (proc s' PID_GARBAGE) = PID_GARBAGE
    \<and> load32 (mem s') (p_esp (proc s' PID_GARBAGE)) = garbage_collector_adr E \<and> procs.more s' = procs.more s"
proof -
  obtain h where s1: "init_free_list s = Inr (s\<lparr>process_table := fresh_table NB_PROCESS (process_table s), plinks := h\<rparr>)"
    "sched_ok h (fresh_table NB_PROCESS (process_table s)) (free_queue NB_PROCESS) {}" "kids_ok {} h (\<lambda>_. [])" "gc_ok h []"
    using init_free_list_ok [OF static(1)] by blast
  define s1' where "s1' = s\<lparr>process_table := fresh_table NB_PROCESS (process_table s), plinks := h\<rparr>"
  let ?pt = "idle_table nm ust kst (fresh_table NB_PROCESS (process_table s))"
  obtain s2 where s2: "init_scheduler E s1' = Inr s2" "cur_pid s2 = 0" "heap s2 = hp3" "mem s2 = idle_mem E nm ust kst (mem s)"
    "process_table s2 = ?pt" "lists_ok {0} s2 ((\<lambda>_. [])(freepid := [1..99])) idle_kids [] {0}" "procs.more s2 = procs.more s"
    using start_idle [of s1' E nm hp1 ust hp2 kst hp3] s1(2-4) static(2) nm us ks by (auto simp: s1'_def)
  obtain m1 where m1: "strcpy (mem s2) gnm (str_garbage E) = Some m1"
    using strcpy_loop_cstr [OF lit, of gnm] apart s2(4) by (auto simp: strcpy_def)
  obtain gst hp5 where gst: "mem_alloc E KERNEL_STACK_SIZE hp4 = (gst, hp5)" by (cases "mem_alloc E KERNEL_STACK_SIZE hp4")
  define pg where "pg = (?pt PID_GARBAGE)\<lparr>p_name := gnm, p_pid := PID_GARBAGE, p_kernel_stack := gst, p_esp := gst + KERNEL_STACK_SIZE - 4\<rparr>"
  define s' where "s' = s2\<lparr>heap := hp5, process_table := ?pt(PID_GARBAGE := pg),
    mem := store32 m1 (gst + KERNEL_STACK_SIZE - 4) (garbage_collector_adr E), resume_at := (resume_at s2)(PID_GARBAGE := Collect)\<rparr>"
  have "init_garbage_collector E s2 = Inr s'"
    using gnm gst m1 s2(3,5) by (simp add: init_garbage_collector_def Let_def upd_proc_def s'_def pg_def)
  then have init: "init_process_handling E s = Inr s'" using s1(1) s2(1) by (simp add: init_process_handling_def s1'_def)
  note l = lists_okD [OF s2(6)]
  have pids: "PID_GARBAGE \<notin> pids" by (simp add: pids_iff)
  have "sched_ok (plinks s') (process_table s') ((\<lambda>_. [])(freepid := [1..99])) {0}"
    by (rule sched_ok_table [where pt = ?pt]) (use l(1) s2(5) pids in \<open>auto simp: s'_def pids_iff\<close>)
  moreover have "p_state (proc s' 0) = actionable" by (simp add: s'_def idle_table_def)
  ultimately have "running s' ((\<lambda>_. [])(freepid := [1..99]))" using l(3) s2(2) by (simp add: running_def s'_def pids_iff)
  moreover have "family (process_table s') {0} idle_kids"
    by (rule idle_family) (auto simp: s'_def idle_table_def fresh_table_def fresh_def pids_iff)
  moreover have "kids_ok {0} (plinks s') idle_kids" using l(2) by (simp add: s'_def)
  ultimately have "family_ok s' ((\<lambda>_. [])(freepid := [1..99])) idle_kids {0}" by (simp add: family_ok_def)
  moreover have "load32 (mem s') (p_esp (proc s' PID_GARBAGE)) = garbage_collector_adr E" by (simp add: s'_def pg_def load32_store32)
  moreover have "p_state (proc s' p) = freepid" if "0 < p" "p < NB_PROCESS" for p
    using that by (simp add: s'_def idle_table_def fresh_table_def fresh_def)
  ultimately show ?thesis using init s2(2,7) by (intro exI [of _ s']) (simp add: s'_def pg_def idle_table_def)
qed

text \<open>
  C22: the initialisation of the process handling. Started with the queues as their static initialisers leave
  them and with memory for the first process and the collector, \<^verbatim>\<open>init_process_handling\<close> does not fault
  and ends with \<^verbatim>\<open>idle\<close> as the running process: every other identifier is free, in order, the family tree is
  sound, nobody is blocked, and the collector is ready to run.
\<close>

theorem boot_establishes_invariant:
  fixes s :: "('m, 'z) procs_scheme"
  assumes static: "plinks s = static_plinks" "cur_pid s = 0"
    and nm: "mem_alloc E (strnlen (mem s) (str_idle E) MAX_SIZE_PROCESS_NAME + 1) (heap s) = (nm, hp1)" "nm \<noteq> 0"
    and us: "user_stack_alloc E 8 hp1 = (ust, hp2)" "ust \<noteq> 0" and ks: "mem_alloc E KERNEL_STACK_SIZE hp2 = (kst, hp3)" "kst \<noteq> 0"
    and gnm: "mem_alloc E 18 hp3 = (gnm, hp4)" and lit: "cstr (idle_mem E nm ust kst (mem s)) (str_garbage E) cs"
    and apart: "\<forall>i \<le> length cs. \<forall>j < i. gnm + of_nat j \<noteq> str_garbage E + of_nat i"
  shows "\<exists>s'. init_process_handling E s = Inr s' \<and> cur_pid s' = 0 \<and> resume_at s' PID_GARBAGE = Collect
    \<and> family_ok s' ((\<lambda>_. [])(freepid := [1..99])) idle_kids {0} \<and> p_prio (proc s' 0) = 0
    \<and> (\<forall>p. 0 < p \<and> p < NB_PROCESS \<longrightarrow> p_state (proc s' p) = freepid)
    \<and> p_pid (proc s' PID_GARBAGE) = PID_GARBAGE
    \<and> load32 (mem s') (p_esp (proc s' PID_GARBAGE)) = garbage_collector_adr E"
  using boot_ok [OF static nm us ks gnm lit apart] by blast

text \<open>The links as the static initialisers leave them, in a memory full of zeros: the literals are empty strings.\<close>

definition boot_state :: "'z \<Rightarrow> (unit, 'z) procs_scheme" where
  "boot_state z = (ex_state z)\<lparr>cur_pid := 0, plinks := static_plinks\<rparr>"

lemma boot_state_fields:
  "plinks (boot_state z) = static_plinks" "cur_pid (boot_state z) = 0" "mem (boot_state z) = (\<lambda>_. 0)"
  by (simp_all add: boot_state_def ex_state_def)

lemma boot_memory:
  "mem_alloc ex_env (strnlen (mem (boot_state z)) (str_idle ex_env) MAX_SIZE_PROCESS_NAME + 1) (heap (boot_state z)) = (0x300000, ())"
  "user_stack_alloc ex_env 8 () = (0x1800000, ())" "mem_alloc ex_env KERNEL_STACK_SIZE () = (0x400000, ())"
  "mem_alloc ex_env 18 () = (0x300000, ())"
  "cstr (idle_mem ex_env 0x300000 0x1800000 0x400000 (mem (boot_state z))) (str_garbage ex_env) []"
proof -
  have len: "strnlen (\<lambda>_. 0) a 16 = 0" for a using strnlen_cstr [of "\<lambda>_. 0" a "[]" 16] by simp
  show "mem_alloc ex_env (strnlen (mem (boot_state z)) (str_idle ex_env) MAX_SIZE_PROCESS_NAME + 1) (heap (boot_state z)) = (0x300000, ())"
    by (simp add: boot_state_fields(3) len) (simp add: ex_env_def)
  show "cstr (idle_mem ex_env 0x300000 0x1800000 0x400000 (mem (boot_state z))) (str_garbage ex_env) []"
    by (simp add: boot_state_fields(3) idle_mem_def len init_kernel_stack_def init_user_stack_def strncpy_def store32_def ex_env_def
        memset_fill [of _ _ _ 0, simplified])
qed (simp_all add: ex_env_def)

lemma boot_establishes_invariant_witness:
  "\<exists>s'. init_process_handling ex_env (boot_state ()) = Inr s' \<and> cur_pid s' = 0 \<and> p_state (proc s' 0) = actionable
     \<and> p_state (proc s' 99) = freepid"
proof -
  obtain s' where s': "init_process_handling ex_env (boot_state ()) = Inr s'" "cur_pid s' = 0"
    "family_ok s' ((\<lambda>_. [])(freepid := [1..99])) idle_kids {0}" "\<forall>p. 0 < p \<and> p < NB_PROCESS \<longrightarrow> p_state (proc s' p) = freepid"
    using boot_establishes_invariant [OF boot_state_fields(1,2) boot_memory(1) [of "()"] _ boot_memory(2) _ boot_memory(3) _ boot_memory(4,5)] by auto
  with runningD(5) [OF family_okD(1) [OF s'(3)]] show ?thesis by auto
qed

end
