(* ===== verification/Kernel_Steps.thy ===== *)
theory Kernel_Steps
  imports Boot System
begin

text \<open>
  The kernel as a transition system: the running process makes system calls through
  \<^verbatim>\<open>it49_syslib_body\<close>, the clock interrupts it through \<^verbatim>\<open>it32_clock_body\<close>, and the process that gets the
  processor goes on where it was. The invariants of the processes, of their family tree and of the
  semaphores hold together in every reachable state, and no step faults.
\<close>

section \<open>The balance of the semaphores, on the table\<close>

text \<open>
  The balance does not depend on the order of the queue of blocked processes: it can be stated with the
  states in the table.
\<close>

definition blocked_at :: "(int \<Rightarrow> process) \<Rightarrow> int \<Rightarrow> int set" where
  "blocked_at pt i = {p \<in> pids. p_state (pt p) = sem_blocked \<and> p_sem_blocked (pt p) = i}"

definition balance :: "(int \<Rightarrow> process) \<Rightarrow> (int \<Rightarrow> sem) \<Rightarrow> int set \<Rightarrow> bool" where
  "balance pt tbl U \<longleftrightarrow> (\<forall>p \<in> pids. p_state (pt p) = sem_blocked \<longrightarrow> p_sem_blocked (pt p) \<in> U)
     \<and> (\<forall>i \<in> U. SHRT_MIN \<le> sem_value (tbl i) \<and> sem_value (tbl i) \<le> SHRT_MAX
          \<and> int (card (blocked_at pt i)) = max 0 (- sem_value (tbl i)))"

lemma running_queue_set:
  assumes "running s Q" and "t \<noteq> actionable" and "t \<noteq> freepid"
  shows "set (Q t) = {p \<in> pids. p_state (proc s p) = t}"
proof -
  note ok = runningD(1) [OF assms(1)]
  have "p \<in> set (Q t)" if "p \<in> pids" "p_state (proc s p) = t" for p
    using sched_okD(6) [OF ok that(1)] that(2) assms(2,3) runningD(4) [OF assms(1)] by (cases "p = cur_pid s") auto
  then show ?thesis using sched_okD(3,4) [OF ok] by blast
qed

lemma balanced_balance:
  assumes "running s Q"
  shows "balanced s Q S \<longleftrightarrow> balance (process_table s) (sem_table s) (set (S sem_used))"
proof -
  have set: "set (Q sem_blocked) = {p \<in> pids. p_state (proc s p) = sem_blocked}" by (rule running_queue_set [OF assms]) simp_all
  have "length (waiters i (process_table s) Q) = card (blocked_at (process_table s) i)" for i
  proof -
    have "distinct (waiters i (process_table s) Q)" by (simp add: waiters_def sched_ok_distinct [OF runningD(1) [OF assms]])
    moreover have "set (waiters i (process_table s) Q) = blocked_at (process_table s) i" by (auto simp: waiters_def set blocked_at_def)
    ultimately show ?thesis by (metis distinct_card)
  qed
  then show ?thesis by (auto simp: balanced_def balance_def set)
qed

text \<open>Changes of the table that leave the blocked processes alone.\<close>

definition same_blocked :: "(int \<Rightarrow> process) \<Rightarrow> (int \<Rightarrow> process) \<Rightarrow> bool" where
  "same_blocked pt pt' \<longleftrightarrow> (\<forall>p \<in> pids. (p_state (pt' p) = sem_blocked \<longleftrightarrow> p_state (pt p) = sem_blocked)
     \<and> (p_state (pt p) = sem_blocked \<longrightarrow> p_sem_blocked (pt' p) = p_sem_blocked (pt p)))"

lemma balance_same:
  assumes "same_blocked pt pt'"
  shows "balance pt' tbl U \<longleftrightarrow> balance pt tbl U"
proof -
  have "blocked_at pt' i = blocked_at pt i" for i using assms by (auto simp: blocked_at_def same_blocked_def)
  then show ?thesis using assms by (auto simp: balance_def same_blocked_def)
qed

lemma same_blocked_trans [trans]: "same_blocked pt pt1 \<Longrightarrow> same_blocked pt1 pt2 \<Longrightarrow> same_blocked pt pt2"
  by (simp add: same_blocked_def)

section \<open>The invariant\<close>

text \<open>
  What is left to do for a process that is not running must be possible: the end of \<^verbatim>\<open>waitpid\<close> needs a child.
  The steps below do not include reading from the console.
\<close>

definition cont_ok :: "(int \<Rightarrow> process) \<Rightarrow> cont \<Rightarrow> int \<Rightarrow> bool" where
  "cont_ok pt k p \<longleftrightarrow> (case k of Running \<Rightarrow> True | UserEntry \<Rightarrow> True | Return v \<Rightarrow> True | Iret \<Rightarrow> True | WaitSem \<Rightarrow> True
     | WaitChild a \<Rightarrow> p_child_waited (pt p) \<noteq> 0 | _ \<Rightarrow> False)"

lemma cont_ok_table: "pt' x = pt x \<Longrightarrow> cont_ok pt' k x = cont_ok pt k x"
  by (cases k) (simp_all add: cont_ok_def)

lemma cont_ok_wake [simp]: "cont_ok (wake_table D pt) k p = cont_ok pt k p"
  by (simp add: cont_ok_def split: cont.splits)

definition conts_ok :: "int set \<Rightarrow> (int \<Rightarrow> process) \<Rightarrow> (int \<Rightarrow> cont) \<Rightarrow> bool" where
  "conts_ok A pt ra \<longleftrightarrow> ra PID_GARBAGE = Collect \<and> (\<forall>p \<in> A. alive pt p \<longrightarrow> cont_ok pt (ra p) p)"

definition settled :: "('m, 'z) sems_scheme \<Rightarrow> bool" where
  "settled s \<longleftrightarrow> (\<exists>Q C T S. family_ok s Q C T \<and> sems_ok s S \<and> balance (process_table s) (sem_table s) (set (S sem_used)))"

text \<open>A process runs in user mode; the processor has just been given to the current process.\<close>

definition user_inv :: "('m, 'z) sems_scheme \<Rightarrow> bool" where
  "user_inv s \<longleftrightarrow> settled s \<and> conts_ok (pids - {cur_pid s}) (process_table s) (resume_at s)"

definition elected_inv :: "('m, 'z) sems_scheme \<Rightarrow> bool" where
  "elected_inv s \<longleftrightarrow> settled s \<and> conts_ok pids (process_table s) (resume_at s)"

definition back_inv :: "'m env \<Rightarrow> ('m, 'z) sems_scheme \<Rightarrow> bool" where
  "back_inv E s \<longleftrightarrow> elected_inv s \<or> (cur_pid s = PID_GARBAGE \<and> resume_at s PID_GARBAGE = Collect
     \<and> (\<exists>s'. garbage_collector E s = Inr (None, s') \<and> elected_inv s'))"

definition good :: "'m env \<Rightarrow> ('r option \<times> ('m, 'z) sems_scheme) result \<Rightarrow> bool" where
  "good E out \<longleftrightarrow> (\<exists>r s'. out = Inr (r, s') \<and> (case r of Some _ \<Rightarrow> user_inv s' | None \<Rightarrow> back_inv E s'))"

lemma goodI:
  "out = Inr (Some v, s') \<Longrightarrow> user_inv s' \<Longrightarrow> good E out" "out = Inr (None, s') \<Longrightarrow> back_inv E s' \<Longrightarrow> good E out"
  "out = Inr (None, s') \<Longrightarrow> elected_inv s' \<Longrightarrow> good E out"
  by (auto simp: good_def back_inv_def)

lemma settledI:
  assumes "family_ok s Q C T" and "sems_ok s S" and "balance (process_table s) (sem_table s) (set (S sem_used))"
  shows "settled s"
  using assms by (auto simp: settled_def)

lemma settledE:
  assumes "settled s"
  obtains Q C T S where "family_ok s Q C T" "sem_inv s Q S" "balance (process_table s) (sem_table s) (set (S sem_used))"
  using assms balanced_balance family_okD(1) by (fastforce simp: settled_def sem_inv_def)

lemma conts_ok_cong:
  assumes "conts_ok A pt ra"
    and "\<And>p. p \<in> A \<Longrightarrow> alive pt' p \<Longrightarrow> alive pt p \<and> ra' p = ra p \<and> (p_child_waited (pt p) \<noteq> 0 \<longrightarrow> p_child_waited (pt' p) \<noteq> 0)"
    and "ra' PID_GARBAGE = Collect"
  shows "conts_ok A pt' ra'"
  using assms unfolding conts_ok_def cont_ok_def by (fastforce split: cont.splits)

text \<open>Changes of the table that do not concern the family: neither births, deaths nor the wait for a child.\<close>

definition calm :: "(int \<Rightarrow> process) \<Rightarrow> (int \<Rightarrow> process) \<Rightarrow> bool" where
  "calm pt pt' \<longleftrightarrow> (\<forall>p. p_father (pt' p) = p_father (pt p) \<and> p_child_waited (pt' p) = p_child_waited (pt p)
     \<and> (is_zombie pt' p \<longleftrightarrow> is_zombie pt p) \<and> (p_state (pt' p) = freepid \<longleftrightarrow> p_state (pt p) = freepid)
     \<and> (p_state (pt' p) = waiting_child \<longleftrightarrow> p_state (pt p) = waiting_child))"

lemma family_calm: "family pt T C \<Longrightarrow> calm pt pt' \<Longrightarrow> family pt' T C"
  by (rule family_cong) (simp_all add: calm_def)

lemma conts_ok_calm: "conts_ok A pt ra \<Longrightarrow> calm pt pt' \<Longrightarrow> conts_ok A pt' ra"
  by (rule conts_ok_cong) (auto simp: calm_def alive_def conts_ok_def)

lemma calm_refl [simp]: "calm pt pt"
  by (simp add: calm_def)

lemma calm_wake: "\<forall>d \<in> set D. p_state (pt d) = asleep \<Longrightarrow> calm pt (wake_table D pt)"
  by (auto simp: calm_def p_state_wake_table)

lemma calm_woken: "\<forall>p \<in> set ps. p_state (pt p) = sem_blocked \<Longrightarrow> calm pt (woken_table w ps pt)"
  by (auto simp: calm_def woken_table_def woken_def)

text \<open>The state before a switch, with the process that gives the processor away.\<close>

lemma elected_conts:
  fixes s :: "('m, 'z) sems_scheme"
  assumes sw: "switched k s Q s' Q'" and asl: "\<And>p. p \<in> set (Q asleep) \<Longrightarrow> p_state (proc s p) = asleep" and settled: "settled s'"
    and conts: "conts_ok (pids - {cur_pid s}) (process_table s) (resume_at s)" and k: "cont_ok (process_table s) k (cur_pid s)"
    and cur: "cur_pid s \<noteq> PID_GARBAGE"
  shows "elected_inv s'"
proof -
  define D where "D = due (to_int (current_clock s)) (process_table s) Q"
  have s': "process_table s' = wake_table D (process_table s)" "resume_at s' = (resume_at s)(cur_pid s := k)"
    using sw by (auto simp: switched_def Let_def D_def after_switch_def)
  have D: "\<forall>d \<in> set D. p_state (proc s d) = asleep"
    using set_due [of "to_int (current_clock s)" "process_table s" Q] asl by (auto simp: D_def)
  have "conts_ok pids (process_table s') (resume_at s')"
    unfolding conts_ok_def
  proof (intro conjI ballI impI)
    show "resume_at s' PID_GARBAGE = Collect" using conts cur by (auto simp: conts_ok_def s')
    fix p assume p: "p \<in> pids" "alive (process_table s') p"
    then have "alive (process_table s) p" using calm_wake [OF D] by (simp add: calm_def alive_def s'(1))
    then have "cont_ok (process_table s) (resume_at s' p) p" using conts k p(1) by (auto simp: conts_ok_def s'(2))
    then show "cont_ok (process_table s') (resume_at s' p) p" by (simp add: s'(1))
  qed
  with settled show ?thesis by (simp add: elected_inv_def)
qed

lemma switched_table:
  assumes sw: "switched k s Q s' Q'" and asl: "\<And>p. p \<in> set (Q asleep) \<Longrightarrow> p_state (proc s p) = asleep"
  shows "calm (process_table s) (process_table s')" "same_blocked (process_table s) (process_table s')" "same_rest (plinks s) (plinks s')"
proof -
  define D where "D = due (to_int (current_clock s)) (process_table s) Q"
  have D: "\<forall>d \<in> set D. p_state (proc s d) = asleep"
    using set_due [of "to_int (current_clock s)" "process_table s" Q] asl by (auto simp: D_def)
  have s': "process_table s' = wake_table D (process_table s)" using sw by (auto simp: switched_def Let_def D_def after_switch_def)
  show "calm (process_table s) (process_table s')" unfolding s' by (rule calm_wake [OF D])
  show "same_blocked (process_table s) (process_table s')" using D by (auto simp: same_blocked_def s' p_state_wake_table)
  show "same_rest (plinks s) (plinks s')" using sw by (auto simp: switched_def Let_def after_switch_def)
qed

lemma elected_by_switch:
  fixes s :: "('m, 'z) sems_scheme"
  assumes sw: "switched k s Q s' Q'" and asl: "\<And>p. p \<in> set (Q asleep) \<Longrightarrow> p_state (proc s p) = asleep"
    and kids: "kids_ok T (plinks s) C" and fam: "family (process_table s) T C"
    and sems: "sems_ok s' S" and bal: "balance (process_table s') (sem_table s') (set (S sem_used))"
    and conts: "conts_ok (pids - {cur_pid s}) (process_table s) (resume_at s)" and k: "cont_ok (process_table s) k (cur_pid s)"
    and cur: "cur_pid s \<noteq> PID_GARBAGE"
  shows "elected_inv s'"
proof -
  note t = switched_table [OF sw asl]
  have "family_ok s' Q' C T"
    using switched_running [OF sw] kids_ok_frame [OF t(3) kids] family_calm [OF fam t(1)] by (simp add: family_ok_def)
  then have "settled s'" using sems bal by (intro settledI [where S = S])
  then show ?thesis using elected_conts [OF sw asl] conts k cur by simp
qed

lemma elected_switched:
  fixes s :: "('m, 'z) sems_scheme"
  assumes sw: "switched k s Q s' Q'" and asl: "\<And>p. p \<in> set (Q asleep) \<Longrightarrow> p_state (proc s p) = asleep"
    and fam: "kids_ok T (plinks s) C" "family (process_table s) T C"
    and sems: "sems_ok s S" and bal: "balance (process_table s) (sem_table s) (set (S sem_used))"
    and conts: "conts_ok (pids - {cur_pid s}) (process_table s) (resume_at s)" and k: "cont_ok (process_table s) k (cur_pid s)"
    and cur: "cur_pid s \<noteq> PID_GARBAGE"
  shows "elected_inv s'"
proof -
  have "same_blocked (process_table s) (process_table s')" by (rule switched_table(2) [OF sw asl])
  note bal' = bal [folded balance_same [OF this]]
  show ?thesis
    by (rule elected_by_switch [OF sw asl fam _ _ conts k cur, of S])
      (use sems bal' balanced_switched(2) [OF sw] switched_sems(1) [OF sw] in simp_all)
qed

section \<open>The operations keep the invariant\<close>

lemma user_invE:
  assumes "user_inv s"
  obtains Q C T S where "family_ok s Q C T" "sem_inv s Q S" "balance (process_table s) (sem_table s) (set (S sem_used))"
    "conts_ok (pids - {cur_pid s}) (process_table s) (resume_at s)"
  using assms settledE unfolding user_inv_def by metis

text \<open>The variables the invariant is about.\<close>

definition same_kernel :: "('m, 'z) sems_scheme \<Rightarrow> ('m, 'z) sems_scheme \<Rightarrow> bool" where
  "same_kernel s s' \<longleftrightarrow> cur_pid s' = cur_pid s \<and> process_table s' = process_table s \<and> plinks s' = plinks s
     \<and> resume_at s' = resume_at s \<and> sem_table s' = sem_table s \<and> slinks s' = slinks s"

lemma same_kernel_inv:
  assumes "same_kernel s s'"
  shows "user_inv s' = user_inv s" "elected_inv s' = elected_inv s"
  using assms by (simp_all add: same_kernel_def user_inv_def elected_inv_def settled_def family_ok_def running_def sems_ok_def)

text \<open>A change of the table that is calm, followed perhaps by a switch.\<close>

lemma calm_change:
  assumes fam: "family_ok s Q C T" and conts: "conts_ok (pids - {cur_pid s}) (process_table s) (resume_at s)"
    and run: "running s2 Q2" and sems: "sems_ok s2 S" and bal: "balance (process_table s2) (sem_table s2) (set (S sem_used))"
    and same: "same_rest (plinks s) (plinks s2)" "calm (process_table s) (process_table s2)" "cur_pid s2 = cur_pid s" "resume_at s2 = resume_at s"
  shows "user_inv s2" and "switched k s2 Q2 s' Q' \<Longrightarrow> cont_ok (process_table s2) k (cur_pid s2) \<Longrightarrow> elected_inv s'"
proof -
  note f = family_okD [OF fam]
  have fam2: "kids_ok T (plinks s2) C" "family (process_table s2) T C"
    using kids_ok_frame [OF same(1) f(2)] family_calm [OF f(3) same(2)] by simp_all
  have conts2: "conts_ok (pids - {cur_pid s2}) (process_table s2) (resume_at s2)"
    using conts_ok_calm [OF conts same(2)] same(3,4) by simp
  have "settled s2" by (rule settledI [OF _ sems bal]) (use run fam2 in \<open>simp add: family_ok_def\<close>)
  with conts2 show "user_inv s2" by (simp add: user_inv_def)
  assume sw: "switched k s2 Q2 s' Q'" and k: "cont_ok (process_table s2) k (cur_pid s2)"
  have "p_state (proc s2 p) = asleep" if "p \<in> set (Q2 asleep)" for p using sched_okD(4) [OF runningD(1) [OF run] that] by simp
  then show "elected_inv s'"
    by (rule elected_switched [OF sw _ fam2 sems bal conts2 k]) (use runningD(3) [OF run] in \<open>auto simp: pids_iff\<close>)
qed

lemma calm_sem_change:
  assumes fam: "family_ok s Q C T" and conts: "conts_ok (pids - {cur_pid s}) (process_table s) (resume_at s)" and inv: "sem_inv s2 Q2 S"
    and same: "same_rest (plinks s) (plinks s2)" "calm (process_table s) (process_table s2)" "cur_pid s2 = cur_pid s" "resume_at s2 = resume_at s"
  shows "user_inv s2" and "switched k s2 Q2 s' Q' \<Longrightarrow> cont_ok (process_table s2) k (cur_pid s2) \<Longrightarrow> elected_inv s'"
  using calm_change [OF fam conts sem_invD(1,2) [OF inv] _ same] sem_invD(1,3) [OF inv] balanced_balance by blast+

text \<open>The semaphores.\<close>

lemma waiters_are_blocked:
  assumes "running s Q" and "p \<in> set (waiters i (process_table s) Q)"
  shows "p_state (proc s p) = sem_blocked"
  using assms sched_okD(4) [OF runningD(1)] by (auto simp: waiters_def)

lemma awake_resume [simp]: "resume_at (awake w ps h s) = resume_at s" "plinks (awake w ps h s) = h"
  by (simp_all add: awake_def)

lemma cont_ok_simps [simp]: "cont_ok pt (Return v) p" "cont_ok pt Iret p" "cont_ok pt UserEntry p" "cont_ok pt WaitSem p"
  "cont_ok pt (WaitChild a) p \<longleftrightarrow> p_child_waited (pt p) \<noteq> 0"
  by (simp_all add: cont_ok_def)

lemma yields_good:
  assumes fam: "family_ok s Q C T" and conts: "conts_ok (pids - {cur_pid s}) (process_table s) (resume_at s)"
    and y: "yields (Return v) r (awake w ps h s1) Q2 S out" and rest: "same_rest (plinks s) h"
    and ps: "set ps \<subseteq> set (waiters i (process_table s) Q)"
    and s1: "process_table s1 = process_table s" "cur_pid s1 = cur_pid s" "resume_at s1 = resume_at s"
  shows "good E out"
proof -
  have "calm (process_table s) (process_table (awake w ps h s1))"
    unfolding awake_fields s1(1) by (rule calm_woken) (use waiters_are_blocked [OF family_okD(1) [OF fam]] ps in blast)
  note c = calm_sem_change [OF fam conts _ _ this]
  show ?thesis using y c rest s1(2,3) unfolding yields_def by (cases "p_prio (proc (awake w ps h s1) (last (Q2 actionable)))
      > p_prio (proc (awake w ps h s1) (cur_pid (awake w ps h s1)))") (auto intro: goodI)
qed

lemma signaln_good:
  assumes inv: "user_inv s" and cur: "cur_pid s \<noteq> 0"
  shows "good E (signaln i count s)"
  using inv
proof (rule user_invE)
  fix Q C T S assume fam: "family_ok s Q C T" and sem: "sem_inv s Q S"
    and conts: "conts_ok (pids - {cur_pid s}) (process_table s) (resume_at s)"
  note ok = signaln_ok [OF sem cur refl refl refl, of count i]
  have "set (take (nat count) (rev (waiters i (process_table s) Q))) \<subseteq> set (waiters i (process_table s) Q)"
    by (rule set_take_butlast)
  then show ?thesis using ok by (auto intro: goodI(1) [OF _ inv] yields_good [OF fam conts, where i = i] split: if_splits)
qed

lemma sreset_good:
  assumes inv: "user_inv s" and cur: "cur_pid s \<noteq> 0" and count: "count \<le> SHRT_MAX"
  shows "good E (sreset i count s)"
  using inv
proof (rule user_invE)
  fix Q C T S assume fam: "family_ok s Q C T" and sem: "sem_inv s Q S"
    and conts: "conts_ok (pids - {cur_pid s}) (process_table s) (resume_at s)"
  show ?thesis using sreset_ok [OF sem cur count refl refl, of i]
    by (auto intro: goodI(1) [OF _ inv] yields_good [OF fam conts, where i = i] split: if_splits)
qed

lemma sdelete_good:
  assumes inv: "user_inv s" and cur: "cur_pid s \<noteq> 0"
  shows "good E (sdelete i s)"
  using inv
proof (rule user_invE)
  fix Q C T S assume fam: "family_ok s Q C T" and sem: "sem_inv s Q S"
    and conts: "conts_ok (pids - {cur_pid s}) (process_table s) (resume_at s)"
  show ?thesis using sdelete_ok [OF sem cur refl refl, of i]
    by (auto intro: goodI(1) [OF _ inv] yields_good [OF fam conts, where i = i] split: if_splits)
qed

lemma signal_good:
  assumes inv: "user_inv s"
  shows "good E (signal i (Return v) s)"
  using inv
proof (rule user_invE)
  fix Q C T S assume fam: "family_ok s Q C T" and sem: "sem_inv s Q S"
    and conts: "conts_ok (pids - {cur_pid s}) (process_table s) (resume_at s)"
  let ?v = "sem_value (sem_table s i)" and ?s1 = "upd_sem i (\<lambda>c. c\<lparr>sem_value := sem_value (sem_table s i) + 1\<rparr>) s"
  let ?ws = "waiters i (process_table s) Q"
  note ok = signal_ok [OF sem refl refl refl, of i "Return v"]
  have blocked: "p_state (proc s (last ?ws)) = sem_blocked" if "i \<in> set (S sem_used)" "?v < 0"
    using waiters_are_blocked [OF family_okD(1) [OF fam], of "last ?ws" i] balanced_values [OF sem_invD(3) [OF sem] that(1)] that(2)
    by (cases "?ws = []") auto
  consider "i \<notin> set (S sem_used) \<or> ?v = SHRT_MAX" | "i \<in> set (S sem_used)" "?v \<noteq> SHRT_MAX" "0 \<le> ?v" | "i \<in> set (S sem_used)" "?v < 0" by linarith
  then show ?thesis
  proof cases
    case 1
    then show ?thesis using ok by (auto intro: goodI(1) [OF _ inv] split: if_splits)
  next
    case 2
    have "user_inv ?s1" by (rule calm_sem_change(1) [OF fam conts, where S = S and ?Q2.0 = Q]) (use ok 2 in \<open>simp_all split: if_splits\<close>)
    then show ?thesis using ok 2 goodI(1) by fastforce
  next
    case 3
    obtain h where h: "sem_inv (awake 0 [last ?ws] h ?s1) (wake_one (last ?ws) (process_table s) Q) S" "same_rest (plinks s) h"
      "(\<exists>s' Q'. signal i (Return v) s = Inr (None, s') \<and> switched (Return v) (awake 0 [last ?ws] h ?s1) (wake_one (last ?ws) (process_table s) Q) s' Q')
       \<or> signal i (Return v) s = Inr (Some 0, awake 0 [last ?ws] h ?s1)"
      using ok 3 by (fastforce simp: Let_def split: if_splits)
    have "calm (process_table s) (process_table (awake 0 [last ?ws] h ?s1))"
      using calm_woken [of "[last ?ws]"] blocked 3 by (auto simp: awake_def)
    note c = calm_sem_change [OF fam conts h(1) _ this]
    show ?thesis using h(2,3) c by (auto intro: goodI)
  qed
qed

lemma wait_good:
  assumes inv: "user_inv s" and cur: "cur_pid s \<noteq> 0"
  shows "good E (wait i s)"
  using inv
proof (rule user_invE)
  fix Q C T S assume fam: "family_ok s Q C T" and sem: "sem_inv s Q S"
    and conts: "conts_ok (pids - {cur_pid s}) (process_table s) (resume_at s)"
  note f = family_okD [OF fam]
  let ?v = "sem_value (sem_table s i)" and ?s1 = "upd_sem i (\<lambda>c. c\<lparr>sem_value := sem_value (sem_table s i) - 1\<rparr>) s"
  note ok = wait_ok [OF sem cur refl refl, of i]
  consider "i \<notin> set (S sem_used) \<or> ?v = SHRT_MIN" | "i \<in> set (S sem_used)" "?v \<noteq> SHRT_MIN" "0 < ?v"
    | "i \<in> set (S sem_used)" "?v \<noteq> SHRT_MIN" "\<not> 0 < ?v" by blast
  then show ?thesis
  proof cases
    case 1
    then show ?thesis using ok by (auto intro: goodI(1) [OF _ inv] split: if_splits)
  next
    case 2
    have "user_inv ?s1" by (rule calm_sem_change(1) [OF fam conts, where S = S and ?Q2.0 = Q]) (use ok 2 in \<open>simp_all split: if_splits\<close>)
    then show ?thesis using ok 2 goodI(1) by fastforce
  next
    case 3
    obtain h s' Q' where w: "wait i s = Inr (None, s')" "sem_inv s' Q' S" "same_rest (plinks s) h"
      "switched WaitSem ((blocked_on i ?s1)\<lparr>plinks := h\<rparr>) (block_queue ?s1 Q) s' Q'"
      using ok 3 by auto
    let ?b = "(blocked_on i ?s1)\<lparr>plinks := h\<rparr>"
    have b: "process_table ?b = (process_table s)(cur_pid s := (proc s (cur_pid s))\<lparr>p_sem_blocked := i, p_state := sem_blocked\<rparr>)"
      "cur_pid ?b = cur_pid s" "resume_at ?b = resume_at s" "plinks ?b = h" by (simp_all add: blocked_on_def upd_proc_def)
    have calm: "calm (process_table s) (process_table ?b)" using runningD(4) [OF f(1)] by (simp add: b calm_def)
    have asl: "p_state (process_table ?b p) = asleep" if "p \<in> set (block_queue ?s1 Q asleep)" for p
    proof -
      have "p \<in> set (Q asleep)" using that by (simp add: block_queue_def)
      with sched_okD(4) [OF runningD(1) [OF f(1)] this] runningD(4) [OF f(1)] show ?thesis by (auto simp: b)
    qed
    have "elected_inv s'"
    proof (rule elected_by_switch [OF w(4) asl, of T C S])
      show "kids_ok T (plinks ?b) C" using kids_ok_frame [OF w(3) f(2)] by simp
      show "family (process_table ?b) T C" by (rule family_calm [OF f(3) calm])
      show "sems_ok s' S" using sem_invD(2) [OF w(2)] .
      show "balance (process_table s') (sem_table s') (set (S sem_used))"
        using sem_invD(1,3) [OF w(2)] balanced_balance by blast
      show "conts_ok (pids - {cur_pid ?b}) (process_table ?b) (resume_at ?b)" using conts_ok_calm [OF conts calm] by (simp only: b)
      show "cur_pid ?b \<noteq> PID_GARBAGE" using runningD(3) [OF f(1)] by (auto simp: b pids_iff)
    qed simp_all
    with w(1) show ?thesis by (rule goodI(3))
  qed
qed

lemma find_sem_inv:
  assumes "sem_inv s Q S"
  shows "find_sem sem_used i s = Inr (if i \<in> set (S sem_used) then Some i else None)"
  using find_sem_ok [OF sem_invD(2) [OF assms], of sem_used i] by simp

lemma try_wait_good:
  assumes inv: "user_inv s" and cur: "cur_pid s \<noteq> 0"
  shows "good E (ret (try_wait i s))"
  using inv
proof (rule user_invE)
  fix Q C T S assume fam: "family_ok s Q C T" and sem: "sem_inv s Q S"
    and conts: "conts_ok (pids - {cur_pid s}) (process_table s) (resume_at s)"
  let ?v = "sem_value (sem_table s i)" and ?s1 = "upd_sem i (\<lambda>c. c\<lparr>sem_value := sem_value (sem_table s i) - 1\<rparr>) s"
  note ok = wait_ok [OF sem cur refl refl, of i]
  have "user_inv ?s1" if "i \<in> set (S sem_used)" "0 < ?v"
    by (rule calm_sem_change(1) [OF fam conts, where S = S and ?Q2.0 = Q]) (use ok that in \<open>auto split: if_splits\<close>)
  then show ?thesis using find_sem_inv [OF sem, of i] by (auto simp: try_wait_def ret_def Let_def intro: goodI(1) goodI(1) [OF _ inv])
qed

lemma screate_good:
  assumes inv: "user_inv s" and count: "count \<le> SHRT_MAX"
  shows "good E (ret (screate count s))"
  using inv
proof (rule user_invE)
  fix Q C T S assume fam: "family_ok s Q C T" and sem: "sem_inv s Q S"
    and conts: "conts_ok (pids - {cur_pid s}) (process_table s) (resume_at s)"
  consider "count < 0" | "S sem_free = []" "0 \<le> count" | "S sem_free \<noteq> []" "0 \<le> count" by linarith
  then show ?thesis
  proof cases
    case 2
    then have "queue_empty (slinks s) (SHead sem_free)" using sq.queues_empty [OF sems_okD(1) [OF sem_invD(2) [OF sem]], of sem_free] by simp
    then show ?thesis using 2 by (auto simp: screate_def Semaphore.obtain_id_def ret_def intro: goodI(1) [OF _ inv])
  next
    case 3
    obtain s' S' where s': "screate count s = Inr (hd (S sem_free), s')" "sem_inv s' Q S'" "cur_pid s' = cur_pid s"
      "process_table s' = process_table s" "plinks s' = plinks s" "resume_at s' = resume_at s"
      using screate_ok [OF sem count 3(2,1)] by blast
    have "user_inv s'" by (rule calm_sem_change(1) [OF fam conts s'(2)]) (use s' in simp_all)
    then show ?thesis using s'(1) goodI(1) by (fastforce simp: ret_def)
  qed (auto simp: screate_def ret_def intro: goodI(1) [OF _ inv])
qed

text \<open>Priorities and sleep.\<close>

lemma chprio_good:
  assumes inv: "user_inv s"
  shows "good E (chprio pid newprio s)"
  using inv
proof (rule user_invE)
  fix Q C T S assume fam: "family_ok s Q C T" and sem: "sem_inv s Q S" and bal: "balance (process_table s) (sem_table s) (set (S sem_used))"
    and conts: "conts_ok (pids - {cur_pid s}) (process_table s) (resume_at s)"
  let ?s1 = "upd_proc pid (\<lambda>p. p\<lparr>p_prio := newprio\<rparr>) s"
  note ok = chprio_ok [OF family_okD(1) [OF fam] refl refl refl, of pid newprio]
  have t: "process_table ?s1 = (process_table s)(pid := (proc s pid)\<lparr>p_prio := newprio\<rparr>)" by (simp add: upd_proc_def)
  have "same_blocked (process_table s) (process_table ?s1)" by (simp add: t same_blocked_def)
  from balance_same [OF this] have bal1: "balance (process_table ?s1) (sem_table ?s1) (set (S sem_used))"
    using bal by (simp add: upd_proc_def)
  have calm: "calm (process_table s) (process_table ?s1)" by (simp add: t calm_def)
  have u: "resume_at ?s1 = resume_at s" "cur_pid ?s1 = cur_pid s" "plinks ?s1 = plinks s" by (simp_all add: upd_proc_def)
  have sems: "sems_ok (?s1\<lparr>plinks := h\<rparr>) S" for h using sem_invD(2) [OF sem] by (simp add: sems_ok_def upd_proc_def)
  have change: "user_inv (?s1\<lparr>plinks := h\<rparr>)" "switched (Return v) (?s1\<lparr>plinks := h\<rparr>) Q2 s' Q' \<Longrightarrow> elected_inv s'"
    if "running (?s1\<lparr>plinks := h\<rparr>) Q2" "same_rest (plinks s) h" for h Q2 v s' Q'
    using calm_change [OF fam conts that(1) sems] bal1 calm u that(2) by simp_all
  have own: "?s1\<lparr>plinks := plinks s\<rparr> = ?s1" by (simp add: upd_proc_def)
  show ?thesis using ok change [of "plinks s"] change
    by (auto simp: own Let_def intro: goodI(1) [OF _ inv] goodI split: if_splits)
qed

lemma wait_clock_good:
  assumes inv: "user_inv s" and cur: "cur_pid s \<noteq> 0" and sane: "clock \<le> current_clock s \<or> to_int (current_clock s) \<le> to_int clock"
  shows "good E (ret0 (wait_clock clock (Return v) s))"
  using inv
proof (rule user_invE)
  fix Q C T S assume fam: "family_ok s Q C T" and sem: "sem_inv s Q S" and bal: "balance (process_table s) (sem_table s) (set (S sem_used))"
    and conts: "conts_ok (pids - {cur_pid s}) (process_table s) (resume_at s)"
  note f = family_okD [OF fam]
  show ?thesis
  proof (cases "clock \<le> current_clock s")
    case True
    then have "wait_clock clock (Return v) s = Inr (Some (), s)" using wait_clock_ok [OF f(1) cur, of clock "Return v"] by simp
    then show ?thesis by (auto simp: ret0_def intro: goodI(1) [OF _ inv])
  next
    case False
    let ?Q = "Q(asleep := alarm_insert (sleeping clock s) (Q asleep))"
    obtain h s' Q' where w: "wait_clock clock (Return v) s = Inr (None, s')" "same_rest (plinks s) h"
      "switched (Return v) ((sleeping clock s)\<lparr>plinks := h\<rparr>) ?Q s' Q'"
      using wait_clock_ok [OF f(1) cur, of clock "Return v"] sane False by auto
    let ?b = "(sleeping clock s)\<lparr>plinks := h\<rparr>"
    have b: "process_table ?b = (process_table s)(cur_pid s := (proc s (cur_pid s))\<lparr>p_alarm_time := to_int clock, p_state := asleep\<rparr>)"
      "cur_pid ?b = cur_pid s" "resume_at ?b = resume_at s" "plinks ?b = h" "sem_table ?b = sem_table s" "slinks ?b = slinks s"
      by (simp_all add: sleeping_def upd_proc_def)
    have calm: "calm (process_table s) (process_table ?b)" using runningD(4) [OF f(1)] by (simp add: b calm_def)
    have "same_blocked (process_table s) (process_table ?b)" using runningD(4) [OF f(1)] by (auto simp: b same_blocked_def)
    note bal' = bal [folded balance_same [OF this]]
    have "elected_inv s'"
    proof (rule elected_switched [OF w(3), of T C S])
      show "p_state (process_table ?b p) = asleep" if "p \<in> set (?Q asleep)" for p
        using that sched_okD(4) [OF runningD(1) [OF f(1)], of p asleep] by (auto simp: b alarm_insert_def)
      show "kids_ok T (plinks ?b) C" using kids_ok_frame [OF w(2) f(2)] by simp
      show "family (process_table ?b) T C" by (rule family_calm [OF f(3) calm])
      show "sems_ok ?b S" using sem_invD(2) [OF sem] by (simp add: sems_ok_def b)
      show "balance (process_table ?b) (sem_table ?b) (set (S sem_used))" using bal' by (simp only: b(5))
      show "conts_ok (pids - {cur_pid ?b}) (process_table ?b) (resume_at ?b)" using conts_ok_calm [OF conts calm] by (simp only: b)
      show "cur_pid ?b \<noteq> PID_GARBAGE" using runningD(3) [OF f(1)] by (auto simp: b pids_iff)
    qed simp
    with w(1) show ?thesis by (auto simp: ret0_def intro: goodI(3))
  qed
qed

text \<open>Deaths: the table after one, and what the others were waiting for.\<close>

lemma alive_bury:
  assumes fam: "family pt T C" and p: "p \<in> pids" "p \<noteq> 0" "alive pt p"
  shows "alive (bury time p (C p) pt) x \<Longrightarrow> x \<noteq> p \<and> alive pt x"
    "p_child_waited (pt x) \<noteq> 0 \<Longrightarrow> p_child_waited (bury time p (C p) pt x) \<noteq> 0"
    "p_state (pt p) \<noteq> sem_blocked \<Longrightarrow> same_blocked pt (bury time p (C p) pt)"
proof -
  have free: "p_state (pt p) \<noteq> freepid" using p(3) by (simp add: alive_def)
  have pC: "p \<notin> set (C p)" using familyD(7) [OF fam] p(2) by blast
  have fz: "\<not> is_zombie pt (p_father (pt p))" using familyD(4) [OF fam p(1) free] by (simp add: alive_def)
  note aw = family_awaited(1) [OF fam p]
  note a = pC family_father(1) [OF fam p(1,2) free] fz
  note b = bury_fields [OF a, where time = time]
  show "alive (bury time p (C p) pt) x \<Longrightarrow> x \<noteq> p \<and> alive pt x"
    using aw by (auto simp: alive_def b split: if_splits)
  show "p_child_waited (pt x) \<noteq> 0 \<Longrightarrow> p_child_waited (bury time p (C p) pt x) \<noteq> 0" using p(2) by (simp add: b)
  have st: "p_state (bury time p (C p) pt x) = sem_blocked \<longleftrightarrow> p_state (pt x) = sem_blocked" if "p_state (pt p) \<noteq> sem_blocked" for x
    using aw that by (auto simp: b)
  have "p_sem_blocked (bury time p (C p) pt x) = p_sem_blocked (pt x)" if "p_state (pt x) = sem_blocked" "x \<noteq> p" for x
    using that mourned_fields(6) [OF a, where time = time] by (simp add: bury_def collected_def)
  with st show "p_state (pt p) \<noteq> sem_blocked \<Longrightarrow> same_blocked pt (bury time p (C p) pt)" by (auto simp: same_blocked_def)
qed

lemma same_but_woken_fields:
  assumes "same_but_woken q q'"
  shows "p_child_waited q' = p_child_waited q" "p_state q' = zombie \<longleftrightarrow> p_state q = zombie" "p_state q' = freepid \<longleftrightarrow> p_state q = freepid"
    "p_state q' = sem_blocked \<longleftrightarrow> p_state q = sem_blocked" "p_sem_blocked q' = p_sem_blocked q"
  using assms by (auto simp: same_but_woken_def)

lemma exit_good:
  assumes inv: "user_inv s" and cur: "cur_pid s \<noteq> 0"
  shows "good E (exit E v s)"
  using inv
proof (rule user_invE)
  fix Q C T S assume fam: "family_ok s Q C T" and sem: "sem_inv s Q S" and bal: "balance (process_table s) (sem_table s) (set (S sem_used))"
    and conts: "conts_ok (pids - {cur_pid s}) (process_table s) (resume_at s)"
  note f = family_okD [OF fam]
  let ?p = "cur_pid s"
  let ?pt = "(process_table s)(?p := (proc s ?p)\<lparr>p_retvalue := v\<rparr>)"
  let ?b = "bury (to_int (current_clock s)) ?p (C ?p) ?pt"
  obtain s1 s' Q' C' where e: "exit E v s = Inr (None, s1)" "cur_pid s1 = PID_GARBAGE" "resume_at s1 = (resume_at s)(?p := Dead)"
    "garbage_collector E s1 = Inr (None, s')" "family_ok s' Q' C' T" "\<And>x. same_but_woken (?b x) (proc s' x)"
    "procs.more s' = procs.more s" "resume_at s' = (resume_at s)(?p := Dead, PID_GARBAGE := Collect)"
    using exit_ok [OF fam refl cur refl, of E v] by blast
  note w = same_but_woken_fields [OF e(6)]
  have m: "sem_table s' = sem_table s" "slinks s' = slinks s" using e(7) by (cases s; cases s'; simp)+
  have calm: "calm (process_table s) ?pt" by (simp add: calm_def)
  have alive: "alive ?pt ?p" using runningD(4) [OF f(1)] by (simp add: alive_def)
  note b = alive_bury [OF family_calm [OF f(3) calm] runningD(3) [OF f(1)] cur alive, where time = "to_int (current_clock s)"]
  have st: "p_state (?pt ?p) \<noteq> sem_blocked" using runningD(4) [OF f(1)] by simp
  have "same_blocked (process_table s) ?pt" by (simp add: same_blocked_def)
  also have "same_blocked ?pt ?b" by (rule b(3) [OF st])
  also have "same_blocked ?b (process_table s')" by (simp add: same_blocked_def w)
  finally have "balance (process_table s') (sem_table s') (set (S sem_used))" using bal balance_same by (simp add: m)
  moreover have "sems_ok s' S" using sem_invD(2) [OF sem] by (simp add: sems_ok_def m)
  ultimately have settled: "settled s'" using e(5) by (intro settledI)
  have "conts_ok pids (process_table s') (resume_at s')"
  proof -
    have live: "x \<noteq> ?p \<and> alive (process_table s) x" if "alive (process_table s') x" for x
      using b(1) [of x] that by (auto simp: alive_def w calm split: if_splits)
    have "conts_ok (pids - {?p}) (process_table s') (resume_at s')"
      using b(2) live by (intro conts_ok_cong [OF conts]) (auto simp: w e(8))
    then show ?thesis using live by (auto simp: conts_ok_def)
  qed
  with settled have "elected_inv s'" by (simp add: elected_inv_def)
  moreover have "resume_at s1 PID_GARBAGE = Collect"
    using conts runningD(3) [OF f(1)] by (auto simp: e(3) conts_ok_def pids_iff)
  ultimately have "back_inv E s1" using e(2,4) by (auto simp: back_inv_def)
  with e(1) show ?thesis by (rule goodI(2))
qed

lemma kill_good:
  assumes inv: "user_inv s" and cur: "cur_pid s \<noteq> 0" and nb: "p_state (proc s pid) \<noteq> sem_blocked"
  shows "good E (kill E pid s)"
  using inv
proof (rule user_invE)
  fix Q C T S assume fam: "family_ok s Q C T" and sem: "sem_inv s Q S" and bal: "balance (process_table s) (sem_table s) (set (S sem_used))"
    and conts: "conts_ok (pids - {cur_pid s}) (process_table s) (resume_at s)"
  note f = family_okD [OF fam]
  let ?pt = "(process_table s)(pid := (proc s pid)\<lparr>p_retvalue := 0\<rparr>)"
  let ?b = "bury (to_int (current_clock s)) pid (C pid) ?pt"
  have calm: "calm (process_table s) ?pt" by (simp add: calm_def)
  have sb: "same_blocked (process_table s) ?pt" by (simp add: same_blocked_def)
  have W: "struck pid (other_waiter pid (process_table s) Q) (process_table s) = ?pt"
    "relieved pid (process_table s) (sem_table s) = sem_table s"
    using nb by (simp_all add: other_waiter_def struck_def relieved_def Let_def woken_table_def fun_eq_iff)
  note ok = kill_ok [OF fam sem _ refl, of pid E]
  consider "pid \<le> 0 \<or> pid \<ge> NB_PROCESS" | "pid = cur_pid s" | "pid \<noteq> cur_pid s" "0 < pid" "pid < NB_PROCESS" "p_state (proc s pid) \<in> {zombie, freepid}"
    | "pid \<noteq> cur_pid s" "0 < pid" "pid < NB_PROCESS" "alive (process_table s) pid" unfolding alive_def by (simp add: not_less [symmetric]) blast
  then show ?thesis
  proof cases
    case 1
    then show ?thesis by (auto simp: kill_def intro: goodI(1) [OF _ inv])
  next
    case 2
    then have "kill E pid s = exit E 0 s" using cur runningD(3) [OF f(1)] by (simp add: kill_def pids_iff)
    then show ?thesis using exit_good [OF inv cur] by simp
  next
    case 3
    let ?s = "upd_proc pid (\<lambda>p. p\<lparr>p_retvalue := 0\<rparr>) s"
    have u: "process_table ?s = ?pt" "plinks ?s = plinks s" "cur_pid ?s = cur_pid s" "resume_at ?s = resume_at s" "slinks ?s = slinks s"
      "sem_table ?s = sem_table s" by (simp_all add: upd_proc_def)
    have k: "kill E pid s = Inr (Some (-1), ?s)" using ok 3 by (auto split: if_splits)
    have run: "running ?s Q" using running_upd [OF f(1), of "(proc s pid)\<lparr>p_retvalue := 0\<rparr>" pid] by (simp add: upd_proc_def)
    have "user_inv ?s"
      by (rule calm_change(1) [OF fam conts run, of S])
        (use sem_invD(2) [OF sem] bal balance_same [OF sb] calm in \<open>simp_all add: u sems_ok_def\<close>)
    with k show ?thesis by (rule goodI(1))
  next
    case 4
    obtain s' Q' C' where k: "kill E pid s = Inr (Some 0, s')" "family_ok s' Q' C' T" "cur_pid s' = cur_pid s" "process_table s' = ?b"
      "sem_table s' = sem_table s" "slinks s' = slinks s" "resume_at s' = resume_at s"
      using ok 4 by (fastforce simp: alive_def W split: if_splits)
    have pid: "pid \<in> pids" "pid \<noteq> 0" "alive ?pt pid" using 4 by (simp_all add: pids_iff alive_def)
    note b = alive_bury [OF family_calm [OF f(3) calm] pid, where time = "to_int (current_clock s)"]
    have "same_blocked (process_table s) (process_table s')" using same_blocked_trans [OF sb b(3)] nb by (simp add: k(4))
    then have bal': "balance (process_table s') (sem_table s') (set (S sem_used))" using bal balance_same by (simp add: k(5))
    have sems: "sems_ok s' S" using sem_invD(2) [OF sem] by (simp add: sems_ok_def k)
    have live: "alive (process_table s) x" if "alive ?b x" for x
      using b(1) [OF that] by (auto simp: alive_def)
    have waited: "p_child_waited (?b x) \<noteq> 0" if "p_child_waited (proc s x) \<noteq> 0" for x
      using b(2) [of x] that by (cases "x = pid") simp_all
    have "resume_at s PID_GARBAGE = Collect" using conts by (simp add: conts_ok_def)
    then have "conts_ok (pids - {cur_pid s'}) (process_table s') (resume_at s')"
      unfolding k(3,4,7) by (intro conts_ok_cong [OF conts] conjI impI live waited refl)
    with settledI [OF k(2) sems bal'] have "user_inv s'" by (simp add: user_inv_def)
    with k(1) show ?thesis by (rule goodI(1))
  qed
qed

text \<open>Waiting for a child and reading its end.\<close>

lemma read_user:
  assumes fam: "family_ok s Q C T" and sem: "sem_inv s Q S" and bal: "balance (process_table s) (sem_table s) (set (S sem_used))"
    and conts: "conts_ok (pids - {cur_pid s}) (process_table s) (resume_at s)"
    and re: "reads_end a c s s'" and fam': "family_ok s' Q' C' T" and z: "is_zombie (process_table s) c"
  shows "user_inv s'"
proof -
  have t: "process_table s' = reaped (cur_pid s) c (process_table s)" "cur_pid s' = cur_pid s" "procs.more s' = procs.more s"
    "resume_at s' = resume_at s" using re by (simp_all add: reads_end_def)
  have m: "sem_table s' = sem_table s" "slinks s' = slinks s" using t(3) by (cases s; cases s'; simp)+
  have cur: "p_state (proc s (cur_pid s)) = actionable" using runningD(4) [OF family_okD(1) [OF fam]] .
  have st: "p_state (proc s' x) = (if x = c then freepid else p_state (proc s x))" for x
    using z cur by (auto simp: t(1) reaped_def)
  have sb: "p_sem_blocked (proc s' x) = p_sem_blocked (proc s x)" "x \<noteq> cur_pid s \<Longrightarrow> p_child_waited (proc s' x) = p_child_waited (proc s x)"
    if "x \<noteq> c" for x using that by (auto simp: t(1) reaped_def)
  have "same_blocked (process_table s) (process_table s')" using z by (auto simp: same_blocked_def st sb)
  then have "balance (process_table s') (sem_table s') (set (S sem_used))" using bal balance_same by (simp add: m)
  moreover have "sems_ok s' S" using sem_invD(2) [OF sem] by (simp add: sems_ok_def m)
  moreover have "conts_ok (pids - {cur_pid s'}) (process_table s') (resume_at s')"
    unfolding t(2,4) by (rule conts_ok_cong [OF conts]) (use sb conts in \<open>auto simp: alive_def st conts_ok_def split: if_splits\<close>)
  ultimately show ?thesis using settledI [OF fam'] by (simp add: user_inv_def)
qed

lemma waitpid_good:
  assumes inv: "user_inv s" and cur: "cur_pid s \<noteq> 0"
  shows "good E (waitpid E pid a s)"
  using inv
proof (rule user_invE)
  fix Q C T S assume fam: "family_ok s Q C T" and sem: "sem_inv s Q S" and bal: "balance (process_table s) (sem_table s) (set (S sem_used))"
    and conts: "conts_ok (pids - {cur_pid s}) (process_table s) (resume_at s)"
  note f = family_okD [OF fam]
  let ?kids = "C (cur_pid s)"
  let ?Z = "filter (\<lambda>c. p_state (proc s c) = zombie) ?kids" and ?bad = "?kids = [] \<or> pid \<noteq> -1 \<and> (pid \<le> 0 \<or> pid \<notin> set ?kids)"
  let ?c = "if pid = -1 then last ?Z else pid" and ?ready = "pid = -1 \<and> ?Z \<noteq> [] \<or> pid \<in> set ?Z"
  note ok = waitpid_ok [OF fam cur refl refl, of pid E a]
  consider "?bad" | "\<not> ?bad" "?ready" | "\<not> ?bad" "\<not> ?ready" by blast
  then show ?thesis
  proof cases
    case 1
    then show ?thesis using ok by (auto intro: goodI(1) [OF _ inv])
  next
    case 2
    obtain s' Q' where s': "waitpid E pid a s = Inr (Some ?c, s')" "reads_end a ?c s s'"
      "family_ok s' Q' (C(cur_pid s := remove1 ?c ?kids)) T" using ok 2 unfolding if_not_P [OF 2(1)] if_P [OF 2(2)] by blast
    have "?Z \<noteq> []" using 2(2) by (cases ?Z) simp_all
    then have "last ?Z \<in> set ?Z" by (rule last_in_set)
    then have "?c \<in> set ?Z" using 2(2) by (metis (lifting))
    then have "is_zombie (process_table s) ?c" by (simp only: set_filter mem_Collect_eq)
    from read_user [OF fam sem bal conts s'(2,3) this] s'(1) show ?thesis by (intro goodI(1))
  next
    case 3
    obtain h s' Q' where w: "waitpid E pid a s = Inr (None, s')" "family_ok s' Q' C T"
      "switched (WaitChild a) ((awaiting_child pid s)\<lparr>plinks := h\<rparr>) (child_queue s Q) s' Q'"
      using ok unfolding if_not_P [OF 3(1)] if_not_P [OF 3(2)] by blast
    let ?b = "(awaiting_child pid s)\<lparr>plinks := h\<rparr>"
    have b: "process_table ?b = (process_table s)(cur_pid s := (proc s (cur_pid s))\<lparr>p_child_waited := pid, p_state := waiting_child\<rparr>)"
      "cur_pid ?b = cur_pid s" "resume_at ?b = resume_at s" "sem_table ?b = sem_table s" "slinks ?b = slinks s"
      by (simp_all add: awaiting_child_def upd_proc_def)
    have asl: "p_state (process_table ?b p) = asleep" if "p \<in> set (child_queue s Q asleep)" for p
    proof -
      have "p \<in> set (Q asleep)" using that by (simp add: child_queue_def)
      with sched_okD(4) [OF runningD(1) [OF f(1)] this] runningD(4) [OF f(1)] show ?thesis by (auto simp: b)
    qed
    have "same_blocked (process_table s) (process_table ?b)" using runningD(4) [OF f(1)] by (auto simp: b same_blocked_def)
    also have "same_blocked (process_table ?b) (process_table s')" by (rule switched_table(2) [OF w(3) asl])
    finally have "balance (process_table s') (sem_table s') (set (S sem_used))" using bal balance_same switched_sems(1) [OF w(3)] by (simp add: b)
    moreover have "sems_ok s' S" using sem_invD(2) [OF sem] switched_sems(1,2) [OF w(3)] by (simp add: sems_ok_def b)
    ultimately have "settled s'" using settledI [OF w(2)] by blast
    moreover have "conts_ok (pids - {cur_pid ?b}) (process_table ?b) (resume_at ?b)"
      unfolding b(2,3) by (rule conts_ok_cong [OF conts]) (use conts in \<open>auto simp: b alive_def conts_ok_def\<close>)
    moreover have "cont_ok (process_table ?b) (WaitChild a) (cur_pid ?b)" using 3(1) by (auto simp: b)
    moreover have "cur_pid ?b \<noteq> PID_GARBAGE" using runningD(3) [OF f(1)] by (auto simp: b pids_iff)
    ultimately have "elected_inv s'" using elected_conts [OF w(3) asl] by simp
    with w(1) show ?thesis by (rule goodI(3))
  qed
qed

text \<open>
  Births. A dead process may leave children in its list, and the list is initialised again when the identifier
  is given to a new process: the identifier that \<^verbatim>\<open>start\<close> takes must have none.
\<close>

definition no_orphans :: "('m, 'z) procs_scheme \<Rightarrow> bool" where
  "no_orphans s \<longleftrightarrow> (case obtain_pid s of Inl e \<Rightarrow> False
     | Inr (p, s1) \<Rightarrow> p = -1 \<or> queue_empty (plinks s) (ChildrenHead p) \<or> lnext (plinks s (ChildrenHead p)) = None)"

lemma family_born:
  assumes fam: "family pt T C" and p: "p \<in> pids" "p_state (pt p) = freepid" "C p = []" and f: "f \<in> pids" "alive pt f"
    and q: "p_state q = actionable" "p_father q = f" "p_child_waited q = 0" and C': "set xs = insert p (set (C f))"
    and sub: "\<And>t. set (C t) \<subseteq> pids"
  shows "family (pt(p := q)) (insert p T) (C(f := xs))"
proof -
  let ?pt = "pt(p := q)"
  have pf: "p \<noteq> f" "p \<noteq> 0" using p(2) f(2) familyD(10) [OF fam] by (auto simp: alive_def)
  have live: "alive ?pt x \<longleftrightarrow> x = p \<or> alive pt x" for x using q(1) by (auto simp: alive_def)
  have notin: "p \<notin> set (C t)" for t using familyD(5) [OF fam] p(2) by blast
  have z: "is_zombie ?pt x \<longleftrightarrow> is_zombie pt x" for x using p(2) q(1) by auto
  have mem: "x \<in> set ((C(f := xs)) t) \<longleftrightarrow> x \<in> set (C t) \<or> x = p \<and> t = f" for x t using C' by auto
  show ?thesis
    unfolding family_def z
  proof (intro conjI ballI allI impI)
    fix x assume x: "x \<in> pids" "p_state (?pt x) \<noteq> freepid"
    show "x \<in> insert p T" "p_father (?pt x) \<in> pids" "alive ?pt (p_father (?pt x))" "\<exists>t. x \<in> set ((C(f := xs)) t)"
      unfolding mem using familyD(1-4) [OF fam x(1)] x(2) f q(2) by (cases "x = p"; auto simp: live)+
  next
    fix t x assume "x \<in> set ((C(f := xs)) t)"
    then have x: "x \<in> set (C t) \<or> x = p \<and> t = f" by (simp only: mem)
    show "p_state (?pt x) \<noteq> freepid" "p_father (?pt x) \<in> {t, 0}" "x \<noteq> 0 \<Longrightarrow> x \<noteq> t"
      using x notin [of t] familyD(5-7) [OF fam, of x t] q pf by auto
  next
    fix x assume x: "x \<in> pids" "is_zombie pt x"
    show "p_father (?pt x) \<noteq> 0" using familyD(8) [OF fam x] x(2) p(2) by auto
  next
    fix g assume g: "g \<in> pids" "alive ?pt g"
    show "waits_ok ?pt g"
    proof (cases "g = p")
      case False
      then have "waits_ok pt g" using familyD(9) [OF fam g(1)] g(2) by (simp add: live)
      with False p(2) show ?thesis by (auto simp: waits_ok_def Let_def)
    qed (simp add: waits_ok_def q(3))
  qed (use familyD(10,11) [OF fam] pf q in \<open>auto simp: alive_def\<close>)
qed

lemma family_free:
  assumes fam: "family pt T C" and p: "p_state (pt p) = freepid" "p_state q = freepid"
  shows "family (pt(p := q)) T C"
proof -
  have live: "alive (pt(p := q)) x \<longleftrightarrow> alive pt x" "is_zombie (pt(p := q)) x \<longleftrightarrow> is_zombie pt x" for x using p by (auto simp: alive_def)
  have w: "waits_ok (pt(p := q)) f" if "f \<in> pids" "alive pt f" for f
    using familyD(9) [OF fam that] that(2) p by (auto simp: waits_ok_def Let_def alive_def)
  have p0: "p \<noteq> 0" using familyD(10) [OF fam] p(1) by (auto simp: alive_def)
  show ?thesis
    unfolding family_def live
  proof (intro conjI ballI allI impI)
    fix x assume x: "x \<in> pids" "p_state ((pt(p := q)) x) \<noteq> freepid"
    then have "x \<noteq> p" "p_state (pt x) \<noteq> freepid" using p(2) by (auto split: if_splits)
    then show "x \<in> T" "\<exists>f. x \<in> set (C f)" "p_father ((pt(p := q)) x) \<in> pids" "alive pt (p_father ((pt(p := q)) x))"
      using familyD(1-4) [OF fam x(1)] by simp_all
  next
    fix t x assume x: "x \<in> set (C t)"
    show "p_state ((pt(p := q)) x) \<noteq> freepid" "p_father ((pt(p := q)) x) \<in> {t, 0}" "x \<noteq> 0 \<Longrightarrow> x \<noteq> t"
      using familyD(5-7) [OF fam x] p(1) by auto
  qed (use w familyD(8,10,11) [OF fam] p p0 in \<open>auto split: if_splits\<close>)
qed

lemma no_orphans_kids:
  assumes run: "running s Q" and fr: "Q freepid = p # rest" and kids: "kids_ok T (plinks s) C" and no: "no_orphans s"
  shows "C p = []"
proof (rule ccontr)
  assume ne: "C p \<noteq> []"
  have "p \<in> T" using queues_onD(5) [OF kids [unfolded kids_ok_def]] ne by blast
  then have d: "dll (plinks s) (ChildrenHead p) (map ChildLink (C p))" using queues_onD(1) [OF kids [unfolded kids_ok_def]] by blast
  have "lnext (plinks s (ChildrenHead p)) = Some (ChildLink (hd (C p)))" using d ne by (cases "C p") (auto simp: dll_def)
  then show False using obtain_pid_ok [OF run fr] no by (auto simp: no_orphans_def queue_empty_def pids_iff)
qed

lemma start_good:
  assumes inv: "user_inv s" and no: "no_orphans s"
  shows "good E (start E ptfunc ssize prio name arg s)"
  using inv
proof (rule user_invE)
  fix Q C T S assume fam: "family_ok s Q C T" and sem: "sem_inv s Q S" and bal: "balance (process_table s) (sem_table s) (set (S sem_used))"
    and conts: "conts_ok (pids - {cur_pid s}) (process_table s) (resume_at s)"
  note f = family_okD [OF fam]
  obtain nm hp1 where nm: "mem_alloc E (strnlen (mem s) name MAX_SIZE_PROCESS_NAME + 1) (heap s) = (nm, hp1)" by fastforce
  obtain ust hp2 where us: "user_stack_alloc E (ssize + 8) hp1 = (ust, hp2)" by fastforce
  obtain kst hp3 where ks: "mem_alloc E KERNEL_STACK_SIZE hp2 = (kst, hp3)" by fastforce
  let ?bad = "ssize > 0xffffffff - 2 * 4 \<or> prio < 1 \<or> prio > MAXPRIO \<or> Q freepid = []"
  have bad: "start E ptfunc ssize prio name arg s = Inr (Some (-1), s)" if ?bad
    using that pq.queues_empty [OF sched_okD(1) [OF runningD(1) [OF f(1)]], of freepid] by (auto simp: start_def obtain_pid_def)
  consider ?bad | "\<not> ?bad" "nm = 0 \<or> ust = 0 \<or> kst = 0" | "\<not> ?bad" "nm \<noteq> 0" "ust \<noteq> 0" "kst \<noteq> 0" by blast
  then show ?thesis
  proof cases
    case 1
    then show ?thesis using bad by (auto intro: goodI(1) [OF _ inv])
  next
    case 2
    let ?p = "hd (Q freepid)"
    obtain s' h q hp m where s': "start E ptfunc ssize prio name arg s = Inr (Some (-1), s')"
      "s' = s\<lparr>plinks := h, process_table := (process_table s)(?p := q), heap := hp, mem := m\<rparr>" "same_rest (plinks s) h"
      "p_state q = freepid" "running s' (Q(freepid := tl (Q freepid)))"
      using start_fails [OF f(1) nm us ks 2(2), of prio ptfunc arg] unfolding if_not_P [OF 2(1)] by blast
    have "?p \<in> set (Q freepid)" using 2(1) by simp
    then have p: "p_state (proc s ?p) = freepid" "?p \<noteq> cur_pid s" using sched_okD(4,5) [OF runningD(1) [OF f(1)]] by blast+
    have t: "process_table s' = (process_table s)(?p := q)" "plinks s' = h" "cur_pid s' = cur_pid s" "resume_at s' = resume_at s"
      "sem_table s' = sem_table s" "slinks s' = slinks s" by (simp_all add: s'(2))
    have "same_blocked (process_table s) (process_table s')" using p s'(4) by (simp add: t same_blocked_def)
    then have bal': "balance (process_table s') (sem_table s') (set (S sem_used))" using bal balance_same by (simp add: t(5))
    have sems: "sems_ok s' S" using sem_invD(2) [OF sem] by (simp add: sems_ok_def t)
    have "family_ok s' (Q(freepid := tl (Q freepid))) C T"
      using s'(5) kids_ok_frame [OF s'(3) f(2)] family_free [OF f(3) p(1) s'(4)] by (simp add: family_ok_def t)
    moreover have "conts_ok (pids - {cur_pid s'}) (process_table s') (resume_at s')"
      unfolding t(3,4) by (rule conts_ok_cong [OF conts]) (use conts p s'(4) in \<open>auto simp: t alive_def conts_ok_def\<close>)
    ultimately have "user_inv s'" using settledI sems bal' by (auto simp: user_inv_def)
    with s'(1) show ?thesis by (rule goodI(1))
  next
    case 3
    obtain p rest where fr: "Q freepid = p # rest" using 3(1) by (cases "Q freepid") auto
    have Cp: "C p = []" by (rule no_orphans_kids [OF f(1) fr f(2) no])
    have p: "p \<in> pids" "p_state (proc s p) = freepid" "p \<noteq> cur_pid s"
      using sched_okD(3-5) [OF runningD(1) [OF f(1)], of p freepid] fr by auto
    have nin: "in_no_queue C p" using familyD(5) [OF f(3)] p(2) by (auto simp: in_no_queue_def)
    have cur: "alive (process_table s) (cur_pid s)" using runningD(4) [OF f(1)] by (simp add: alive_def)
    have curT: "cur_pid s \<in> T" using familyD(1) [OF f(3) runningD(3) [OF f(1)]] cur by (simp add: alive_def)
    have args: "\<not> ssize > 0xffffffff - 2 * 4" "1 \<le> prio" "prio \<le> MAXPRIO" using 3(1) by auto
    obtain s' Q' C' q where s': "running s' Q'" "cur_pid s' = cur_pid s"
      "(\<exists>s'' Q''. start E ptfunc ssize prio name arg s = Inr (None, s'') \<and> switched (Return p) s' Q' s'' Q'')
       \<or> start E ptfunc ssize prio name arg s = Inr (Some p, s')"
      "kids_ok (insert p T) (plinks s') (C(cur_pid s := C'))" "set C' = insert p (set (C (cur_pid s)))"
      "resume_at s' = (resume_at s)(p := UserEntry)" "procs.more s' = procs.more s"
      "process_table s' = (process_table s)(p := q)" "p_state q = actionable" "p_father q = cur_pid s" "p_child_waited q = 0"
    proof -
      have tab: "process_table s' = (process_table s)(p := proc s' p)" if "\<forall>x. x \<noteq> p \<longrightarrow> proc s' x = proc s x" for s' :: "('a, 'b) sems_scheme"
        using that by auto
      show ?thesis using start_ok [OF f(1) fr f(2) Cp nin curT args nm 3(2) us 3(3) ks 3(4), of ptfunc arg]
        by (elim exE conjE) (rule that, assumption, assumption, auto split: if_splits intro: tab)
    qed
    have m: "sem_table s' = sem_table s" "slinks s' = slinks s" using s'(7) by (cases s; cases s'; simp)+
    have "same_blocked (process_table s) (process_table s')" using p s'(9) by (simp add: s'(8) same_blocked_def)
    then have bal': "balance (process_table s') (sem_table s') (set (S sem_used))" using bal balance_same by (simp add: m)
    have sems: "sems_ok s' S" using sem_invD(2) [OF sem] by (simp add: sems_ok_def m)
    have fam': "family (process_table s') (insert p T) (C(cur_pid s := C'))"
      unfolding s'(8) by (rule family_born [OF f(3) p(1,2) Cp runningD(3) [OF f(1)] cur s'(9-11,5)]) (rule f(6))
    have conts': "conts_ok (pids - {cur_pid s'}) (process_table s') (resume_at s')"
      unfolding conts_ok_def
    proof (intro conjI ballI impI)
      show "resume_at s' PID_GARBAGE = Collect" using conts p(1) by (auto simp: s'(6) conts_ok_def)
      fix x assume x: "x \<in> pids - {cur_pid s'}" "alive (process_table s') x"
      show "cont_ok (process_table s') (resume_at s' x) x"
      proof (cases "x = p")
        case False
        then have "cont_ok (process_table s) (resume_at s x) x" using conts x by (simp add: conts_ok_def alive_def s'(2,8))
        moreover have "proc s' x = proc s x" using False by (simp add: s'(8))
        ultimately show ?thesis using False cont_ok_table [of "process_table s'" x] by (simp add: s'(6))
      qed (simp add: s'(6))
    qed
    moreover have "settled s'" by (rule settledI [OF _ sems bal']) (use s'(1,4) fam' in \<open>simp add: family_ok_def\<close>)
    ultimately have user: "user_inv s'" by (simp add: user_inv_def)
    have "p_state (proc s' x) = asleep" if "x \<in> set (Q' asleep)" for x using sched_okD(4) [OF runningD(1) [OF s'(1)] that] by simp
    then have "elected_inv s''" if "switched (Return p) s' Q' s'' Q''" for s'' Q''
      by (rule elected_switched [OF that _ s'(4) fam' sems bal' conts'])
        (use runningD(3) [OF s'(1)] in \<open>auto simp: pids_iff\<close>)
    with s'(3) user show ?thesis by (auto intro: goodI)
  qed
qed

text \<open>The clock interrupt.\<close>

lemma more_same_kernel:
  fixes s :: "('m, 'z) sems_scheme"
  shows "console.more s' = console.more s \<Longrightarrow> same_kernel s s'" "timer.more s' = timer.more s \<Longrightarrow> same_kernel s s'"
  by (cases s; cases s'; simp add: same_kernel_def)+

lemma refresh_clock_same:
  fixes s :: "('m, 'z) sems_scheme"
  shows "\<exists>s'. refresh_clock s = Inr s' \<and> same_kernel s s'"
  using refresh_clock_total [of s] more_same_kernel(1) by blast

lemma increment_clock_same:
  fixes s :: "('m, 'z) sems_scheme"
  shows "\<exists>s'. increment_clock s = Inr s' \<and> same_kernel s s'"
proof -
  have r: "\<exists>s'. refresh_clock t = Inr s' \<and> same_kernel s s'" if "same_kernel s t" for t
    using refresh_clock_same [of t] that by (auto simp: same_kernel_def)
  define s1 where "s1 = s\<lparr>clock_ticks := clock_ticks s + 1\<rparr>"
  define s2 where "s2 = s1\<lparr>second := of_nat ((unat (second s1) + 1) mod 60)\<rparr>"
  define s3 where "s3 = (if second s2 = 0 then s2\<lparr>minute := of_nat ((unat (minute s2) + 1) mod 60)\<rparr> else s2)"
  define s4 where "s4 = (if second s2 = 0 \<and> minute s3 = 0 then s3\<lparr>hour := hour s3 + 1\<rparr> else s3)"
  have "same_kernel s s1" "same_kernel s s4" by (simp_all add: same_kernel_def s4_def s3_def s2_def s1_def)
  moreover have "increment_clock s = (if clock_ticks s1 mod 1000 = 0 then refresh_clock s4 else Inr s1)"
    unfolding increment_clock_def Let_def s4_def s3_def s2_def s1_def by (rule refl)
  ultimately show ?thesis using r [of s4] by auto
qed

lemma tick_good:
  fixes s :: "('m, 'z) kernel_scheme"
  assumes inv: "user_inv s"
  shows "good E (it32_clock_body s)"
proof -
  obtain s1 where s1: "increment_clock s = Inr s1" "same_kernel s s1" using increment_clock_same by blast
  define s2 where "s2 = s1\<lparr>sched_ticks := sched_ticks s1 + 1\<rparr>"
  define s3 where "s3 = s1\<lparr>sched_ticks := 0\<rparr>"
  have u: "user_inv s2" "user_inv s3"
    using inv same_kernel_inv(1) [of s s2] same_kernel_inv(1) [of s s3] s1(2) by (simp_all add: same_kernel_def s2_def s3_def)
  have "\<exists>s'. reschedule Iret s3 = Inr (None :: unit option, s') \<and> elected_inv s'" using u(2)
  proof (rule user_invE)
    fix Q C T S assume fam: "family_ok s3 Q C T" and sem: "sem_inv s3 Q S"
      and conts: "conts_ok (pids - {cur_pid s3}) (process_table s3) (resume_at s3)"
    obtain s' Q' where "reschedule Iret s3 = Inr (None :: unit option, s')" "switched Iret s3 Q s' Q'"
      using reschedule_preempt [OF family_okD(1) [OF fam]] by blast
    moreover have "elected_inv s'" by (rule calm_sem_change(2) [OF fam conts sem _ _ _ _ \<open>switched Iret s3 Q s' Q'\<close>]) simp_all
    ultimately show ?thesis by blast
  qed
  then show ?thesis using s1(1) u(1) unfolding it32_clock_body_def s2_def [symmetric]
    by (auto simp: Let_def s2_def [symmetric] s3_def [symmetric] intro: goodI)
qed

text \<open>The process that gets the processor.\<close>

lemma resume_good:
  assumes inv: "back_inv E s"
  shows "good E (resume E s)"
proof (cases "elected_inv s")
  case False
  then show ?thesis using inv by (auto simp: back_inv_def resume_def ret0_def intro: goodI)
next
  case True
  then have settled: "settled s" and conts: "conts_ok pids (process_table s) (resume_at s)" by (simp_all add: elected_inv_def)
  have user: "user_inv s" using settled conts by (simp add: user_inv_def conts_ok_def)
  obtain Q C T S where fam: "family_ok s Q C T" and sem: "sem_inv s Q S" and bal: "balance (process_table s) (sem_table s) (set (S sem_used))"
    using settled by (rule settledE)
  note R = runningD [OF family_okD(1) [OF fam]]
  have k: "cont_ok (process_table s) (resume_at s (cur_pid s)) (cur_pid s)" using conts R(3,4) by (simp add: conts_ok_def alive_def)
  show ?thesis
  proof (cases "resume_at s (cur_pid s)")
    case (WaitChild a)
    with k have c: "p_child_waited (proc s (cur_pid s)) \<noteq> 0" by simp
    then have cur: "cur_pid s \<noteq> 0" using familyD(11) [OF family_okD(3) [OF fam]] by auto
    have conts': "conts_ok (pids - {cur_pid s}) (process_table s) (resume_at s)" using conts by (simp add: conts_ok_def)
    obtain s' Q' where s': "waitpid_end E a s = Inr (p_child_waited (proc s (cur_pid s)), s')"
      "is_zombie (process_table s) (p_child_waited (proc s (cur_pid s)))" "reads_end a (p_child_waited (proc s (cur_pid s))) s s'"
      "family_ok s' Q' (C(cur_pid s := remove1 (p_child_waited (proc s (cur_pid s))) (C (cur_pid s)))) T"
      using waitpid_resumes_ok [OF fam cur refl c] by blast
    show ?thesis using s'(1) read_user [OF fam sem bal conts' s'(3,4,2)] WaitChild by (auto simp: resume_def ret_def intro: goodI)
  qed (use k user in \<open>auto simp: resume_def cont_ok_def intro: goodI\<close>)
qed

section \<open>The transition system\<close>

text \<open>
  A configuration: the current process runs its own code; the processor has just been given to the current
  process, which has to finish what it did in the kernel; an allocator has stopped the machine; or the kernel has
  failed. The allocators check the words around a block that is given back; when a check fails, \<^verbatim>\<open>mem_bug\<close> prints a
  message and the machine stands still. Whether this has happened is to be seen in the state of the allocators:
  \<open>stopped\<close>, a parameter like the allocators themselves.
\<close>

datatype 's config = User 's | Back 's | Halted | Failed fault

definition outcome :: "('m \<Rightarrow> bool) \<Rightarrow> ('r option \<times> ('m, 'z) kernel_scheme) result \<Rightarrow> ('m, 'z) kernel_scheme config" where
  "outcome stopped out = (case out of Inl e \<Rightarrow> Failed e
     | Inr (r, s) \<Rightarrow> if stopped (heap s) then Halted else if r = None then Back s else User s)"

text \<open>
  Paging. \<^verbatim>\<open>setup_pgtab\<close> in \<^verbatim>\<open>crt0.S\<close> maps the first 48 MB of the address space, and user code may use those from
  \<^verbatim>\<open>USER_ADR\<close> on. The kernel compares the pointers it is given with \<^verbatim>\<open>USER_ADR\<close> only: the areas it then uses
  are those of the clock settings, the text to write, the name of a process (at most 17 bytes) and the place for
  the value of a child. An access to an area that is not mapped is a page fault, from which the kernel does not
  come back.
\<close>

definition MAPPED_END :: nat where
  "MAPPED_END = 0x3000000"

definition user_areas :: "int \<Rightarrow> int \<Rightarrow> int \<Rightarrow> int \<Rightarrow> (addr \<times> nat) list" where
  "user_areas call par1 par2 par4 =
     (let areas = (if call = 2 then [(of_int32 par1, 4), (of_int32 par2, 4)]
            else if call = 5 then [(of_int32 par1, nat par2)]
            else if call = 17 then [(of_int32 par4, 17)]
            else if call = 21 \<and> par2 \<noteq> 0 then [(of_int32 par2, 4)]
            else [])
      in if \<forall>(a, n) \<in> set areas. USER_ADR \<le> a then areas else [])"

definition mapped_area :: "addr \<times> nat \<Rightarrow> bool" where
  "mapped_area = (\<lambda>(a, n). unat a + n \<le> MAPPED_END)"

definition syslib_paged :: "inputs \<Rightarrow> 'm env \<Rightarrow> int \<Rightarrow> int \<Rightarrow> int \<Rightarrow> int \<Rightarrow> int \<Rightarrow> int
    \<Rightarrow> ('m, 'z) kernel_scheme \<Rightarrow> (int option \<times> ('m, 'z) kernel_scheme) result" where
  "syslib_paged inp E call par1 par2 par3 par4 par5 s =
     (if list_all mapped_area (user_areas call par1 par2 par4) then it49_syslib_body inp E call par1 par2 par3 par4 par5 s
      else Inl PageFault)"

text \<open>A process that asks for the clock settings at an address above the mapped memory stops the kernel.\<close>

lemma unmapped_pointer_faults: "syslib_paged inp E 2 0x4000000 0x1000000 par3 par4 par5 s = Inl PageFault"
  by (simp add: syslib_paged_def user_areas_def mapped_area_def MAPPED_END_def of_int32_def)

text \<open>
  The system calls a process may make. Left out are pointers to memory that is not mapped, reading from the
  keyboard, the listings and music (calls 4, 26, 27, 30, 33, 34, 36), unknown numbers (the kernel stops itself), the times for which \<^verbatim>\<open>wait_clock\<close> stops itself,
  \<^verbatim>\<open>kill\<close> of a process blocked on a semaphore and \<^verbatim>\<open>start\<close> with an identifier that still has orphans.
  \<^verbatim>\<open>idle\<close> only starts the first process.
\<close>

definition permitted :: "int \<Rightarrow> int \<Rightarrow> int \<Rightarrow> int \<Rightarrow> ('m, 'z) kernel_scheme \<Rightarrow> bool" where
  "permitted call par1 par2 par4 s \<longleftrightarrow> list_all mapped_area (user_areas call par1 par2 par4) \<and>
     (if call = 17 then no_orphans s
      else cur_pid s \<noteq> 0 \<and>
       (if call = 10 then p_state (proc s par1) \<noteq> sem_blocked
        else if call = 20 then of_int32 par1 \<le> current_clock s \<or> to_int (current_clock s) \<le> to_int (of_int32 par1)
        else call \<in> {1, 2, 3, 5, 6, 7, 8, 9, 11, 12, 13, 14, 15, 16, 21, 22, 23, 24, 25, 28, 29, 31, 32, 35}))"

text \<open>Between its calls a process changes its memory as it likes, but not that of the kernel, which it cannot write.\<close>

inductive kernel_step :: "inputs \<Rightarrow> ('m \<Rightarrow> bool) \<Rightarrow> 'm env \<Rightarrow> ('m, 'z) kernel_scheme config \<Rightarrow> ('m, 'z) kernel_scheme config \<Rightarrow> bool"
  for inp :: inputs and stopped :: "'m \<Rightarrow> bool" and E :: "'m env" where
  tick: "kernel_step inp stopped E (User s) (outcome stopped (it32_clock_body s))"
| call: "permitted call par1 par2 par4 s \<Longrightarrow>
     kernel_step inp stopped E (User s) (outcome stopped (syslib_paged inp E call par1 par2 par3 par4 par5 s))"
| writes: "\<forall>a. a < USER_ADR \<or> MAPPED_END \<le> unat a \<longrightarrow> m a = mem s a \<Longrightarrow> kernel_step inp stopped E (User s) (User (s\<lparr>mem := m\<rparr>))"
| resumes: "kernel_step inp stopped E (Back s) (outcome stopped (resume E s))"

inductive_cases kernel_stepE: "kernel_step inp stopped E c c'"

definition config_ok :: "'m env \<Rightarrow> ('m, 'z) kernel_scheme config \<Rightarrow> bool" where
  "config_ok E c = (case c of User s \<Rightarrow> user_inv s | Back s \<Rightarrow> back_inv E s | Halted \<Rightarrow> True | Failed e \<Rightarrow> False)"

lemma good_outcome: "good E out \<Longrightarrow> config_ok E (outcome stopped out)"
  by (auto simp: good_def outcome_def config_ok_def split: option.splits)

lemma call_good:
  fixes s :: "('m, 'z) kernel_scheme"
  assumes inv: "user_inv s" and may: "permitted call par1 par2 par4 s"
  shows "good E (syslib_paged inp E call par1 par2 par3 par4 par5 s)"
proof -
  have same: "good E (Inr (Some v, s'))" if "same_kernel s s'" for v :: int and s'
    using goodI(1) [OF refl, of s'] inv same_kernel_inv(1) [OF that] by simp
  note more = same [OF more_same_kernel(1)]
  have self: "good E (Inr (Some v, s))" for v :: int by (rule goodI(1) [OF refl inv])
  have 2: "good E (Inr (Some v, s\<lparr>mem := m\<rparr>))" for v :: int and m by (rule same) (simp add: same_kernel_def)
  have 3: "good E (Inr (Some v, cons_echo on s))" for v :: int and on by (rule same) (simp add: same_kernel_def cons_echo_def set_echo_def)
  have 5: "good E (Inr (Some v, console_putbytes cs s))" for v :: int and cs by (rule more) (rule console_putbytes_more)
  have 28: "good E (Inr (Some v, set_col_min i s))" for v :: int and i by (rule more) (simp add: set_col_min_def)
  have 35: "good E (Inr (Some v, clear s))" for v :: int by (rule more) (simp add: clear_def handle_char_more set_col_min_def)
  have 24: "good E (Inr (Some v, cons_echo on (s\<lparr>syslib_on := i\<rparr>)))" for v :: int and on i
    by (rule same) (simp add: same_kernel_def cons_echo_def set_echo_def)
  have 11: "good E (bnd (scount i s) (\<lambda>v. Inr (Some v, s)))" for i
    using inv by (rule user_invE) (auto simp: scount_def find_sem_inv intro: goodI(1) [OF _ inv])
  have short: "to_short v \<le> SHRT_MAX" for v using to_short_bounds [of v] by simp
  note ops = self 2 3 5 28 35 24 11 chprio_good [OF inv] signal_good [OF inv] screate_good [OF inv short]
    exit_good [OF inv] sdelete_good [OF inv] sreset_good [OF inv _ short] signaln_good [OF inv] wait_good [OF inv] try_wait_good [OF inv]
    waitpid_good [OF inv] kill_good [OF inv] wait_clock_good [OF inv] start_good [OF inv]
  have "call \<in> {17, 10, 20, 1, 2, 3, 5, 6, 7, 8, 9, 11, 12, 13, 14, 15, 16, 21, 22, 23, 24, 25, 28, 29, 31, 32, 35}"
    using may unfolding permitted_def by (simp split: if_splits)
  then have "good E (it49_syslib_body inp E call par1 par2 par3 par4 par5 s)"
    by (elim insertE emptyE; use may in \<open>simp add: it49_syslib_body_def permitted_def ops Let_def\<close>)
  then show ?thesis using may by (simp add: syslib_paged_def permitted_def)
qed

lemma config_ok_simps [simp]: "config_ok E (User s) = user_inv s" "config_ok E (Back s) = back_inv E s" "\<not> config_ok E (Failed e)"
  by (simp_all add: config_ok_def)

lemma kernel_step_ok: "kernel_step inp stopped E c c' \<Longrightarrow> config_ok E c \<Longrightarrow> config_ok E c'"
proof (induction rule: kernel_step.induct)
  case (writes m s)
  have "same_kernel s (s\<lparr>mem := m\<rparr>)" by (simp add: same_kernel_def)
  with writes show ?case by (simp add: same_kernel_inv(1))
qed (auto intro: good_outcome tick_good call_good resume_good)

lemma kernel_steps_ok: "(kernel_step inp stopped E)\<^sup>*\<^sup>* c c' \<Longrightarrow> config_ok E c \<Longrightarrow> config_ok E c'"
  by (induction rule: rtranclp_induct) (auto intro: kernel_step_ok)

section \<open>From the boot on\<close>

lemma boot_user_inv:
  fixes s :: "('m, 'z) sems_scheme"
  assumes run: "family_ok s ((\<lambda>_. [])(freepid := [1..99])) idle_kids {0}" and cur: "cur_pid s = 0"
    and gc: "resume_at s PID_GARBAGE = Collect" and free: "\<And>p. 0 < p \<Longrightarrow> p < NB_PROCESS \<Longrightarrow> p_state (proc s p) = freepid"
    and sl: "slinks s = static_slinks"
  shows "\<exists>s'. init_sem_free s = Inr s' \<and> user_inv s'"
proof -
  have q: "queues SHead SLink (slinks s) sids (\<lambda>_. [])" by (simp add: sl static_slinks_queues)
  obtain s' where s': "init_sem_free s = Inr s'" "sem_inv s' ((\<lambda>_. [])(freepid := [1..99])) ((\<lambda>_. [])(sem_free := [0..NB_SEM - 1]))"
    "cur_pid s' = cur_pid s" "process_table s' = process_table s" "plinks s' = plinks s" "resume_at s' = resume_at s"
    using init_sem_free_ok [OF family_okD(1) [OF run] q] by auto
  have "conts_ok (pids - {cur_pid s}) (process_table s) (resume_at s)"
    using gc free cur by (auto simp: conts_ok_def alive_def pids_iff)
  then have "user_inv s'" using s' by (intro calm_sem_change(1) [OF run _ s'(2)]) simp_all
  with s'(1) show ?thesis by blast
qed

text \<open>
  C1: the code of the processes, of the family tree, of the semaphores and of the clock never fails. Started with the
  queues as their static initialisers leave them and with memory for the first process and the collector, the kernel is
  never in a failed configuration, whatever sequence of clock interrupts, permitted system calls, writes of the
  processes to their own memory and resumptions follows: no null pointer, no endless loop, no failed assertion, no call
  on a broken list, and no page fault on a pointer that a process gave, because permitted pointers lie in the mapped
  48 MB. Whenever a process runs its own code, the queues, the family tree and the balance of the semaphores are sound.
  The allocators of the kernel are parameters: they may fail at any time and return any block, and they may stop the
  machine when they find the words around a block overwritten that is given back (a process can do that to its user
  stack): this is the configuration \<open>Halted\<close>, of which nothing is claimed. Taken for granted, and not shown, is that the
  blocks they return are mapped and apart from the variables of the kernel, which the model keeps outside the memory.
\<close>

theorem kernel_never_fails:
  fixes s :: "('m, 'z) kernel_scheme"
  assumes static: "plinks s = static_plinks" "cur_pid s = 0" "slinks s = static_slinks"
    and nm: "mem_alloc E (strnlen (mem s) (str_idle E) MAX_SIZE_PROCESS_NAME + 1) (heap s) = (nm, hp1)" "nm \<noteq> 0"
    and us: "user_stack_alloc E 8 hp1 = (ust, hp2)" "ust \<noteq> 0" and ks: "mem_alloc E KERNEL_STACK_SIZE hp2 = (kst, hp3)" "kst \<noteq> 0"
    and gnm: "mem_alloc E 18 hp3 = (gnm, hp4)" and lit: "cstr (idle_mem E nm ust kst (mem s)) (str_garbage E) cs"
    and apart: "\<forall>i \<le> length cs. \<forall>j < i. gnm + of_nat j \<noteq> str_garbage E + of_nat i"
  shows "\<exists>s0. bnd (init_process_handling E s) init_sem_free = Inr s0 \<and>
    (\<forall>c. (kernel_step inp stopped E)\<^sup>*\<^sup>* (User s0) c \<longrightarrow> (\<forall>e. c \<noteq> Failed e)
       \<and> (\<forall>t. c = User t \<longrightarrow> (\<exists>Q C T S. family_ok t Q C T \<and> sem_inv t Q S)))"
proof -
  obtain s1 where s1: "init_process_handling E s = Inr s1" "cur_pid s1 = 0" "resume_at s1 PID_GARBAGE = Collect"
    "family_ok s1 ((\<lambda>_. [])(freepid := [1..99])) idle_kids {0}" "\<And>p. 0 < p \<Longrightarrow> p < NB_PROCESS \<Longrightarrow> p_state (proc s1 p) = freepid"
    "procs.more s1 = procs.more s"
    using boot_ok [OF static(1,2) nm us ks gnm lit apart] by blast
  have "slinks s1 = static_slinks" using s1(6) static(3) by (cases s; cases s1; simp)
  from boot_user_inv [OF s1(4,2,3,5) this] obtain s0 where s0: "init_sem_free s1 = Inr s0" "user_inv s0" by blast
  have ok: "config_ok E c" if "(kernel_step inp stopped E)\<^sup>*\<^sup>* (User s0) c" for c using kernel_steps_ok [OF that] s0(2) by simp
  have "\<exists>Q C T S. family_ok t Q C T \<and> sem_inv t Q S" if "config_ok E (User t)" for t
  proof -
    have "user_inv t" using that by simp
    then show ?thesis by (rule user_invE) blast
  qed
  with ok have "c \<noteq> Failed e \<and> (c = User t \<longrightarrow> (\<exists>Q C T S. family_ok t Q C T \<and> sem_inv t Q S))"
    if "(kernel_step inp stopped E)\<^sup>*\<^sup>* (User s0) c" for c e t using that by fastforce
  with s1(1) s0(1) show ?thesis by auto
qed

text \<open>The kernel of the example of the boot; the first clock interrupt does not make it fail.\<close>

definition boot_kernel :: "unit kernel" where
  "boot_kernel = boot_state (procs.more \<lparr>line_cur = 1, col_cur = 0, ct_cur = 15, cf_cur = 0, col_min = 0, vmem = (\<lambda>_. 0), outs = [],
     clock_ticks = 0, second = 0, minute = 0, hour = 0, cur_pid = 0, read_mutex = 0, process_table = ex_table, plinks = static_plinks,
     resume_at = (\<lambda>_. UserEntry), mem = (\<lambda>_. 0), heap = (), tss_esp0 = 0,
     sem_table = (\<lambda>_. \<lparr>sem_id = 0, sem_value = 0\<rparr>), slinks = static_slinks, echo = 1, calling_pid = 0, reading = 0, nb_chars = 0,
     buffer = (\<lambda>_. \<lparr>f_id = 0, f_val = CHR 0x20, f_arrival = 0\<rparr>), klinks = (\<lambda>_. \<lparr>lprev = None, lnext = None\<rparr>),
     cur_track = 0, cur_note = 0, sched_ticks = 0, syslib_on = 0\<rparr>)"

lemma kernel_never_fails_witness:
  "\<exists>s0. bnd (init_process_handling ex_env boot_kernel) init_sem_free = Inr s0
     \<and> (\<forall>e. outcome (\<lambda>_. False) (it32_clock_body s0) \<noteq> Failed e) \<and> (\<exists>Q C T S. family_ok s0 Q C T \<and> sem_inv s0 Q S)"
proof -
  obtain z where z: "boot_kernel = boot_state z" by (simp add: boot_kernel_def)
  have sl: "slinks boot_kernel = static_slinks" by (simp add: boot_kernel_def boot_state_def ex_state_def)
  have "\<exists>s0. bnd (init_process_handling ex_env boot_kernel) init_sem_free = Inr s0 \<and>
    (\<forall>c. (kernel_step (\<lambda>_ _. 0) (\<lambda>_. False) ex_env)\<^sup>*\<^sup>* (User s0) c \<longrightarrow> (\<forall>e. c \<noteq> Failed e)
       \<and> (\<forall>t. c = User t \<longrightarrow> (\<exists>Q C T S. family_ok t Q C T \<and> sem_inv t Q S)))"
    unfolding z
    by (rule kernel_never_fails [OF boot_state_fields(1,2) sl [unfolded z] boot_memory(1) _ boot_memory(2) _ boot_memory(3) _ boot_memory(4,5)])
      simp_all
  then obtain s0 where s0: "bnd (init_process_handling ex_env boot_kernel) init_sem_free = Inr s0"
    "\<And>c. (kernel_step (\<lambda>_ _. 0) (\<lambda>_. False) ex_env)\<^sup>*\<^sup>* (User s0) c \<Longrightarrow> (\<forall>e. c \<noteq> Failed e)
       \<and> (\<forall>t. c = User t \<longrightarrow> (\<exists>Q C T S. family_ok t Q C T \<and> sem_inv t Q S))" by blast
  have "(kernel_step (\<lambda>_ _. 0) (\<lambda>_. False) ex_env)\<^sup>*\<^sup>* (User s0) (outcome (\<lambda>_. False) (it32_clock_body s0))" by (rule r_into_rtranclp) (rule kernel_step.tick)
  with s0 show ?thesis by blast
qed

end
