(* ===== verification/Gdb.thy ===== *)
theory Gdb
  imports Numeric Descriptors
begin

unbundle bit_operations_syntax

text \<open>
  The remote debugger: \<^verbatim>\<open>kernel/gdb_serial.c\<close> (the protocol), \<^verbatim>\<open>kernel/gdb_serial_support.c\<close> (access to the
  memory of the debugged program) and \<^verbatim>\<open>kernel/serial.c\<close>. The serial line is the list of the bytes that will
  arrive and the list of the bytes sent; a read from a line on which nothing more arrives waits for ever. The
  buffer of a packet is a list of 401 bytes; it keeps its old contents behind a shorter packet.
\<close>

section \<open>State\<close>

record gdb =
  rx :: "u8 list"
  tx :: "u8 list"
  serial_set :: bool
  connected :: bool
  gdb_serial_debug :: bool
  client_cr0 :: u32
  client_cr3 :: u32
  gmem :: mem

text \<open>The registers are kept as the 64 bytes of \<^verbatim>\<open>struct gdb_state\<close>, \<^verbatim>\<open>eip\<close> at 32 and \<^verbatim>\<open>eflags\<close> at 36.\<close>

record gdb_params =
  thread_id :: u32
  signo :: u8
  regs :: "u8 list"
  regs_changed :: bool

datatype gdb_action = GDB_MORE | GDB_CONT | GDB_RUN | GDB_KILL | GDB_DETACH

record gdb_callbacks =
  thread_alive :: "(gdb_params \<Rightarrow> u32 \<Rightarrow> u8) option"
  thread_switch :: "(gdb_params \<Rightarrow> u32 \<Rightarrow> u8 \<times> gdb_params) option"

abbreviation BUFMAX :: nat where "BUFMAX \<equiv> 400"
abbreviation REGS_SIZE :: nat where "REGS_SIZE \<equiv> 64"

definition byte :: "char \<Rightarrow> u8" where
  "byte c = of_char c"

definition bytes :: "string \<Rightarrow> u8 list" where
  "bytes = map byte"

definition gdb_serial_recv :: "gdb \<Rightarrow> (u8 \<times> gdb) result" where
  "gdb_serial_recv s = (case rx s of [] \<Rightarrow> Inl Hang | b # bs \<Rightarrow> Inr (b, s\<lparr>rx := bs\<rparr>))"

definition gdb_serial_send :: "u8 \<Rightarrow> gdb \<Rightarrow> gdb" where
  "gdb_serial_send b s = s\<lparr>tx := tx s @ [b]\<rparr>"

section \<open>Hexadecimal\<close>

definition hexchars :: "u8 \<Rightarrow> u8" where
  "hexchars n = byte (''0123456789abcdef'' ! unat n)"

definition hex :: "u8 \<Rightarrow> int" where
  "hex ch = (let c = uint ch in
     if 48 \<le> c \<and> c \<le> 57 then c - 48 else if 97 \<le> c \<and> c \<le> 102 then c - 97 + 10 else if 65 \<le> c \<and> c \<le> 70 then c - 65 + 10 else - 1)"

text \<open>
  \<^verbatim>\<open>hex2bin\<close>: what is written before the loop ends or a character is not a digit, and whether it ends well; the
  input must not run out of its buffer.
\<close>

fun hex2bin :: "u8 list \<Rightarrow> nat \<Rightarrow> (u8 list \<times> bool) result" where
  "hex2bin inp 0 = Inr ([], True)"
| "hex2bin (a # b # inp) (Suc len) =
     (let ch = push_bit 4 (hex a) OR hex b in
      if ch < 0 then Inr ([], False)
      else bnd (hex2bin inp len) (\<lambda>(out, ok). Inr (word_of_int ch # out, ok)))"
| "hex2bin inp (Suc len) = Inl OutOfBounds"

section \<open>Packets from the debugger\<close>

fun wait_dollar :: "u8 list \<Rightarrow> u8 list result" where
  "wait_dollar [] = Inl Hang"
| "wait_dollar (b # bs) = (if b AND 0x7f = byte (CHR ''$'') then Inr bs else wait_dollar bs)"

text \<open>The body: the last character read, the number of characters stored, the buffer and the checksum.\<close>

fun read_body :: "u8 list \<Rightarrow> u8 \<Rightarrow> nat \<Rightarrow> u8 list \<Rightarrow> u8 \<Rightarrow> (u8 \<times> nat \<times> u8 list \<times> u8 \<times> u8 list) result" where
  "read_body bs ch count buf csum =
     (if \<not> count < BUFMAX then Inr (ch, count, buf, csum, bs)
      else case bs of
        [] \<Rightarrow> Inl Hang
      | c # cs \<Rightarrow>
          if c = byte (CHR ''#'') \<and> (count = 0 \<or> buf ! (count - 1) \<noteq> 0x7d) then Inr (c, count, buf, csum, cs)
          else read_body cs c (count + 1) (buf[count := c]) (csum + c))"

declare read_body.simps [simp del]

definition buf_strlen :: "u8 list \<Rightarrow> nat" where
  "buf_strlen buf = length (takeWhile (\<lambda>b. b \<noteq> 0) buf)"

definition drop_sequence :: "u8 list \<Rightarrow> u8 list" where
  "drop_sequence buf = fold (\<lambda>i b. b[i - 3 := b ! i]) [3..<Suc (buf_strlen buf)] buf"

text \<open>One turn of the loop of \<^verbatim>\<open>getpacket\<close>, and whether it is the last.\<close>

definition getpacket_turn :: "u8 list \<Rightarrow> gdb \<Rightarrow> (bool \<times> u8 list \<times> gdb) result" where
  "getpacket_turn buf s =
     bnd (wait_dollar (rx s)) (\<lambda>bs.
     bnd (read_body bs (byte (CHR ''$'')) 0 buf 0) (\<lambda>(ch, count, buf1, checksum, cs).
       let buf2 = buf1[count := 0]; s1 = s\<lparr>rx := cs\<rparr> in
       if ch = byte (CHR ''#'') then
         bnd (gdb_serial_recv s1) (\<lambda>(h, s2).
         bnd (gdb_serial_recv s2) (\<lambda>(l, s3).
           let xmitcsum = word_of_int (16 * hex h) + word_of_int (hex l) in
           if checksum \<noteq> xmitcsum then Inr (False, buf2, gdb_serial_send (byte (CHR ''-'')) s3)
           else
             (let s4 = gdb_serial_send (byte (CHR ''+'')) s3 in
              if buf2 ! 2 = byte (CHR '':'')
              then Inr (True, drop_sequence buf2, gdb_serial_send (buf2 ! 1) (gdb_serial_send (buf2 ! 0) s4))
              else Inr (True, buf2, s4))))
       else Inr (checksum = 0xff, buf2, s1)))"

lemma wait_dollar_shorter: "wait_dollar bs = Inr cs \<Longrightarrow> length cs < length bs"
  by (induction bs rule: wait_dollar.induct) (auto split: if_splits)

lemma read_body_shorter: "read_body bs ch count buf csum = Inr (ch', n, buf', csum', cs) \<Longrightarrow> length cs \<le> length bs"
proof (induction bs arbitrary: ch count buf csum)
  case Nil
  then show ?case by (simp add: read_body.simps [of "[]"] split: if_splits)
next
  case (Cons c bs)
  from Cons.prems show ?case by (simp add: read_body.simps [of "c # bs"] split: if_splits) (auto dest: Cons.IH)
qed

lemma recv_shorter: "gdb_serial_recv s = Inr (b, s') \<Longrightarrow> length (rx s') < length (rx s)"
  by (auto simp: gdb_serial_recv_def split: list.splits)

lemma send_rx [simp]: "rx (gdb_serial_send b s) = rx s"
  by (simp add: gdb_serial_send_def)

lemma getpacket_turn_shorter:
  assumes "getpacket_turn buf s = Inr (d, buf', s')"
  shows "length (rx s') < length (rx s)"
proof -
  obtain bs ch n buf1 csum cs where b: "wait_dollar (rx s) = Inr bs" "read_body bs (byte (CHR ''$'')) 0 buf 0 = Inr (ch, n, buf1, csum, cs)"
    using assms unfolding getpacket_turn_def by (auto simp: bnd_eq_Inr split: prod.splits)
  have "length cs < length (rx s)" using wait_dollar_shorter [OF b(1)] read_body_shorter [OF b(2)] by simp
  moreover have "length (rx s') \<le> length cs"
    using assms b unfolding getpacket_turn_def
    by (auto simp: bnd_eq_Inr Let_def split: if_splits dest!: recv_shorter)
  ultimately show ?thesis by simp
qed

function getpacket :: "u8 list \<Rightarrow> gdb \<Rightarrow> (u8 list \<times> gdb) result" where
  "getpacket buf s =
     (case getpacket_turn buf s of
        Inl e \<Rightarrow> Inl e
      | Inr (fin, buf1, s1) \<Rightarrow> if fin then Inr (buf1, s1) else getpacket buf1 s1)"
  by pat_completeness auto
termination
  by (relation "measure (\<lambda>(buf, s). length (rx s))") (auto dest: getpacket_turn_shorter)

declare getpacket.simps [simp del]

section \<open>Packets to the debugger\<close>

text \<open>
  A fragment is a pointer, here the bytes from there on, with a length; a length of 0 stands for a string, which ends at
  its NUL. A run of repeated output characters is sent as the character, a star and the length. The tests for a run
  compare with the first byte of it before they look at the next one, so in a string they do not go past the NUL.
\<close>

record outfrag =
  fdata :: "u8 list"
  flen :: nat
  hexify :: bool

definition frag_bytes :: "outfrag \<Rightarrow> u8 list" where
  "frag_bytes f = (if flen f = 0 then takeWhile (\<lambda>b. b \<noteq> 0) (fdata f) else take (flen f) (fdata f))"

definition frag :: "u8 list \<Rightarrow> nat \<Rightarrow> bool \<Rightarrow> outfrag" where
  "frag buf len h = \<lparr>fdata = buf, flen = len, hexify = h\<rparr>"

definition run_starts :: "bool \<Rightarrow> u8 list \<Rightarrow> bool" where
  "run_starts h p \<longleftrightarrow>
     (if h then 1 < length p \<and> p ! 1 = p ! 0 \<and> drop_bit 4 (p ! 0) = p ! 0 AND 0xf
      else 3 < length p \<and> p ! 1 = p ! 0 \<and> p ! 2 = p ! 0 \<and> p ! 3 = p ! 0)"

definition run_length :: "bool \<Rightarrow> u8 list \<Rightarrow> nat" where
  "run_length h p = min (if h then 98 div 2 else 98) (length (takeWhile (\<lambda>b. b = p ! 0) p))"

lemma run_length_pos: "p \<noteq> [] \<Longrightarrow> 0 < run_length h p"
  by (cases p) (auto simp: run_length_def)

function send_frag :: "bool \<Rightarrow> u8 list \<Rightarrow> u8 list" where
  "send_frag h p =
     (if p = [] then []
      else if run_starts h p then
        (if h then [hexchars (p ! 0 AND 0xf), byte (CHR ''*''), of_nat (29 + 2 * run_length h p - 1)]
         else [p ! 0, byte (CHR ''*''), of_nat (29 + run_length h p - 1)]) @ send_frag h (drop (run_length h p) p)
      else if h then [hexchars (drop_bit 4 (p ! 0)), hexchars (p ! 0 AND 0xf)] @ send_frag h (drop 1 p)
      else p ! 0 # send_frag h (drop 1 p))"
  by pat_completeness auto
termination
  by (relation "measure (\<lambda>(h, p). length p)") (auto simp: run_length_pos)

declare send_frag.simps [simp del]

definition packet :: "outfrag list \<Rightarrow> u8 list" where
  "packet frags =
     (let body = concat (map (\<lambda>f. send_frag (hexify f) (frag_bytes f)) frags); checksum = sum_list body in
      [byte (CHR ''$'')] @ body @ [byte (CHR ''#''), hexchars (drop_bit 4 checksum), hexchars (checksum mod 16)])"

fun put_loop :: "u8 list \<Rightarrow> u8 list \<Rightarrow> u8 list \<Rightarrow> (u8 list \<times> u8 list) result" where
  "put_loop pkt [] out = Inl Hang"
| "put_loop pkt (b # bs) out = (if b AND 0x7f = byte (CHR ''+'') then Inr (bs, out @ pkt) else put_loop pkt bs (out @ pkt))"

definition putfrags :: "outfrag list \<Rightarrow> gdb \<Rightarrow> gdb result" where
  "putfrags frags s = bnd (put_loop (packet frags) (rx s) (tx s)) (\<lambda>(bs, out). Inr (s\<lparr>rx := bs, tx := out\<rparr>))"

section \<open>The memory of the debugged program\<close>

text \<open>
  \<^verbatim>\<open>phys_addr_lookup\<close>: the physical address and the number of bytes up to the end of the page, 0 if the address is
  not mapped. \<^verbatim>\<open>disable_paging\<close> and \<^verbatim>\<open>restore_paging\<close> make the kernel use physical addresses in between.
\<close>

definition lin2pdenum :: "u32 \<Rightarrow> u32" where
  "lin2pdenum a = drop_bit 22 a AND 0x3ff"

definition lin2ptenum :: "u32 \<Rightarrow> u32" where
  "lin2ptenum a = drop_bit 12 a AND 0x3ff"

definition phys_addr_lookup :: "u32 \<Rightarrow> gdb \<Rightarrow> u32 \<times> u32" where
  "phys_addr_lookup vaddr s =
     (let pde = load32 (gmem s) ((client_cr3 s AND 0xfffff000) + 4 * lin2pdenum vaddr) in
      if client_cr0 s AND 0x80000000 = 0 then (vaddr, 0xffffffff)
      else if pde AND 1 = 0 then (0, 0)
      else if pde AND 0x80 = 0 then
        (let pte = load32 (gmem s) ((pde AND 0xfffff000) + 4 * lin2ptenum vaddr); offs = vaddr AND 0xfff in
         if pte AND 1 = 0 then (0, 0) else ((pte AND 0xfffff000) + offs, 0x1000 - offs))
      else (let offs = vaddr AND 0x3fffff in ((pde AND NOT 0x3fffff) + offs, 0x400000 - offs)))"

definition copy_client_paging_registers :: "u32 \<Rightarrow> u32 \<Rightarrow> u32 \<Rightarrow> gdb \<Rightarrow> gdb" where
  "copy_client_paging_registers cr0 cr3 cr4 s = s\<lparr>client_cr0 := cr0, client_cr3 := cr3\<rparr>"

definition fetch :: "mem \<Rightarrow> u32 \<Rightarrow> nat \<Rightarrow> u8 list" where
  "fetch m a n = map (\<lambda>i. m (a + of_nat i)) [0..<n]"

fun deposit :: "u8 list \<Rightarrow> u32 \<Rightarrow> mem \<Rightarrow> mem" where
  "deposit [] a m = m"
| "deposit (b # bs) a m = deposit bs (a + 1) (m(a := b))"

lemma chunk_less: "sz \<noteq> 0 \<Longrightarrow> len \<noteq> 0 \<Longrightarrow> unat (len - (if sz > len then len else sz)) < unat (len :: u32)"
  by (auto simp: unat_sub word_gt_0 unat_gt_0 not_less)

function gdb_copyin :: "u32 \<Rightarrow> u32 \<Rightarrow> gdb \<Rightarrow> u8 list \<times> bool" where
  "gdb_copyin src_va len s =
     (if len = 0 then ([], True)
      else let (pa, sz0) = phys_addr_lookup src_va s in
        if sz0 = 0 then ([], False)
        else let sz = (if sz0 > len then len else sz0); (bs, complete) = gdb_copyin (src_va + sz) (len - sz) s
          in (fetch (gmem s) pa (unat sz) @ bs, complete))"
  by pat_completeness auto
termination
  by (relation "measure (\<lambda>(va, len, s). unat len)") (auto dest: chunk_less)

function gdb_copyout :: "u8 list \<Rightarrow> u32 \<Rightarrow> u32 \<Rightarrow> gdb \<Rightarrow> bool \<times> gdb" where
  "gdb_copyout src dest_va len s =
     (if len = 0 then (True, s)
      else let (pa, sz0) = phys_addr_lookup dest_va s in
        if sz0 = 0 then (False, s)
        else let sz = (if sz0 > len then len else sz0) in
          gdb_copyout (drop (unat sz) src) (dest_va + sz) (len - sz) (s\<lparr>gmem := deposit (take (unat sz) src) pa (gmem s)\<rparr>))"
  by pat_completeness auto
termination
  by (relation "measure (\<lambda>(src, va, len, s). unat len)") (auto dest: chunk_less)

declare gdb_copyin.simps [simp del] gdb_copyout.simps [simp del]

text \<open>Words in the register block.\<close>

definition reg_word :: "u8 list \<Rightarrow> nat \<Rightarrow> u32" where
  "reg_word rs i = load32 (\<lambda>a. rs ! unat a) (of_nat (4 * i))"

definition set_bytes :: "nat \<Rightarrow> u8 list \<Rightarrow> u8 list \<Rightarrow> u8 list" where
  "set_bytes i new rs = take i rs @ new @ drop (i + length new) rs"

definition word_bytes :: "u32 \<Rightarrow> u8 list" where
  "word_bytes w = [ucast w, ucast (drop_bit 8 w), ucast (drop_bit 16 w), ucast (drop_bit 24 w)]"

definition gdb_set_trace_flag :: "bool \<Rightarrow> gdb_params \<Rightarrow> gdb_params" where
  "gdb_set_trace_flag trace_enable p =
     (let fl = reg_word (regs p) 9 in
      p\<lparr>regs := set_bytes 36 (word_bytes (if trace_enable then fl OR 0x100 else fl AND NOT 0x100)) (regs p)\<rparr>)"

section \<open>The conversation\<close>

text \<open>The string at an index of the buffer, and \<^verbatim>\<open>strtoul\<close> on it in base 16: the value and the index of its end.\<close>

definition buf_string :: "u8 list \<Rightarrow> nat \<Rightarrow> char list" where
  "buf_string buf i = map (\<lambda>b. char_of (unat b)) (takeWhile (\<lambda>b. b \<noteq> 0) (drop i buf))"

definition buf_strtoul :: "u8 list \<Rightarrow> nat \<Rightarrow> u32 \<times> nat" where
  "buf_strtoul buf i = (let cs = buf_string buf i; (v, rest) = strtoul cs 16 in (v, i + (length cs - length rest)))"

definition buf_strtol :: "u8 list \<Rightarrow> nat \<Rightarrow> u32 \<times> nat" where
  "buf_strtol buf i = (let cs = buf_string buf i; (v, rest) = strtol cs 16 in (of_int32 v, i + (length cs - length rest)))"

text \<open>
  The answer to a command: a packet, or none, with the action that ends the conversation. The buffer is
  returned as the command leaves it.
\<close>

datatype answer = Packet "outfrag list" | NoPacket

definition lit :: "string \<Rightarrow> outfrag" where
  "lit str = frag (bytes str @ [0]) 0 False"

definition Okay :: answer where
  "Okay = Packet [lit ''OK'']"

definition Error :: "u8 \<Rightarrow> answer" where
  "Error code = Packet [lit ''E'', frag [code] 1 True]"

definition Unknown :: answer where
  "Unknown = Packet [lit '''']"

type_synonym reply = "(answer \<times> gdb_action \<times> u8 list \<times> gdb_params \<times> gdb) result"

definition cmd_thread :: "gdb_callbacks option \<Rightarrow> u8 list \<Rightarrow> gdb_params \<Rightarrow> gdb \<Rightarrow> reply" where
  "cmd_thread cb buf p s =
     (let (th, e) = buf_strtol buf 2 in
      if e = 2 then Inr (Error 4, GDB_MORE, buf, p, s)
      else case cb of
        None \<Rightarrow> Inr (Unknown, GDB_MORE, buf, p, s)
      | Some c \<Rightarrow> (case thread_switch c of
          None \<Rightarrow> Inr (Unknown, GDB_MORE, buf, p, s)
        | Some sw \<Rightarrow>
            if th \<noteq> -1 \<and> th \<noteq> 0 \<and> th \<noteq> thread_id p then
              (let (errchar, p1) = sw p th in
               if errchar \<noteq> 0 then Inr (Error errchar, GDB_MORE, buf, p1, s)
               else Inr (Okay, GDB_MORE, buf, p1\<lparr>thread_id := th, regs_changed := False\<rparr>, s))
            else Inr (Okay, GDB_MORE, buf, p, s)))"

definition cmd_alive :: "gdb_callbacks option \<Rightarrow> u8 list \<Rightarrow> gdb_params \<Rightarrow> gdb \<Rightarrow> reply" where
  "cmd_alive cb buf p s =
     (let (th, e) = buf_strtol buf 1 in
      if e = 1 then Inr (Error 1, GDB_MORE, buf, p, s)
      else case cb of
        None \<Rightarrow> Inr (Unknown, GDB_MORE, buf, p, s)
      | Some c \<Rightarrow> (case thread_alive c of
          None \<Rightarrow> Inr (Unknown, GDB_MORE, buf, p, s)
        | Some al \<Rightarrow> Inr (if al p th \<noteq> 0 then Error (al p th) else Okay, GDB_MORE, buf, p, s)))"

definition cmd_set_regs :: "u8 list \<Rightarrow> gdb_params \<Rightarrow> gdb \<Rightarrow> reply" where
  "cmd_set_regs buf p s =
     bnd (hex2bin (drop 1 buf) REGS_SIZE) (\<lambda>(out, ok).
       let p1 = p\<lparr>regs := set_bytes 0 out (regs p)\<rparr> in
       Inr (if ok then (Okay, GDB_MORE, buf, p1\<lparr>regs_changed := True\<rparr>, s) else (Error 4, GDB_MORE, buf, p1, s)))"

text \<open>
  A single register. The test of its number wraps around: the number may lie outside of the block.
\<close>

definition cmd_set_reg :: "u8 list \<Rightarrow> gdb_params \<Rightarrow> gdb \<Rightarrow> reply" where
  "cmd_set_reg buf p s =
     (let (reg, e) = buf_strtoul buf 1; off = unat (4 * reg) in
      if e = 1 \<or> buf ! e \<noteq> byte (CHR ''='') then Inr (Error 4, GDB_MORE, buf, p, s)
      else if reg = 0x29 then Inr (Okay, GDB_MORE, buf, p, s)
      else if (reg + 1) * 4 > of_nat REGS_SIZE then Inr (Error 4, GDB_MORE, buf, p, s)
      else bnd (hex2bin (drop (e + 1) buf) 4) (\<lambda>(out, ok).
        if out \<noteq> [] \<and> off + length out > REGS_SIZE then Inl OutOfBounds
        else
          (let p1 = p\<lparr>regs := set_bytes off out (regs p)\<rparr> in
           Inr (if ok then (Okay, GDB_MORE, buf, p1\<lparr>regs_changed := True\<rparr>, s) else (Error 4, GDB_MORE, buf, p1, s)))))"

text \<open>
  Reading memory. The test of the length wraps around too: a length of \<open>2\<^sup>3\<^sup>1\<close> passes and overruns the buffer.
\<close>

definition cmd_read_mem :: "u8 list \<Rightarrow> gdb_params \<Rightarrow> gdb \<Rightarrow> reply" where
  "cmd_read_mem buf p s =
     (let (adr, e) = buf_strtoul buf 1 in
      if e = 1 \<or> buf ! e \<noteq> byte (CHR '','') then Inr (Error 2, GDB_MORE, buf, p, s)
      else
        (let (len, e2) = buf_strtoul buf (e + 1) in
         if e2 = e + 1 \<or> len * 2 > of_nat BUFMAX then Inr (Error 2, GDB_MORE, buf, p, s)
         else if unat len > length buf then Inl OutOfBounds
         else
           (let (bs, complete) = gdb_copyin adr len s; buf1 = set_bytes 0 bs buf in
            Inr (if complete then Packet [frag buf1 (unat len) True] else Error 3, GDB_MORE, buf1, p, s))))"

text \<open>The two ways of writing memory; \<open>at\<close> is the address of the buffer, with which the end of the data is compared.\<close>

definition cmd_write_mem :: "u32 \<Rightarrow> u8 list \<Rightarrow> gdb_params \<Rightarrow> gdb \<Rightarrow> reply" where
  "cmd_write_mem at buf p s =
     (let (adr, e) = buf_strtoul buf 1 in
      if e = 1 \<or> buf ! e \<noteq> byte (CHR '','') then Inr (Error 2, GDB_MORE, buf, p, s)
      else
        (let (len, e2) = buf_strtoul buf (e + 1) in
         if e2 = e + 1 \<or> buf ! e2 \<noteq> byte (CHR '':'') then Inr (Error 2, GDB_MORE, buf, p, s)
         else if at + of_nat (e2 + 1) + len * 2 > at + of_nat BUFMAX then Inr (Error 2, GDB_MORE, buf, p, s)
         else if unat len > BUFMAX then Inl OutOfBounds
         else bnd (hex2bin (drop (e2 + 1) buf) (unat len)) (\<lambda>(out, ok).
           if \<not> ok then Inr (Error 2, GDB_MORE, buf, p, s)
           else
             (let (complete, s1) = gdb_copyout out adr len s in
              Inr (if complete then Okay else Error 3, GDB_MORE, buf, p, s1)))))"

fun dequote :: "u8 list \<Rightarrow> u8 list \<times> bool" where
  "dequote [] = ([], True)"
| "dequote (b # bs) =
     (if b = 0x7d then (case bs of [] \<Rightarrow> ([], False) | c # cs \<Rightarrow> (let (out, ok) = dequote cs in ((c XOR 0x20) # out, ok)))
      else (let (out, ok) = dequote bs in (b # out, ok)))"

definition cmd_write_binary :: "u32 \<Rightarrow> u8 list \<Rightarrow> gdb_params \<Rightarrow> gdb \<Rightarrow> reply" where
  "cmd_write_binary at buf p s =
     (let (adr, e) = buf_strtoul buf 1 in
      if e = 1 \<or> buf ! e \<noteq> byte (CHR '','') then Inr (Error 2, GDB_MORE, buf, p, s)
      else
        (let (len, e2) = buf_strtoul buf (e + 1); from = at + of_nat (e2 + 1) in
         if e2 = e + 1 \<or> buf ! e2 \<noteq> byte (CHR '':'') then Inr (Error 2, GDB_MORE, buf, p, s)
         else if from + len > at + of_nat BUFMAX then Inr (Error 2, GDB_MORE, buf, p, s)
         else
           (let n = (if from < from + len then unat len else 0); (out, ok) = dequote (take n (drop (e2 + 1) buf)); buf1 = set_bytes 0 out buf in
            if \<not> ok then Inr (Error 2, GDB_MORE, buf1, p, s)
            else
              (let (complete, s1) = gdb_copyout out adr (of_nat (length out)) s in
               Inr (if complete then Okay else Error 3, GDB_MORE, buf1, p, s1)))))"

text \<open>Going on: at an address if one is given, with or without a signal.\<close>

definition set_eip :: "u8 list \<Rightarrow> nat \<Rightarrow> gdb_params \<Rightarrow> gdb_params" where
  "set_eip buf i p =
     (let (new_eip, e) = buf_strtoul buf i in
      if e > i \<and> new_eip \<noteq> reg_word (regs p) 8 then p\<lparr>regs := set_bytes 32 (word_bytes new_eip) (regs p), regs_changed := True\<rparr> else p)"

definition cmd_continue :: "u8 list \<Rightarrow> gdb_params \<Rightarrow> gdb \<Rightarrow> reply" where
  "cmd_continue buf p s =
     Inr (NoPacket, GDB_CONT, buf, (gdb_set_trace_flag (buf ! 0 = byte (CHR ''s'')) (set_eip buf 1 p))\<lparr>signo := 0\<rparr>, s)"

definition cmd_continue_signal :: "u8 list \<Rightarrow> gdb_params \<Rightarrow> gdb \<Rightarrow> reply" where
  "cmd_continue_signal buf p s =
     (let nsig = push_bit 4 (hex (buf ! 1)) OR hex (buf ! 2) in
      if nsig \<le> 0 \<or> nsig \<ge> 32 then Inr (Error 5, GDB_MORE, buf, p, s)
      else Inr (NoPacket, GDB_CONT, buf,
        (gdb_set_trace_flag (buf ! 0 = byte (CHR ''S'')) (set_eip buf 3 p))\<lparr>signo := word_of_int nsig\<rparr>, s))"

text \<open>The report of the signal, with the thread if there are threads.\<close>

fun thread_digits :: "nat \<Rightarrow> u32 \<Rightarrow> u8 list" where
  "thread_digits 0 x = []"
| "thread_digits (Suc n) x = (if drop_bit 4 x = 0 then [] else thread_digits n (drop_bit 4 x)) @ [hexchars (ucast (x AND 0xf))]"

definition report :: "gdb_callbacks option \<Rightarrow> u8 list \<Rightarrow> gdb_params \<Rightarrow> gdb \<Rightarrow> reply" where
  "report cb buf p s =
     (if (case cb of None \<Rightarrow> False | Some c \<Rightarrow> thread_switch c \<noteq> None) \<and> thread_id p \<noteq> 0 \<and> thread_id p \<noteq> -1 then
        (let buf1 = set_bytes 0 (bytes ''thread:'' @ thread_digits 8 (thread_id p) @ bytes '';'' @ [0]) buf in
         Inr (Packet [lit ''T'', frag [signo p] 1 True, frag buf1 0 False], GDB_MORE, buf1, p, s))
      else Inr (Packet [lit ''S'', frag [signo p] 1 True], GDB_MORE, buf, p, s))"

definition command :: "gdb_callbacks option \<Rightarrow> u32 \<Rightarrow> u8 list \<Rightarrow> gdb_params \<Rightarrow> gdb \<Rightarrow> reply" where
  "command cb at buf p s =
     (let c = buf ! 0 in
      if c = byte (CHR ''H'') then cmd_thread cb buf p s
      else if c = byte (CHR ''T'') then cmd_alive cb buf p s
      else if c = byte (CHR ''g'') then Inr (Packet [frag (regs p) REGS_SIZE True], GDB_MORE, buf, p, s)
      else if c = byte (CHR ''G'') then cmd_set_regs buf p s
      else if c = byte (CHR ''P'') then cmd_set_reg buf p s
      else if c = byte (CHR ''m'') then cmd_read_mem buf p s
      else if c = byte (CHR ''M'') then cmd_write_mem at buf p s
      else if c = byte (CHR ''X'') then cmd_write_binary at buf p s
      else if c = byte (CHR ''c'') \<or> c = byte (CHR ''s'') then cmd_continue buf p s
      else if c = byte (CHR ''C'') \<or> c = byte (CHR ''S'') then cmd_continue_signal buf p s
      else if c = byte (CHR ''?'') then report cb buf p s
      else if c = byte (CHR ''D'') then Inr (Okay, GDB_DETACH, buf, p, s\<lparr>connected := False\<rparr>)
      else if c = byte (CHR ''R'') then Inr (NoPacket, GDB_RUN, buf, p, s\<lparr>connected := False\<rparr>)
      else if c = byte (CHR ''k'') then Inr (NoPacket, GDB_KILL, buf, p, s\<lparr>connected := False\<rparr>)
      else if c = byte (CHR ''d'') then Inr (Okay, GDB_MORE, buf, p, s\<lparr>gdb_serial_debug := \<not> gdb_serial_debug s\<rparr>)
      else if c = byte (CHR ''!'') then Inr (Okay, GDB_MORE, buf, p, s)
      else Inr (Unknown, GDB_MORE, buf, p, s))"

definition send_answer :: "answer \<Rightarrow> gdb \<Rightarrow> gdb result" where
  "send_answer a s = (case a of Packet fs \<Rightarrow> putfrags fs s | NoPacket \<Rightarrow> Inr s)"

text \<open>Every turn of the conversation takes something from the line.\<close>

lemma getpacket_shorter: "getpacket buf s = Inr (buf', s') \<Longrightarrow> length (rx s') < length (rx s)"
proof (induction buf s rule: getpacket.induct)
  case (1 buf s)
  show ?case
  proof (cases "getpacket_turn buf s")
    case (Inr r)
    obtain fin buf1 s1 where r: "r = (fin, buf1, s1)" by (cases r)
    have "length (rx s1) < length (rx s)" using getpacket_turn_shorter Inr r by blast
    then show ?thesis using 1 Inr r by (subst (asm) (2) getpacket.simps) (fastforce split: if_splits)
  qed (use 1(2) in \<open>simp add: getpacket.simps [of buf s]\<close>)
qed

lemma put_loop_shorter: "put_loop pkt bs out = Inr (bs', out') \<Longrightarrow> length bs' < length bs"
  by (induction pkt bs out rule: put_loop.induct) (auto split: if_splits)

lemma send_answer_shorter: "send_answer a s = Inr s' \<Longrightarrow> length (rx s') \<le> length (rx s)"
  by (auto simp: send_answer_def putfrags_def bnd_eq_Inr split: answer.splits dest!: put_loop_shorter)

lemma gdb_copyout_rx: "rx (snd (gdb_copyout src va len s)) = rx s"
proof (induction src va len s rule: gdb_copyout.induct)
  case (1 src va len s)
  then show ?case by (subst gdb_copyout.simps) (simp add: Let_def split: prod.splits)
qed

lemmas command_defs = cmd_thread_def cmd_alive_def cmd_set_regs_def cmd_set_reg_def cmd_read_mem_def cmd_write_mem_def
  cmd_write_binary_def cmd_continue_def cmd_continue_signal_def report_def

lemma write_rx:
  "cmd_write_mem at buf p s = Inr (a, act, buf', p', s') \<Longrightarrow> rx s' = rx s"
  "cmd_write_binary at buf p s = Inr (a, act, buf', p', s') \<Longrightarrow> rx s' = rx s"
  using gdb_copyout_rx by (auto simp: cmd_write_mem_def cmd_write_binary_def Let_def bnd_eq_Inr split: prod.splits if_splits) (metis snd_conv)+

lemma other_rx:
  "cmd_thread cb buf p s = Inr (a, act, buf', p', s') \<Longrightarrow> rx s' = rx s"
  "cmd_alive cb buf p s = Inr (a, act, buf', p', s') \<Longrightarrow> rx s' = rx s"
  "cmd_set_regs buf p s = Inr (a, act, buf', p', s') \<Longrightarrow> rx s' = rx s"
  "cmd_set_reg buf p s = Inr (a, act, buf', p', s') \<Longrightarrow> rx s' = rx s"
  "cmd_read_mem buf p s = Inr (a, act, buf', p', s') \<Longrightarrow> rx s' = rx s"
  "cmd_continue buf p s = Inr (a, act, buf', p', s') \<Longrightarrow> rx s' = rx s"
  "cmd_continue_signal buf p s = Inr (a, act, buf', p', s') \<Longrightarrow> rx s' = rx s"
  "report cb buf p s = Inr (a, act, buf', p', s') \<Longrightarrow> rx s' = rx s"
  by (auto simp: command_defs Let_def bnd_eq_Inr split: prod.splits if_splits option.splits)

lemma command_rx: "command cb at buf p s = Inr (a, act, buf', p', s') \<Longrightarrow> rx s' = rx s"
  unfolding command_def Let_def by (auto split: if_splits dest: write_rx other_rx)

function converse_loop :: "gdb_callbacks option \<Rightarrow> u32 \<Rightarrow> u8 list \<Rightarrow> gdb_params \<Rightarrow> gdb \<Rightarrow> (gdb_action \<times> gdb_params \<times> gdb) result" where
  "converse_loop cb at buf p s =
     (case getpacket buf s of
        Inl e \<Rightarrow> Inl e
      | Inr (buf1, s1) \<Rightarrow>
          (case command cb at buf1 p (s1\<lparr>connected := True\<rparr>) of
             Inl e \<Rightarrow> Inl e
           | Inr (a, act, buf2, p2, s2) \<Rightarrow>
               (case send_answer a s2 of
                  Inl e \<Rightarrow> Inl e
                | Inr s3 \<Rightarrow> if act = GDB_MORE then converse_loop cb at buf2 p2 s3 else Inr (act, p2, s3))))"
  by pat_completeness auto
termination
proof (relation "measure (\<lambda>(cb, at, buf, p, s). length (rx s))", goal_cases)
  case (2 cb at buf p s r1 buf1 s1 r2 a x1 act x2 buf2 x3 p2 s2 s3)
  then show ?case
    by (auto dest!: getpacket_shorter command_rx send_answer_shorter)
qed simp

declare converse_loop.simps [simp del]

definition gdb_serial_converse :: "gdb_callbacks option \<Rightarrow> u32 \<Rightarrow> u8 list \<Rightarrow> gdb_params \<Rightarrow> gdb \<Rightarrow> (gdb_action \<times> gdb_params \<times> gdb) result" where
  "gdb_serial_converse cb at buf p s =
     (let p1 = p\<lparr>regs_changed := False\<rparr> in
      bnd (report cb buf p1 s) (\<lambda>(a, act, buf1, p2, s1).
      bnd (send_answer a s1) (converse_loop cb at buf1 p2)))"

section \<open>Messages of the program\<close>

definition last_message :: "char \<Rightarrow> u8 \<Rightarrow> gdb \<Rightarrow> gdb result" where
  "last_message c code s =
     (if \<not> serial_set s \<or> \<not> connected s then Inr s
      else bnd (putfrags [lit [c], frag [code] 1 True] s) (\<lambda>s1. Inr (s1\<lparr>connected := False\<rparr>)))"

definition gdb_serial_exit :: "int \<Rightarrow> gdb \<Rightarrow> gdb result" where
  "gdb_serial_exit exit_code = last_message (CHR ''W'') (word_of_int exit_code)"

definition gdb_serial_killed :: "int \<Rightarrow> gdb \<Rightarrow> gdb result" where
  "gdb_serial_killed sig = last_message (CHR ''X'') (word_of_int sig)"

definition gdb_serial_putchar :: "int \<Rightarrow> gdb \<Rightarrow> gdb result" where
  "gdb_serial_putchar ch s =
     (if \<not> serial_set s then Inr s
      else if \<not> connected s then Inr (gdb_serial_send (word_of_int ch) s)
      else putfrags [lit ''O'', frag [word_of_int ch] 1 True] s)"

definition gdb_serial_puts :: "u8 list \<Rightarrow> gdb \<Rightarrow> gdb result" where
  "gdb_serial_puts str s =
     (if \<not> serial_set s then Inr s
      else if \<not> connected s then Inr (gdb_serial_send 10 (fold gdb_serial_send (takeWhile (\<lambda>b. b \<noteq> 0) str) s))
      else putfrags [lit ''O'', frag str 0 True, frag [10] 1 True] s)"

section \<open>The serial port\<close>

text \<open>The values read from the status and data ports, in order; what is sent goes to the list of port writes.\<close>

record com1 =
  port_reads :: "u8 list"
  port_writes :: "(u16 \<times> u8) list"
  serial_done :: bool

definition com_out :: "u8 \<Rightarrow> u16 \<Rightarrow> com1 \<Rightarrow> com1" where
  "com_out v port s = s\<lparr>port_writes := port_writes s @ [(port, v)]\<rparr>"

definition init_serial :: "com1 \<Rightarrow> com1" where
  "init_serial s =
     (if serial_done s then s
      else (fold (\<lambda>(v, port). com_out v port)
        [(0x0f, 0x3fc), (0, 0x3f9), (0x83, 0x3fb), (1, 0x3f8), (0, 0x3f9), (0x03, 0x3fb)] s)\<lparr>serial_done := True\<rparr>)"

fun poll :: "(u8 \<Rightarrow> bool) \<Rightarrow> u8 list \<Rightarrow> u8 list result" where
  "poll ready [] = Inl Hang"
| "poll ready (b # bs) = (if ready b then Inr bs else poll ready bs)"

definition write_com1 :: "int \<Rightarrow> com1 \<Rightarrow> com1 result" where
  "write_com1 c s =
     (let s1 = init_serial s in
      bnd (poll (\<lambda>b. b AND 0x20 \<noteq> 0) (port_reads s1)) (\<lambda>bs. Inr (com_out (word_of_int c) 0x3f8 (s1\<lparr>port_reads := bs\<rparr>))))"

definition read_com1 :: "com1 \<Rightarrow> (int \<times> com1) result" where
  "read_com1 s =
     (let s1 = init_serial s in
      bnd (poll (\<lambda>b. b AND 0x1e = 0 \<and> b AND 1 \<noteq> 0) (port_reads s1)) (\<lambda>bs.
        case bs of [] \<Rightarrow> Inl Hang | b # cs \<Rightarrow> Inr (uint b, s1\<lparr>port_reads := cs\<rparr>)))"

end
