(* ===== verification/Gdb_Proofs.thy ===== *)
theory Gdb_Proofs
  imports Gdb
begin

unbundle bit_operations_syntax

text \<open>
  What is proved of the remote debugger: packets survive the run-length encoding and the framing, packets from the
  debugger are taken exactly when their checksum is right, and the memory of the debugged program is read through
  its page tables.
\<close>

section \<open>Hexadecimal digits\<close>

abbreviation star :: u8 where "star \<equiv> byte (CHR ''*'')"
abbreviation hash :: u8 where "hash \<equiv> byte (CHR ''#'')"
abbreviation dollar :: u8 where "dollar \<equiv> byte (CHR ''$'')"

lemma byte_codes: "star = 42" "hash = 35" "dollar = 36"
  by (simp_all add: byte_def)

lemma hexchars_props:
  assumes "n < 16"
  shows "hex (hexchars n) = uint n \<and> hexchars n \<noteq> star \<and> hexchars n \<noteq> hash"
proof -
  have "unat n < 16" using assms by (simp add: word_less_nat_alt)
  then have "unat n \<in> set [0..<16]" by simp
  moreover have "\<forall>k \<in> set [0..<16]. hex (hexchars (of_nat k)) = int k \<and> hexchars (of_nat k) \<noteq> star \<and> hexchars (of_nat k) \<noteq> hash"
    by (simp add: upt_rec hexchars_def hex_def byte_def Let_def)
  ultimately have "hex (hexchars (of_nat (unat n))) = int (unat n) \<and> hexchars (of_nat (unat n)) \<noteq> star \<and> hexchars (of_nat (unat n)) \<noteq> hash"
    by blast
  then show ?thesis by simp
qed

lemma nibbles: "drop_bit 4 b < (16 :: u8)" "b AND 0xf < (16 :: u8)" "b mod 16 < (16 :: u8)"
proof -
  have "unat b < 256" using unsigned_less [of b, where 'a = nat] by simp
  then have "unat (drop_bit 4 b) < 16" by (simp add: drop_bit_eq_div unat_div)
  then show "drop_bit 4 b < 16" by (simp add: word_less_nat_alt)
  show "b mod 16 < 16" by (simp add: word_less_nat_alt unat_mod)
  have "b AND 0xf = b mod 16" using take_bit_eq_mask [of 4 b] take_bit_eq_mod [of 4 b] by (simp add: mask_eq_exp_minus_1)
  then show "b AND 0xf < 16" by (simp add: word_less_nat_alt unat_mod)
qed


lemma nibbles_join: "word_of_int (16 * uint (drop_bit 4 b)) + word_of_int (uint (b AND 0xf)) = (b :: u8)"
proof -
  have "b AND 0xf = b mod 16" using take_bit_eq_mask [of 4 b] take_bit_eq_mod [of 4 b] by (simp add: mask_eq_exp_minus_1)
  moreover have "drop_bit 4 b = b div 16" by (simp add: drop_bit_eq_div)
  ultimately have "uint (drop_bit 4 b) = uint b div 16" "uint (b AND 0xf) = uint b mod 16" by (simp_all add: uint_div uint_mod)
  then have "16 * uint (drop_bit 4 b) + uint (b AND 0xf) = uint b" by simp
  then have "word_of_int (16 * uint (drop_bit 4 b) + uint (b AND 0xf)) = b" by (simp only: word_of_int_uint)
  then show ?thesis by (simp only: of_int_add)
qed

text \<open>The digits of a block of bytes, and reading them back.\<close>

definition hex_text :: "u8 list \<Rightarrow> u8 list" where
  "hex_text p = concat (map (\<lambda>b. [hexchars (drop_bit 4 b), hexchars (b AND 0xf)]) p)"

lemma hex_text_simps [simp]: "hex_text [] = []" "hex_text (b # p) = hexchars (drop_bit 4 b) # hexchars (b AND 0xf) # hex_text p"
  "hex_text (p @ q) = hex_text p @ hex_text q"
  by (simp_all add: hex_text_def)

lemma hex_pair: "push_bit 4 (hex (hexchars (drop_bit 4 b))) OR hex (hexchars (b AND 0xf)) = uint b"
proof -
  have h: "hex (hexchars (drop_bit 4 b)) = uint (drop_bit 4 b)" "hex (hexchars (b AND 0xf)) = uint (b AND 0xf)"
    using hexchars_props nibbles by blast+
  have "uint b = push_bit 4 (uint (drop_bit 4 b)) OR uint (b AND 0xf)"
  proof (rule bit_eqI)
    fix n
    have m: "(0xf :: u8) = mask 4" by (simp add: mask_eq_exp_minus_1)
    show "bit (uint b) n = bit (push_bit 4 (uint (drop_bit 4 b)) OR uint (b AND 0xf)) n"
      unfolding m using bit_imp_le_length [of b n] by (cases "n < 4") (auto simp: bit_or_iff bit_push_bit_iff bit_uint_iff bit_drop_bit_eq bit_and_iff bit_mask_iff)
  qed
  then show ?thesis by (simp add: h)
qed

lemma hex2bin_hex_text: "hex2bin (hex_text p @ r) (length p) = Inr (p, True)"
  by (induction p) (simp_all add: hex_pair Let_def)

section \<open>Run-length encoding\<close>

text \<open>What the debugger makes of the body of a packet: a character, a star and a count stand for a run.\<close>

fun expand :: "u8 list \<Rightarrow> u8 list" where
  "expand (c # x # n # r) = (if x = star then replicate (unat n - 28) c @ expand r else c # expand (x # n # r))"
| "expand r = r"

lemma expand_plain: "rest = [] \<or> hd rest \<noteq> star \<Longrightarrow> expand (c # rest) = c # expand rest"
  by (cases rest rule: expand.cases) auto

lemma send_frag_head: "send_frag True p = [] \<or> hd (send_frag True p) \<noteq> star"
  using hexchars_props nibbles by (subst send_frag.simps, subst send_frag.simps) auto

lemma run_bytes: "k \<le> length (takeWhile (\<lambda>b. b = c) p) \<Longrightarrow> take k p = replicate k c"
proof (induction k arbitrary: p)
  case (Suc k)
  then show ?case by (cases p) (auto split: if_splits)
qed simp

lemma hex_text_replicate: "hexchars (drop_bit 4 b) = hexchars (b AND 0xf) \<Longrightarrow> hex_text (replicate k b) = replicate (2 * k) (hexchars (b AND 0xf))"
  by (induction k) simp_all

lemma expand_send_frag: "expand (send_frag True p) = hex_text p"
proof (induction "True" p rule: send_frag.induct)
  case (1 p)
  consider "p = []" | "p \<noteq> []" "run_starts True p" | "p \<noteq> []" "\<not> run_starts True p" by blast
  then show ?case
  proof cases
    case 1
    then show ?thesis by (simp add: send_frag.simps)
  next
    case 2
    define k where "k = run_length True p"
    have k: "k \<le> 49" "k \<le> length (takeWhile (\<lambda>b. b = p ! 0) p)" by (simp_all add: k_def run_length_def)
    define nb :: u8 where "nb = of_nat (29 + 2 * k - 1)"
    have "unat nb = 29 + 2 * k - 1" unfolding nb_def unat_of_nat using k(1) by simp
    then have n: "unat nb - 28 = 2 * k" by simp
    have eq: "hexchars (drop_bit 4 (p ! 0)) = hexchars (p ! 0 AND 0xf)" using 2 by (simp add: run_starts_def)
    have "hex_text (take k p) = replicate (2 * k) (hexchars (p ! 0 AND 0xf))"
      by (simp only: run_bytes [OF k(2)] hex_text_replicate [OF eq])
    moreover have "hex_text p = hex_text (take k p) @ hex_text (drop k p)" by (simp flip: hex_text_simps(3))
    moreover have "expand (send_frag True (drop k p)) = hex_text (drop k p)" using 1(1) 2 by (simp add: k_def)
    moreover have "send_frag True p = [hexchars (p ! 0 AND 0xf), star, nb] @ send_frag True (drop k p)"
      using 2 by (simp add: send_frag.simps [of True p] k_def nb_def)
    ultimately show ?thesis by (simp add: n)
  next
    case 3
    then obtain b q where p: "p = b # q" by (cases p) auto
    have "send_frag True p = hexchars (drop_bit 4 b) # hexchars (b AND 0xf) # send_frag True q"
      using 3 unfolding send_frag.simps [of True p] by (simp add: p)
    moreover have "expand (send_frag True q) = hex_text q" using 1(2) 3 by (simp add: p)
    moreover have "hexchars (b AND 0xf) \<noteq> star" using hexchars_props nibbles by blast
    ultimately show ?thesis using send_frag_head [of q] by (simp add: p expand_plain)
  qed
qed


text \<open>No fragment in hexadecimal has the character that ends a packet in it.\<close>

lemma run_count_not_hash:
  assumes "k \<le> 49"
  shows "(of_nat (29 + 2 * k - 1) :: u8) \<noteq> hash"
proof
  assume "(of_nat (29 + 2 * k - 1) :: u8) = hash"
  then have "unat (of_nat (29 + 2 * k - 1) :: u8) = 35" by (simp add: byte_codes)
  moreover have "unat (of_nat (29 + 2 * k - 1) :: u8) = 29 + 2 * k - 1" unfolding unat_of_nat using assms by simp
  ultimately show False by presburger
qed

text \<open>Every character of it can be printed: a count stands for a run of 4 to 98 digits.\<close>

definition printable :: "u8 \<Rightarrow> bool" where
  "printable b \<longleftrightarrow> 32 \<le> b \<and> b \<le> 126"

lemma hexchars_printable:
  assumes "n < 16"
  shows "printable (hexchars n)"
proof -
  have "unat n < 16" using assms by (simp add: word_less_nat_alt)
  then have "unat n \<in> set [0..<16]" by simp
  moreover have "\<forall>k \<in> set [0..<16]. printable (hexchars (of_nat k))"
    by (simp add: upt_rec hexchars_def printable_def byte_def)
  ultimately have "printable (hexchars (of_nat (unat n)))" by blast
  then show ?thesis by simp
qed

lemma run_count_printable:
  assumes "2 \<le> k" "k \<le> 49"
  shows "printable (of_nat (29 + 2 * k - 1))"
proof -
  have "unat (of_nat (29 + 2 * k - 1) :: u8) = 29 + 2 * k - 1" unfolding unat_of_nat using assms by simp
  then show ?thesis unfolding printable_def word_le_nat_alt using assms by simp
qed

lemma run_starts_length: "run_starts True p \<Longrightarrow> 2 \<le> run_length True p"
proof -
  assume "run_starts True p"
  then have "1 < length p" "p ! 1 = p ! 0" by (simp_all add: run_starts_def)
  then obtain b q where "p = b # b # q" by (cases p; cases "tl p") auto
  then show ?thesis by (simp add: run_length_def)
qed

lemma send_frag_printable: "\<forall>b \<in> set (send_frag True p). printable b"
proof (induction "True" p rule: send_frag.induct)
  case (1 p)
  have d: "printable (hexchars (drop_bit 4 b))" "printable (hexchars (b AND 0xf))" for b
    using hexchars_printable nibbles by blast+
  have r: "run_starts True p \<Longrightarrow> printable (of_nat (29 + 2 * run_length True p - 1))"
    by (rule run_count_printable) (simp_all add: run_starts_length, simp add: run_length_def)
  have s: "printable star" by (simp add: printable_def byte_codes)
  show ?case
    unfolding send_frag.simps [of True p]
    using 1 d [of "p ! 0"] r s by (simp only: set_append set_simps if_True split: if_split) auto
qed

lemma send_frag_no_hash: "hash \<notin> set (send_frag True p)"
proof (induction "True" p rule: send_frag.induct)
  case (1 p)
  have d: "hexchars (drop_bit 4 b) \<noteq> hash" "hexchars (b AND 0xf) \<noteq> hash" for b using hexchars_props nibbles by blast+
  have "run_length True p \<le> 49" by (simp add: run_length_def)
  note r = run_count_not_hash [OF this]
  show ?case
    unfolding send_frag.simps [of True p]
    using 1 d [of "p ! 0"] r by (simp only: set_append set_simps if_True split: if_split) (auto simp: byte_codes)
qed

lemma checksum_digits:
  fixes c :: u8
  shows "word_of_int (16 * hex (hexchars (drop_bit 4 c))) + word_of_int (hex (hexchars (c mod 16))) = c"
proof -
  have "c mod 16 = c AND 0xf" using take_bit_eq_mask [of 4 c] take_bit_eq_mod [of 4 c] by (simp add: mask_eq_exp_minus_1)
  then show ?thesis using hexchars_props [OF nibbles(1) [of c]] hexchars_props [OF nibbles(2) [of c]] nibbles_join [of c] by simp
qed

text \<open>
  C26: what the debugger gets. The packet in which the stub sends a block of bytes, not empty, in hexadecimal is a
  dollar, a body, a hash, and two digits that are the checksum of the body. The body has printable characters only and no
  hash, so the debugger finds its end; expanding the runs in it and reading the digits gives exactly the block, and
  nothing of what lies behind it in memory. The protocol also reserves the dollar, and here the code does not
  keep to it: the count of a run of eight digits is a dollar. An empty block is excluded, because a fragment
  of length 0 is sent as a string.
\<close>

theorem packet_roundtrip:
  assumes "p \<noteq> []"
  shows "\<exists>body h l. packet [frag (p @ behind) (length p) True] = dollar # body @ [hash, h, l]
     \<and> hash \<notin> set body \<and> (\<forall>b \<in> set body. printable b)
     \<and> word_of_int (16 * hex h) + word_of_int (hex l) = sum_list body
     \<and> hex2bin (expand body) (length p) = Inr (p, True) \<and> length (expand body) = 2 * length p"
proof -
  have "frag_bytes (frag (p @ behind) (length p) True) = p" using assms by (simp add: frag_bytes_def frag_def)
  then have "packet [frag (p @ behind) (length p) True] = (let body = send_frag True p; checksum = sum_list body in
      dollar # body @ [hash, hexchars (drop_bit 4 checksum), hexchars (checksum mod 16)])"
    by (simp add: packet_def frag_def Let_def)
  moreover have "length (expand (send_frag True p)) = 2 * length p"
    unfolding expand_send_frag by (induction p) simp_all
  ultimately show ?thesis
    using send_frag_no_hash [of p] send_frag_printable [of p] checksum_digits expand_send_frag [of p] hex2bin_hex_text [of p "[]"]
    by (simp add: Let_def)
qed

lemma packet_roundtrip_witness:
  "\<exists>body h l. packet [frag [0xab, 0x12, 0xff] 2 True] = dollar # body @ [hash, h, l]
     \<and> hex2bin (expand body) 2 = Inr ([0xab, 0x12], True) \<and> length (expand body) = 4"
proof -
  have e: "[0xab, 0x12] @ [0xff] = [0xab, 0x12, 0xff :: u8]" "length [0xab, 0x12 :: u8] = 2" by simp_all
  have "[0xab, 0x12 :: u8] \<noteq> []" by simp
  then show ?thesis using packet_roundtrip [of "[0xab, 0x12]" "[0xff]", unfolded e] by fastforce
qed

text \<open>Four equal bytes of equal digits make a run of eight, whose count is the character that starts a packet.\<close>

lemma run_of_eight: "send_frag True [0, 0, 0, 0, 1] = [byte (CHR ''0''), star, dollar, byte (CHR ''0''), byte (CHR ''1'')]"
  by (simp add: send_frag.simps run_starts_def run_length_def hexchars_def byte_def)


section \<open>Packets from the debugger\<close>

lemma wait_dollar_noise: "\<forall>b \<in> set noise. b AND 0x7f \<noteq> dollar \<Longrightarrow> wait_dollar (noise @ dollar # bs) = Inr bs"
  by (induction noise) (simp_all add: byte_codes)

lemma read_body_packet:
  assumes "hash \<notin> set body" and "count + length body < BUFMAX" and "length buf = BUFMAX + 1"
    and "(take count buf @ body) = [] \<or> last (take count buf @ body) \<noteq> 0x7d"
  shows "read_body (body @ hash # rest) ch0 count buf csum
    = Inr (hash, count + length body, take count buf @ body @ drop (count + length body) buf, csum + sum_list body, rest)"
  using assms
proof (induction body arbitrary: count buf csum ch0)
  case Nil
  then have "count = 0 \<or> buf ! (count - 1) \<noteq> 0x7d" by (cases count) (auto simp: take_Suc_conv_app_nth)
  then show ?case using Nil by (simp add: read_body.simps [of "hash # rest"])
next
  case (Cons c body)
  have upd: "take (count + 1) (buf[count := c]) = take count buf @ [c]" using Cons.prems by (simp add: take_Suc_conv_app_nth)
  have drp: "drop (count + 1 + length body) (buf[count := c]) = drop (count + length (c # body)) buf" by simp
  have "c \<noteq> hash" "count < BUFMAX" using Cons.prems by auto
  then have "read_body ((c # body) @ hash # rest) ch0 count buf csum = read_body (body @ hash # rest) c (count + 1) (buf[count := c]) (csum + c)"
    by (simp add: read_body.simps [of "c # body @ hash # rest"])
  also have "\<dots> = Inr (hash, count + 1 + length body, take (count + 1) (buf[count := c]) @ body @ drop (count + 1 + length body) (buf[count := c]),
      csum + c + sum_list body, rest)"
    using Cons.IH [of "count + 1" "buf[count := c]" c "csum + c"] Cons.prems upd by simp
  finally show ?case unfolding upd drp by (simp add: add.assoc)
qed

definition packet_buf :: "u8 list \<Rightarrow> u8 list \<Rightarrow> u8 list" where
  "packet_buf body buf = body @ 0 # drop (Suc (length body)) buf"

text \<open>
  C28: receiving a packet. Whatever noise comes before it, a packet whose digits are the checksum of its body is
  taken, acknowledged with a plus, and left in the buffer as a string; one whose digits are wrong is
  refused with a minus, and the stub goes on waiting for the next one. This is for packets of less than 400
  characters, without a sequence number (a colon as third character of the buffer) and without an escaped hash.
\<close>

theorem getpacket_checks:
  assumes noise: "\<forall>b \<in> set noise. b AND 0x7f \<noteq> dollar" and body: "hash \<notin> set body" "length body < BUFMAX" "body = [] \<or> last body \<noteq> 0x7d"
    and buf: "length buf = BUFMAX + 1" "packet_buf body buf ! 2 \<noteq> byte (CHR '':'')"
    and s: "rx s = noise @ dollar # body @ hash # h # l # rest"
  shows "getpacket buf s =
    (if word_of_int (16 * hex h) + word_of_int (hex l) = sum_list body
     then Inr (packet_buf body buf, s\<lparr>rx := rest, tx := tx s @ [byte (CHR ''+'')]\<rparr>)
     else getpacket (packet_buf body buf) (s\<lparr>rx := rest, tx := tx s @ [byte (CHR ''-'')]\<rparr>))"
proof -
  have "drop (length body) buf = buf ! length body # drop (Suc (length body)) buf" using body(2) buf(1) by (simp add: Cons_nth_drop_Suc)
  then have upd: "(body @ drop (length body) buf)[length body := 0] = packet_buf body buf" by (simp add: packet_buf_def)
  have "read_body (body @ hash # h # l # rest) dollar 0 buf 0 = Inr (hash, length body, body @ drop (length body) buf, sum_list body, h # l # rest)"
    using read_body_packet [OF body(1), of 0 buf] body buf by simp
  then have "getpacket_turn buf s = (if sum_list body \<noteq> word_of_int (16 * hex h) + word_of_int (hex l)
      then Inr (False, packet_buf body buf, s\<lparr>rx := rest, tx := tx s @ [byte (CHR ''-'')]\<rparr>)
      else Inr (True, packet_buf body buf, s\<lparr>rx := rest, tx := tx s @ [byte (CHR ''+'')]\<rparr>))"
    using buf(2) by (simp add: getpacket_turn_def s wait_dollar_noise [OF noise] Let_def upd gdb_serial_recv_def gdb_serial_send_def)
  then show ?thesis by (simp add: getpacket.simps [of buf s])
qed

lemma getpacket_checks_witness:
  "getpacket (replicate 401 0) \<lparr>rx = bytes ''+$g#67'', tx = [], serial_set = True, connected = True, gdb_serial_debug = False,
     client_cr0 = 0, client_cr3 = 0, gmem = (\<lambda>_. 0)\<rparr>
   = Inr (byte (CHR ''g'') # replicate 400 0, \<lparr>rx = [], tx = bytes ''+'', serial_set = True, connected = True, gdb_serial_debug = False,
     client_cr0 = 0, client_cr3 = 0, gmem = (\<lambda>_. 0)\<rparr>)"
proof -
  have r: "drop 2 (replicate 401 (0 :: u8)) = replicate 399 0" "(0 :: u8) # replicate 399 0 = replicate 400 0" by (simp_all add: Cons_replicate_eq)
  show ?thesis
    by (subst getpacket_checks [where noise = "bytes ''+''" and body = "bytes ''g''" and h = "byte (CHR ''6'')" and l = "byte (CHR ''7'')" and rest = "[]"])
      (simp_all add: bytes_def byte_def hex_def packet_buf_def Let_def r)
qed


section \<open>Memory through the page tables\<close>

text \<open>The translation of one address by the processor.\<close>

definition xlate :: "gdb \<Rightarrow> u32 \<Rightarrow> u32 option" where
  "xlate s va =
     (let pde = load32 (gmem s) ((client_cr3 s AND 0xfffff000) + 4 * lin2pdenum va);
          pte = load32 (gmem s) ((pde AND 0xfffff000) + 4 * lin2ptenum va) in
      if client_cr0 s AND 0x80000000 = 0 then Some va
      else if pde AND 1 = 0 then None
      else if pde AND 0x80 \<noteq> 0 then Some ((pde AND NOT 0x3fffff) + (va AND 0x3fffff))
      else if pte AND 1 = 0 then None
      else Some ((pte AND 0xfffff000) + (va AND 0xfff)))"

lemma unat_masks:
  "unat (w AND 0xfff :: u32) = unat w mod 4096" "unat (w AND 0x3fffff :: u32) = unat w mod 4194304" "unat (w AND 0x3ff :: u32) = unat w mod 1024"
proof -
  have "w AND mask n = take_bit n w" for n by (simp add: take_bit_eq_mask)
  from this [of 12] this [of 22] this [of 10] show "unat (w AND 0xfff) = unat w mod 4096" "unat (w AND 0x3fffff) = unat w mod 4194304"
    "unat (w AND 0x3ff) = unat w mod 1024"
    by (simp_all add: mask_eq_exp_minus_1 unsigned_take_bit_eq take_bit_eq_mod unat_mod)
qed

lemma unat_index: "unat (lin2pdenum va) = unat va div 4194304 mod 1024" "unat (lin2ptenum va) = unat va div 4096 mod 1024"
  by (simp_all add: lin2pdenum_def lin2ptenum_def unat_masks drop_bit_eq_div unat_div)

text \<open>Addresses of one page, of \<open>m\<close> bytes.\<close>

lemma same_page:
  fixes va :: u32
  assumes "m dvd 4294967296" and "unat va mod m + i < m"
  shows "unat (va + of_nat i) = unat va + i" "(unat va + i) div m = unat va div m" "(unat va + i) mod m = unat va mod m + i"
proof -
  obtain k where k: "4294967296 = m * k" using assms(1) by (auto simp: dvd_def)
  have u: "unat va < 4294967296" using unsigned_less [of va, where 'a = nat] by simp
  have "unat va div m < k" using u k by (metis less_mult_imp_div_less mult.commute)
  then have "m * (unat va div m) + m \<le> m * k" by (metis Suc_leI mult_Suc_right add.commute mult_le_mono2)
  then have lt: "unat va + i < 4294967296" using assms(2) k mult_div_mod_eq [of m "unat va"] by linarith
  then have i: "unat (of_nat i :: u32) = i" by (simp add: unat_of_nat)
  show "unat (va + of_nat i) = unat va + i" using lt i by (simp add: unat_word_ariths)
  have v: "m * (unat va div m) + (unat va mod m + i) = unat va + i" by simp
  have "(m * q + r) div m = q \<and> (m * q + r) mod m = r" if "r < m" for q r using that by simp
  from this [OF assms(2), of "unat va div m"] show "(unat va + i) div m = unat va div m" "(unat va + i) mod m = unat va mod m + i"
    unfolding v by simp_all
qed


lemma lookup_xlate:
  assumes "phys_addr_lookup va s = (pa, sz)"
  shows "sz = 0 \<Longrightarrow> xlate s va = None" "i < unat sz \<Longrightarrow> xlate s (va + of_nat i) = Some (pa + of_nat i)"
proof -
  define pde where "pde = load32 (gmem s) ((client_cr3 s AND 0xfffff000) + 4 * lin2pdenum va)"
  define pte where "pte = load32 (gmem s) ((pde AND 0xfffff000) + 4 * lin2ptenum va)"
  have off4: "unat (0x1000 - (va AND 0xfff)) = 4096 - unat va mod 4096" "unat (0x400000 - (va AND 0x3fffff)) = 4194304 - unat va mod 4194304"
    by (simp_all add: unat_sub word_le_nat_alt unat_masks)
  have ne: "0x1000 - (va AND 0xfff) \<noteq> 0" "0x400000 - (va AND 0x3fffff) \<noteq> 0"
    using off4 by (metis (mono_tags) mod_less_divisor unat_0 zero_less_diff zero_less_numeral less_numeral_extra(3))+
  note look = assms [unfolded phys_addr_lookup_def Let_def pde_def [symmetric] pte_def [symmetric]]
  show "sz = 0 \<Longrightarrow> xlate s va = None"
    using look ne unfolding xlate_def Let_def pde_def [symmetric] pte_def [symmetric] by (auto split: if_splits)
  assume i: "i < unat sz"
  consider "client_cr0 s AND 0x80000000 = 0" "pa = va" | "client_cr0 s AND 0x80000000 \<noteq> 0" "pde AND 1 \<noteq> 0" "pde AND 0x80 = 0" "pte AND 1 \<noteq> 0"
      "pa = (pte AND 0xfffff000) + (va AND 0xfff)" "sz = 0x1000 - (va AND 0xfff)"
    | "client_cr0 s AND 0x80000000 \<noteq> 0" "pde AND 1 \<noteq> 0" "pde AND 0x80 \<noteq> 0" "pa = (pde AND NOT 0x3fffff) + (va AND 0x3fffff)"
      "sz = 0x400000 - (va AND 0x3fffff)"
    using look i by (auto split: if_splits)
  then show "xlate s (va + of_nat i) = Some (pa + of_nat i)"
  proof cases
    case 1
    then show ?thesis by (simp add: xlate_def)
  next
    case 2
    have pg: "unat va mod 4096 + i < 4096" using i off4(1) 2(6) by simp
    note sp = same_page [OF _ pg]
    have idx: "lin2pdenum (va + of_nat i) = lin2pdenum va" "lin2ptenum (va + of_nat i) = lin2ptenum va"
      using sp div_mult2_eq [of "unat va + i" 4096 1024] div_mult2_eq [of "unat va" 4096 1024] by (simp_all add: word_unat_eq_iff unat_index)
    have "unat (of_nat i :: u32) = i" using pg by (simp add: unat_of_nat)
    then have "(va + of_nat i) AND 0xfff = (va AND 0xfff) + of_nat i"
      using sp pg by (simp add: word_unat_eq_iff unat_masks unat_word_ariths)
    then show ?thesis using 2 idx by (simp add: xlate_def Let_def pde_def [symmetric] pte_def [symmetric])
  next
    case 3
    have pg: "unat va mod 4194304 + i < 4194304" using i off4(2) 3(5) by simp
    note sp = same_page [OF _ pg]
    have idx: "lin2pdenum (va + of_nat i) = lin2pdenum va" using sp by (simp add: word_unat_eq_iff unat_index)
    have "unat (of_nat i :: u32) = i" using pg by (simp add: unat_of_nat)
    then have "(va + of_nat i) AND 0x3fffff = (va AND 0x3fffff) + of_nat i"
      using sp pg by (simp add: word_unat_eq_iff unat_masks unat_word_ariths)
    then show ?thesis using 3 idx by (simp add: xlate_def Let_def pde_def [symmetric])
  qed
qed


lemma takeWhile_shift:
  assumes "\<And>i. i < m \<Longrightarrow> P i"
  shows "takeWhile P [0..<m + n] = [0..<m] @ map (\<lambda>i. i + m) (takeWhile (\<lambda>i. P (i + m)) [0..<n])"
proof -
  have "[0..<m + n] = [0..<m] @ [m..<m + n]" by (rule upt_add_eq_append) simp
  moreover have "[m..<m + n] = map (\<lambda>i. i + m) [0..<n]" by (simp add: map_add_upt add.commute)
  moreover have "takeWhile P ([0..<m] @ ys) = [0..<m] @ takeWhile P ys" for ys by (rule takeWhile_append2) (simp add: assms)
  ultimately show ?thesis by (simp add: takeWhile_map o_def)
qed

definition mapped :: "gdb \<Rightarrow> u32 \<Rightarrow> nat \<Rightarrow> nat list" where
  "mapped s va n = takeWhile (\<lambda>i. xlate s (va + of_nat i) \<noteq> None) [0..<n]"

lemma mapped_chunk:
  assumes "phys_addr_lookup va s = (pa, sz0)" and "unat sz \<le> unat sz0"
  shows "mapped s va (unat sz + n) = [0..<unat sz] @ map (\<lambda>i. i + unat sz) (mapped s (va + sz) n)"
proof -
  have "xlate s (va + of_nat i) \<noteq> None" if "i < unat sz" for i using lookup_xlate(2) [OF assms(1), of i] that assms(2) by simp
  note t = takeWhile_shift [of "unat sz" "\<lambda>i. xlate s (va + of_nat i) \<noteq> None", OF this, of n]
  have "va + of_nat (i + unat sz) = va + sz + of_nat i" for i by (simp add: add.commute add.left_commute)
  with t show ?thesis by (simp only: mapped_def)
qed

text \<open>
  C27: reading the memory of the debugged program. \<^verbatim>\<open>gdb_copyin\<close> goes through the page tables a page at a
  time; what it copies is, byte by byte, what the processor would read at the virtual addresses, with 4 KB and 4 MB
  pages and without paging, also when the addresses wrap around; it succeeds exactly when every address is mapped
  and stops at the first one that is not.
\<close>

theorem gdb_copyin_bytewise:
  "gdb_copyin va len s = (map (\<lambda>i. gmem s (the (xlate s (va + of_nat i)))) (mapped s va (unat len)), length (mapped s va (unat len)) = unat len)"
proof (induction va len s rule: gdb_copyin.induct)
  case (1 va len s)
  show ?case
  proof (cases "len = 0")
    case True
    then show ?thesis by (simp add: gdb_copyin.simps mapped_def)
  next
    case False
    obtain pa sz0 where l: "phys_addr_lookup va s = (pa, sz0)" by fastforce
    show ?thesis
    proof (cases "sz0 = 0")
      case True
      then have "xlate s (va + of_nat 0) = None" using lookup_xlate(1) [OF l] by simp
      moreover have "[0..<unat len] = 0 # [1..<unat len]" using False by (simp add: upt_conv_Cons unat_gt_0)
      ultimately have "mapped s va (unat len) = []" by (simp add: mapped_def)
      then show ?thesis using False True l by (simp add: gdb_copyin.simps [of va len s] unat_eq_0)
    next
      case sz0: False
      define sz where "sz = (if sz0 > len then len else sz0)"
      have sz: "unat sz \<le> unat sz0" "unat (len - sz) = unat len - unat sz" "unat sz \<le> unat len"
        by (auto simp: sz_def word_less_nat_alt unat_sub word_le_nat_alt)
      then have n: "unat len = unat sz + unat (len - sz)" by simp
      note ch = mapped_chunk [OF l sz(1), of "unat (len - sz)", folded n]
      have ih: "gdb_copyin (va + sz) (len - sz) s = (map (\<lambda>i. gmem s (the (xlate s (va + sz + of_nat i)))) (mapped s (va + sz) (unat (len - sz))),
          length (mapped s (va + sz) (unat (len - sz))) = unat (len - sz))"
        using 1 [OF False l [symmetric] refl sz0 sz_def] by simp
      have step: "gdb_copyin va len s = (case gdb_copyin (va + sz) (len - sz) s of (bs, c) \<Rightarrow> (fetch (gmem s) pa (unat sz) @ bs, c))"
        using False sz0 l by (simp add: gdb_copyin.simps [of va len s] Let_def sz_def)
      have first: "fetch (gmem s) pa (unat sz) = map (\<lambda>i. gmem s (the (xlate s (va + of_nat i)))) [0..<unat sz]"
        using lookup_xlate(2) [OF l] sz(1) by (simp add: fetch_def)
      have a: "va + of_nat (i + unat sz) = va + sz + of_nat i" for i by (simp add: add.commute add.left_commute)
      show ?thesis unfolding step ih ch first using n by (simp add: a o_def del: of_nat_add)
    qed
  qed
qed

end
