(* ===== verification/Debugger.thy ===== *)
theory Debugger
  imports Gdb_Proofs
begin

unbundle bit_operations_syntax

text \<open>
  \<^verbatim>\<open>kernel/debugger.c\<close>: what happens on an exception of the processor. The task of the exception shows the
  registers of the interrupted task on the screen and waits for a key, or gives them to the remote debugger. The bytes
  read from the keyboard port are a list; when it is empty the loop waits for ever.
\<close>

section \<open>State\<close>

record trap = cpu +
  line :: gdb
  do_debug :: bool
  keys :: "u8 list"

text \<open>The address of the task segment a selector stands for, from the bytes of its descriptor.\<close>

definition tss_sel_2_tss :: "u16 \<Rightarrow> 'z cpu_scheme \<Rightarrow> u32" where
  "tss_sel_2_tss sel s =
     (let d = gdt s (unat (drop_bit 3 sel)) in (ucast (drop_bit 16 d) AND 0xffffff) + push_bit 24 (ucast (drop_bit 56 d)))"

text \<open>The task segments are where the linker put them.\<close>

definition tss_at :: "linked \<Rightarrow> u32 \<Rightarrow> 'z cpu_scheme \<Rightarrow> x86_tss" where
  "tss_at L a s = (if a = tss_adr L then tss s else trap_tss s (unat ((a - trap_tss_adr L) div TSS_SIZE)))"

definition set_tss_at :: "linked \<Rightarrow> u32 \<Rightarrow> x86_tss \<Rightarrow> 'z cpu_scheme \<Rightarrow> 'z cpu_scheme" where
  "set_tss_at L a t s = (if a = tss_adr L then s\<lparr>tss := t\<rparr>
     else s\<lparr>trap_tss := (trap_tss s)(unat ((a - trap_tss_adr L) div TSS_SIZE) := t)\<rparr>)"

section \<open>The remote debugger\<close>

definition trap_signo :: "nat \<Rightarrow> u8" where
  "trap_signo trapno =
     (if trapno \<in> {0, 4, 5, 7, 8, 9, 15} then 8
      else if trapno \<in> {1, 3} then 5
      else if trapno \<in> {10, 11, 12, 13, 14} then 11
      else 4)"

definition tss_regs :: "x86_tss \<Rightarrow> u8 list" where
  "tss_regs t = concat (map word_bytes [t_eax t, t_ecx t, t_edx t, t_ebx t, t_esp t, t_ebp t, t_esi t, t_edi t, t_eip t, t_eflags t,
     t_cs t, t_ss t, t_ds t, t_es t, t_fs t, t_gs t])"

definition set_tss_regs :: "u8 list \<Rightarrow> x86_tss \<Rightarrow> x86_tss" where
  "set_tss_regs rs t = t\<lparr>t_eax := reg_word rs 0, t_ecx := reg_word rs 1, t_edx := reg_word rs 2, t_ebx := reg_word rs 3,
     t_esp := reg_word rs 4, t_ebp := reg_word rs 5, t_esi := reg_word rs 6, t_edi := reg_word rs 7, t_eip := reg_word rs 8,
     t_eflags := reg_word rs 9, t_cs := reg_word rs 10, t_ss := reg_word rs 11, t_ds := reg_word rs 12, t_es := reg_word rs 13,
     t_fs := reg_word rs 14, t_gs := reg_word rs 15\<rparr>"

text \<open>\<^verbatim>\<open>reboot\<close> tells the debugger and restarts the machine with an empty interrupt table: it does not return.\<close>

definition reboot :: "'z trap_scheme \<Rightarrow> 'y option result" where
  "reboot s = bnd (gdb_serial_exit 0 (line s)) (\<lambda>_. Inr None)"

text \<open>
  \<open>None\<close>: the machine was restarted. The control registers, the address of the packet buffer on the stack and its
  old contents are given.
\<close>

definition debugger :: "linked \<Rightarrow> u32 \<Rightarrow> u32 \<Rightarrow> u32 \<Rightarrow> u8 list \<Rightarrow> nat \<Rightarrow> u32 \<Rightarrow> 'z trap_scheme \<Rightarrow> 'z trap_scheme option result" where
  "debugger L cr0 cr4 at buf trapno t s =
     (let p = \<lparr>thread_id = -1, signo = trap_signo trapno, regs = tss_regs (tss_at L t s), regs_changed = False\<rparr> in
      bnd (gdb_serial_converse None at buf p (copy_client_paging_registers cr0 (t_cr3 (tss_at L t s)) cr4 (line s))) (\<lambda>(action, p1, g).
        let s1 = s\<lparr>line := g, do_debug := (if action = GDB_DETACH then False else do_debug s)\<rparr> in
        if action = GDB_KILL then reboot s1
        else Inr (Some (set_tss_at L t (set_tss_regs (regs p1) (tss_at L t s1)) s1))))"

definition enable_debugger :: "'z trap_scheme \<Rightarrow> 'z trap_scheme" where
  "enable_debugger s = s\<lparr>do_debug := True, line := (line s)\<lparr>serial_set := True\<rparr>\<rparr>"

section \<open>The screen\<close>

text \<open>The screen is an array of cells: the character in the low byte, its colours in the high byte.\<close>

definition put_low :: "int \<Rightarrow> u8 \<Rightarrow> 'z console_scheme \<Rightarrow> 'z console_scheme" where
  "put_low i b s = s\<lparr>vmem := (vmem s)(i := (vmem s i AND 0xff00) OR ucast b)\<rparr>"

definition put_high :: "int \<Rightarrow> u8 \<Rightarrow> 'z console_scheme \<Rightarrow> 'z console_scheme" where
  "put_high i b s = s\<lparr>vmem := (vmem s)(i := (vmem s i AND 0x00ff) OR push_bit 8 (ucast b))\<rparr>"

definition write_hex :: "int \<Rightarrow> int \<Rightarrow> nat \<Rightarrow> u32 \<Rightarrow> 'z console_scheme \<Rightarrow> 'z console_scheme" where
  "write_hex ln col len v s =
     fold (\<lambda>k. put_low ((ln - 1) * 80 + (col + int len - 1) - (int k + 1)) (byte (''0123456789ABCDEF'' ! unat (drop_bit (4 * k) v AND 15))))
       [0..<len] s"

text \<open>The picture is text of 25 lines of 80 characters and a line feed each.\<close>

definition dump_registers :: "(nat \<Rightarrow> u8) \<Rightarrow> u32 \<Rightarrow> u32 \<Rightarrow> u32 \<Rightarrow> x86_tss \<Rightarrow> 'z console_scheme \<Rightarrow> 'z console_scheme" where
  "dump_registers task_dump_screen trapno error_code adr t s =
     (let s1 = fold (\<lambda>i s. fold (\<lambda>j. put_low (int (i * 80 + j)) (task_dump_screen (i * 81 + j))) [0..<80] s) [0..<25] s;
          s2 = fold (\<lambda>i. put_high (int i) 0x30) [0..<80 * 25] s1;
          s3 = fold (\<lambda>i. put_high (int i) 0x34) [161..<239] s2
      in fold (\<lambda>(ln, col, len, v). write_hex ln col len v)
           [(7, 21, 2, trapno), (7, 60, 8, error_code), (9, 21, 8, adr), (9, 69, 4, t_back_link t),
            (11, 11, 8, t_esp t), (11, 32, 4, t_ss t), (11, 52, 8, t_esp0 t), (11, 74, 4, t_ss0 t),
            (13, 11, 8, t_esp1 t), (13, 32, 4, t_ss1 t), (13, 52, 8, t_esp2 t), (13, 74, 4, t_ss2 t),
            (15, 15, 8, t_eip t), (15, 41, 4, t_cs t), (15, 66, 8, t_eflags t),
            (17, 10, 8, t_eax t), (17, 30, 8, t_ebx t), (17, 50, 8, t_ecx t), (17, 70, 8, t_edx t),
            (19, 10, 8, t_esi t), (19, 30, 8, t_edi t), (19, 50, 8, t_ebp t), (19, 72, 4, t_ldt t),
            (21, 12, 4, t_ds t), (21, 32, 4, t_es t), (21, 52, 4, t_fs t), (21, 72, 4, t_gs t),
            (23, 30, 8, t_cr3 t), (23, 70, 1, ucast (t_trace_trap t AND 1))] s3)"

text \<open>The copies between the screen and \<^verbatim>\<open>video_mem\<close>: 4000 bytes, the 2000 cells of the screen.\<close>

definition save_screen :: "'z console_scheme \<Rightarrow> u16 list" where
  "save_screen s = map (\<lambda>i. vmem s (int i)) [0..<2000]"

definition restore_screen :: "u16 list \<Rightarrow> 'z console_scheme \<Rightarrow> 'z console_scheme" where
  "restore_screen video_mem s = s\<lparr>vmem := (\<lambda>i. if 0 \<le> i \<and> i < 2000 then video_mem ! nat i else vmem s i)\<rparr>"

section \<open>Exceptions\<close>

text \<open>Waiting until a key is released: the value after the last repetition of its code is read, too.\<close>

fun released :: "u8 \<Rightarrow> u8 list \<Rightarrow> u8 list result" where
  "released k [] = Inl Hang"
| "released k (b # bs) = (if b = k then released k bs else Inr bs)"

lemma released_shorter: "released k bs = Inr cs \<Longrightarrow> length cs < length bs"
  by (induction bs) (auto split: if_splits)

text \<open>The loop over the keys: \<open>d\<close> says whether the registers are shown; \<open>Some True\<close> if the debugger was asked for.\<close>

function trap_keys :: "(nat \<Rightarrow> u8) \<Rightarrow> u32 \<Rightarrow> u32 \<Rightarrow> u32 \<Rightarrow> x86_tss \<Rightarrow> u16 list \<Rightarrow> bool \<Rightarrow> 'z trap_scheme
    \<Rightarrow> (bool option \<times> 'z trap_scheme) result" where
  "trap_keys pic trapno error_code adr t saved d s =
     (case keys s of
        [] \<Rightarrow> Inl Hang
      | c # cs \<Rightarrow>
          if c = 0x39 then
            (let s1 = (if d then restore_screen saved s else dump_registers pic trapno error_code adr t s) in
             case released 0x39 cs of
               Inl e \<Rightarrow> Inl e
             | Inr ds \<Rightarrow> trap_keys pic trapno error_code adr t saved (\<not> d) (s1\<lparr>keys := ds\<rparr>))
          else if c = 1 then Inr (None, s\<lparr>keys := cs\<rparr>)
          else if c = 0x17 then bnd (released 0x17 cs) (\<lambda>ds. Inr (Some False, (restore_screen saved s)\<lparr>keys := ds\<rparr>))
          else if c = 0x20 then bnd (released 0x20 cs) (\<lambda>ds. Inr (Some True, (restore_screen saved s)\<lparr>keys := ds\<rparr>))
          else trap_keys pic trapno error_code adr t saved d (s\<lparr>keys := cs\<rparr>))"
  by pat_completeness auto
termination
  by (relation "measure (\<lambda>(pic, trapno, error_code, adr, t, saved, d, s). length (keys s))") (auto dest!: released_shorter)

declare trap_keys.simps [simp del]

definition trap_handler :: "linked \<Rightarrow> u32 \<Rightarrow> u32 \<Rightarrow> u32 \<Rightarrow> u8 list \<Rightarrow> (nat \<Rightarrow> u8) \<Rightarrow> u16 \<Rightarrow> nat \<Rightarrow> u32 \<Rightarrow> 'z trap_scheme
    \<Rightarrow> 'z trap_scheme option result" where
  "trap_handler L cr0 cr4 at buf pic tr trapno error_code s =
     (let own = tss_at L (tss_sel_2_tss tr s) s; t = tss_sel_2_tss (ucast (t_back_link own)) s in
      if do_debug s then debugger L cr0 cr4 at buf trapno t s
      else bnd (trap_keys pic (of_nat trapno) error_code t (tss_at L t s) (save_screen s) True
                  (dump_registers pic (of_nat trapno) error_code t (tss_at L t s) s)) (\<lambda>(r, s1).
        case r of
          None \<Rightarrow> reboot s1
        | Some False \<Rightarrow> Inr (Some s1)
        | Some True \<Rightarrow> debugger L cr0 cr4 at buf trapno t (enable_debugger s1)))"

section \<open>The interrupted task\<close>

lemma tss_sel_2_tss_base: "tss_sel_2_tss sel s = desc_base (gdt s (unat (drop_bit 3 sel)))"
proof -
  let ?d = "gdt s (unat (drop_bit 3 sel))"
  have m: "(0xffffff :: u32) = mask 24" by (simp add: mask_eq_exp_minus_1)
  have "(ucast (drop_bit 16 ?d) AND mask 24) + push_bit 24 (ucast (drop_bit 56 ?d)) = (ucast (drop_bit 16 ?d) AND mask 24 :: u32) OR push_bit 24 (ucast (drop_bit 56 ?d))"
    by (rule disjunctive_add_eq_or) (auto simp: bit_eq_iff bit_simps)
  also have "\<dots> = desc_base ?d"
    unfolding desc_base_def by (rule bit_word_eqI) (auto simp: bit_or_iff bit_and_iff bit_mask_iff bit_ucast_iff bit_drop_bit_eq)
  finally show ?thesis unfolding tss_sel_2_tss_def Let_def m .
qed

text \<open>Showing the registers changes nothing but the screen.\<close>

lemma erase_fold: "(\<And>x s. (f x s)\<lparr>vmem := w\<rparr> = s\<lparr>vmem := w\<rparr>) \<Longrightarrow> (fold f xs s)\<lparr>vmem := w\<rparr> = s\<lparr>vmem := w\<rparr>" for s :: "'z console_scheme"
  by (induction xs arbitrary: s) auto

lemma erase_puts [simp]: "(put_low i b s)\<lparr>vmem := w\<rparr> = s\<lparr>vmem := w\<rparr>" "(put_high i b s)\<lparr>vmem := w\<rparr> = s\<lparr>vmem := w\<rparr>"
  "(write_hex ln col len v s)\<lparr>vmem := w\<rparr> = s\<lparr>vmem := w\<rparr>"
  by (simp_all add: put_low_def put_high_def write_hex_def erase_fold)

lemma dump_only_screen: "(dump_registers pic n e a t s)\<lparr>vmem := w\<rparr> = s\<lparr>vmem := w\<rparr>"
  unfolding dump_registers_def Let_def by (subst erase_fold; (auto simp: erase_fold)?)+

lemma dump_keys: "keys (dump_registers pic n e a t s) = keys s" for s :: "'z trap_scheme"
  using arg_cong [OF dump_only_screen [where w = "\<lambda>_. 0" and pic = pic and n = n and e = e and a = a and t = t and s = s], of keys] by simp

text \<open>The picture and the values in it stay on the screen.\<close>

lemma vmem_fold: "(\<And>x s. x \<in> set xs \<Longrightarrow> vmem (f x s) i = vmem s i) \<Longrightarrow> vmem (fold f xs s) i = vmem s i" for s :: "'z console_scheme"
  by (induction xs arbitrary: s) auto

definition field_on_screen :: "int \<times> int \<times> nat \<times> u32 \<Rightarrow> bool" where
  "field_on_screen = (\<lambda>(ln, col, len, v). 1 \<le> ln \<and> ln \<le> 25 \<and> 1 \<le> col \<and> col + int len \<le> 81)"

lemma write_hex_on_screen:
  assumes "field_on_screen (ln, col, len, v)" and "\<not> (0 \<le> i \<and> i < 2000)"
  shows "vmem (write_hex ln col len v s) i = vmem s i"
proof -
  have "(ln - 1) * 80 + (col + int len - 1) - (int k + 1) \<noteq> i" if "k < len" for k
    using assms that by (auto simp: field_on_screen_def)
  then show ?thesis unfolding write_hex_def by (intro vmem_fold) (auto simp: put_low_def)
qed

lemma fields_on_screen:
  assumes "\<forall>x \<in> set xs. field_on_screen x" and "\<not> (0 \<le> i \<and> i < 2000)"
  shows "vmem (fold (\<lambda>(ln, col, len, v). write_hex ln col len v) xs s) i = vmem s i"
  using assms by (intro vmem_fold) (auto intro: write_hex_on_screen)

lemma picture_on_screen:
  assumes "\<not> (0 \<le> i \<and> i < 2000)"
  shows "vmem (fold (\<lambda>i s. fold (\<lambda>j. put_low (int (i * 80 + j)) (pic (i * 81 + j))) [0..<80] s) [0..<25] s) i = vmem s i"
    and "n \<le> 2000 \<Longrightarrow> vmem (fold (\<lambda>i. put_high (int i) b) [m..<n] s) i = vmem s i"
  using assms by (intro vmem_fold; auto simp: put_low_def put_high_def)+

lemma dump_on_screen:
  assumes "\<not> (0 \<le> i \<and> i < 2000)"
  shows "vmem (dump_registers pic n e a t s) i = vmem s i"
  unfolding dump_registers_def Let_def
proof (subst fields_on_screen [OF _ assms], goal_cases)
  case 1
  show ?case by (simp add: field_on_screen_def)
next
  case 2
  have "(239 :: nat) \<le> 2000" "80 * 25 \<le> (2000 :: nat)" by simp_all
  then show ?case by (simp only: picture_on_screen [OF assms])
qed

text \<open>\<open>looked s0 s\<close>: since \<open>s0\<close> only cells of the screen changed, and keys were read.\<close>

definition looked :: "'z trap_scheme \<Rightarrow> 'z trap_scheme \<Rightarrow> bool" where
  "looked s0 s \<longleftrightarrow> (\<exists>v ks. s = s0\<lparr>vmem := v, keys := ks\<rparr> \<and> (\<forall>i. \<not> (0 \<le> i \<and> i < 2000) \<longrightarrow> v i = vmem s0 i))"

lemma lookedI: "(\<And>i. \<not> (0 \<le> i \<and> i < 2000) \<Longrightarrow> v i = vmem s0 i) \<Longrightarrow> looked s0 (s0\<lparr>vmem := v, keys := ks\<rparr>)"
  unfolding looked_def by blast

lemma looked_dump:
  assumes "looked s0 s"
  shows "looked s0 (dump_registers pic n e a t s)"
proof -
  let ?d = "dump_registers pic n e a t s"
  obtain v ks where s: "s = s0\<lparr>vmem := v, keys := ks\<rparr>" and v: "\<And>i. \<not> (0 \<le> i \<and> i < 2000) \<Longrightarrow> v i = vmem s0 i"
    using assms unfolding looked_def by blast
  have "?d = ?d\<lparr>vmem := vmem ?d\<rparr>" by simp
  also have "\<dots> = s\<lparr>vmem := vmem ?d\<rparr>" by (rule dump_only_screen)
  also have "\<dots> = s0\<lparr>vmem := vmem ?d, keys := ks\<rparr>" unfolding s by simp
  finally have d: "?d = s0\<lparr>vmem := vmem ?d, keys := ks\<rparr>" .
  have "vmem ?d i = vmem s0 i" if "\<not> (0 \<le> i \<and> i < 2000)" for i
  proof -
    have "vmem ?d i = vmem s i" by (rule dump_on_screen [OF that])
    then show ?thesis using v [OF that] by (simp add: s)
  qed
  then have "looked s0 (s0\<lparr>vmem := vmem ?d, keys := ks\<rparr>)" by (rule lookedI)
  with d show ?thesis by metis
qed

lemma save_screen_nth: "0 \<le> i \<Longrightarrow> i < 2000 \<Longrightarrow> save_screen s ! nat i = vmem s i"
proof -
  assume "0 \<le> i" "i < 2000"
  then have "nat i < 2000" "int (nat i) = i" by auto
  then show ?thesis unfolding save_screen_def by (subst nth_map; simp)
qed

lemma restore_looked:
  assumes "looked s0 s"
  shows "restore_screen (save_screen s0) s = s0\<lparr>keys := keys s\<rparr>"
proof -
  obtain v ks where s: "s = s0\<lparr>vmem := v, keys := ks\<rparr>" and v: "\<And>i. \<not> (0 \<le> i \<and> i < 2000) \<Longrightarrow> v i = vmem s0 i"
    using assms unfolding looked_def by blast
  have "(\<lambda>i. if 0 \<le> i \<and> i < 2000 then save_screen s0 ! nat i else v i) = vmem s0"
    using save_screen_nth [of _ s0] v by (intro ext) auto
  moreover have "vmem s = v" unfolding s by simp
  ultimately have "restore_screen (save_screen s0) s = s\<lparr>vmem := vmem s0\<rparr>" by (simp only: restore_screen_def)
  then show ?thesis unfolding s by simp
qed

lemma looked_keys:
  assumes "looked s0 s"
  shows "looked s0 (s\<lparr>keys := ks\<rparr>)"
proof -
  obtain v ks' where s: "s = s0\<lparr>vmem := v, keys := ks'\<rparr>" and v: "\<And>i. \<not> (0 \<le> i \<and> i < 2000) \<Longrightarrow> v i = vmem s0 i"
    using assms unfolding looked_def by blast
  have "s\<lparr>keys := ks\<rparr> = s0\<lparr>vmem := v, keys := ks\<rparr>" unfolding s by simp
  then show ?thesis using lookedI [of v s0, OF v] by simp
qed

lemma looked_start: "looked s0 (s0\<lparr>keys := ks\<rparr>)" "looked s0 s0"
  using lookedI [of "vmem s0" s0 ks] lookedI [of "vmem s0" s0 "keys s0"] by simp_all

text \<open>
  What the user may do before going on: codes without a meaning (releases of keys, other keys), and presses of the
  space bar, each read any number of times until another code comes, which is lost.
\<close>

definition idle_poll :: "u8 list \<Rightarrow> bool" where
  "idle_poll p \<longleftrightarrow> (\<exists>c. p = [c] \<and> c \<notin> {1, 0x17, 0x20, 0x39}) \<or> (\<exists>m e. p = 0x39 # replicate m 0x39 @ [e] \<and> e \<noteq> 0x39)"

lemma released_run: "e \<noteq> k \<Longrightarrow> released k (replicate m k @ e # ks) = Inr ks"
  by (induction m) auto

lemma idle_poll_step:
  assumes "idle_poll p" and "keys s = p @ ks" and "looked s0 s"
  shows "\<exists>d' s'. trap_keys pic n e a t (save_screen s0) d s = trap_keys pic n e a t (save_screen s0) d' s'
     \<and> keys s' = ks \<and> looked s0 s'"
  using assms(1) unfolding idle_poll_def
proof (elim disjE exE conjE)
  fix c assume c: "p = [c]" "c \<notin> {1, 0x17, 0x20, 0x39}"
  have "trap_keys pic n e a t (save_screen s0) d s = trap_keys pic n e a t (save_screen s0) d (s\<lparr>keys := ks\<rparr>)"
    using c assms(2) by (subst trap_keys.simps) simp
  with looked_keys [OF assms(3)] show ?thesis by fastforce
next
  fix m b assume p: "p = 0x39 # replicate m 0x39 @ [b]" "b \<noteq> 0x39"
  let ?s1 = "if d then restore_screen (save_screen s0) s else dump_registers pic n e a t s"
  have "trap_keys pic n e a t (save_screen s0) d s = trap_keys pic n e a t (save_screen s0) (\<not> d) (?s1\<lparr>keys := ks\<rparr>)"
    using p assms(2) by (subst trap_keys.simps) (simp add: released_run)
  moreover have "looked s0 (?s1\<lparr>keys := ks\<rparr>)"
    using assms(3) by (cases d) (simp_all add: restore_looked looked_start looked_dump looked_keys)
  ultimately show ?thesis by fastforce
qed

lemma trap_keys_resume:
  assumes "\<forall>p \<in> set polls. idle_poll p" and "keys s = concat polls @ 0x17 # replicate m 0x17 @ b # rest" and "b \<noteq> 0x17"
    and "looked s0 s"
  shows "trap_keys pic n e a t (save_screen s0) d s = Inr (Some False, s0\<lparr>keys := rest\<rparr>)"
  using assms
proof (induction polls arbitrary: d s)
  case Nil
  then show ?case by (subst trap_keys.simps) (simp add: released_run restore_looked)
next
  case (Cons p polls)
  let ?ks = "concat polls @ 0x17 # replicate m 0x17 @ b # rest"
  have "idle_poll p" "keys s = p @ ?ks" using Cons.prems by simp_all
  then obtain d' s' where "trap_keys pic n e a t (save_screen s0) d s = trap_keys pic n e a t (save_screen s0) d' s'"
    "keys s' = ?ks" "looked s0 s'"
    using idle_poll_step [of p s ?ks s0 pic n e a t d] Cons.prems(4) by blast
  with Cons.IH [of s' d'] Cons.prems show ?case by simp
qed

text \<open>
  C29: an exception that is only looked at. The handler of exception \<open>i\<close> finds its own task segment through the
  task register, and the interrupted task through the link in it, whatever marks the processor set in the
  descriptors since \<^verbatim>\<open>cpu_init\<close>. If the remote debugger is not in use and the first of the keys that decide (escape,
  \<^verbatim>\<open>d\<close>, the key for going on) is the one for going on, the task goes on with the registers, the screen and the
  tables it had: the user may press other keys before, turn the picture of the registers off and on with the space
  bar, and hold a key down, so that its code is read again and again.
\<close>

theorem exception_resumes:
  fixes s :: "'z trap_scheme" and s0 :: "'y cpu_scheme"
  assumes tables: "\<forall>x. desc_base (gdt s x) = desc_base (gdt (cpu_init L s0) x)" and i: "i < HANDLER_ENTRIES"
    and tr: "tr = of_nat (TRAP_TSS_BASE + 8 * i)"
    and own: "trap_tss_adr L + 104 * of_nat i \<noteq> tss_adr L" and link: "t_back_link (trap_tss s i) = of_nat BASE_TSS"
    and polls: "\<forall>p \<in> set polls. idle_poll p" and keys: "keys s = concat polls @ 0x17 # replicate m 0x17 @ b # rest" "b \<noteq> 0x17"
    and off: "\<not> do_debug s"
  shows "tss_at L (tss_sel_2_tss tr s) s = trap_tss s i \<and> tss_at L (tss_sel_2_tss (of_nat BASE_TSS) s) s = tss s
    \<and> trap_handler L cr0 cr4 at buf pic tr i error_code s = Inr (Some (s\<lparr>keys := rest\<rparr>))"
proof -
  have u: "unat (of_nat (TRAP_TSS_BASE + 8 * i) :: u16) = TRAP_TSS_BASE + 8 * i" unfolding unat_of_nat using i by simp
  then have "unat (drop_bit 3 tr) = i + 10" unfolding tr by (simp only: drop_bit_eq_div unat_div) simp
  then have a1: "tss_sel_2_tss tr s = trap_tss_adr L + 104 * of_nat i"
    using i by (simp add: tss_sel_2_tss_base tables cpu_init_gdt desc_base_fill)
  have a2: "tss_sel_2_tss (of_nat BASE_TSS) s = tss_adr L" by (simp add: tss_sel_2_tss_base tables cpu_init_gdt desc_base_fill drop_bit_eq_div)
  have "unat (104 * of_nat i :: u32) = 104 * i" using i by (simp add: unat_word_ariths unat_of_nat)
  then have "unat ((104 * of_nat i :: u32) div TSS_SIZE) = i" by (simp add: unat_div)
  then have t1: "tss_at L (tss_sel_2_tss tr s) s = trap_tss s i" using own by (simp add: a1 tss_at_def)
  have t2: "tss_at L (tss_sel_2_tss (of_nat BASE_TSS) s) s = tss s" unfolding a2 by (simp add: tss_at_def)
  let ?d = "dump_registers pic (of_nat i) error_code (tss_adr L) (tss s) s"
  have "looked s ?d" by (rule looked_dump) (rule looked_start)
  then have "trap_keys pic (of_nat i) error_code (tss_adr L) (tss s) (save_screen s) True ?d = Inr (Some False, s\<lparr>keys := rest\<rparr>)"
    using trap_keys_resume [OF polls, of ?d m b rest s] keys by (simp add: dump_keys)
  moreover have "tss_sel_2_tss (ucast (t_back_link (trap_tss s i))) s = tss_adr L" using a2 link by simp
  ultimately have "trap_handler L cr0 cr4 at buf pic tr i error_code s = Inr (Some (s\<lparr>keys := rest\<rparr>))"
    using off t1 t2 a2 by (simp add: trap_handler_def Let_def)
  with t1 t2 show ?thesis by blast
qed

text \<open>The space bar twice, held for a moment, then the key for going on, held too.\<close>

definition ex_trap :: trap where
  "ex_trap = \<lparr>line_cur = 1, col_cur = 0, ct_cur = 15, cf_cur = 0, col_min = 0, vmem = (\<lambda>_. 0), outs = [],
     gdt = gdt (cpu_init ex_linked ex_cpu), idt = (\<lambda>_. 0), tss = zero_tss, trap_tss = (\<lambda>_. zero_tss\<lparr>t_back_link := 8\<rparr>),
     line = \<lparr>rx = [], tx = [], serial_set = False, connected = False, gdb_serial_debug = False, client_cr0 = 0, client_cr3 = 0, gmem = (\<lambda>_. 0)\<rparr>,
     do_debug = False, keys = [0x39, 0x39, 0xb9, 0xb9, 0x39, 0xb9, 0x17, 0x17, 0x97]\<rparr>"

lemma exception_resumes_witness:
  "trap_handler ex_linked 0 0 0 [] (\<lambda>_. 32) 0x78 5 0 ex_trap = Inr (Some (ex_trap\<lparr>keys := []\<rparr>))"
proof -
  let ?polls = "[0x39 # replicate 1 0x39 @ [0xb9], [0xb9], 0x39 # replicate 0 0x39 @ [0xb9]] :: u8 list list"
  have h: "\<forall>x. desc_base (gdt ex_trap x) = desc_base (gdt (cpu_init ex_linked ex_cpu) x)" "(5 :: nat) < HANDLER_ENTRIES"
    "trap_tss_adr ex_linked + 104 * of_nat 5 \<noteq> tss_adr ex_linked" "t_back_link (trap_tss ex_trap 5) = of_nat BASE_TSS" "\<not> do_debug ex_trap"
    by (simp_all add: ex_trap_def ex_linked_def)
  have p: "idle_poll (0x39 # replicate m 0x39 @ [0xb9])" "idle_poll [0xb9]" for m by (auto simp: idle_poll_def)
  then have ps: "\<forall>p \<in> set ?polls. idle_poll p" by (simp del: replicate.simps replicate_0 replicate_Suc)
  have k: "keys ex_trap = concat ?polls @ 0x17 # replicate 1 0x17 @ 0x97 # []" by (simp add: ex_trap_def)
  show ?thesis using exception_resumes [OF h(1,2) refl h(3,4) ps k _ h(5), of 0 0 0 "[]" "\<lambda>_. 32" 0] by simp
qed

end
