(* ===== verification/Interrupts.thy ===== *)
theory Interrupts
  imports System Boot
begin

unbundle bit_operations_syntax

text \<open>
  What the processor finds in the interrupt table after \<^verbatim>\<open>kernel_init\<close> has installed the handlers, and which
  interrupt lines the controller lets through: the table as a function from numbers to gates, of which
  \<^verbatim>\<open>init_handler_IT\<close> is a point update.
\<close>

section \<open>Gates\<close>

text \<open>An entry of the table in memory: handler, code segment, access rights.\<close>

definition idt_entry :: "mem \<Rightarrow> nat \<Rightarrow> u32 \<times> u32 \<times> u32" where
  "idt_entry m n =
     (let lo = load32 m (IDT_ADDRESS + 8 * of_nat n); hi = load32 m (IDT_ADDRESS + 8 * of_nat n + 4) in
      ((lo AND 0xffff) OR (hi AND 0xffff0000), drop_bit 16 lo, drop_bit 8 hi AND 0xff))"

lemma gate_masks:
  "(0xffff :: u32) = mask 16" "(0xffff0000 :: u32) = push_bit 16 (mask 16)" "(0xff :: u32) = mask 8"
  by (simp_all add: mask_eq_exp_minus_1)

lemma gate_handler:
  "((push_bit 16 c OR (h AND 0xffff)) AND 0xffff) OR (((h AND 0xffff0000) OR x) AND 0xffff0000) = h"
  if "x AND 0xffff0000 = 0" for c h x :: u32
proof (rule bit_word_eqI)
  fix n assume "n < LENGTH(32)"
  moreover have "\<not> (bit x n \<and> bit (0xffff0000 :: u32) n)" using that by (metis bit_and_iff bit_0_eq bot_apply bot_bool_def)
  ultimately show "bit (((push_bit 16 c OR (h AND 0xffff)) AND 0xffff) OR (((h AND 0xffff0000) OR x) AND 0xffff0000)) n = bit h n"
    unfolding gate_masks by (cases "n < 16") (auto simp: bit_simps)
qed

lemma gate_segment: "drop_bit 16 (push_bit 16 c OR (h AND 0xffff)) = c" if "take_bit 16 c = c" for c h :: u32
proof -
  have c: "bit c n \<Longrightarrow> n < 16" for n using that by (metis bit_take_bit_iff)
  show ?thesis unfolding gate_masks by (rule bit_word_eqI) (auto simp: bit_simps dest: c)
qed

lemma gate_rights: "drop_bit 8 ((h AND 0xffff0000) OR x) AND 0xff = drop_bit 8 x AND 0xff" for h x :: u32
  unfolding gate_masks by (rule bit_word_eqI) (auto simp: bit_simps)

section \<open>The table\<close>

definition idt_word :: "nat \<Rightarrow> addr" where
  "idt_word i = IDT_ADDRESS + 4 * of_nat i"

lemma apart4_words:
  assumes "i < j" and "j < 0x1000"
  shows "apart4 (idt_word i) (idt_word j)"
proof -
  define d where "d = 4 * (j - i)"
  have "(of_nat j :: u32) = of_nat (j - i) + of_nat i" using assms by (simp flip: of_nat_add)
  then have diff: "idt_word j - idt_word i = (of_nat d :: u32)"
    by (simp add: idt_word_def d_def ring_distribs)
  have d: "4 \<le> d" "d < 0x4000" using assms by (auto simp: d_def)
  then have "unat (of_nat d :: u32) = d" by (simp add: unat_of_nat)
  moreover have "- (of_nat d :: u32) = of_nat (2 ^ 32 - d)" using d by (simp add: of_nat_diff)
  moreover have "unat (of_nat (2 ^ 32 - d) :: u32) = 2 ^ 32 - d" using d by (subst unat_of_nat) simp
  ultimately have "4 \<le> (of_nat d :: u32) \<and> 4 \<le> - (of_nat d :: u32)"
    using d by (simp only: word_le_nat_alt) simp
  then show ?thesis unfolding apart4_def diff [symmetric] minus_diff_eq by blast
qed

lemma apart4_sym: "apart4 a b \<longleftrightarrow> apart4 b a"
  by (auto simp: apart4_def)

lemma load32_store32_words:
  assumes "i < 0x1000" and "j < 0x1000"
  shows "load32 (store32 m (idt_word i) w) (idt_word j)
    = (if i = j then w else load32 m (idt_word j))"
proof (cases i j rule: linorder_cases)
  case less then show ?thesis using assms by (simp add: load32_store32_apart apart4_words)
next
  case greater
  then have "apart4 (idt_word i) (idt_word j)"
    using apart4_words [of j i] assms by (simp add: apart4_sym)
  then show ?thesis using greater by (simp add: load32_store32_apart)
qed simp

lemma idt_words:
  "IDT_ADDRESS + 8 * of_nat n = idt_word (2 * n)"
  "IDT_ADDRESS + 8 * of_nat n + 4 = idt_word (2 * n + 1)"
  by (simp_all add: idt_word_def algebra_simps)

text \<open>Installing a handler is a point update of the table.\<close>

lemma idt_entry_init:
  assumes "k < 256" and "n < 256"
  shows "idt_entry (init_handler_IT (int k) h u m) n
    = (if n = k then (h, KERNEL_CS, if u = 0 then 0x8e else 0xee) else idt_entry m n)"
proof -
  define x :: u32 where "x = (if u = 0 then 0x8e00 else 0xee00)"
  define lo hi where "lo = push_bit 16 KERNEL_CS OR (h AND 0xffff)" and "hi = (h AND 0xffff0000) OR x"
  have "init_handler_IT (int k) h u m
    = store32 (store32 m (idt_word (2 * k)) lo) (idt_word (2 * k + 1)) hi"
    by (simp add: init_handler_IT_def Let_def lo_def hi_def x_def of_int32_def idt_word_def algebra_simps)
  moreover have "2 * k + 1 \<noteq> 2 * n" "2 * n + 1 \<noteq> 2 * k" by presburger+
  ultimately have "idt_entry (init_handler_IT (int k) h u m) n
    = (if n = k then ((lo AND 0xffff) OR (hi AND 0xffff0000), drop_bit 16 lo, drop_bit 8 hi AND 0xff) else idt_entry m n)"
    using assms unfolding idt_entry_def idt_words(2) unfolding idt_words(1) by (simp add: load32_store32_words Let_def)
  moreover have "x AND 0xffff0000 = 0" by (simp add: x_def)
  ultimately show ?thesis
    using gate_handler [of x KERNEL_CS h] gate_segment [of KERNEL_CS h] gate_rights [of h x] unfolding lo_def hi_def by (simp add: x_def)
qed

section \<open>What kernel\_init installs\<close>

text \<open>
  The interrupt controller gives back the mask last written, as its data sheet says: \<open>m0\<close> is the mask at the start.
\<close>

definition pic_reads :: "inputs \<Rightarrow> (u16 \<times> u8) list \<Rightarrow> u8 \<Rightarrow> bool" where
  "pic_reads inp os m0 \<longleftrightarrow> inp PIC1_DATA os = m0 \<and> inp PIC1_DATA ((PIC1_DATA, m0 AND NOT 1) # os) = m0 AND NOT 1"

definition kernel_gates :: "handlers \<Rightarrow> (nat \<times> u32 \<times> u32 \<times> u32) list" where
  "kernel_gates H =
     [(32, clock_handler H, KERNEL_CS, 0x8e), (33, kbd_handler H, KERNEL_CS, 0x8e), (49, syslib_handler H, KERNEL_CS, 0xee),
      (13, exception_handler H, KERNEL_CS, 0x8e), (40, rtc_handler H, KERNEL_CS, 0x8e)]"

text \<open>
  C24: after \<^verbatim>\<open>kernel_init\<close> has installed the handlers, the interrupt table gives for every number the gate of the
  kernel (\<open>kernel_gates\<close>: only number 49, the system calls, can be raised from user mode), and what was there before
  for all others; the interrupts of clock and keyboard are open and no other line of the controller has
  changed.
\<close>

theorem interrupts_installed:
  fixes s :: "('m, 'z) procs_scheme"
  assumes "pic_reads inp (outs s) m0" and "n < 256" and "s' = init_handlers H inp s"
  shows "idt_entry (mem s') n = (case map_of (kernel_gates H) n of Some g \<Rightarrow> g | None \<Rightarrow> idt_entry (mem s) n)
    \<and> map_of (outs s') PIC1_DATA = Some (m0 AND NOT 3)
    \<and> (\<forall>port. port \<noteq> PIC1_DATA \<longrightarrow> map_of (outs s') port = map_of (outs s) port)"
proof (intro conjI)
  note inst = idt_entry_init [OF _ assms(2)]
  show "idt_entry (mem s') n = (case map_of (kernel_gates H) n of Some g \<Rightarrow> g | None \<Rightarrow> idt_entry (mem s) n)"
    using inst [of 32] inst [of 33] inst [of 49] inst [of 13] inst [of 40] unfolding assms(3)
    by (simp add: init_handlers_def Let_def mask_IRQ_def outb_def kernel_gates_def)
  have "(m0 AND NOT 1) AND NOT 2 = m0 AND NOT 3" by (simp add: and.assoc)
  then show "map_of (outs s') PIC1_DATA = Some (m0 AND NOT 3)"
    using assms(1) unfolding assms(3) pic_reads_def
    by (simp add: init_handlers_def Let_def mask_IRQ_def outb_def inb_def)
  show "\<forall>port. port \<noteq> PIC1_DATA \<longrightarrow> map_of (outs s') port = map_of (outs s) port"
    unfolding assms(3) by (simp add: init_handlers_def Let_def mask_IRQ_def outb_def)
qed

theorem interrupts_installed_witness:
  "\<exists>s'. s' = init_handlers \<lparr>clock_handler = 0x12345678, kbd_handler = 0x1, syslib_handler = 0x2,
       exception_handler = 0x3, rtc_handler = 0x4, str_user_start = 0\<rparr>
       (\<lambda>port os. case map_of os port of Some v \<Rightarrow> v | None \<Rightarrow> 0xfb)
       (boot_state ())
     \<and> idt_entry (mem s') 32 = (0x12345678, KERNEL_CS, 0x8e) \<and> map_of (outs s') PIC1_DATA = Some 0xf8"
proof -
  let ?H = "\<lparr>clock_handler = 0x12345678, kbd_handler = 0x1, syslib_handler = 0x2,
       exception_handler = 0x3, rtc_handler = 0x4, str_user_start = 0\<rparr>"
  let ?inp = "\<lambda>port os. case map_of os port of Some v \<Rightarrow> v | None \<Rightarrow> 0xfb"
  have "pic_reads ?inp (outs (boot_state ())) 0xfb" by (simp add: pic_reads_def boot_state_def ex_state_def)
  from interrupts_installed [OF this, of 32, OF _ refl, of ?H]
  show ?thesis by (simp add: kernel_gates_def)
qed

end
