(* ===== verification/Scancode.thy ===== *)
theory Scancode
  imports Kernel_Prelude
begin

unbundle bit_operations_syntax

text \<open>
  \<^verbatim>\<open>kernel/kbd_linux/scancode.c\<close>: from the scan codes of the keyboard, with their prefixes, to key codes.
\<close>

section \<open>Arrays\<close>

text \<open>An array of the driver is a list; an index outside of it is a fault.\<close>

definition arr :: "'a list \<Rightarrow> nat \<Rightarrow> 'a result" where
  "arr xs i = (if i < length xs then Inr (xs ! i) else Inl OutOfBounds)"

definition arr_set :: "'a list \<Rightarrow> nat \<Rightarrow> 'a \<Rightarrow> 'a list result" where
  "arr_set xs i v = (if i < length xs then Inr (xs[i := v]) else Inl OutOfBounds)"

lemma arr_Inr [simp]: "i < length xs \<Longrightarrow> arr xs i = Inr (xs ! i)"
  by (simp add: arr_def)

lemma arr_set_Inr [simp]: "i < length xs \<Longrightarrow> arr_set xs i v = Inr (xs[i := v])"
  by (simp add: arr_set_def)

section \<open>State\<close>

abbreviation SC_LIM :: nat where "SC_LIM \<equiv> 89"
abbreviation E1_PAUSE :: u8 where "E1_PAUSE \<equiv> 119"

record scan =
  prev_scancode :: u32
  high_keys :: "u8 list"
  e0_keys :: "u8 list"

definition init_high_keys :: "u8 list" where
  "init_high_keys = [
     124, 125, 126, 127, 0, 0, 0,
     0, 0, 0, 0, 0, 0, 0, 0,
     0, 0, 0, 0, 0, 122, 0, 123,
     0, 0, 0, 89, 120, 0, 0, 90,
     91, 92, 93, 94,
     95, 124, 121, 0]"

definition init_e0_keys :: "u8 list" where
  "init_e0_keys = [
     0, 0, 0, 0, 0, 0, 0, 0,
     0, 0, 0, 0, 0, 0, 0, 0,
     0, 0, 0, 0, 0, 0, 0, 0,
     0, 0, 0, 0, 96, 97, 0, 0,
     0, 0, 0, 0, 0, 0, 0, 0,
     0, 0, 0, 0, 0, 0, 0, 0,
     0, 0, 0, 0, 0, 98, 0, 99,
     100, 0, 0, 0, 0, 113, 114, 115,
     116, 117, 0, 0, 0, 0, 101, 102,
     103, 104, 0, 105, 124, 106, 118, 107,
     108, 109, 110, 111, 0, 0, 0, 0,
     0, 0, 0, 125, 126, 127, 0, 0,
     0, 0, 0, 0, 0, 0, 0, 0,
     0, 0, 0, 0, 0, 0, 0, 112,
     0, 0, 0, 0, 0, 0, 0, 0,
     0, 0, 0, 0, 0, 0, 0, 0]"

section \<open>Operations\<close>

definition keyboard_pckbd_setkeycode :: "u32 \<Rightarrow> u32 \<Rightarrow> 'z scan_scheme \<Rightarrow> (int \<times> 'z scan_scheme) result" where
  "keyboard_pckbd_setkeycode scancode keycode s =
     (if scancode < of_nat SC_LIM \<or> scancode > 255 \<or> keycode > 127 then Inr (-1, s)
      else if scancode < 128 then
        bnd (arr_set (high_keys s) (unat scancode - SC_LIM) (ucast keycode)) (\<lambda>t. Inr (0, s\<lparr>high_keys := t\<rparr>))
      else bnd (arr_set (e0_keys s) (unat scancode - 128) (ucast keycode)) (\<lambda>t. Inr (0, s\<lparr>e0_keys := t\<rparr>)))"

definition keyboard_pckbd_getkeycode :: "u32 \<Rightarrow> 'z scan_scheme \<Rightarrow> int result" where
  "keyboard_pckbd_getkeycode scancode s =
     (if scancode < of_nat SC_LIM \<or> scancode > 255 then Inr (-1)
      else if scancode < 128 then bnd (arr (high_keys s) (unat scancode - SC_LIM)) (\<lambda>k. Inr (uint k))
      else bnd (arr (e0_keys s) (unat scancode - 128)) (\<lambda>k. Inr (uint k)))"

text \<open>\<^verbatim>\<open>keyboard_pckbd_translate\<close>: \<^verbatim>\<open>Some\<close> key code when it returns 1, \<^verbatim>\<open>None\<close> when it returns 0.\<close>

definition keyboard_pckbd_translate :: "u8 \<Rightarrow> 'z scan_scheme \<Rightarrow> (u8 option \<times> 'z scan_scheme) result" where
  "keyboard_pckbd_translate code s =
     (if code = 0xe0 \<or> code = 0xe1 then Inr (None, s\<lparr>prev_scancode := ucast code\<rparr>)
      else if code = 0x00 \<or> code = 0xff then Inr (None, s\<lparr>prev_scancode := 0\<rparr>)
      else
        (let scancode = code AND 0x7f in
         if prev_scancode s \<noteq> 0 then
           if prev_scancode s \<noteq> 0xe0 then
             if prev_scancode s = 0xe1 \<and> scancode = 0x1d then Inr (None, s\<lparr>prev_scancode := 0x100\<rparr>)
             else if prev_scancode s = 0x100 \<and> scancode = 0x45 then Inr (Some E1_PAUSE, s\<lparr>prev_scancode := 0\<rparr>)
             else Inr (None, s\<lparr>prev_scancode := 0\<rparr>)
           else
             (let s1 = s\<lparr>prev_scancode := 0\<rparr> in
              if scancode = 0x2a \<or> scancode = 0x36 then Inr (None, s1)
              else bnd (arr (e0_keys s1) (unat scancode)) (\<lambda>k. Inr (if k \<noteq> 0 then Some k else None, s1)))
         else if of_nat SC_LIM \<le> scancode then
           bnd (arr (high_keys s) (unat scancode - SC_LIM)) (\<lambda>k. Inr (if k = 0 then None else Some k, s))
         else Inr (Some scancode, s)))"

definition keyboard_pckbd_unexpected_up :: "u8 \<Rightarrow> u8" where
  "keyboard_pckbd_unexpected_up keycode = (if of_nat SC_LIM \<le> keycode \<or> keycode = 85 then 0 else 0x80)"

section \<open>Key codes\<close>

definition scan_ok :: "'z scan_scheme \<Rightarrow> bool" where
  "scan_ok s \<longleftrightarrow> length (high_keys s) = 128 - SC_LIM \<and> length (e0_keys s) = 128
     \<and> (\<forall>k\<in>set (high_keys s) \<union> set (e0_keys s). k < 128)"

lemma and_7f_lt: "code AND 0x7f < (0x80 :: u8)"
proof -
  have "code AND 0x7f \<le> (0x7f :: u8)" by (rule word_and_le1)
  then show ?thesis by (rule order_le_less_trans) simp
qed

text \<open>The translation never reads outside the tables and gives key codes from 1 to 127.\<close>

lemma translate_ok:
  assumes "scan_ok s"
  shows "\<exists>k p. keyboard_pckbd_translate code s = Inr (k, s\<lparr>prev_scancode := p\<rparr>) \<and> (\<forall>c. k = Some c \<longrightarrow> c < 128)"
proof -
  define sc where "sc = code AND 0x7f"
  have sc: "sc < 0x80" "unat sc < 128" using and_7f_lt [of code] by (simp_all add: sc_def word_less_nat_alt)
  have same: "\<exists>p. s = s\<lparr>prev_scancode := p\<rparr>" by (rule exI [of _ "prev_scancode s"]) simp
  have lens: "unat sc - SC_LIM < length (high_keys s)" "unat sc < length (e0_keys s)"
    using sc assms by (auto simp: scan_ok_def)
  then have "high_keys s ! (unat sc - SC_LIM) < 128" "e0_keys s ! unat sc < 128"
    using assms by (auto simp: scan_ok_def)
  then have "\<exists>k s'. keyboard_pckbd_translate code s = Inr (k, s') \<and> (\<exists>p. s' = s\<lparr>prev_scancode := p\<rparr>) \<and> (\<forall>c. k = Some c \<longrightarrow> c < 128)"
    using sc lens same unfolding keyboard_pckbd_translate_def Let_def sc_def [symmetric] by simp blast
  then show ?thesis by blast
qed

text \<open>A key code that has been set is the one that is found, and the tables keep their shape.\<close>

lemma setkeycode_getkeycode:
  assumes "scan_ok s" and "of_nat SC_LIM \<le> scancode" "scancode \<le> 255" "keycode \<le> 127"
  shows "\<exists>s'. keyboard_pckbd_setkeycode scancode keycode s = Inr (0, s') \<and> scan_ok s'
    \<and> keyboard_pckbd_getkeycode scancode s' = Inr (uint keycode)"
proof -
  have n: "SC_LIM \<le> unat scancode" "unat scancode \<le> 255" and k: "unat keycode \<le> 127"
    using assms(2-4) by (simp_all add: word_le_nat_alt)
  have "unat (ucast keycode :: u8) = unat keycode"
    using k by (simp add: unsigned_ucast_eq take_bit_nat_eq_self)
  then have c: "(ucast keycode :: u8) < 128" "uint (ucast keycode :: u8) = uint keycode"
    using k by (simp add: word_less_nat_alt, metis uint_nat)
  have len: "length (high_keys s) = 39" "length (e0_keys s) = 128" using assms(1) by (simp_all add: scan_ok_def)
  have upd: "x \<in> set (xs[i := (ucast keycode :: u8)]) \<Longrightarrow> x \<in> set xs \<or> x = ucast keycode" for x xs i
    using set_update_subset_insert [of xs i "ucast keycode"] by auto
  show ?thesis
  proof (cases "scancode < 128")
    case True
    then have "unat scancode - SC_LIM < 39" using n by (simp add: word_less_nat_alt)
    then show ?thesis using assms True len c
      by (auto simp: keyboard_pckbd_setkeycode_def keyboard_pckbd_getkeycode_def scan_ok_def not_less not_le dest!: upd)
  next
    case False
    then have "unat scancode - 128 < 128" using n by (simp add: word_less_nat_alt)
    then show ?thesis using assms False len c
      by (auto simp: keyboard_pckbd_setkeycode_def keyboard_pckbd_getkeycode_def scan_ok_def not_less not_le dest!: upd)
  qed
qed

end
