(* ===== verification/Kbd_Driver.thy ===== *)
theory Kbd_Driver
  imports Scancode Keymap
begin

unbundle bit_operations_syntax

text \<open>
  \<^verbatim>\<open>kernel/kbd_linux/keyboard.c\<close> and \<^verbatim>\<open>kernel/keyboard-glue.c\<close>: from key codes to characters, and the glue to the
  kernel. The calls of the driver into the kernel (\<^verbatim>\<open>keyboard_data\<close>, \<^verbatim>\<open>kbd_leds\<close>) are recorded in the order they are
  made; the many calls that the glue defines as empty functions are the identity. The key maps are the
  argument \<open>K\<close> of the operations that use them.
\<close>

section \<open>State\<close>

datatype call = Keyboard_Data string | Kbd_Leds u8

record kbd_struct =
  lockstate :: u8
  slockstate :: u8
  ledmode :: "2 word"
  ledflagstate :: "3 word"
  default_ledflagstate :: "3 word"
  kbdmode :: "2 word"
  modeflags :: "5 word"

record ledptr =
  led_addr :: addr
  led_mask :: u32
  led_valid :: bool

text \<open>
  The static variables. \<^verbatim>\<open>key_down\<close> is a map of bits, \<^verbatim>\<open>kbd\<close> a number of the table, \<^verbatim>\<open>tty\<close> tells whether the pointer is set
  (there is one \<^verbatim>\<open>struct tty\<close>, with the flag \<^verbatim>\<open>stopped\<close>). \<^verbatim>\<open>kbd_ledfunc\<close> is a null pointer that nothing sets.
\<close>

record drv = scan +
  k_down :: "u8 list"
  key_down :: "nat \<Rightarrow> bool"
  dead_key_next :: bool
  shift_state :: u32
  npadch :: u32
  diacr :: u8
  rep :: bool
  kbd_table :: "nat \<Rightarrow> kbd_struct"
  kbd :: nat
  tty :: bool
  stopped :: bool
  ledstate :: u8
  ledioctl :: u8
  ledptrs :: "ledptr list"
  tasklet_enabled :: bool
  init_done :: bool
  calls :: "call list"

abbreviation KG_SHIFT :: nat where "KG_SHIFT \<equiv> 0"
abbreviation KG_CAPSSHIFT :: u8 where "KG_CAPSSHIFT \<equiv> 8"
abbreviation NR_SHIFT :: nat where "NR_SHIFT \<equiv> 9"
abbreviation MAX_NR_CONSOLES :: nat where "MAX_NR_CONSOLES \<equiv> 63"

abbreviation VC_XLATE :: "2 word" where "VC_XLATE \<equiv> 0"
abbreviation VC_MEDIUMRAW :: "2 word" where "VC_MEDIUMRAW \<equiv> 1"
abbreviation VC_RAW :: "2 word" where "VC_RAW \<equiv> 2"
abbreviation VC_UNICODE :: "2 word" where "VC_UNICODE \<equiv> 3"
abbreviation VC_NUMLOCK :: nat where "VC_NUMLOCK \<equiv> 1"
abbreviation VC_CAPSLOCK :: nat where "VC_CAPSLOCK \<equiv> 2"
abbreviation VC_APPLIC :: nat where "VC_APPLIC \<equiv> 0"
abbreviation VC_CKMODE :: nat where "VC_CKMODE \<equiv> 1"
abbreviation VC_REPEAT :: nat where "VC_REPEAT \<equiv> 2"
abbreviation VC_CRLF :: nat where "VC_CRLF \<equiv> 3"
abbreviation VC_META :: nat where "VC_META \<equiv> 4"
abbreviation LED_SHOW_FLAGS :: "2 word" where "LED_SHOW_FLAGS \<equiv> 0"
abbreviation LED_SHOW_IOCTL :: "2 word" where "LED_SHOW_IOCTL \<equiv> 1"
abbreviation LED_SHOW_MEM :: "2 word" where "LED_SHOW_MEM \<equiv> 2"

text \<open>The static initialisers.\<close>

definition static_drv :: drv where
  "static_drv = \<lparr>prev_scancode = 0, high_keys = init_high_keys, e0_keys = init_e0_keys,
     k_down = replicate NR_SHIFT 0, key_down = (\<lambda>_. False), dead_key_next = False, shift_state = 0, npadch = -1, diacr = 0,
     rep = False, kbd_table = (\<lambda>_. \<lparr>lockstate = 0, slockstate = 0, ledmode = 0, ledflagstate = 0, default_ledflagstate = 0,
       kbdmode = 0, modeflags = 0\<rparr>), kbd = 0, tty = False, stopped = False, ledstate = 0xff, ledioctl = 0,
     ledptrs = replicate 3 \<lparr>led_addr = 0, led_mask = 0, led_valid = False\<rparr>, tasklet_enabled = False, init_done = False,
     calls = []\<rparr>"

definition cur_kbd :: "'z drv_scheme \<Rightarrow> kbd_struct" where
  "cur_kbd s = kbd_table s (kbd s)"

definition upd_kbd :: "(kbd_struct \<Rightarrow> kbd_struct) \<Rightarrow> 'z drv_scheme \<Rightarrow> 'z drv_scheme" where
  "upd_kbd f s = s\<lparr>kbd_table := (kbd_table s)(kbd s := f (kbd_table s (kbd s)))\<rparr>"

definition vc_kbd_mode :: "kbd_struct \<Rightarrow> nat \<Rightarrow> bool" where
  "vc_kbd_mode k flag = bit (modeflags k) flag"

definition vc_kbd_led :: "kbd_struct \<Rightarrow> nat \<Rightarrow> bool" where
  "vc_kbd_led k flag = bit (ledflagstate k) flag"

definition set_vc_kbd_led :: "nat \<Rightarrow> kbd_struct \<Rightarrow> kbd_struct" where
  "set_vc_kbd_led flag k = k\<lparr>ledflagstate := ledflagstate k OR push_bit flag 1\<rparr>"

definition clr_vc_kbd_led :: "nat \<Rightarrow> kbd_struct \<Rightarrow> kbd_struct" where
  "clr_vc_kbd_led flag k = k\<lparr>ledflagstate := ledflagstate k AND NOT (push_bit flag 1)\<rparr>"

definition chg_vc_kbd_lock :: "nat \<Rightarrow> kbd_struct \<Rightarrow> kbd_struct" where
  "chg_vc_kbd_lock flag k = k\<lparr>lockstate := lockstate k XOR push_bit flag 1\<rparr>"

definition chg_vc_kbd_slock :: "nat \<Rightarrow> kbd_struct \<Rightarrow> kbd_struct" where
  "chg_vc_kbd_slock flag k = k\<lparr>slockstate := slockstate k XOR push_bit flag 1\<rparr>"

definition chg_vc_kbd_led :: "nat \<Rightarrow> kbd_struct \<Rightarrow> kbd_struct" where
  "chg_vc_kbd_led flag k = k\<lparr>ledflagstate := ledflagstate k XOR push_bit flag 1\<rparr>"

section \<open>The glue\<close>

definition call :: "call \<Rightarrow> 'z drv_scheme \<Rightarrow> 'z drv_scheme" where
  "call c s = s\<lparr>calls := calls s @ [c]\<rparr>"

definition keyboard_pckbd_leds :: "u8 \<Rightarrow> 'z drv_scheme \<Rightarrow> 'z drv_scheme" where
  "keyboard_pckbd_leds leds s = call (Kbd_Leds leds) s"

definition keyboard_set_console :: "int \<Rightarrow> 'z drv_scheme \<Rightarrow> 'z drv_scheme" where
  "keyboard_set_console nr s = s"

definition keyboard_fg_console :: nat where
  "keyboard_fg_console = 0"

definition keyboard_last_console :: nat where
  "keyboard_last_console = 0"

definition keyboard_spawn_console :: "'z drv_scheme \<Rightarrow> 'z drv_scheme" where
  "keyboard_spawn_console s = s"

definition keyboard_vc_cons_allocated :: "nat \<Rightarrow> bool" where
  "keyboard_vc_cons_allocated nr = (nr = 0)"

definition keyboard_reset_vc :: "nat \<Rightarrow> 'z drv_scheme \<Rightarrow> 'z drv_scheme" where
  "keyboard_reset_vc new_console s = s"

definition keyboard_scrollback :: "int \<Rightarrow> 'z drv_scheme \<Rightarrow> 'z drv_scheme" where
  "keyboard_scrollback lines s = s"

definition keyboard_scrollfront :: "int \<Rightarrow> 'z drv_scheme \<Rightarrow> 'z drv_scheme" where
  "keyboard_scrollfront lines s = s"

definition keyboard_send_intr :: "'z drv_scheme \<Rightarrow> 'z drv_scheme" where
  "keyboard_send_intr s = s"

definition keyboard_send_str :: "string \<Rightarrow> 'z drv_scheme \<Rightarrow> 'z drv_scheme" where
  "keyboard_send_str str s = call (Keyboard_Data str) s"

definition keyboard_send_ch :: "u32 \<Rightarrow> 'z drv_scheme \<Rightarrow> 'z drv_scheme" where
  "keyboard_send_ch ch s = call (Keyboard_Data [char_of (unat (ucast ch :: u8))]) s"

definition keyboard_stop_tty :: "'z drv_scheme \<Rightarrow> 'z drv_scheme" where
  "keyboard_stop_tty s = (if stopped s then s else s\<lparr>stopped := True\<rparr>)"

definition keyboard_start_tty :: "'z drv_scheme \<Rightarrow> 'z drv_scheme" where
  "keyboard_start_tty s = (if \<not> stopped s then s else s\<lparr>stopped := False\<rparr>)"

definition keyboard_tty_is_stopped :: "'z drv_scheme \<Rightarrow> bool" where
  "keyboard_tty_is_stopped s = stopped s"

definition keyboard_tty_do_repeat_key :: bool where
  "keyboard_tty_do_repeat_key = True"

definition keyboard_do_SAK :: "'z drv_scheme \<Rightarrow> 'z drv_scheme" where
  "keyboard_do_SAK s = s"

definition keyboard_enable_tasklet :: "'z drv_scheme \<Rightarrow> 'z drv_scheme" where
  "keyboard_enable_tasklet s = s\<lparr>tasklet_enabled := True\<rparr>"

definition keyboard_ctrl_alt_del :: "'z drv_scheme \<Rightarrow> 'z drv_scheme" where
  "keyboard_ctrl_alt_del s = s"

definition keyboard_show_ptregs :: "'z drv_scheme \<Rightarrow> 'z drv_scheme" where
  "keyboard_show_ptregs s = s"

definition keyboard_show_mem :: "'z drv_scheme \<Rightarrow> 'z drv_scheme" where
  "keyboard_show_mem s = s"

definition keyboard_show_state :: "'z drv_scheme \<Rightarrow> 'z drv_scheme" where
  "keyboard_show_state s = s"

section \<open>Characters\<close>

definition put_queue :: "u32 \<Rightarrow> 'z drv_scheme \<Rightarrow> 'z drv_scheme" where
  "put_queue ch s = (if tty s then keyboard_send_ch ch s else s)"

definition puts_queue :: "string \<Rightarrow> 'z drv_scheme \<Rightarrow> 'z drv_scheme" where
  "puts_queue cp s = (if \<not> tty s then s else keyboard_send_str cp s)"

definition to_utf8 :: "u16 \<Rightarrow> 'z drv_scheme \<Rightarrow> 'z drv_scheme" where
  "to_utf8 c s =
     (let w = ucast c :: u32 in
      if c < 0x80 then put_queue w s
      else if c < 0x800 then put_queue (0x80 OR (w AND 0x3f)) (put_queue (0xc0 OR drop_bit 6 w) s)
      else put_queue (0x80 OR (w AND 0x3f)) (put_queue (0x80 OR (drop_bit 6 w AND 0x3f)) (put_queue (0xe0 OR drop_bit 12 w) s)))"

definition applkey :: "char \<Rightarrow> bool \<Rightarrow> 'z drv_scheme \<Rightarrow> 'z drv_scheme" where
  "applkey key mode s = puts_queue [CHR 0x1B, if mode then CHR ''O'' else CHR ''['', key] s"

text \<open>
  \<^verbatim>\<open>handle_diacr\<close>: the first entry of the table for the pending accent and the character. An accent that does
  not combine is sent on its own.
\<close>

definition handle_diacr :: "keymap \<Rightarrow> u8 \<Rightarrow> 'z drv_scheme \<Rightarrow> u8 \<times> 'z drv_scheme" where
  "handle_diacr K ch s =
     (let d = diacr s; s1 = s\<lparr>diacr := 0\<rparr> in
      case List.find (\<lambda>a. a_diacr a = d \<and> a_base a = ch) (accent_table K) of
        Some a \<Rightarrow> (a_result a, s1)
      | None \<Rightarrow> if ch = 0x20 \<or> ch = d then (d, s1) else (ch, put_queue (ucast d) s1))"

section \<open>Key codes\<close>

definition keyboard_setkeycode :: "u32 \<Rightarrow> u32 \<Rightarrow> 'z drv_scheme \<Rightarrow> (int \<times> 'z drv_scheme) result" where
  "keyboard_setkeycode scancode keycode s = keyboard_pckbd_setkeycode scancode keycode s"

definition keyboard_getkeycode :: "u32 \<Rightarrow> 'z drv_scheme \<Rightarrow> int result" where
  "keyboard_getkeycode scancode s = keyboard_pckbd_getkeycode scancode s"

section \<open>Modifiers\<close>

text \<open>
  \<^verbatim>\<open>compute_shiftstate\<close>: counts the modifier keys that are down. The words of the bit map that are 0 are skipped by
  the code, which makes no difference.
\<close>

definition U :: "u16 \<Rightarrow> u32" where
  "U x = ucast x XOR 0xf000"

definition KTYP :: "u32 \<Rightarrow> u32" where
  "KTYP x = drop_bit 8 x"

definition KVAL :: "u32 \<Rightarrow> u8" where
  "KVAL x = ucast (x AND 0xff)"

definition count_shift :: "keymap \<Rightarrow> nat \<Rightarrow> 'z drv_scheme \<Rightarrow> 'z drv_scheme result" where
  "count_shift K k s =
     (if key_down s k then
        bnd (arr (key_maps K) 0) (\<lambda>m. case m of
          None \<Rightarrow> Inl NullDeref
        | Some m \<Rightarrow>
            bnd (arr m k) (\<lambda>x.
              let sym = U x in
              if KTYP sym = 7 \<or> KTYP sym = 12 then
                (let val = (if KVAL sym = KG_CAPSSHIFT then 0 else KVAL sym) in
                 bnd (arr (k_down s) (unat val)) (\<lambda>n.
                 bnd (arr_set (k_down s) (unat val) (n + 1)) (\<lambda>t.
                   Inr (s\<lparr>k_down := t, shift_state := shift_state s OR push_bit (unat val) 1\<rparr>))))
              else Inr s))
      else Inr s)"

definition compute_shiftstate :: "keymap \<Rightarrow> 'z drv_scheme \<Rightarrow> 'z drv_scheme result" where
  "compute_shiftstate K s =
     mfold (count_shift K) [0..<256] (s\<lparr>shift_state := 0, k_down := map (\<lambda>_. 0) (k_down s)\<rparr>)"

definition do_shift :: "u8 \<Rightarrow> u8 \<Rightarrow> 'z drv_scheme \<Rightarrow> 'z drv_scheme result" where
  "do_shift value up_flag s =
     (if rep s then Inr s
      else
        (let old_state = shift_state s;
             v = (if value = KG_CAPSSHIFT then KG_SHIFT else unat value);
             s1 = (if value = KG_CAPSSHIFT \<and> up_flag = 0 then upd_kbd (clr_vc_kbd_led VC_CAPSLOCK) s else s)
         in bnd (arr (k_down s1) v) (\<lambda>n.
              let n' = (if up_flag \<noteq> 0 then if n \<noteq> 0 then n - 1 else n else n + 1) in
              bnd (arr_set (k_down s1) v n') (\<lambda>t.
              let s2 = s1\<lparr>k_down := t,
                    shift_state := (if n' \<noteq> 0 then shift_state s1 OR push_bit v 1 else shift_state s1 AND NOT (push_bit v 1))\<rparr>
              in if up_flag \<noteq> 0 \<and> shift_state s2 \<noteq> old_state \<and> npadch s2 \<noteq> -1 then
                   (let s3 = (if kbdmode (cur_kbd s2) = VC_UNICODE then to_utf8 (ucast (npadch s2)) s2
                              else put_queue (npadch s2 AND 0xff) s2)
                    in Inr (s3\<lparr>npadch := -1\<rparr>))
                 else Inr s2))))"

section \<open>Special keys\<close>

definition enter :: "'z drv_scheme \<Rightarrow> 'z drv_scheme" where
  "enter s =
     (let s1 = (if diacr s \<noteq> 0 then (put_queue (ucast (diacr s)) s)\<lparr>diacr := 0\<rparr> else s);
          s2 = put_queue 13 s1
      in if vc_kbd_mode (cur_kbd s2) VC_CRLF then put_queue 10 s2 else s2)"

definition caps_toggle :: "'z drv_scheme \<Rightarrow> 'z drv_scheme" where
  "caps_toggle s = (if rep s then s else upd_kbd (chg_vc_kbd_led VC_CAPSLOCK) s)"

definition caps_on :: "'z drv_scheme \<Rightarrow> 'z drv_scheme" where
  "caps_on s = (if rep s then s else upd_kbd (set_vc_kbd_led VC_CAPSLOCK) s)"

definition show_ptregs :: "'z drv_scheme \<Rightarrow> 'z drv_scheme" where
  "show_ptregs s = keyboard_show_ptregs s"

definition hold :: "'z drv_scheme \<Rightarrow> 'z drv_scheme" where
  "hold s =
     (if rep s \<or> \<not> tty s then s
      else if keyboard_tty_is_stopped s then keyboard_start_tty s else keyboard_stop_tty s)"

definition bare_num :: "'z drv_scheme \<Rightarrow> 'z drv_scheme" where
  "bare_num s = (if \<not> rep s then upd_kbd (chg_vc_kbd_led VC_NUMLOCK) s else s)"

definition num_key :: "'z drv_scheme \<Rightarrow> 'z drv_scheme" where
  "num_key s = (if vc_kbd_mode (cur_kbd s) VC_APPLIC then applkey (CHR ''P'') True s else bare_num s)"

definition lastcons :: "'z drv_scheme \<Rightarrow> 'z drv_scheme" where
  "lastcons s = keyboard_set_console (int keyboard_last_console) s"

definition vc_cons_allocated :: "int \<Rightarrow> bool" where
  "vc_cons_allocated i = (if i < 0 \<or> int MAX_NR_CONSOLES \<le> i then False else keyboard_vc_cons_allocated (nat i))"

text \<open>The loops of \<^verbatim>\<open>decr_console\<close> and \<^verbatim>\<open>incr_console\<close> go once round the consoles.\<close>

fun decr_from :: "nat \<Rightarrow> int \<Rightarrow> int result" where
  "decr_from 0 i = Inl Hang"
| "decr_from (Suc n) i =
     (if i = int keyboard_fg_console then Inr i
      else
        (let j = (if i = -1 then int MAX_NR_CONSOLES - 1 else i) in
         if vc_cons_allocated j then Inr j else decr_from n (j - 1)))"

definition decr_console :: "'z drv_scheme \<Rightarrow> 'z drv_scheme result" where
  "decr_console s =
     bnd (decr_from (MAX_NR_CONSOLES + 1) (int keyboard_fg_console - 1)) (\<lambda>i. Inr (keyboard_set_console i s))"

fun incr_from :: "nat \<Rightarrow> int \<Rightarrow> int result" where
  "incr_from 0 i = Inl Hang"
| "incr_from (Suc n) i =
     (if i = int keyboard_fg_console then Inr i
      else
        (let j = (if i = int MAX_NR_CONSOLES then 0 else i) in
         if vc_cons_allocated j then Inr j else incr_from n (j + 1)))"

definition incr_console :: "'z drv_scheme \<Rightarrow> 'z drv_scheme result" where
  "incr_console s =
     bnd (incr_from (MAX_NR_CONSOLES + 1) (int keyboard_fg_console + 1)) (\<lambda>i. Inr (keyboard_set_console i s))"

definition send_intr :: "'z drv_scheme \<Rightarrow> 'z drv_scheme" where
  "send_intr s = (if \<not> tty s then s else keyboard_send_intr s)"

definition scroll_forw :: "'z drv_scheme \<Rightarrow> 'z drv_scheme" where
  "scroll_forw s = keyboard_scrollfront 0 s"

definition scroll_back :: "'z drv_scheme \<Rightarrow> 'z drv_scheme" where
  "scroll_back s = keyboard_scrollback 0 s"

definition boot_it :: "'z drv_scheme \<Rightarrow> 'z drv_scheme" where
  "boot_it s = keyboard_ctrl_alt_del s"

definition compose :: "'z drv_scheme \<Rightarrow> 'z drv_scheme" where
  "compose s = s\<lparr>dead_key_next := True\<rparr>"

definition SAK :: "'z drv_scheme \<Rightarrow> 'z drv_scheme" where
  "SAK s = keyboard_reset_vc keyboard_fg_console (keyboard_do_SAK s)"

definition do_null :: "keymap \<Rightarrow> 'z drv_scheme \<Rightarrow> 'z drv_scheme result" where
  "do_null K s = compute_shiftstate K s"

definition spec_fn_table :: "keymap \<Rightarrow> ('z drv_scheme \<Rightarrow> 'z drv_scheme result) list" where
  "spec_fn_table K =
     [do_null K, \<lambda>s. Inr (enter s), \<lambda>s. Inr (show_ptregs s), \<lambda>s. Inr (keyboard_show_mem s),
      \<lambda>s. Inr (keyboard_show_state s), \<lambda>s. Inr (send_intr s), \<lambda>s. Inr (lastcons s), \<lambda>s. Inr (caps_toggle s),
      \<lambda>s. Inr (num_key s), \<lambda>s. Inr (hold s), \<lambda>s. Inr (scroll_forw s), \<lambda>s. Inr (scroll_back s),
      \<lambda>s. Inr (boot_it s), \<lambda>s. Inr (caps_on s), \<lambda>s. Inr (compose s), \<lambda>s. Inr (SAK s),
      decr_console, incr_console, \<lambda>s. Inr (keyboard_spawn_console s), \<lambda>s. Inr (bare_num s)]"

definition do_spec :: "keymap \<Rightarrow> u8 \<Rightarrow> u8 \<Rightarrow> 'z drv_scheme \<Rightarrow> 'z drv_scheme result" where
  "do_spec K value up_flag s =
     (if up_flag \<noteq> 0 then Inr s
      else if 20 \<le> value then Inr s
      else if (kbdmode (cur_kbd s) = VC_RAW \<or> kbdmode (cur_kbd s) = VC_MEDIUMRAW) \<and> value \<noteq> 15 then Inr s
      else bnd (arr (spec_fn_table K) (unat value)) (\<lambda>f. f s))"

section \<open>Handlers of the key types\<close>

definition do_ignore :: "u8 \<Rightarrow> u8 \<Rightarrow> 'z drv_scheme \<Rightarrow> 'z drv_scheme" where
  "do_ignore value up_flag s = s"

definition do_lowercase :: "u8 \<Rightarrow> u8 \<Rightarrow> 'z drv_scheme \<Rightarrow> 'z drv_scheme" where
  "do_lowercase value up_flag s = s"

definition do_self :: "keymap \<Rightarrow> u8 \<Rightarrow> u8 \<Rightarrow> 'z drv_scheme \<Rightarrow> 'z drv_scheme" where
  "do_self K value up_flag s =
     (if up_flag \<noteq> 0 then s
      else
        (let (v, s1) = (if diacr s \<noteq> 0 then handle_diacr K value s else (value, s)) in
         if dead_key_next s1 then s1\<lparr>dead_key_next := False, diacr := v\<rparr> else put_queue (ucast v) s1))"

definition ret_diacr :: "u8 list" where
  "ret_diacr = [0x60, 0x27, 0x5e, 0x7e, 0x22, 0x2c]"

definition do_dead2 :: "keymap \<Rightarrow> u8 \<Rightarrow> u8 \<Rightarrow> 'z drv_scheme \<Rightarrow> 'z drv_scheme" where
  "do_dead2 K value up_flag s =
     (if up_flag \<noteq> 0 then s
      else
        (let (v, s1) = (if diacr s \<noteq> 0 then handle_diacr K value s else (value, s)) in s1\<lparr>diacr := v\<rparr>))"

definition do_dead :: "keymap \<Rightarrow> u8 \<Rightarrow> u8 \<Rightarrow> 'z drv_scheme \<Rightarrow> 'z drv_scheme result" where
  "do_dead K value up_flag s = bnd (arr ret_diacr (unat value)) (\<lambda>v. Inr (do_dead2 K v up_flag s))"

definition do_cons :: "u8 \<Rightarrow> u8 \<Rightarrow> 'z drv_scheme \<Rightarrow> 'z drv_scheme" where
  "do_cons value up_flag s = (if up_flag \<noteq> 0 then s else keyboard_set_console (uint value) s)"

definition do_fn :: "keymap \<Rightarrow> u8 \<Rightarrow> u8 \<Rightarrow> 'z drv_scheme \<Rightarrow> 'z drv_scheme" where
  "do_fn K value up_flag s =
     (if up_flag \<noteq> 0 then s
      else if unat value < length (func_table K) then
        (case func_table K ! unat value of Some str \<Rightarrow> puts_queue str s | None \<Rightarrow> s)
      else s)"

definition cur_chars :: string where
  "cur_chars = ''BDCA'' @ [CHR 0x00]"

definition do_cur :: "u8 \<Rightarrow> u8 \<Rightarrow> 'z drv_scheme \<Rightarrow> 'z drv_scheme result" where
  "do_cur value up_flag s =
     (if up_flag \<noteq> 0 then Inr s
      else bnd (arr cur_chars (unat value)) (\<lambda>c. Inr (applkey c (vc_kbd_mode (cur_kbd s) VC_CKMODE) s)))"

definition pad_chars :: string where
  "pad_chars = ''0123456789+-*/'' @ [CHR 13] @ '',.?()'' @ [CHR 0x00]"

definition app_map :: string where
  "app_map = ''pqrstuvwxylSRQMnnmPQ'' @ [CHR 0x00]"

text \<open>What a key of the key pad does without \<^verbatim>\<open>NumLock\<close>, where it does not stand for its character.\<close>

definition pad_cursor :: "keymap \<Rightarrow> u8 \<Rightarrow> 'z drv_scheme \<Rightarrow> 'z drv_scheme result option" where
  "pad_cursor K value s =
     (if value = 15 \<or> value = 16 then Some (Inr (do_fn K 22 0 s))
      else if value = 0 then Some (Inr (do_fn K 21 0 s))
      else if value = 1 then Some (Inr (do_fn K 23 0 s))
      else if value = 2 then Some (do_cur 0 0 s)
      else if value = 3 then Some (Inr (do_fn K 25 0 s))
      else if value = 4 then Some (do_cur 1 0 s)
      else if value = 6 then Some (do_cur 2 0 s)
      else if value = 7 then Some (Inr (do_fn K 20 0 s))
      else if value = 8 then Some (do_cur 3 0 s)
      else if value = 9 then Some (Inr (do_fn K 24 0 s))
      else if value = 5 then Some (Inr (applkey (CHR ''G'') (vc_kbd_mode (cur_kbd s) VC_APPLIC) s))
      else None)"

definition do_pad :: "keymap \<Rightarrow> u8 \<Rightarrow> u8 \<Rightarrow> 'z drv_scheme \<Rightarrow> 'z drv_scheme result" where
  "do_pad K value up_flag s =
     (let chars = bnd (arr pad_chars (unat value)) (\<lambda>c.
            let s1 = put_queue (of_char c) s in
            Inr (if value = 14 \<and> vc_kbd_mode (cur_kbd s1) VC_CRLF then put_queue 10 s1 else s1));
          unlocked = (if \<not> vc_kbd_led (cur_kbd s) VC_NUMLOCK then
              case pad_cursor K value s of Some r \<Rightarrow> r | None \<Rightarrow> chars
            else chars)
      in if up_flag \<noteq> 0 then Inr s
         else if vc_kbd_mode (cur_kbd s) VC_APPLIC then
           bnd (arr (k_down s) KG_SHIFT) (\<lambda>n.
             if n = 0 then bnd (arr app_map (unat value)) (\<lambda>c. Inr (applkey c True s)) else unlocked)
         else unlocked)"

definition do_meta :: "u8 \<Rightarrow> u8 \<Rightarrow> 'z drv_scheme \<Rightarrow> 'z drv_scheme" where
  "do_meta value up_flag s =
     (if up_flag \<noteq> 0 then s
      else if vc_kbd_mode (cur_kbd s) VC_META then put_queue (ucast value) (put_queue 0x1b s)
      else put_queue (ucast value OR 0x80) s)"

definition do_ascii :: "u8 \<Rightarrow> u8 \<Rightarrow> 'z drv_scheme \<Rightarrow> 'z drv_scheme" where
  "do_ascii value up_flag s =
     (if up_flag \<noteq> 0 then s
      else
        (let (base, v) = (if value < 10 then (10, value) else (16, value - 10)) in
         if npadch s = -1 then s\<lparr>npadch := ucast v\<rparr> else s\<lparr>npadch := npadch s * base + ucast v\<rparr>))"

definition do_lock :: "u8 \<Rightarrow> u8 \<Rightarrow> 'z drv_scheme \<Rightarrow> 'z drv_scheme" where
  "do_lock value up_flag s = (if up_flag \<noteq> 0 \<or> rep s then s else upd_kbd (chg_vc_kbd_lock (unat value)) s)"

definition do_slock :: "keymap \<Rightarrow> u8 \<Rightarrow> u8 \<Rightarrow> 'z drv_scheme \<Rightarrow> 'z drv_scheme result" where
  "do_slock K value up_flag s =
     bnd (do_shift value up_flag s) (\<lambda>s1.
       if up_flag \<noteq> 0 \<or> rep s1 then Inr s1
       else
         (let s2 = upd_kbd (chg_vc_kbd_slock (unat value)) s1; k = cur_kbd s2 in
          bnd (arr (key_maps K) (unat (lockstate k XOR slockstate k))) (\<lambda>m. case m of
            Some _ \<Rightarrow> Inr s2
          | None \<Rightarrow> Inr (upd_kbd (chg_vc_kbd_slock (unat value)) (upd_kbd (\<lambda>k. k\<lparr>slockstate := 0\<rparr>) s2)))))"

definition key_handler :: "keymap \<Rightarrow> (u8 \<Rightarrow> u8 \<Rightarrow> 'z drv_scheme \<Rightarrow> 'z drv_scheme result) list" where
  "key_handler K =
     [\<lambda>v u s. Inr (do_self K v u s), \<lambda>v u s. Inr (do_fn K v u s), do_spec K, do_pad K,
      do_dead K, \<lambda>v u s. Inr (do_cons v u s), do_cur, do_shift,
      \<lambda>v u s. Inr (do_meta v u s), \<lambda>v u s. Inr (do_ascii v u s), \<lambda>v u s. Inr (do_lock v u s), \<lambda>v u s. Inr (do_lowercase v u s),
      do_slock K, \<lambda>v u s. Inr (do_dead2 K v u s), \<lambda>v u s. Inr (do_ignore v u s), \<lambda>v u s. Inr (do_ignore v u s)]"

section \<open>A scan code\<close>

text \<open>The part of \<^verbatim>\<open>handle_scancode\<close> that acts on the symbol of a key, with \<^verbatim>\<open>type\<close> 0xf0 and above.\<close>

definition handle_typed :: "keymap \<Rightarrow> u32 \<Rightarrow> u8 \<Rightarrow> u16 \<Rightarrow> u8 \<Rightarrow> bool \<Rightarrow> 'z drv_scheme \<Rightarrow> 'z drv_scheme result" where
  "handle_typed K shift_final keycode keysym up_flag raw_mode s =
     (let type = ucast (drop_bit 8 keysym) - 0xf0 :: u8 in
      if raw_mode \<and> \<not> (type = 2 \<or> type = 7) then Inr s
      else
        bnd (if type = 11 \<and> vc_kbd_led (cur_kbd s) VC_CAPSLOCK then
               bnd (arr (key_maps K) (unat (shift_final XOR push_bit KG_SHIFT 1))) (\<lambda>m. case m of
                 None \<Rightarrow> Inr keysym | Some m \<Rightarrow> arr m (unat keycode))
             else Inr keysym) (\<lambda>sym.
        let type' = (if type = 11 then 0 else type) in
        bnd (arr (key_handler K) (unat type')) (\<lambda>h.
        bnd (h (ucast (sym AND 0xff)) up_flag s) (\<lambda>s1.
          Inr (if type' \<noteq> 12 then upd_kbd (\<lambda>k. k\<lparr>slockstate := 0\<rparr>) s1 else s1)))))"

text \<open>From the look-up in the key maps on.\<close>

definition handle_symbol :: "keymap \<Rightarrow> u8 \<Rightarrow> u8 \<Rightarrow> bool \<Rightarrow> 'z drv_scheme \<Rightarrow> 'z drv_scheme result" where
  "handle_symbol K keycode up_flag raw_mode s =
     (let shift_final = (shift_state s OR ucast (slockstate (cur_kbd s))) XOR ucast (lockstate (cur_kbd s)) in
      bnd (arr (key_maps K) (unat shift_final)) (\<lambda>m. case m of
        None \<Rightarrow> bnd (compute_shiftstate K s) (\<lambda>s1. Inr (upd_kbd (\<lambda>k. k\<lparr>slockstate := 0\<rparr>) s1))
      | Some m \<Rightarrow>
          bnd (arr m (unat keycode)) (\<lambda>keysym.
            if (0xf0 :: u8) \<le> ucast (drop_bit 8 keysym) then handle_typed K shift_final keycode keysym up_flag raw_mode s
            else Inr (if up_flag = 0 \<and> \<not> raw_mode then to_utf8 keysym s else s))))"

text \<open>From the translation to a key code on.\<close>

definition handle_keycode :: "keymap \<Rightarrow> u8 \<Rightarrow> u8 \<Rightarrow> bool \<Rightarrow> 'z drv_scheme \<Rightarrow> 'z drv_scheme result" where
  "handle_keycode K keycode up0 raw0 s =
     (let was = key_down s (unat keycode);
          up_flag = (if up0 \<noteq> 0 \<and> \<not> was then keyboard_pckbd_unexpected_up keycode else up0);
          s1 = s\<lparr>rep := (up0 = 0 \<and> was), key_down := (key_down s)(unat keycode := (up0 = 0))\<rparr>;
          medium = (kbdmode (cur_kbd s1) = VC_MEDIUMRAW);
          s2 = (if medium then put_queue (ucast (keycode + up_flag)) s1 else s1);
          raw_mode = (raw0 \<or> medium)
      in if \<not> rep s2 \<or> (vc_kbd_mode (cur_kbd s2) VC_REPEAT \<and> tty s2 \<and> keyboard_tty_do_repeat_key)
         then handle_symbol K keycode up_flag raw_mode s2 else Inr s2)"

definition keyboard_handle_scancode :: "keymap \<Rightarrow> u8 \<Rightarrow> bool \<Rightarrow> 'z drv_scheme \<Rightarrow> 'z drv_scheme result" where
  "keyboard_handle_scancode K scancode down s =
     (let up_flag = (if down then 0 else 0x80);
          s1 = s\<lparr>tty := True, kbd := keyboard_fg_console\<rparr>;
          raw_mode = (kbdmode (cur_kbd s1) = VC_RAW);
          s2 = (if raw_mode then put_queue (ucast (scancode OR up_flag)) s1 else s1)
      in bnd (keyboard_pckbd_translate scancode s2) (\<lambda>(k, s3). case k of
           None \<Rightarrow> Inr s3
         | Some keycode \<Rightarrow> handle_keycode K keycode up_flag raw_mode s3))"

section \<open>Lights\<close>

definition led_bit :: "mem \<Rightarrow> ledptr list \<Rightarrow> nat \<Rightarrow> u8 \<Rightarrow> u8 result" where
  "led_bit m ps i leds =
     bnd (arr ps i) (\<lambda>p.
       Inr (if led_valid p then
              if load32 m (led_addr p) AND led_mask p \<noteq> 0 then leds OR push_bit i 1 else leds AND NOT (push_bit i 1)
            else leds))"

definition getleds :: "mem \<Rightarrow> 'z drv_scheme \<Rightarrow> u8 result" where
  "getleds m s =
     (let k = kbd_table s keyboard_fg_console; leds = ucast (ledflagstate k) in
      if ledmode k = LED_SHOW_IOCTL then Inr (ledioctl s)
      else if ledmode k = LED_SHOW_MEM then
        bnd (led_bit m (ledptrs s) 0 leds) (\<lambda>leds. bnd (led_bit m (ledptrs s) 1 leds) (\<lambda>leds. led_bit m (ledptrs s) 2 leds))
      else Inr leds)"

definition kbd_bh :: "mem \<Rightarrow> 'z drv_scheme \<Rightarrow> 'z drv_scheme result" where
  "kbd_bh m s =
     bnd (getleds m s) (\<lambda>leds.
       Inr (if leds \<noteq> ledstate s then keyboard_pckbd_leds leds (s\<lparr>ledstate := leds\<rparr>) else s))"

definition keyboard_schedule_tasklet :: "mem \<Rightarrow> 'z drv_scheme \<Rightarrow> 'z drv_scheme result" where
  "keyboard_schedule_tasklet m s = (if tasklet_enabled s then kbd_bh m s else Inr s)"

definition getledstate :: "'z drv_scheme \<Rightarrow> u8" where
  "getledstate s = ledstate s"

definition setledstate :: "mem \<Rightarrow> nat \<Rightarrow> u32 \<Rightarrow> 'z drv_scheme \<Rightarrow> 'z drv_scheme result" where
  "setledstate m k led s =
     keyboard_schedule_tasklet m
       (if led AND NOT 7 = 0 then s\<lparr>ledioctl := ucast led, kbd_table := (kbd_table s)(k := (kbd_table s k)\<lparr>ledmode := LED_SHOW_IOCTL\<rparr>)\<rparr>
        else s\<lparr>kbd_table := (kbd_table s)(k := (kbd_table s k)\<lparr>ledmode := LED_SHOW_FLAGS\<rparr>)\<rparr>)"

definition register_leds :: "nat \<Rightarrow> u32 \<Rightarrow> addr \<Rightarrow> u32 \<Rightarrow> 'z drv_scheme \<Rightarrow> 'z drv_scheme result" where
  "register_leds console led addr msk s =
     (if led < 3 then
        bnd (arr_set (ledptrs s) (unat led) \<lparr>led_addr = addr, led_mask = msk, led_valid = True\<rparr>) (\<lambda>t.
          Inr (s\<lparr>ledptrs := t, kbd_table := (kbd_table s)(console := (kbd_table s console)\<lparr>ledmode := LED_SHOW_MEM\<rparr>)\<rparr>))
      else Inr (s\<lparr>kbd_table := (kbd_table s)(console := (kbd_table s console)\<lparr>ledmode := LED_SHOW_FLAGS\<rparr>)\<rparr>))"

section \<open>Start and interrupt\<close>

definition kbd0 :: kbd_struct where
  "kbd0 = \<lparr>lockstate = 0, slockstate = 0, ledmode = LED_SHOW_FLAGS, ledflagstate = 0, default_ledflagstate = 0,
     kbdmode = VC_XLATE, modeflags = push_bit VC_REPEAT 1 OR push_bit VC_META 1\<rparr>"

definition keyboard_init :: "mem \<Rightarrow> 'z drv_scheme \<Rightarrow> 'z drv_scheme result" where
  "keyboard_init m s =
     keyboard_schedule_tasklet m (keyboard_enable_tasklet
       (s\<lparr>kbd_table := (\<lambda>i. if i < MAX_NR_CONSOLES then kbd0 else kbd_table s i)\<rparr>))"

text \<open>
  \<^verbatim>\<open>do_scancode\<close>: the handler of the keyboard interrupt passes the register \<^verbatim>\<open>eax\<close>, of which only the low byte has been
  read from the keyboard.
\<close>

definition do_scancode :: "keymap \<Rightarrow> mem \<Rightarrow> u32 \<Rightarrow> 'z drv_scheme \<Rightarrow> 'z drv_scheme result" where
  "do_scancode K m scancode s =
     bnd (if \<not> init_done s then keyboard_init m (s\<lparr>init_done := True\<rparr>) else Inr s) (\<lambda>s1.
       if scancode \<noteq> 0x00 \<and> scancode \<noteq> 0xff then
         bnd (keyboard_handle_scancode K (ucast scancode) (scancode AND 0x80 = 0) s1) (kbd_bh m)
       else Inr s1)"

end
