(* ===== verification/Kbd_Bounds.thy ===== *)
theory Kbd_Bounds
  imports Kbd_Driver
begin

unbundle bit_operations_syntax

text \<open>
  The keyboard driver indexes its tables with what it finds in the key maps. The locale \<open>key_layout\<close> is what a key map
  owes the driver: then, whatever the keyboard sends, no access is out of bounds and the modifier state agrees with
  the counters of the modifier keys. It is interpreted for the key map the kernel is linked with.
\<close>

section \<open>Invariant\<close>

definition shifts_ok :: "u8 list \<Rightarrow> u32 \<Rightarrow> bool" where
  "shifts_ok kd ss \<longleftrightarrow> length kd = NR_SHIFT \<and> kd ! 8 = 0 \<and> (\<forall>i. bit ss i \<longleftrightarrow> i < NR_SHIFT \<and> kd ! i \<noteq> 0)"

definition drv_ok :: "'z drv_scheme \<Rightarrow> bool" where
  "drv_ok s \<longleftrightarrow> scan_ok s \<and> shifts_ok (k_down s) (shift_state s) \<and> (\<forall>k. key_down s k \<longrightarrow> k < 128) \<and> length (ledptrs s) = 3"

definition drv_core :: "'z drv_scheme \<Rightarrow> u8 list \<times> u8 list \<times> u8 list \<times> (nat \<Rightarrow> bool) \<times> u32 \<times> ledptr list" where
  "drv_core s = (high_keys s, e0_keys s, k_down s, key_down s, shift_state s, ledptrs s)"

lemma drv_ok_core: "drv_core s = drv_core t \<Longrightarrow> drv_ok s = drv_ok t"
  by (simp add: drv_core_def drv_ok_def scan_ok_def)

text \<open>Most operations do not touch what the invariant speaks of.\<close>

named_theorems core

lemma put_core [core]: "drv_core (put_queue c s) = drv_core s" "drv_core (puts_queue cp s) = drv_core s"
  by (simp_all add: drv_core_def put_queue_def puts_queue_def keyboard_send_ch_def keyboard_send_str_def call_def)

lemma upd_core [core]:
  "drv_core (upd_kbd f s) = drv_core s" "drv_core (s\<lparr>diacr := d\<rparr>) = drv_core s" "drv_core (s\<lparr>npadch := n\<rparr>) = drv_core s"
  "drv_core (s\<lparr>dead_key_next := b\<rparr>) = drv_core s" "drv_core (s\<lparr>stopped := b\<rparr>) = drv_core s" "drv_core (s\<lparr>calls := c\<rparr>) = drv_core s"
  "drv_core (s\<lparr>ledstate := l\<rparr>) = drv_core s" "drv_core (s\<lparr>tty := b\<rparr>) = drv_core s" "drv_core (s\<lparr>kbd := i\<rparr>) = drv_core s"
  "drv_core (s\<lparr>kbd_table := t\<rparr>) = drv_core s" "drv_core (s\<lparr>init_done := b\<rparr>) = drv_core s" "drv_core (s\<lparr>tasklet_enabled := b\<rparr>) = drv_core s"
  "drv_core (s\<lparr>prev_scancode := p\<rparr>) = drv_core s" "drv_core (s\<lparr>rep := b\<rparr>) = drv_core s"
  by (simp_all add: drv_core_def upd_kbd_def)

lemma utf8_core [core]: "drv_core (to_utf8 c s) = drv_core s" "drv_core (applkey k b s) = drv_core s"
  by (simp_all add: to_utf8_def applkey_def Let_def core)

lemma diacr_core [core]: "handle_diacr K c s = (v, t) \<Longrightarrow> drv_core t = drv_core s"
  by (auto simp: handle_diacr_def Let_def core split: option.splits if_splits)

lemma special_core [core]:
  "drv_core (enter s) = drv_core s" "drv_core (caps_toggle s) = drv_core s" "drv_core (caps_on s) = drv_core s"
  "drv_core (hold s) = drv_core s" "drv_core (bare_num s) = drv_core s" "drv_core (num_key s) = drv_core s" "drv_core (compose s) = drv_core s"
  by (simp_all add: enter_def caps_toggle_def caps_on_def hold_def bare_num_def num_key_def compose_def Let_def core
      keyboard_start_tty_def keyboard_stop_tty_def)

lemma handler_core [core]:
  "drv_core (do_self K v u s) = drv_core s" "drv_core (do_dead2 K v u s) = drv_core s" "drv_core (do_fn K v u s) = drv_core s"
  "drv_core (do_cons v u s) = drv_core s" "drv_core (do_meta v u s) = drv_core s" "drv_core (do_ascii v u s) = drv_core s"
  "drv_core (do_lock v u s) = drv_core s"
  by (auto simp: do_self_def do_dead2_def do_fn_def do_cons_def do_meta_def do_ascii_def do_lock_def Let_def core
      keyboard_set_console_def split: prod.splits option.splits)

lemma leds_core [core]: "drv_core (keyboard_pckbd_leds l s) = drv_core s" "drv_core (keyboard_enable_tasklet s) = drv_core s"
  by (simp_all add: keyboard_pckbd_leds_def keyboard_enable_tasklet_def call_def core)

lemma identities [simp]:
  "show_ptregs s = s" "keyboard_show_mem s = s" "keyboard_show_state s = s" "send_intr s = s" "lastcons s = s"
  "scroll_forw s = s" "scroll_back s = s" "boot_it s = s" "SAK s = s" "keyboard_spawn_console s = s"
  "keyboard_set_console i s = s"
  by (simp_all add: show_ptregs_def keyboard_show_ptregs_def keyboard_show_mem_def keyboard_show_state_def send_intr_def
      keyboard_send_intr_def lastcons_def keyboard_set_console_def scroll_forw_def keyboard_scrollfront_def scroll_back_def
      keyboard_scrollback_def boot_it_def keyboard_ctrl_alt_del_def SAK_def keyboard_reset_vc_def keyboard_do_SAK_def
      keyboard_spawn_console_def)

lemmas core_ok = put_core [THEN drv_ok_core] upd_core [THEN drv_ok_core] utf8_core [THEN drv_ok_core] special_core [THEN drv_ok_core]
  handler_core [THEN drv_ok_core] leds_core [THEN drv_ok_core]

section \<open>Runs without a fault\<close>

definition fine :: "'z drv_scheme result \<Rightarrow> bool" where
  "fine r \<longleftrightarrow> (\<exists>s. r = Inr s \<and> drv_ok s)"

lemma fine_Inr [simp]: "fine (Inr s) \<longleftrightarrow> drv_ok s"
  by (simp add: fine_def)

lemma fine_bnd: "fine r \<Longrightarrow> (\<And>s. drv_ok s \<Longrightarrow> fine (f s)) \<Longrightarrow> fine (bnd r f)"
  by (auto simp: fine_def)

lemma fine_same: "drv_ok s \<Longrightarrow> drv_core t = drv_core s \<Longrightarrow> fine (Inr t)"
  using drv_ok_core by auto

text \<open>A cycle round the consoles comes back to the only one there is.\<close>

lemma consoles: "decr_console s = Inr s" "incr_console s = Inr s"
  by (simp_all add: decr_console_def incr_console_def keyboard_fg_console_def vc_cons_allocated_def keyboard_vc_cons_allocated_def
      eval_nat_numeral)

section \<open>Modifiers\<close>

lemma bit_one_hot: "bit (push_bit v 1 :: u32) i \<longleftrightarrow> i = v" if "v < 8"
  using that unfolding bit_push_bit_iff bit_1_iff by auto

lemma shifts_ok_update:
  assumes "shifts_ok kd ss" and "v < 8"
  shows "shifts_ok (kd[v := n]) (if n \<noteq> 0 then ss OR push_bit v 1 else ss AND NOT (push_bit v 1))"
  unfolding shifts_ok_def
proof (intro conjI allI)
  have kd: "length kd = NR_SHIFT" "kd ! 8 = 0" "\<And>i. bit ss i \<longleftrightarrow> i < NR_SHIFT \<and> kd ! i \<noteq> 0"
    using assms(1) by (simp_all add: shifts_ok_def)
  show "length (kd[v := n]) = NR_SHIFT" "kd[v := n] ! 8 = 0" using kd assms(2) by simp_all
  show "bit (if n \<noteq> 0 then ss OR push_bit v 1 else ss AND NOT (push_bit v 1)) i \<longleftrightarrow> i < NR_SHIFT \<and> kd[v := n] ! i \<noteq> 0" for i
  proof (cases "i = v")
    case True
    then show ?thesis using kd(1) assms(2) by (simp add: bit_or_iff bit_and_iff bit_not_iff bit_one_hot del: push_bit_of_1)
  next
    case False
    then have "bit (if n \<noteq> 0 then ss OR push_bit v 1 else ss AND NOT (push_bit v 1)) i \<longleftrightarrow> bit ss i"
      using assms(2) bit_imp_le_length [of ss i] by (auto simp: bit_or_iff bit_and_iff bit_not_iff bit_one_hot simp del: push_bit_of_1)
    then show ?thesis using kd(3) False by simp
  qed
qed

lemma do_shift_fine:
  assumes "drv_ok s" and "val \<le> 8"
  shows "fine (do_shift val up s)"
proof (cases "rep s")
  case True
  with assms show ?thesis by (simp add: do_shift_def)
next
  case False
  define v where "v = (if val = KG_CAPSSHIFT then KG_SHIFT else unat val)"
  have "val = 8 \<or> val < 8" using assms(2) by (auto simp: order_le_less)
  then have v: "v < 8" by (auto simp: v_def word_less_nat_alt)
  define s1 where "s1 = (if val = KG_CAPSSHIFT \<and> up = 0 then upd_kbd (clr_vc_kbd_led VC_CAPSLOCK) s else s)"
  have s1: "drv_ok s1" using assms(1) drv_ok_core [of s1 s] by (simp add: s1_def core)
  define n where "n = (if up \<noteq> 0 then if k_down s1 ! v \<noteq> 0 then k_down s1 ! v - 1 else k_down s1 ! v else k_down s1 ! v + 1)"
  define s2 where "s2 = s1\<lparr>k_down := (k_down s1)[v := n],
      shift_state := (if n \<noteq> 0 then shift_state s1 OR push_bit v 1 else shift_state s1 AND NOT (push_bit v 1))\<rparr>"
  have len: "v < length (k_down s1)" using s1 v by (simp add: drv_ok_def shifts_ok_def)
  have s2: "drv_ok s2" using s1 shifts_ok_update [OF _ v, of "k_down s1" "shift_state s1" n]
    by (simp add: drv_ok_def s2_def scan_ok_def)
  note eqs = arr_Inr [OF len] arr_set_Inr [OF len] bnd_Inr
  have "\<exists>s3. do_shift val up s = Inr s3 \<and> drv_core s3 = drv_core s2"
    unfolding do_shift_def v_def [symmetric] s1_def [symmetric] Let_def eqs n_def [symmetric] s2_def [symmetric]
    using False by (simp add: core)
  then show ?thesis using s2 drv_ok_core by (auto simp: fine_def)
qed

section \<open>Key maps\<close>

lemma unat_bound8: "unat (w :: u8) < 256"
  using unsigned_less [of w, where 'a = nat] by simp

text \<open>The two bytes of a symbol: type and value.\<close>

definition sym_type :: "u16 \<Rightarrow> u8" where
  "sym_type x = ucast (drop_bit 8 x)"

definition sym_val :: "u16 \<Rightarrow> u8" where
  "sym_val x = ucast (x AND 0xff)"

lemma sym_masks: "(0xff :: u16) = mask 8" "(0xff :: u32) = mask 8" "(0xf000 :: u32) = push_bit 12 (mask 4)" "(0xf0 :: u32) = push_bit 4 (mask 4)"
  by (simp_all add: mask_eq_exp_minus_1)

lemma KTYP_U: "KTYP (U x) = ucast (sym_type x) XOR 0xf0"
proof (rule bit_word_eqI)
  fix n assume "n < LENGTH(32)"
  then show "bit (KTYP (U x)) n \<longleftrightarrow> bit (ucast (sym_type x) XOR 0xf0 :: u32) n"
    using bit_imp_le_length [of x "8 + n"]
    unfolding KTYP_def U_def sym_type_def sym_masks by (cases "n < 8") (auto simp: bit_simps bit_imp_le_length)
qed

lemma KVAL_U: "KVAL (U x) = sym_val x"
  unfolding KVAL_def U_def sym_val_def sym_masks by (rule bit_word_eqI) (auto simp: bit_simps)

lemma ucast_back [simp]: "(ucast (ucast u :: u32) :: u8) = u" for u :: u8
  by (rule bit_word_eqI) (auto simp: bit_simps)

lemma modifier_type: "KTYP (U x) = 7 \<longleftrightarrow> sym_type x = 0xf7" "KTYP (U x) = 12 \<longleftrightarrow> sym_type x = 0xfc"
proof -
  have eq: "KTYP (U x) = c \<longleftrightarrow> ucast (sym_type x) = c XOR 0xf0" for c
  proof -
    have "(a XOR m = c) \<longleftrightarrow> (a = c XOR m)" for a m :: u32 by (auto simp: xor.assoc)
    then show ?thesis unfolding KTYP_U .
  qed
  have inj: "(ucast w :: u32) = ucast v \<longleftrightarrow> w = v" for w v :: u8
    by (metis ucast_back)
  show "KTYP (U x) = 7 \<longleftrightarrow> sym_type x = 0xf7" using eq [of 7] inj [of "sym_type x" "0xf7"] by simp
  show "KTYP (U x) = 12 \<longleftrightarrow> sym_type x = 0xfc" using eq [of 12] inj [of "sym_type x" "0xfc"] by simp
qed

text \<open>The largest value that the handler of a type can take as an index.\<close>

definition sym_ok :: "u16 \<Rightarrow> bool" where
  "sym_ok x \<longleftrightarrow>
     (case List.find (\<lambda>(type, n). type = sym_type x) [(0xf3, 19), (0xf4, 5), (0xf6, 3), (0xf7, 8), (0xfc, 7)] of
        Some (type, n) \<Rightarrow> sym_val x \<le> n
      | None \<Rightarrow> True)"

locale key_layout =
  fixes K :: keymap
  assumes nr_maps: "length (key_maps K) = MAX_NR_KEYMAPS"
    and plain: "key_maps K ! 0 \<noteq> None"
    and nr_keys: "Some m \<in> set (key_maps K) \<Longrightarrow> length m = NR_KEYS"
    and symbols: "Some m \<in> set (key_maps K) \<Longrightarrow> list_all sym_ok m"
begin

lemma symbol_ok:
  assumes "key_maps K ! i = Some m" and "i < 256" and "k < 256"
  shows "arr m k = Inr (m ! k)" and "sym_ok (m ! k)"
proof -
  have "key_maps K ! i \<in> set (key_maps K)" using assms(2) nr_maps by simp
  then have m: "Some m \<in> set (key_maps K)" using assms(1) by simp
  show "arr m k = Inr (m ! k)" "sym_ok (m ! k)"
    using nr_keys [OF m] symbols [OF m] assms(3) by (simp_all add: list_all_length)
qed

end

text \<open>
  Counting the modifiers that are down: a counter cannot wrap, because there are fewer than 128 keys.
\<close>

definition counted :: "nat \<Rightarrow> 'z drv_scheme \<Rightarrow> bool" where
  "counted n s \<longleftrightarrow> drv_ok s \<and> (\<forall>v < NR_SHIFT. unat (k_down s ! v) \<le> n)"

lemma counted_up:
  assumes "counted n s" and "n < 128" and "v < 8"
  shows "counted (Suc n) (s\<lparr>k_down := (k_down s)[v := k_down s ! v + 1], shift_state := shift_state s OR push_bit v 1\<rparr>)"
proof -
  have le: "unat (k_down s ! v) \<le> n" using assms by (simp add: counted_def)
  then have "unat (k_down s ! v + 1) = Suc (unat (k_down s ! v))" using assms(2)
    by (simp add: unat_word_ariths)
  moreover from this have "k_down s ! v + 1 \<noteq> 0" by (metis unat_0 nat.distinct(1))
  moreover have len: "length (k_down s) = NR_SHIFT" using assms(1) by (simp add: counted_def drv_ok_def shifts_ok_def)
  ultimately show ?thesis
    using assms shifts_ok_update [of "k_down s" "shift_state s" v "k_down s ! v + 1"] le
    by (auto simp: counted_def drv_ok_def scan_ok_def nth_list_update le_SucI simp del: push_bit_of_1)
qed

context key_layout
begin

lemma count_shift_counted:
  assumes "counted k s" and "k < 256"
  shows "\<exists>s'. count_shift K k s = Inr s' \<and> counted (Suc k) s'"
proof (cases "key_down s k")
  case False
  with assms show ?thesis by (auto simp: count_shift_def counted_def intro: le_SucI)
next
  case True
  then have k: "k < 128" using assms(1) by (simp add: counted_def drv_ok_def)
  obtain m where m: "key_maps K ! 0 = Some m" using plain by blast
  note at = symbol_ok [OF m _ assms(2), simplified]
  define x where "x = m ! k"
  define v where "v = unat (if sym_val x = KG_CAPSSHIFT then 0 else sym_val x)"
  show ?thesis
  proof (cases "sym_type x = 0xf7 \<or> sym_type x = 0xfc")
    case False
    then show ?thesis using assms True m at(1) nr_maps
      by (auto simp: count_shift_def modifier_type x_def [symmetric] Let_def counted_def intro: le_SucI)
  next
    case mod: True
    then have "sym_val x \<le> 8" using at(2) order_trans [of "sym_val x" 7 8] by (auto simp: x_def sym_ok_def)
    then have v: "v < 8" using order_le_less [of "sym_val x" 8] by (auto simp: v_def word_less_nat_alt)
    then have len: "v < length (k_down s)" using assms(1) by (simp add: counted_def drv_ok_def shifts_ok_def)
    have "count_shift K k s = Inr (s\<lparr>k_down := (k_down s)[v := k_down s ! v + 1], shift_state := shift_state s OR push_bit v 1\<rparr>)"
      unfolding count_shift_def using True m at(1) nr_maps mod len
      by (cases "sym_val x = KG_CAPSSHIFT") (simp_all add: modifier_type KVAL_U x_def [symmetric] v_def Let_def del: push_bit_of_1)
    then show ?thesis using counted_up [OF assms(1) k v] by blast
  qed
qed

lemma compute_shiftstate_fine:
  assumes "drv_ok s"
  shows "fine (compute_shiftstate K s)"
proof -
  let ?s = "s\<lparr>shift_state := 0, k_down := map (\<lambda>_. 0) (k_down s)\<rparr>"
  have "\<exists>s'. mfold (count_shift K) [0..<n] ?s = Inr s' \<and> counted n s'" if "n \<le> 256" for n
    using that
  proof (induction n)
    case 0
    then show ?case using assms by (auto simp: counted_def drv_ok_def shifts_ok_def scan_ok_def)
  next
    case (Suc n)
    then obtain s' where "mfold (count_shift K) [0..<n] ?s = Inr s'" "counted n s'" by auto
    with count_shift_counted [of n s'] Suc.prems show ?case by (auto simp: mfold_append)
  qed
  from this [of 256] show ?thesis by (auto simp: compute_shiftstate_def fine_def counted_def)
qed

section \<open>Every key\<close>

lemma do_spec_fine:
  fixes s :: "'z drv_scheme"
  assumes "drv_ok s"
  shows "fine (do_spec K val up s)"
proof (cases "val < 20")
  case False
  with assms show ?thesis by (simp add: do_spec_def not_less)
next
  case True
  then have "unat val < 20" by (simp add: word_less_nat_alt)
  then have "unat val \<in> set [0..<20]" by simp
  then have "fine ((spec_fn_table K ! unat val) s)"
    using assms compute_shiftstate_fine [OF assms]
    by (auto simp: spec_fn_table_def upt_conv_Cons do_null_def consoles core_ok)
  moreover have "length (spec_fn_table K :: ('z drv_scheme \<Rightarrow> _) list) = 20" by (simp add: spec_fn_table_def)
  ultimately show ?thesis using assms \<open>unat val < 20\<close> by (simp add: do_spec_def)
qed

lemma do_pad_fine:
  assumes "drv_ok s" and "val < 20"
  shows "fine (do_pad K val up s)"
proof -
  have v: "unat val < length pad_chars" "unat val < length app_map"
    using assms(2) by (simp_all add: pad_chars_def app_map_def word_less_nat_alt)
  have k: "0 < length (k_down s)" using assms(1) by (simp add: drv_ok_def shifts_ok_def)
  have cur: "fine (do_cur c 0 s)" if "c < 4" for c
    using assms(1) that by (simp add: do_cur_def cur_chars_def core_ok word_less_nat_alt)
  have "fine r" if "pad_cursor K val s = Some r" for r
    using that assms(1) cur [of 0] cur [of 1] cur [of 2] cur [of 3]
    by (auto simp: pad_cursor_def core_ok split: if_splits)
  then show ?thesis using assms(1) v k by (auto simp: do_pad_def Let_def core_ok split: option.splits)
qed

lemma do_slock_fine:
  assumes "drv_ok s" and "val \<le> 7"
  shows "fine (do_slock K val up s)"
proof -
  have u8: "unat (w :: u8) < length (key_maps K)" for w using nr_maps by (simp add: unat_bound8)
  have "val \<le> 8" using assms(2) order_trans [of val 7 8] by simp
  then have "fine (do_shift val up s)" using do_shift_fine assms(1) by blast
  then show ?thesis unfolding do_slock_def
    by (rule fine_bnd) (use u8 in \<open>auto simp: Let_def core_ok split: option.splits\<close>)
qed

lemma key_handler_fine:
  assumes "drv_ok s" and "type < 16" and "type = 0 \<or> sym_ok x \<and> sym_type x = type + 0xf0 \<and> val = sym_val x"
  shows "fine ((key_handler K ! unat type) val up s)"
proof -
  have t: "unat type \<in> set [0..<16]" using assms(2) by (simp add: word_less_nat_alt)
  have sel: "unat type = n \<Longrightarrow> type = of_nat n" for n by auto
  consider "type = 0" | "type = 2" | "type = 3" "val \<le> 19" | "type = 4" "val \<le> 5" | "type = 6" "val \<le> 3"
    | "type = 7" "val \<le> 8" | "type = 12" "val \<le> 7" | "type \<in> {1, 5, 8, 9, 10, 11, 13, 14, 15}"
    using t assms(3) by (auto simp: upt_conv_Cons sym_ok_def dest!: sel)
  then show ?thesis
  proof cases
    case 3 then show ?thesis using do_pad_fine [OF assms(1), of val up] by (simp add: key_handler_def word_le_nat_alt word_less_nat_alt)
  next
    case 4 then show ?thesis using assms(1) by (simp add: key_handler_def do_dead_def ret_diacr_def core_ok word_le_nat_alt)
  next
    case 5 then show ?thesis using assms(1) by (simp add: key_handler_def do_cur_def cur_chars_def core_ok word_le_nat_alt)
  next
    case 6 then show ?thesis using do_shift_fine [OF assms(1)] by (simp add: key_handler_def)
  next
    case 7 then show ?thesis using do_slock_fine [OF assms(1)] by (simp add: key_handler_def)
  qed (use assms(1) do_spec_fine [OF assms(1)] in \<open>auto simp: key_handler_def core_ok do_lowercase_def do_ignore_def\<close>)
qed

lemma index_bound:
  fixes x :: u32
  assumes "\<And>n. bit x n \<Longrightarrow> n < 8"
  shows "unat x < length (key_maps K)"
proof -
  have "take_bit 8 x = x" by (rule bit_word_eqI) (auto simp: bit_take_bit_iff dest: assms)
  then have "unat x = take_bit 8 (unat x)" by (metis unsigned_take_bit_eq)
  also have "\<dots> < 2 ^ 8" by (rule take_bit_nat_less_exp)
  finally show ?thesis using nr_maps by simp
qed

lemma handle_typed_fine:
  fixes s :: "'z drv_scheme"
  assumes "drv_ok s" and "sym_ok keysym" and "0xf0 \<le> sym_type keysym"
    and bits: "\<And>n. bit shift_final n \<Longrightarrow> n < 8"
  shows "fine (handle_typed K shift_final keycode keysym up raw s)"
proof -
  define type where "type = sym_type keysym - 0xf0"
  define type' where "type' = (if type = 11 then 0 else type)"
  have "unat type < 16" using unat_sub [OF assms(3)] unat_bound8 [of "sym_type keysym"] by (simp add: type_def)
  then have type': "type' < 16" by (auto simp: type'_def word_less_nat_alt)
  have len: "length (key_handler K :: (u8 \<Rightarrow> u8 \<Rightarrow> 'z drv_scheme \<Rightarrow> _) list) = 16" by (simp add: key_handler_def)
  have handled: "fine (bnd (arr (key_handler K) (unat type')) (\<lambda>h. bnd (h (sym_val sym) up s)
      (\<lambda>s1. Inr (if type' \<noteq> 12 then upd_kbd (\<lambda>k. k\<lparr>slockstate := 0\<rparr>) s1 else s1))))"
    if "type' = 0 \<or> sym = keysym" for sym
  proof -
    have "fine ((key_handler K ! unat type') (sym_val sym) up s)"
      using that assms(1,2) type' by (intro key_handler_fine [where x = keysym]) (auto simp: type'_def type_def)
    then have "fine (bnd ((key_handler K ! unat type') (sym_val sym) up s)
        (\<lambda>s1. Inr (if type' \<noteq> 12 then upd_kbd (\<lambda>k. k\<lparr>slockstate := 0\<rparr>) s1 else s1)))"
      by (rule fine_bnd) (simp add: core_ok)
    then show ?thesis using type' len by (simp add: word_less_nat_alt)
  qed
  have caps: "\<exists>sym. bnd (arr (key_maps K) (unat (shift_final XOR push_bit KG_SHIFT 1))) (\<lambda>m. case m of
      None \<Rightarrow> Inr keysym | Some m \<Rightarrow> arr m (unat keycode)) = Inr sym"
  proof -
    have "unat (shift_final XOR 1) < length (key_maps K)"
      by (rule index_bound) (auto simp: bit_xor_iff bit_1_iff dest: bits)
    then show ?thesis using nr_maps symbol_ok(1) unat_bound8 [of keycode] by (auto split: option.splits)
  qed
  show ?thesis
  proof (cases "raw \<and> \<not> (type = 2 \<or> type = 7)")
    case True
    then show ?thesis using assms(1) by (simp add: handle_typed_def sym_type_def [symmetric] type_def [symmetric])
  next
    case False
    define r where "r = (if type = 11 \<and> vc_kbd_led (cur_kbd s) VC_CAPSLOCK then
        bnd (arr (key_maps K) (unat (shift_final XOR push_bit KG_SHIFT 1))) (\<lambda>m. case m of
          None \<Rightarrow> Inr keysym | Some m \<Rightarrow> arr m (unat keycode)) else Inr keysym)"
    obtain sym where sym: "r = Inr sym" "type' = 0 \<or> sym = keysym"
      using caps by (cases "type = 11 \<and> vc_kbd_led (cur_kbd s) VC_CAPSLOCK") (auto simp: r_def type'_def)
    show ?thesis
      using handled [OF sym(2)] assms(1)
      unfolding handle_typed_def sym_type_def [symmetric] type_def [symmetric] Let_def r_def [symmetric] sym(1) bnd_Inr
        sym_val_def [symmetric] type'_def [symmetric] by simp
  qed
qed

lemma handle_symbol_fine:
  assumes "drv_ok s"
  shows "fine (handle_symbol K keycode up raw s)"
proof -
  define f where "f = (shift_state s OR ucast (slockstate (cur_kbd s))) XOR ucast (lockstate (cur_kbd s))"
  have ss: "n < 8" if "bit (shift_state s) n" for n
  proof -
    have "n < NR_SHIFT" "k_down s ! n \<noteq> k_down s ! 8" using that assms unfolding drv_ok_def shifts_ok_def by metis+
    then have "n \<noteq> 8" by blast
    with \<open>n < NR_SHIFT\<close> show ?thesis by simp
  qed
  have byte: "bit (ucast (w :: u8) :: u32) n \<Longrightarrow> n < 8" for w n using bit_imp_le_length [of w n] by (simp add: bit_ucast_iff)
  have bits: "bit f n \<Longrightarrow> n < 8" for n
    using ss byte unfolding f_def bit_or_iff bit_xor_iff by blast
  note bound = index_bound [OF bits]
  show ?thesis
  proof (cases "key_maps K ! unat f")
    case None
    then have "handle_symbol K keycode up raw s = bnd (compute_shiftstate K s) (\<lambda>s1. Inr (upd_kbd (\<lambda>k. k\<lparr>slockstate := 0\<rparr>) s1))"
      using bound by (simp add: handle_symbol_def f_def [symmetric] Let_def)
    then show ?thesis by (simp only:) (rule fine_bnd [OF compute_shiftstate_fine [OF assms]], simp add: core_ok)
  next
    case (Some m)
    note sym = symbol_ok [OF Some _ unat_bound8 [of keycode]]
    have "unat f < 256" using bound nr_maps by simp
    with sym bound Some assms handle_typed_fine [OF assms, of "m ! unat keycode" f, OF _ _ bits] show ?thesis
      by (simp add: handle_symbol_def f_def [symmetric] Let_def core_ok sym_type_def [symmetric])
  qed
qed

lemma handle_keycode_fine:
  assumes "drv_ok s" and "keycode < 128"
  shows "fine (handle_keycode K keycode up raw s)"
proof -
  have "unat keycode < 128" using assms(2) by (simp add: word_less_nat_alt)
  then have "drv_ok (s\<lparr>rep := r, key_down := (key_down s)(unat keycode := b)\<rparr>)" for r b
    using assms(1) by (auto simp: drv_ok_def scan_ok_def)
  then show ?thesis by (auto simp: handle_keycode_def Let_def core_ok intro!: handle_symbol_fine)
qed

lemma handle_scancode_fine:
  assumes "drv_ok s"
  shows "fine (keyboard_handle_scancode K code down s)"
proof -
  define s1 where "s1 = s\<lparr>tty := True, kbd := keyboard_fg_console\<rparr>"
  define s2 where "s2 = (if kbdmode (cur_kbd s1) = VC_RAW then put_queue (ucast (code OR (if down then 0 else 0x80))) s1 else s1)"
  have s2: "drv_ok s2" using assms by (simp add: s1_def s2_def core_ok)
  then have "scan_ok s2" by (simp add: drv_ok_def)
  from translate_ok [OF this, of code] obtain k p where
    "keyboard_pckbd_translate code s2 = Inr (k, s2\<lparr>prev_scancode := p\<rparr>)" and k: "\<forall>c. k = Some c \<longrightarrow> c < 128" by blast
  then have "keyboard_handle_scancode K code down s = (case k of None \<Rightarrow> Inr (s2\<lparr>prev_scancode := p\<rparr>)
      | Some keycode \<Rightarrow> handle_keycode K keycode (if down then 0 else 0x80) (kbdmode (cur_kbd s1) = VC_RAW) (s2\<lparr>prev_scancode := p\<rparr>))"
    unfolding keyboard_handle_scancode_def Let_def s1_def [symmetric] s2_def [symmetric] by simp
  then show ?thesis using s2 k by (auto simp: core_ok split: option.splits intro!: handle_keycode_fine)
qed

lemma kbd_bh_fine: "drv_ok s \<Longrightarrow> fine (kbd_bh m s)"
  by (auto simp: kbd_bh_def getleds_def led_bit_def Let_def drv_ok_def [of s] core_ok)

lemma do_scancode_fine:
  assumes "drv_ok s"
  shows "fine (do_scancode K m code s)"
  unfolding do_scancode_def
proof (rule fine_bnd)
  show "fine (if \<not> init_done s then keyboard_init m (s\<lparr>init_done := True\<rparr>) else Inr s)"
    using assms by (auto simp: keyboard_init_def keyboard_schedule_tasklet_def core_ok intro!: kbd_bh_fine)
  show "fine (if code \<noteq> 0 \<and> code \<noteq> 0xff then bnd (keyboard_handle_scancode K (ucast code) (code AND 0x80 = 0) t) (kbd_bh m)
      else Inr t)" if "drv_ok t" for t
    using that by (auto intro!: fine_bnd handle_scancode_fine kbd_bh_fine)
qed

lemma run_fine: "drv_ok s \<Longrightarrow> fine (mfold (\<lambda>(m, code). do_scancode K m code) evs s)"
proof (induction evs arbitrary: s)
  case (Cons ev evs)
  obtain m code where ev: "ev = (m, code)" by fastforce
  show ?case unfolding ev mfold.simps prod.case
    by (rule fine_bnd) (use Cons in \<open>auto intro: do_scancode_fine\<close>)
qed simp

end

section \<open>The key map of the kernel\<close>

lemma defkeymap_symbols:
  "list_all sym_ok plain_map" "list_all sym_ok shift_map" "list_all sym_ok altgr_map" "list_all sym_ok ctrl_map"
  "list_all sym_ok altgr_ctrl_map" "list_all sym_ok alt_map" "list_all sym_ok ctrl_alt_map"
  by code_simp+

lemma defkeymap_lengths:
  "length plain_map = NR_KEYS" "length shift_map = NR_KEYS" "length altgr_map = NR_KEYS" "length ctrl_map = NR_KEYS"
  "length altgr_ctrl_map = NR_KEYS" "length alt_map = NR_KEYS" "length ctrl_alt_map = NR_KEYS"
  by (simp_all add: plain_map_def shift_map_def altgr_map_def ctrl_map_def altgr_ctrl_map_def alt_map_def ctrl_alt_map_def)

interpretation fr: key_layout defkeymap
proof
  show "length (key_maps defkeymap) = MAX_NR_KEYMAPS" "key_maps defkeymap ! 0 \<noteq> None" by (simp_all add: defkeymap_def)
  fix m assume "Some m \<in> set (key_maps defkeymap)"
  then have "m \<in> {plain_map, shift_map, altgr_map, ctrl_map, altgr_ctrl_map, alt_map, ctrl_alt_map}"
    by (auto simp: defkeymap_def)
  then show "length m = NR_KEYS" "list_all sym_ok m" using defkeymap_lengths defkeymap_symbols by auto
qed

lemma drv_ok_static: "drv_ok static_drv"
proof -
  have "list_all (\<lambda>k. k < 128) (init_high_keys @ init_e0_keys)" by code_simp
  then have "\<forall>k\<in>set init_high_keys \<union> set init_e0_keys. k < 128" by (auto simp: list_all_iff)
  moreover have "length init_high_keys = 128 - SC_LIM" "length init_e0_keys = 128"
    by (simp_all add: init_high_keys_def init_e0_keys_def)
  ultimately show ?thesis
    by (auto simp: drv_ok_def scan_ok_def shifts_ok_def static_drv_def nth_Cons split: nat.splits)
qed

text \<open>
  C20: whatever the keyboard sends, and whatever the upper bits of the register and the memory are, the driver never
  reads or writes outside its tables, follows no null pointer and comes to an end; and the state of the modifiers
  that it selects key maps with always agrees with its counters of the modifier keys that are down.
\<close>

theorem keyboard_in_bounds:
  "\<exists>s. mfold (\<lambda>(m, code). do_scancode defkeymap m code) evs static_drv = Inr s
     \<and> length (k_down s) = NR_SHIFT \<and> (\<forall>i. bit (shift_state s) i \<longleftrightarrow> i < NR_SHIFT \<and> k_down s ! i \<noteq> 0)"
  using fr.run_fine [OF drv_ok_static, of evs] by (auto simp: fine_def drv_ok_def shifts_ok_def)

end
