(* ===== verification/Kbd_Typing.thy ===== *)
theory Kbd_Typing
  imports Kbd_Bounds
begin

unbundle bit_operations_syntax

text \<open>
  What the driver makes of somebody who types: keys that stand for a character, alone or with the left shift key held,
  the return key and the caps lock key. The locale \<open>typing_layout\<close> says which keys of a key map are the modifiers; the characters are
  then those of the plain and of the shifted map.
\<close>

section \<open>Strokes\<close>

datatype stroke = Key bool u8 | Enter | Caps_Lock

abbreviation LSHIFT :: u8 where "LSHIFT \<equiv> 0x2a"
abbreviation CAPS :: u8 where "CAPS \<equiv> 0x3a"
abbreviation ENTER :: u8 where "ENTER \<equiv> 0x1c"

text \<open>The scan codes the keyboard sends: a key is pressed and released.\<close>

fun scan_codes :: "stroke \<Rightarrow> u8 list" where
  "scan_codes (Key sh k) = (if sh then [LSHIFT] else []) @ [k, k OR 0x80] @ (if sh then [LSHIFT OR 0x80] else [])"
| "scan_codes Enter = [ENTER, ENTER OR 0x80]"
| "scan_codes Caps_Lock = [CAPS, CAPS OR 0x80]"

text \<open>
  The state between two scan codes: no accent is pending and the keyboard is in the mode it starts in; \<open>c\<close> tells whether
  caps lock is on, the other arguments are the counters and the state of the modifiers, the keys that are down and
  the calls made so far.
\<close>

definition flags :: "bool \<Rightarrow> 3 word" where
  "flags c = (if c then 4 else 0)"

definition standing :: "bool \<Rightarrow> drv \<Rightarrow> bool" where
  "standing c s \<longleftrightarrow> init_done s \<and> prev_scancode s = 0 \<and> kbd s = 0 \<and> diacr s = 0 \<and> \<not> dead_key_next s \<and> npadch s = -1
     \<and> kbd_table s 0 = kbd0\<lparr>ledflagstate := flags c\<rparr> \<and> ledstate s = ucast (flags c)"

definition pose :: "bool \<Rightarrow> u8 list \<Rightarrow> u32 \<Rightarrow> (nat \<Rightarrow> bool) \<Rightarrow> call list \<Rightarrow> drv \<Rightarrow> bool" where
  "pose c kd ss down cs s \<longleftrightarrow> standing c s \<and> k_down s = kd \<and> shift_state s = ss \<and> key_down s = down \<and> calls s = cs"

text \<open>Nothing is pressed.\<close>

definition resting :: "bool \<Rightarrow> call list \<Rightarrow> drv \<Rightarrow> bool" where
  "resting c cs s = pose c (replicate NR_SHIFT 0) 0 (\<lambda>_. False) cs s"

text \<open>The symbols of a key, and the character it stands for: caps lock exchanges the maps for letters.\<close>

definition keys_of :: "keymap \<Rightarrow> bool \<Rightarrow> u16 list" where
  "keys_of K sh = the (key_maps K ! (if sh then 1 else 0))"

definition glyph :: "keymap \<Rightarrow> bool \<Rightarrow> bool \<Rightarrow> u8 \<Rightarrow> char" where
  "glyph K c sh k =
     (let x = keys_of K sh ! unat k in
      char_of (unat (sym_val (if sym_type x = 0xfb \<and> c then keys_of K (\<not> sh) ! unat k else x))))"

fun stroke_ok :: "keymap \<Rightarrow> stroke \<Rightarrow> bool" where
  "stroke_ok K (Key sh k) \<longleftrightarrow> k \<noteq> 0 \<and> k < of_nat SC_LIM \<and> sym_type (keys_of K sh ! unat k) \<in> {0xf0, 0xfb}"
| "stroke_ok K Enter \<longleftrightarrow> True"
| "stroke_ok K Caps_Lock \<longleftrightarrow> True"

fun calls_of :: "keymap \<Rightarrow> bool \<Rightarrow> stroke list \<Rightarrow> call list" where
  "calls_of K c [] = []"
| "calls_of K c (Key sh k # ss) = Keyboard_Data [glyph K c sh k] # calls_of K c ss"
| "calls_of K c (Enter # ss) = Keyboard_Data [CHR 13] # calls_of K c ss"
| "calls_of K c (Caps_Lock # ss) = Kbd_Leds (ucast (flags (\<not> c))) # calls_of K (\<not> c) ss"

locale typing_layout = key_layout +
  assumes shift_map: "key_maps K ! 1 \<noteq> None"
    and modifiers: "keys_of K sh ! unat LSHIFT = 0xf700" "keys_of K False ! unat CAPS = 0xf207" "keys_of K False ! unat ENTER = 0xf201"

section \<open>Single scan codes\<close>

lemma do_scancode_low:
  assumes "init_done s" and "ucast code = c" and "c \<noteq> 0" and "c \<noteq> (0xff :: u8)"
  shows "do_scancode K m code s = bnd (keyboard_handle_scancode K c (\<not> bit c 7) s) (kbd_bh m)"
proof -
  have "code \<noteq> 0" "code \<noteq> 0xff" using assms by auto
  moreover have "code AND 0x80 = 0 \<longleftrightarrow> \<not> bit c 7"
  proof -
    have "bit c 7 \<longleftrightarrow> bit code 7" using assms(2) by (auto simp: bit_ucast_iff)
    moreover have "code AND 2 ^ 7 = 0 \<longleftrightarrow> \<not> bit code 7" by (rule and_exp_eq_0_iff_not_bit)
    ultimately show ?thesis by simp
  qed
  ultimately show ?thesis using assms(1,2) by (simp add: do_scancode_def)
qed

lemma kbd_bh_resting:
  assumes "kbd_table s 0 = kbd0\<lparr>ledflagstate := flags c\<rparr>"
  shows "kbd_bh m s = Inr (if ledstate s = ucast (flags c) then s else keyboard_pckbd_leds (ucast (flags c)) (s\<lparr>ledstate := ucast (flags c)\<rparr>))"
  using assms by (auto simp: kbd_bh_def getleds_def keyboard_fg_console_def Let_def kbd0_def)

lemma key_bits:
  assumes "k < of_nat SC_LIM"
  shows "k AND 0x7f = k" "(k OR 0x80) AND 0x7f = k" "\<not> bit k 7" "bit (k OR 0x80) 7" "k \<noteq> 0xff" "k OR 0x80 \<noteq> 0" "k OR 0x80 \<noteq> (0xff :: u8)"
proof -
  have "k < 2 ^ 7" using order_less_trans [OF assms, of "2 ^ 7"] by simp
  then have "take_bit 7 k = k" unfolding take_bit_eq_mod by (rule mod_word_less)
  then show k: "k AND 0x7f = k" by (simp add: take_bit_eq_mask mask_eq_exp_minus_1)
  show up: "(k OR 0x80) AND 0x7f = k" using k by (simp add: bit.conj_disj_distrib2)
  show "\<not> bit k 7" using \<open>take_bit 7 k = k\<close> by (metis bit_take_bit_iff less_irrefl)
  show "bit (k OR 0x80) 7" by (simp add: bit_or_iff)
  then show "k OR 0x80 \<noteq> 0" by (metis bit_0_eq bot_apply bot_bool_def)
  show "k \<noteq> 0xff" "k OR 0x80 \<noteq> 0xff" using assms up by auto
qed

lemma bit_flags: "bit (flags c) 2 \<longleftrightarrow> c"
  by (simp add: flags_def)

lemma translate_key:
  assumes "prev_scancode s = 0" and "c AND 0x7f = k" and "k \<noteq> 0" and "k < of_nat SC_LIM"
  shows "keyboard_pckbd_translate c s = Inr (Some k, s)"
proof -
  have "c \<noteq> 0xe0" "c \<noteq> 0xe1" "c \<noteq> 0" "c \<noteq> 0xff" using assms by auto
  moreover have "\<not> of_nat SC_LIM \<le> k" using assms(4) by (simp only: not_le)
  ultimately show ?thesis using assms(1-3) by (simp add: keyboard_pckbd_translate_def)
qed

text \<open>From a scan code of a key to its symbol.\<close>

lemma upd_kbd_slock: "slockstate (cur_kbd s) = 0 \<Longrightarrow> upd_kbd (\<lambda>k. k\<lparr>slockstate := 0\<rparr>) s = s"
proof -
  assume "slockstate (cur_kbd s) = 0"
  then have "(cur_kbd s)\<lparr>slockstate := 0\<rparr> = cur_kbd s" by (cases "cur_kbd s") simp
  then show ?thesis by (simp add: upd_kbd_def cur_kbd_def)
qed

context typing_layout
begin

lemma handle_symbol_key:
  assumes "kbd_table s 0 = kbd0\<lparr>ledflagstate := flags c\<rparr>" "kbd s = 0" "shift_state s = (if sh then 1 else 0)"
    and "0xf0 \<le> sym_type (keys_of K sh ! unat k)"
  shows "handle_symbol K k up False s = handle_typed K (if sh then 1 else 0) k (keys_of K sh ! unat k) up False s"
proof -
  have m: "key_maps K ! (if sh then 1 else 0) = Some (keys_of K sh)" using plain shift_map by (auto simp: keys_of_def)
  show ?thesis
    using assms symbol_ok(1) [OF m _ unat_bound8 [of k]] m nr_maps
    by (cases sh) (simp_all add: handle_symbol_def cur_kbd_def kbd0_def Let_def sym_type_def)
qed

lemma handle_code:
  assumes "standing c s" and "code AND 0x7f = k" "k \<noteq> 0" "k < of_nat SC_LIM" and "shift_state s = (if sh then 1 else 0)"
    and "key_down s (unat k) = bit code 7" and "0xf0 \<le> sym_type (keys_of K sh ! unat k)"
  shows "keyboard_handle_scancode K code (\<not> bit code 7) s
    = handle_typed K (if sh then 1 else 0) k (keys_of K sh ! unat k) (if bit code 7 then 0x80 else 0) False
        (s\<lparr>tty := True, rep := False, key_down := (key_down s)(unat k := \<not> bit code 7)\<rparr>)"
proof -
  let ?s = "s\<lparr>tty := True, kbd := 0\<rparr>"
  have kbd: "?s = s\<lparr>tty := True\<rparr>" using assms(1) by (simp add: standing_def)
  have tr: "keyboard_pckbd_translate code ?s = Inr (Some k, ?s)"
    using assms by (intro translate_key) (simp_all add: standing_def)
  have mode: "kbdmode (cur_kbd ?s) = VC_XLATE" using assms(1) by (simp add: standing_def cur_kbd_def kbd0_def)
  show ?thesis
    using assms mode tr handle_symbol_key [of "s\<lparr>tty := True, rep := False, key_down := (key_down s)(unat k := \<not> bit code 7)\<rparr>" c sh k]
    by (auto simp: keyboard_handle_scancode_def keyboard_fg_console_def Let_def handle_keycode_def cur_kbd_def standing_def kbd)
qed

lemma char_key:
  assumes "standing c s" and "tty s" and "sym_type (keys_of K sh ! unat k) \<in> {0xf0, 0xfb}"
  shows "handle_typed K (if sh then 1 else 0) k (keys_of K sh ! unat k) up False s
    = Inr (if up = 0 then call (Keyboard_Data [glyph K c sh k]) s else s)"
proof -
  define x where "x = keys_of K sh ! unat k"
  define y where "y = (if sym_type x = 0xfb \<and> c then keys_of K (\<not> sh) ! unat k else x)"
  have m: "key_maps K ! (if sh then 0 else 1) = Some (keys_of K (\<not> sh))" using plain shift_map by (auto simp: keys_of_def)
  have other: "bnd (arr (key_maps K) (unat ((if sh then 1 else 0) XOR push_bit KG_SHIFT 1 :: u32)))
      (\<lambda>m. case m of None \<Rightarrow> Inr x | Some m \<Rightarrow> arr m (unat k)) = Inr (keys_of K (\<not> sh) ! unat k)"
    using m nr_maps symbol_ok(1) [OF m _ unat_bound8 [of k]] by (cases sh) simp_all
  have led: "vc_kbd_led (cur_kbd s) VC_CAPSLOCK = c" and slock: "slockstate (cur_kbd s) = 0"
    using assms(1) by (simp_all add: standing_def cur_kbd_def vc_kbd_led_def kbd0_def bit_flags)
  have self: "do_self K v up s = (if up = 0 then call (Keyboard_Data [char_of (unat v)]) s else s)" for v
    using assms(1,2) by (auto simp: do_self_def standing_def put_queue_def keyboard_send_ch_def)
  have "slockstate (cur_kbd (do_self K v up s)) = 0" for v using slock by (simp add: self call_def cur_kbd_def)
  note slocks = upd_kbd_slock [OF this]
  have "glyph K c sh k = char_of (unat (sym_val y))" by (simp add: glyph_def x_def y_def Let_def)
  moreover have "handle_typed K (if sh then 1 else 0) k x up False s = Inr (do_self K (sym_val y) up s)"
    using assms(3) other led
    unfolding x_def [symmetric] handle_typed_def sym_type_def [symmetric] sym_val_def [symmetric] Let_def
    by (auto simp: y_def key_handler_def slocks)
  ultimately show ?thesis by (simp add: self x_def)
qed

lemma shift_key:
  assumes "standing c s" and "\<not> rep s" and "k_down s = (if up = 0 then 0 else 1) # replicate 8 0"
    and "shift_state s = (if up = 0 then 0 else 1)"
  shows "handle_typed K f LSHIFT 0xf700 up False s = Inr (s\<lparr>k_down := (if up = 0 then 1 else 0) # replicate 8 0,
    shift_state := (if up = 0 then 1 else 0)\<rparr>)"
  using assms upd_kbd_slock [of "s\<lparr>k_down := (if up = 0 then 1 else 0) # replicate 8 0, shift_state := (if up = 0 then 1 else 0)\<rparr>"]
  by (auto simp: handle_typed_def Let_def key_handler_def do_shift_def standing_def cur_kbd_def kbd0_def)

lemma caps_key:
  assumes "standing c s" and "\<not> rep s"
  shows "handle_typed K f CAPS 0xf207 up False s = Inr (if up = 0 then upd_kbd (chg_vc_kbd_led VC_CAPSLOCK) s else s)"
  using assms upd_kbd_slock [of s] upd_kbd_slock [of "upd_kbd (chg_vc_kbd_led VC_CAPSLOCK) s"]
  by (auto simp: handle_typed_def Let_def key_handler_def do_spec_def spec_fn_table_def caps_toggle_def standing_def cur_kbd_def
      kbd0_def upd_kbd_def chg_vc_kbd_led_def)

lemma chg_flags: "flags c XOR push_bit VC_CAPSLOCK 1 = flags (\<not> c)"
  by (simp add: flags_def)

text \<open>One scan code: the key goes down or up, its symbol is handled, the lights follow.\<close>

lemma scan_step:
  assumes "pose c kd (if sh then 1 else 0) down cs s" and "ucast code = (if up then k OR 0x80 else k)" and "down (unat k) = up"
    and "k \<noteq> 0" "k < of_nat SC_LIM" "0xf0 \<le> sym_type (keys_of K sh ! unat k)"
  shows "\<exists>s1. pose c kd (if sh then 1 else 0) (down(unat k := \<not> up)) cs s1 \<and> tty s1 \<and> \<not> rep s1
    \<and> do_scancode K m code s = bnd (handle_typed K (if sh then 1 else 0) k (keys_of K sh ! unat k) (if up then 0x80 else 0) False s1) (kbd_bh m)"
proof -
  define sc where "sc = (if up then k OR 0x80 else k)"
  note bits = key_bits [OF assms(5)]
  have sc: "sc AND 0x7f = k" "bit sc 7 = up" "sc \<noteq> 0" "sc \<noteq> 0xff" using bits assms(4) by (auto simp: sc_def)
  have st: "standing c s" "shift_state s = (if sh then 1 else 0)" "key_down s (unat k) = bit sc 7" "init_done s"
    using assms(1,3) sc(2) by (simp_all add: pose_def standing_def)
  let ?s = "s\<lparr>tty := True, rep := False, key_down := (key_down s)(unat k := \<not> bit sc 7)\<rparr>"
  have "do_scancode K m code s = bnd (keyboard_handle_scancode K sc (\<not> bit sc 7) s) (kbd_bh m)"
    using do_scancode_low [OF st(4) _ sc(3,4)] assms(2) by (simp add: sc_def)
  moreover note handle_code [OF st(1) sc(1) assms(4,5) st(2,3) assms(6)]
  moreover have "pose c kd (if sh then 1 else 0) (down(unat k := \<not> up)) cs ?s"
    using assms(1) sc(2) by (simp add: pose_def standing_def)
  ultimately show ?thesis using sc(2) by (intro exI [of _ ?s]) simp
qed

lemma kbd_bh_standing: "standing c s \<Longrightarrow> kbd_bh m s = Inr s"
  using kbd_bh_resting [of s c m] by (simp add: standing_def)

text \<open>A key that makes one call when it goes down and nothing when it goes up.\<close>

lemma call_step:
  assumes "pose c kd (if sh then 1 else 0) down cs s" and "ucast code = (if up then k OR 0x80 else k)" and "down (unat k) = up"
    and k: "k \<noteq> 0" "k < of_nat SC_LIM" "0xf0 \<le> sym_type (keys_of K sh ! unat k)"
    and key: "\<And>t u. standing c t \<Longrightarrow> tty t \<Longrightarrow>
      handle_typed K (if sh then 1 else 0) k (keys_of K sh ! unat k) u False t = Inr (if u = 0 then call x t else t)"
  shows "\<exists>s'. do_scancode K m code s = Inr s'
    \<and> pose c kd (if sh then 1 else 0) (down(unat k := \<not> up)) (cs @ (if up then [] else [x])) s'"
proof -
  from scan_step [OF assms(1-3) k, of m] obtain s1 where
    s1: "pose c kd (if sh then 1 else 0) (down(unat k := \<not> up)) cs s1" "tty s1" and
    eq: "do_scancode K m code s = bnd (handle_typed K (if sh then 1 else 0) k (keys_of K sh ! unat k) (if up then 0x80 else 0) False s1) (kbd_bh m)"
    by blast
  define s' where "s' = (if up then s1 else call x s1)"
  have s': "pose c kd (if sh then 1 else 0) (down(unat k := \<not> up)) (cs @ (if up then [] else [x])) s'"
    using s1(1) by (simp add: s'_def pose_def standing_def call_def)
  have "standing c s1" using s1(1) by (simp add: pose_def)
  from key [OF this s1(2), of "if up then 0x80 else 0"]
  have "do_scancode K m code s = kbd_bh m s'" unfolding eq by (simp add: s'_def)
  with s' kbd_bh_standing [of c s'] show ?thesis by (auto simp: pose_def)
qed

abbreviation shift_down :: "bool \<Rightarrow> nat \<Rightarrow> bool" where
  "shift_down sh \<equiv> (\<lambda>_. False)(unat LSHIFT := sh)"

abbreviation shift_pose :: "bool \<Rightarrow> bool \<Rightarrow> call list \<Rightarrow> drv \<Rightarrow> bool" where
  "shift_pose c sh cs s \<equiv> pose c ((if sh then 1 else 0) # replicate 8 0) (if sh then 1 else 0) (shift_down sh) cs s"

lemma resting_pose: "resting c cs s \<longleftrightarrow> shift_pose c False cs s"
proof -
  have "shift_down False = (\<lambda>_. False)" by auto
  moreover have "replicate NR_SHIFT (0 :: u8) = 0 # replicate 8 0" by (simp add: numeral_eq_Suc)
  ultimately show ?thesis by (simp add: resting_def)
qed

lemma shift_step:
  assumes "shift_pose c sh cs s" and "ucast code = (if sh then LSHIFT OR 0x80 else LSHIFT)"
  shows "\<exists>s'. do_scancode K m code s = Inr s' \<and> shift_pose c (\<not> sh) cs s'"
proof -
  have x: "keys_of K sh ! unat LSHIFT = 0xf700" using modifiers(1) by simp
  then have t: "0xf0 \<le> sym_type (keys_of K sh ! unat LSHIFT)" by (simp add: sym_type_def)
  have down: "shift_down sh (unat LSHIFT) = sh" and k: "LSHIFT \<noteq> 0" "LSHIFT < of_nat SC_LIM" by simp_all
  from scan_step [OF assms(1,2) down k t, of m] obtain s1 where
    s1: "pose c ((if sh then 1 else 0) # replicate 8 0) (if sh then 1 else 0) ((shift_down sh)(unat LSHIFT := \<not> sh)) cs s1" "\<not> rep s1" and
    eq: "do_scancode K m code s = bnd (handle_typed K (if sh then 1 else 0) LSHIFT (keys_of K sh ! unat LSHIFT) (if sh then 0x80 else 0) False s1) (kbd_bh m)"
    by blast
  define s' where "s' = s1\<lparr>k_down := (if sh then 0 else 1) # replicate 8 0, shift_state := (if sh then 0 else 1)\<rparr>"
  have s': "shift_pose c (\<not> sh) cs s'" using s1(1) by (simp add: s'_def pose_def standing_def)
  have "standing c s1" "k_down s1 = (if sh then 1 else 0) # replicate 8 0" "shift_state s1 = (if sh then 1 else 0)"
    using s1(1) by (simp_all add: pose_def)
  with shift_key [of c s1 "if sh then 0x80 else 0" "if sh then 1 else 0"] s1(2)
  have "do_scancode K m code s = kbd_bh m s'" unfolding eq x by (cases sh) (simp_all add: s'_def)
  with s' kbd_bh_standing [of c s'] show ?thesis by (auto simp: pose_def)
qed

lemma caps_step:
  assumes "pose c kd 0 down cs s" and "ucast code = (if up then CAPS OR 0x80 else CAPS)" and "down (unat CAPS) = up"
  shows "\<exists>s'. do_scancode K m code s = Inr s'
    \<and> pose (if up then c else \<not> c) kd 0 (down(unat CAPS := \<not> up)) (cs @ (if up then [] else [Kbd_Leds (ucast (flags (\<not> c)))])) s'"
proof -
  have x: "keys_of K False ! unat CAPS = 0xf207" using modifiers(2) by simp
  then have t: "0xf0 \<le> sym_type (keys_of K False ! unat CAPS)" by (simp add: sym_type_def)
  have p: "pose c kd (if False then 1 else 0) down cs s" using assms(1) by simp
  from scan_step [OF p assms(2,3) _ _ t, of m] obtain s1 where
    s1: "pose c kd 0 (down(unat CAPS := \<not> up)) cs s1" "\<not> rep s1" and
    eq: "do_scancode K m code s = bnd (handle_typed K 0 CAPS 0xf207 (if up then 0x80 else 0) False s1) (kbd_bh m)"
    unfolding x by auto
  have st: "standing c s1" using s1(1) by (simp add: pose_def)
  define s2 where "s2 = upd_kbd (chg_vc_kbd_led VC_CAPSLOCK) s1"
  have run: "do_scancode K m code s = kbd_bh m (if up then s1 else s2)"
    using caps_key [OF st s1(2), of 0 "if up then 0x80 else 0"] unfolding eq by (simp add: s2_def)
  show ?thesis
  proof (cases up)
    case True
    then show ?thesis using s1(1) run kbd_bh_standing [OF st] by auto
  next
    case False
    have k2: "kbd_table s2 0 = kbd0\<lparr>ledflagstate := flags (\<not> c)\<rparr>"
      using st chg_flags [of c] by (simp add: s2_def upd_kbd_def chg_vc_kbd_led_def standing_def)
    have "ledstate s2 \<noteq> ucast (flags (\<not> c))" using st by (simp add: s2_def upd_kbd_def standing_def flags_def)
    then have "do_scancode K m code s = Inr (keyboard_pckbd_leds (ucast (flags (\<not> c))) (s2\<lparr>ledstate := ucast (flags (\<not> c))\<rparr>))"
      using run False kbd_bh_resting [OF k2, of m] by simp
    moreover have "pose (\<not> c) kd 0 (down(unat CAPS := True)) (cs @ [Kbd_Leds (ucast (flags (\<not> c)))])
        (keyboard_pckbd_leds (ucast (flags (\<not> c))) (s2\<lparr>ledstate := ucast (flags (\<not> c))\<rparr>))"
      using s1(1) k2 False by (simp add: pose_def standing_def keyboard_pckbd_leds_def call_def s2_def upd_kbd_def)
    ultimately show ?thesis using False by simp
  qed
qed

section \<open>Whole texts\<close>

abbreviation run_codes :: "(mem \<times> u32) list \<Rightarrow> drv \<Rightarrow> drv result" where
  "run_codes evs s \<equiv> mfold (\<lambda>(m, code). do_scancode K m code) evs s"

lemma call_pair:
  assumes "shift_pose c sh cs s" and "ucast a = k" and "ucast b = k OR 0x80"
    and k: "k \<noteq> 0" "k < of_nat SC_LIM" "0xf0 \<le> sym_type (keys_of K sh ! unat k)" and "k \<noteq> LSHIFT"
    and key: "\<And>t u. standing c t \<Longrightarrow> tty t \<Longrightarrow>
      handle_typed K (if sh then 1 else 0) k (keys_of K sh ! unat k) u False t = Inr (if u = 0 then call x t else t)"
  shows "\<exists>s'. run_codes [(m1, a), (m2, b)] s = Inr s' \<and> shift_pose c sh (cs @ [x]) s'"
proof -
  have "unat k \<noteq> unat LSHIFT" using assms(7) by (metis word_unat_eq_iff)
  then have d: "shift_down sh (unat k) = False" and again: "((shift_down sh)(unat k := True))(unat k := False) = shift_down sh"
    by (simp_all add: fun_eq_iff)
  have a: "ucast a = (if False then k OR 0x80 else k)" and b: "ucast b = (if True then k OR 0x80 else k)"
    using assms(2,3) by simp_all
  obtain s1 where 1: "do_scancode K m1 a s = Inr s1" "pose c ((if sh then 1 else 0) # replicate 8 0) (if sh then 1 else 0)
      ((shift_down sh)(unat k := True)) (cs @ [x]) s1"
    using call_step [OF assms(1) a d k key, of m1] unfolding if_False not_False_eq_True by blast
  have "((shift_down sh)(unat k := True)) (unat k) = True" by simp
  from call_step [OF 1(2) b this k key, of m2] 1(1) show ?thesis
    unfolding not_True_eq_False again if_True append_Nil2 by auto
qed

lemma char_pair:
  assumes "shift_pose c sh cs s" and "stroke_ok K (Key sh k)" and "ucast a = k" and "ucast b = k OR 0x80"
  shows "\<exists>s'. run_codes [(m1, a), (m2, b)] s = Inr s' \<and> shift_pose c sh (cs @ [Keyboard_Data [glyph K c sh k]]) s'"
proof (rule call_pair [OF assms(1,3,4)])
  have t: "sym_type (keys_of K sh ! unat k) \<in> {0xf0, 0xfb}" using assms(2) by simp
  then show "0xf0 \<le> sym_type (keys_of K sh ! unat k)" by auto
  show "k \<noteq> LSHIFT" using t modifiers(1) [of sh] by (auto simp: sym_type_def)
  show "handle_typed K (if sh then 1 else 0) k (keys_of K sh ! unat k) u False s
      = Inr (if u = 0 then call (Keyboard_Data [glyph K c sh k]) s else s)" if "standing c s" "tty s" for s u
    using char_key [OF that t] .
qed (use assms(2) in simp_all)

lemma enter_key:
  assumes "standing c s" and "tty s"
  shows "handle_typed K 0 ENTER 0xf201 up False s = Inr (if up = 0 then call (Keyboard_Data [CHR 13]) s else s)"
proof -
  have v: "\<not> (20 :: u8) \<le> 1" by (simp add: word_le_nat_alt)
  have c: "char_of (13 :: nat) = CHR 13" by (simp add: char_of_def bit_0)
  show ?thesis
    using assms upd_kbd_slock [of s] upd_kbd_slock [of "call (Keyboard_Data [CHR 13]) s"]
    by (auto simp: handle_typed_def Let_def key_handler_def do_spec_def spec_fn_table_def enter_def standing_def cur_kbd_def
        kbd0_def put_queue_def keyboard_send_ch_def call_def vc_kbd_mode_def v c)
qed

lemma stroke_runs:
  assumes "resting c cs s" and "stroke_ok K st" and "map (\<lambda>e. ucast (snd e)) evs = scan_codes st"
  shows "\<exists>s' c'. run_codes evs s = Inr s' \<and> resting c' (cs @ calls_of K c [st]) s' \<and> (\<forall>ss. calls_of K c (st # ss) = calls_of K c [st] @ calls_of K c' ss)"
proof (cases st)
  case Caps_Lock
  then obtain m1 a m2 b where evs: "evs = [(m1, a), (m2, b)]" "ucast a = CAPS" "ucast b = CAPS OR 0x80"
    using assms(3) by (auto simp: map_eq_Cons_conv)
  have "pose c (replicate NR_SHIFT 0) 0 (\<lambda>_. False) cs s" using assms(1) by (simp add: resting_def)
  from caps_step [OF this, of a False m1] evs(2) obtain s1 where
    1: "do_scancode K m1 a s = Inr s1" "pose (\<not> c) (replicate NR_SHIFT 0) 0 ((\<lambda>_. False)(unat CAPS := True)) (cs @ [Kbd_Leds (ucast (flags (\<not> c)))]) s1"
    by auto
  from caps_step [OF 1(2), of b True m2] evs(3) obtain s2 where
    2: "do_scancode K m2 b s1 = Inr s2" "pose (\<not> c) (replicate NR_SHIFT 0) 0 (((\<lambda>_. False)(unat CAPS := True))(unat CAPS := False)) (cs @ [Kbd_Leds (ucast (flags (\<not> c)))]) s2"
    by auto
  have "((\<lambda>_. False)(unat CAPS := True))(unat CAPS := False) = (\<lambda>_. False)" by auto
  with 1(1) 2 show ?thesis by (auto simp: evs(1) Caps_Lock resting_def)
next
  case Enter
  then obtain m1 a m2 b where evs: "evs = [(m1, a), (m2, b)]" "ucast a = ENTER" "ucast b = ENTER OR 0x80"
    using assms(3) by (auto simp: map_eq_Cons_conv)
  have rest: "shift_pose c False cs s" using assms(1) by (simp add: resting_pose)
  have "\<exists>s'. run_codes [(m1, a), (m2, b)] s = Inr s' \<and> shift_pose c False (cs @ [Keyboard_Data [CHR 13]]) s'"
    by (rule call_pair [OF rest evs(2,3)]) (use modifiers(3) enter_key in \<open>simp_all add: sym_type_def\<close>)
  then show ?thesis by (auto simp: evs(1) Enter resting_pose)
next
  case (Key sh k)
  have ok: "stroke_ok K (Key sh k)" using assms(2) unfolding Key .
  have rest: "shift_pose c False cs s" using assms(1) by (simp add: resting_pose)
  show ?thesis
  proof (cases sh)
    case False
    then obtain m1 a m2 b where evs: "evs = [(m1, a), (m2, b)]" "ucast a = k" "ucast b = k OR 0x80"
      using assms(3) Key by (auto simp: map_eq_Cons_conv)
    have "stroke_ok K (Key False k)" using ok False by simp
    from char_pair [OF rest this evs(2,3), of m1 m2] show ?thesis by (auto simp: evs(1) Key False resting_pose)
  next
    case True
    then obtain m0 l m1 a m2 b m3 r where evs: "evs = [(m0, l)] @ [(m1, a), (m2, b)] @ [(m3, r)]" "ucast a = k" "ucast b = k OR 0x80"
      and shift: "ucast l = LSHIFT" "ucast r = LSHIFT OR 0x80"
      using assms(3) Key by (auto simp: map_eq_Cons_conv)
    from shift_step [OF rest, of l m0] shift(1) obtain s1 where
      1: "do_scancode K m0 l s = Inr s1" "shift_pose c True cs s1" by auto
    have "stroke_ok K (Key True k)" using ok True by simp
    from char_pair [OF 1(2) this evs(2,3), of m1 m2] obtain s2 where
      2: "run_codes [(m1, a), (m2, b)] s1 = Inr s2" "shift_pose c True (cs @ [Keyboard_Data [glyph K c True k]]) s2" by blast
    from shift_step [OF 2(2), of r m3] shift(2) 1(1) 2(1) show ?thesis
      unfolding evs(1) mfold_append by (auto simp: Key True resting_pose)
  qed
qed

lemma return_pressed:
  assumes "resting c cs s" and "ucast code = ENTER"
  shows "\<exists>s'. do_scancode K m code s = Inr s' \<and> calls s' = cs @ [Keyboard_Data [CHR 13]]"
proof -
  have rest: "shift_pose c False cs s" using assms(1) by (simp add: resting_pose)
  have a: "ucast code = (if False then ENTER OR 0x80 else ENTER)" and d: "shift_down False (unat ENTER) = False"
    and k: "ENTER \<noteq> 0" "ENTER < of_nat SC_LIM" "0xf0 \<le> sym_type (keys_of K False ! unat ENTER)"
    using assms(2) modifiers(3) by (simp_all add: sym_type_def)
  have "handle_typed K (if False then 1 else 0) ENTER (keys_of K False ! unat ENTER) u False t
      = Inr (if u = 0 then call (Keyboard_Data [CHR 13]) t else t)" if "standing c t" "tty t" for t u
    using enter_key [OF that] modifiers(3) by simp
  from call_step [OF rest a d k this, of m] show ?thesis by (auto simp: pose_def)
qed

lemma typing_runs:
  assumes "resting c cs s" and "list_all (stroke_ok K) sts" and "map (\<lambda>e. ucast (snd e)) evs = concat (map scan_codes sts)"
  shows "\<exists>s' c'. run_codes evs s = Inr s' \<and> resting c' (cs @ calls_of K c sts) s'"
  using assms
proof (induction sts arbitrary: c cs s evs)
  case (Cons st sts)
  have "map (\<lambda>e. ucast (snd e)) evs = scan_codes st @ concat (map scan_codes sts)" using Cons.prems(3) by simp
  then obtain e1 e2 where evs: "evs = e1 @ e2" "map (\<lambda>e. ucast (snd e)) e1 = scan_codes st" "map (\<lambda>e. ucast (snd e)) e2 = concat (map scan_codes sts)"
    by (elim iffD1 [OF map_eq_append_conv, elim_format] exE conjE) (rule that, auto)
  have ok: "stroke_ok K st" "list_all (stroke_ok K) sts" using Cons.prems(2) by simp_all
  from stroke_runs [OF Cons.prems(1) ok(1) evs(2)] obtain s1 c1 where
    1: "run_codes e1 s = Inr s1" "resting c1 (cs @ calls_of K c [st]) s1" "\<And>ss. calls_of K c (st # ss) = calls_of K c [st] @ calls_of K c1 ss"
    by blast
  from Cons.IH [OF 1(2) ok(2) evs(3)] show ?case
    unfolding evs(1) mfold_append 1(1) bnd_Inr 1(3) [of sts] by simp
qed auto

end

section \<open>The key map of the kernel\<close>

interpretation fr: typing_layout defkeymap
proof
  show "key_maps defkeymap ! 1 \<noteq> None" by (simp add: defkeymap_def)
  show "keys_of defkeymap sh ! unat LSHIFT = 0xf700" for sh
    by (simp add: keys_of_def defkeymap_def plain_map_def shift_map_def)
  show "keys_of defkeymap False ! unat CAPS = 0xf207" "keys_of defkeymap False ! unat ENTER = 0xf201" by (simp_all add: keys_of_def defkeymap_def plain_map_def)
qed

text \<open>The first scan code initialises the driver, which switches the lights off.\<close>

definition initialised :: drv where
  "initialised = call (Kbd_Leds 0) (static_drv\<lparr>init_done := True, tasklet_enabled := True, ledstate := 0,
     kbd_table := (\<lambda>i. if i < MAX_NR_CONSOLES then kbd0 else kbd_table static_drv i)\<rparr>)"

lemma resting_initialised: "resting False [Kbd_Leds 0] initialised"
  by (simp add: resting_def pose_def standing_def initialised_def static_drv_def call_def flags_def kbd0_def)

lemma keyboard_init_static: "keyboard_init m (static_drv\<lparr>init_done := True\<rparr>) = Inr initialised"
  by (simp add: keyboard_init_def keyboard_schedule_tasklet_def keyboard_enable_tasklet_def kbd_bh_def getleds_def
      keyboard_fg_console_def kbd0_def keyboard_pckbd_leds_def call_def initialised_def static_drv_def Let_def cong: if_cong)

lemma first_scancode: "do_scancode K m code static_drv = do_scancode K m code initialised"
proof -
  have "\<not> init_done static_drv" "init_done initialised" by (simp_all add: static_drv_def initialised_def call_def)
  then show ?thesis by (simp add: do_scancode_def keyboard_init_static)
qed

text \<open>
  C21: typing a text on the keyboard of a kernel that has just started, key after key, with or without the shift key and
  with any use of the caps lock key, makes the driver call \<^verbatim>\<open>keyboard_data\<close> once for each character, with the
  character the key map gives for it and in order, and switch the caps lock light at each change; at the end no key is
  taken as still pressed. This holds whatever the upper bits of the register that carries the scan code are.
\<close>

theorem typing_delivers:
  assumes "list_all (stroke_ok defkeymap) sts" and "sts \<noteq> []" and "map (\<lambda>e. ucast (snd e)) evs = concat (map scan_codes sts)"
  shows "\<exists>s. mfold (\<lambda>(m, code). do_scancode defkeymap m code) evs static_drv = Inr s
    \<and> calls s = Kbd_Leds 0 # calls_of defkeymap False sts \<and> key_down s = (\<lambda>_. False) \<and> shift_state s = 0"
proof -
  have "evs \<noteq> []"
  proof
    assume "evs = []"
    then have "scan_codes (hd sts) = []" using assms(2,3) by (cases sts) auto
    then show False by (cases "hd sts") auto
  qed
  then have "mfold (\<lambda>(m, code). do_scancode defkeymap m code) evs static_drv = mfold (\<lambda>(m, code). do_scancode defkeymap m code) evs initialised"
    by (cases evs) (auto simp: first_scancode)
  with fr.typing_runs [OF resting_initialised assms(1,3)] show ?thesis by (auto simp: resting_def pose_def)
qed

theorem typing_delivers_witness:
  "\<exists>s. mfold (\<lambda>(m, code). do_scancode defkeymap m code)
        (map (Pair (\<lambda>_. 0)) [0x10, 0x90, 0xffff2a, 0x10, 0x90, 0xaa, 0x3a, 0xba, 0x10, 0x90]) static_drv = Inr s
    \<and> calls s = [Kbd_Leds 0, Keyboard_Data ''a'', Keyboard_Data ''A'', Kbd_Leds 4, Keyboard_Data ''A'']"
proof -
  let ?sts = "[Key False 0x10, Key True 0x10, Caps_Lock, Key False 0x10]"
  have keys: "keys_of defkeymap False ! 16 = 0xfb61" "keys_of defkeymap True ! 16 = 0xfb41"
    by (simp_all add: keys_of_def defkeymap_def plain_map_def shift_map_def)
  have "list_all (stroke_ok defkeymap) ?sts" by (simp add: keys sym_type_def)
  moreover have "calls_of defkeymap False ?sts = [Keyboard_Data ''a'', Keyboard_Data ''A'', Kbd_Leds 4, Keyboard_Data ''A'']"
    by (simp add: glyph_def keys sym_type_def sym_val_def flags_def char_of_def bit_0)
  ultimately show ?thesis
    using typing_delivers [of ?sts "map (Pair (\<lambda>_. 0)) [0x10, 0x90, 0xffff2a, 0x10, 0x90, 0xaa, 0x3a, 0xba, 0x10, 0x90]"] by auto
qed

end
