(* ===== verification/Kbd_Path.thy ===== *)
theory Kbd_Path
  imports Keyboard_Ops Kbd_Typing
begin

text \<open>
  From the keys to the reader: the calls of the keyboard driver carried out by \<^verbatim>\<open>kbd.c\<close>. The interrupt handler runs the
  driver, which calls \<^verbatim>\<open>keyboard_data\<close>; when this wakes a reader the processor may go elsewhere, and the calls that
  are left are made when the interrupted process runs again. The driver and \<^verbatim>\<open>kbd.c\<close> share no variable: the driver is
  run on its scan codes first, and the calls it made are carried out then, in order. In the code the calls are made
  from inside the driver: what is left for the driver to do after a call that switches, it does when the interrupted
  process runs again.
\<close>

text \<open>The calls in order: \<^verbatim>\<open>Some\<close> with the calls that are left if the processor goes elsewhere.\<close>

fun deliver :: "call list \<Rightarrow> ('m, 'z) kbd_scheme \<Rightarrow> (call list option \<times> ('m, 'z) kbd_scheme) result" where
  "deliver [] s = Inr (None, s)"
| "deliver (Kbd_Leds l # cs) s = deliver cs (kbd_leds l s)"
| "deliver (Keyboard_Data str # cs) s =
     bnd (keyboard_data (hd (str @ [CHR 0x00])) s) (\<lambda>(r, s1). case r of
       Some _ \<Rightarrow> deliver cs s1
     | None \<Rightarrow> Inr (Some cs, s1))"

text \<open>The characters a typist sees on the keys.\<close>

fun text_of :: "keymap \<Rightarrow> bool \<Rightarrow> stroke list \<Rightarrow> char list" where
  "text_of K c [] = []"
| "text_of K c (Key sh k # ss) = glyph K c sh k # text_of K c ss"
| "text_of K c (Enter # ss) = CHR 13 # text_of K c ss"
| "text_of K c (Caps_Lock # ss) = text_of K (\<not> c) ss"

lemma kbd_leds_fields [simp]:
  fixes s :: "('m, 'z) kbd_scheme"
  shows "kbd_ok (kbd_leds l s) K \<longleftrightarrow> kbd_ok s K" "typed (kbd_leds l s) K = typed s K" "reading (kbd_leds l s) = reading s"
    "calling_pid (kbd_leds l s) = calling_pid s" "running (kbd_leds l s) Q \<longleftrightarrow> running s Q"
    "process_table (kbd_leds l s) = process_table s"
  by (simp_all add: kbd_leds_def outb_def kbd_ok_def typed_def running_def)

lemma deliver_text:
  fixes s :: "('m, 'z) kbd_scheme"
  assumes "kbd_ok s K" and "reading s \<noteq> 0" and "CHR 13 \<notin> set (text_of M c sts)"
  shows "\<exists>s' K'. deliver (calls_of M c sts @ cs) s = deliver cs s' \<and> kbd_ok s' K' \<and> typed s' K' = fold press (text_of M c sts) (typed s K)
    \<and> reading s' = reading s \<and> calling_pid s' = calling_pid s \<and> (\<forall>Q. running s' Q \<longleftrightarrow> running s Q)"
  using assms
proof (induction M c sts arbitrary: s K rule: text_of.induct)
  case (2 M c sh k ss)
  have "glyph M c sh k \<noteq> CHR 13" using "2.prems"(3) by auto
  from key_ok [OF "2.prems"(1,2) this] obtain s1 K1 where
    s1: "keyboard_data (glyph M c sh k) s = Inr (Some (), s1)" "kbd_ok s1 K1" "typed s1 K1 = press (glyph M c sh k) (typed s K)"
    "reading s1 = reading s" "calling_pid s1 = calling_pid s" "\<forall>Q. running s1 Q \<longleftrightarrow> running s Q" by blast
  from "2.IH" [OF s1(2)] "2.prems"(2,3) s1 show ?case by simp
next
  case (4 M c ss)
  have "kbd_ok (kbd_leds (ucast (flags (\<not> c))) s) K" using "4.prems"(1) by simp
  from "4.IH" [OF this] "4.prems"(2,3) show ?case by simp
qed auto

text \<open>No key with a character sends the code of the return key.\<close>

definition not_return :: "u16 \<Rightarrow> u16 \<Rightarrow> bool" where
  "not_return x y \<longleftrightarrow> (if sym_type x = 0xf0 \<or> sym_type x = 0xfb then sym_val x \<noteq> 13 \<and> sym_val y \<noteq> 13 else True)"

lemma defkeymap_not_return: "list_all2 not_return plain_map shift_map" "list_all2 not_return shift_map plain_map"
  by code_simp+

lemma glyph_not_return:
  assumes "stroke_ok defkeymap (Key sh k)"
  shows "glyph defkeymap c sh k \<noteq> CHR 13"
proof -
  let ?x = "keys_of defkeymap sh ! unat k" and ?y = "keys_of defkeymap (\<not> sh) ! unat k"
  have "not_return ?x ?y"
    using defkeymap_not_return defkeymap_lengths unat_bound8 [of k]
    by (cases sh) (auto simp: keys_of_def defkeymap_def list_all2_conv_all_nth)
  moreover have "sym_type ?x = 0xf0 \<or> sym_type ?x = 0xfb" using assms by simp
  ultimately have "sym_val (if sym_type ?x = 0xfb \<and> c then ?y else ?x) \<noteq> 13" by (auto simp: not_return_def)
  moreover have "char_of (unat v) = CHR 13 \<longrightarrow> v = 13" for v :: u8
  proof
    assume "char_of (unat v) = CHR 13"
    then have "of_char (char_of (unat v) :: char) = (of_char (CHR 13) :: nat)" by simp
    then have "unat v mod 256 = 13" by simp
    then show "v = 13" using unat_bound8 [of v] by (metis mod_less of_nat_unat of_nat_numeral ucast_id)
  qed
  ultimately show ?thesis unfolding glyph_def Let_def by blast
qed

lemma text_not_return:
  "list_all (stroke_ok defkeymap) sts \<Longrightarrow> Enter \<notin> set sts \<Longrightarrow> CHR 13 \<notin> set (text_of defkeymap c sts)"
proof (induction sts arbitrary: c)
  case (Cons st sts)
  have ok: "stroke_ok defkeymap st" "st \<noteq> Enter" and IH: "CHR 13 \<notin> set (text_of defkeymap c' sts)" for c'
    using Cons by auto
  show ?case
  proof (cases st)
    case (Key sh k)
    then have "glyph defkeymap c sh k \<noteq> CHR 13" using ok(1) glyph_not_return by blast
    then show ?thesis using IH [of c] Key by auto
  qed (use ok IH in auto)
qed simp

text \<open>Caps lock after some strokes.\<close>

definition caps_after :: "bool \<Rightarrow> stroke list \<Rightarrow> bool" where
  "caps_after c sts = (c \<noteq> odd (count_list sts Caps_Lock))"

lemma calls_of_append: "calls_of M c (pre @ sts) = calls_of M c pre @ calls_of M (caps_after c pre) sts"
proof (induction pre arbitrary: c)
  case (Cons st pre)
  have "caps_after c (Caps_Lock # pre) = caps_after (\<not> c) pre" by (auto simp: caps_after_def)
  moreover have "st \<noteq> Caps_Lock \<Longrightarrow> caps_after c (st # pre) = caps_after c pre" by (simp add: caps_after_def)
  ultimately show ?case using Cons by (cases st) simp_all
qed (simp add: caps_after_def)

text \<open>
  The keys of a line and the return key pressed (not yet released), on a driver that has seen complete strokes
  before, perhaps none. The first code of all also initialises the driver, which sets the lights.
\<close>

lemma line_calls:
  assumes pre: "list_all (stroke_ok defkeymap) pre" "map (\<lambda>e. ucast (snd e)) evs0 = concat (map scan_codes pre)"
    and sts: "list_all (stroke_ok defkeymap) sts" "map (\<lambda>e. ucast (snd e)) evs = concat (map scan_codes sts) @ [ENTER]"
  shows "\<exists>d0 d. mfold (\<lambda>(m, code). do_scancode defkeymap m code) evs0 static_drv = Inr d0
    \<and> mfold (\<lambda>(m, code). do_scancode defkeymap m code) evs d0 = Inr d
    \<and> calls d = calls d0 @ (if evs0 = [] then [Kbd_Leds 0] else [])
        @ calls_of defkeymap (caps_after False pre) sts @ [Keyboard_Data [CHR 13]]"
proof -
  let ?run = "mfold (\<lambda>(m, code). do_scancode defkeymap m code)"
  obtain e1 m code where evs: "evs = e1 @ [(m, code)]" "map (\<lambda>e. ucast (snd e)) e1 = concat (map scan_codes sts)" "ucast code = ENTER"
    using sts(2) by (cases evs rule: rev_cases) auto
  have first: "?run es static_drv = ?run es initialised" if "es \<noteq> []" for es
    using that by (cases es) (auto simp: first_scancode)
  obtain d1 c1 where d1: "?run evs0 initialised = Inr d1" "resting c1 ([Kbd_Leds 0] @ calls_of defkeymap False pre) d1"
    using fr.typing_runs [OF resting_initialised pre] by blast
  have all: "list_all (stroke_ok defkeymap) (pre @ sts)" "map (\<lambda>e. ucast (snd e)) (evs0 @ e1) = concat (map scan_codes (pre @ sts))"
    using pre sts(1) evs(2) by simp_all
  obtain d2 c2 where d2: "?run (evs0 @ e1) initialised = Inr d2" "resting c2 ([Kbd_Leds 0] @ calls_of defkeymap False (pre @ sts)) d2"
    using fr.typing_runs [OF resting_initialised all] by blast
  from fr.return_pressed [OF d2(2) evs(3), of m] obtain d where
    d: "do_scancode defkeymap m code d2 = Inr d" "calls d = [Kbd_Leds 0] @ calls_of defkeymap False (pre @ sts) @ [Keyboard_Data [CHR 13]]" by auto
  have run: "?run evs d1 = Inr d" using d2(1) d(1) unfolding evs(1) mfold_append d1(1) by simp
  have calls: "calls d1 = Kbd_Leds 0 # calls_of defkeymap False pre" using d1(2) by (simp add: resting_def pose_def)
  show ?thesis
  proof (cases "evs0 = []")
    case True
    have "?run evs static_drv = Inr d" using run d1(1) True first [of evs] evs(1) by simp
    moreover have "calls static_drv = []" by (simp add: static_drv_def)
    moreover have "calls_of defkeymap False pre = []"
    proof -
      have "concat (map scan_codes pre) = []" using pre(2) True by simp
      moreover have "scan_codes st \<noteq> []" for st by (cases st) auto
      ultimately have "pre = []" by (cases pre) auto
      then show ?thesis by simp
    qed
    ultimately show ?thesis using True d(2) by (simp add: calls_of_append)
  next
    case False
    then show ?thesis using first [OF False] d1(1) run d(2) calls by (simp add: calls_of_append)
  qed
qed

text \<open>
  C19: a line typed at the keyboard reaches the process that waits for it. Whatever complete strokes the driver has
  seen since it was loaded (\<open>pre\<close>: the lines before, with their return keys, and changes of caps lock), scan codes of keys
  with characters (with or without shift, and with caps lock switched at will), followed by the return key, go through
  the driver and the buffer: the line, edited by the erase key and cut at 100 characters, is in the buffer, which was
  empty, the waiting process is ready, and every call the driver made for this line has been carried out when the
  processor goes elsewhere, which it does at the last call only. Nothing else is assumed to happen between
  the keys, and the driver is run apart from the calls it makes, as said at the start of this theory.
\<close>

theorem scancodes_reach_reader:
  fixes s :: "('m, 'z) kbd_scheme"
  assumes run: "running s Q" and ok: "kbd_ok s K" "typed s K = []" and rd: "reading s \<noteq> 0"
    and p: "calling_pid s \<in> set (Q io_blocked)"
    and pre: "list_all (stroke_ok defkeymap) pre" "map (\<lambda>e. ucast (snd e)) evs0 = concat (map scan_codes pre)"
    and sts: "list_all (stroke_ok defkeymap) sts" "Enter \<notin> set sts"
    and codes: "map (\<lambda>e. ucast (snd e)) evs = concat (map scan_codes sts) @ [ENTER]"
    and line: "line = fold press (text_of defkeymap (odd (count_list pre Caps_Lock)) sts) []"
  shows "\<exists>d0 d new s' Q' K'. mfold (\<lambda>(m, code). do_scancode defkeymap m code) evs0 static_drv = Inr d0
    \<and> mfold (\<lambda>(m, code). do_scancode defkeymap m code) evs d0 = Inr d \<and> calls d = calls d0 @ new
    \<and> deliver new s = Inr (Some [], s') \<and> running s' Q' \<and> kbd_ok s' K'
    \<and> typed s' K' = (if length line < 100 then line @ [CHR 0x00] else line)
    \<and> p_state (proc s' (calling_pid s)) = actionable \<and> reading s' = 0"
proof -
  let ?c = "caps_after False pre"
  obtain d0 d where d: "mfold (\<lambda>(m, code). do_scancode defkeymap m code) evs0 static_drv = Inr d0"
    "mfold (\<lambda>(m, code). do_scancode defkeymap m code) evs d0 = Inr d"
    "calls d = calls d0 @ (if evs0 = [] then [Kbd_Leds 0] else []) @ calls_of defkeymap ?c sts @ [Keyboard_Data [CHR 13]]"
    using line_calls [OF pre sts(1) codes] by blast
  define new where "new = (if evs0 = [] then [Kbd_Leds 0] else []) @ calls_of defkeymap ?c sts @ [Keyboard_Data [CHR 13]]"
  have c: "?c = odd (count_list pre Caps_Lock)" by (simp add: caps_after_def)
  define s0 where "s0 = (if evs0 = [] then kbd_leds 0 s else s)"
  have ok0: "kbd_ok s0 K" "reading s0 \<noteq> 0" "typed s0 K = []" "calling_pid s0 = calling_pid s" "running s0 Q"
    using ok rd run by (simp_all add: s0_def)
  have "deliver new s = deliver (calls_of defkeymap ?c sts @ [Keyboard_Data [CHR 13]]) s0" by (simp add: new_def s0_def)
  moreover obtain s1 K1 where s1': "deliver (calls_of defkeymap ?c sts @ [Keyboard_Data [CHR 13]]) s0 = deliver [Keyboard_Data [CHR 13]] s1"
    "kbd_ok s1 K1" "typed s1 K1 = line" "reading s1 = reading s0" "calling_pid s1 = calling_pid s0" "running s1 Q"
    using deliver_text [OF ok0(1,2) text_not_return [OF sts, of ?c], where cs = "[Keyboard_Data [CHR 13]]"] ok0(3,5)
    unfolding line c by metis
  ultimately have s1: "deliver new s = deliver [Keyboard_Data [CHR 13]] s1" "kbd_ok s1 K1" "typed s1 K1 = line"
    "reading s1 \<noteq> 0" "calling_pid s1 = calling_pid s" "running s1 Q" using ok0(2,4) by simp_all
  have "calling_pid s1 \<in> set (Q io_blocked)" using s1(5) p by simp
  from enter_ok [OF s1(6,2,4) this] obtain s' Q' K' where
    "keyboard_data (CHR 13) s1 = Inr (None, s')" "running s' Q'" "kbd_ok s' K'" "reading s' = 0"
    "typed s' K' = (if length line < 100 then line @ [CHR 0x00] else line)" "p_state (proc s' (calling_pid s)) = actionable"
    unfolding s1(3,5) by blast
  with d(1,2) d(3) [folded new_def] s1(1) show ?thesis by (intro exI [of _ d0] exI [of _ d] exI [of _ new] exI) auto
qed

text \<open>The second line after an empty one and with caps lock on.\<close>

lemma scancodes_reach_reader_witness:
  "\<exists>s0 s d0 d new s' K'. init_buffer ex_kbd = Inr s0 \<and> cons_read 0x1000000 10 s0 = Inr (None, s)
     \<and> mfold (\<lambda>(m, code). do_scancode defkeymap m code) (map (Pair (\<lambda>_. 0)) [0x1c, 0x9c, 0x3a, 0xba]) static_drv = Inr d0
     \<and> mfold (\<lambda>(m, code). do_scancode defkeymap m code) (map (Pair (\<lambda>_. 0)) [0x1e, 0x9e, 0x2a, 0x10, 0x90, 0xaa, 0x1c]) d0 = Inr d
     \<and> calls d = calls d0 @ new
     \<and> deliver new s = Inr (Some [], s') \<and> typed s' K' = [CHR ''Q'', CHR ''a'', CHR 0x00] \<and> p_state (proc s' 1) = actionable"
proof -
  let ?sts = "[Key False 0x1e, Key True 0x10]" and ?evs = "map (Pair (\<lambda>_. 0)) [0x1e, 0x9e, 0x2a, 0x10, 0x90, 0xaa, 0x1c] :: (mem \<times> u32) list"
  let ?pre = "[Enter, Caps_Lock]" and ?early = "map (Pair (\<lambda>_. 0)) [0x1c, 0x9c, 0x3a, 0xba] :: (mem \<times> u32) list"
  obtain s0 s Q K where s: "init_buffer ex_kbd = Inr s0" "cons_read 0x1000000 10 s0 = Inr (None, s)" "running s Q" "kbd_ok s K"
    "typed s K = []" "reading s = 1" "calling_pid s = 1" "1 \<in> set (Q io_blocked)" using ex_waiting by blast
  have keys: "keys_of defkeymap False ! 30 = 0xfb71" "keys_of defkeymap True ! 16 = 0xfb41"
    "keys_of defkeymap True ! 30 = 0xfb51" "keys_of defkeymap False ! 16 = 0xfb61"
    by (simp_all add: keys_of_def defkeymap_def plain_map_def shift_map_def)
  have sts: "list_all (stroke_ok defkeymap) ?sts" "Enter \<notin> set ?sts" by (simp_all add: keys sym_type_def)
  have pre: "list_all (stroke_ok defkeymap) ?pre" "map (\<lambda>e. ucast (snd e)) ?early = concat (map scan_codes ?pre)" by simp_all
  have codes: "map (\<lambda>e. ucast (snd e)) ?evs = concat (map scan_codes ?sts) @ [ENTER]" by simp
  have line: "[CHR ''Q'', CHR ''a''] = fold press (text_of defkeymap (odd (count_list ?pre Caps_Lock)) ?sts) []"
    by (simp add: glyph_def keys sym_type_def sym_val_def char_of_def bit_0 press_def)
  have "reading s \<noteq> 0" "calling_pid s \<in> set (Q io_blocked)" using s by simp_all
  from scancodes_reach_reader [OF s(3,4,5) this pre sts codes line] s(1,2,7) show ?thesis by auto
qed

end
