(* ===== verification/Alloc.thy ===== *)
theory Alloc
  imports CString
begin

text \<open>
  The defensive wrapper of the memory allocator at the two ends of \<^verbatim>\<open>shared/malloc.c.h\<close>: \<^verbatim>\<open>sbrk\<close>,
  \<^verbatim>\<open>mem_alloc\<close>, \<^verbatim>\<open>mem_free\<close> and \<^verbatim>\<open>mem_free_nolength\<close>, with the names of the user instance
  (\<^verbatim>\<open>user/mem.c\<close>). The allocator between them, dlmalloc, is a parameter: the record \<open>dlmalloc\<close> has its
  two entry points on a heap state of any type and the byte memory. The wrapper surrounds each block by
  two guard words on each side, clears it, and checks the guards when it is freed.
\<close>

section \<open>Definitions\<close>

text \<open>
  The faults of a user program: \<^verbatim>\<open>mem_bug\<close> prints its reason and writes to address 0, which is not
  mapped; the others are those of the kernel's code.
\<close>

datatype ufault = MemBug string | Fault fault

type_synonym 'a uresult = "ufault + 'a"

definition mem_bug :: "string \<Rightarrow> 'a uresult" where
  "mem_bug reason = Inl (MemBug reason)"

record 'h dlmalloc =
  public_mALLOc :: "u32 \<Rightarrow> 'h \<times> mem \<Rightarrow> addr \<times> 'h \<times> mem"
  public_fREe :: "addr \<Rightarrow> 'h \<times> mem \<Rightarrow> 'h \<times> mem"

text \<open>\<^verbatim>\<open>sbrk\<close> on the variable \<^verbatim>\<open>curptr\<close>: the old value, or -1 when the heap has no room or would shrink.\<close>

definition sbrk :: "addr \<Rightarrow> u32 \<Rightarrow> addr \<Rightarrow> addr \<times> addr" where
  "sbrk mem_heap_end diff curptr =
     (let c = curptr + diff in
      if c < curptr \<or> c > mem_heap_end then (-1, curptr) else (curptr, c))"

abbreviation MAGIC_BEFORE :: u32 where "MAGIC_BEFORE \<equiv> 0xa51234ab"
abbreviation MAGIC_AFTER :: u32 where "MAGIC_AFTER \<equiv> 0xdeadfedc"

text \<open>The size of a block in double words, guards included.\<close>

definition block_words :: "u32 \<Rightarrow> u32" where
  "block_words len = (len + 4 - 1) div 4 + 4"

definition umem_alloc :: "'h dlmalloc \<Rightarrow> u32 \<Rightarrow> 'h \<times> mem \<Rightarrow> addr \<times> 'h \<times> mem" where
  "umem_alloc D len hm =
     (let l = block_words len; l2 = l * 4 in
      if len = 0 then (0, hm)
      else if l2 \<le> len then (0, hm)
      else
        (let (p, h, m) = public_mALLOc D l2 hm in
         if p = 0 then (0, h, m)
         else
           (let m1 = store32 m p len;
                m2 = store32 m1 (p + 4) MAGIC_BEFORE;
                m3 = store32 m2 (p + 4 * (l - 2)) MAGIC_AFTER;
                m4 = store32 m3 (p + 4 * (l - 1)) p
            in (p + 8, h, memset m4 (p + 8) 0 (l2 - 16)))))"

abbreviation BAD_BEFORE :: string where
  "BAD_BEFORE \<equiv> ''allocator error : memory just before the block corrupted or block already freed''"
abbreviation BAD_LENGTH :: string where
  "BAD_LENGTH \<equiv> ''allocator error : not the same length as when allocated''"
abbreviation BAD_AFTER :: string where
  "BAD_AFTER \<equiv> ''allocator error : memory just after the block corrupted''"
abbreviation BAD_ADDRESS :: string where
  "BAD_ADDRESS \<equiv> ''allocator error : wrong block address or memory just after the block corrupted''"

definition umem_free :: "'h dlmalloc \<Rightarrow> addr \<Rightarrow> u32 \<Rightarrow> 'h \<times> mem \<Rightarrow> ('h \<times> mem) uresult" where
  "umem_free D zone len hm =
     (let p = zone - 8; l = block_words len; (h, m) = hm in
      if len = 0 then Inr hm
      else if load32 m (p + 4) \<noteq> MAGIC_BEFORE then mem_bug BAD_BEFORE
      else if load32 m p \<noteq> len then mem_bug BAD_LENGTH
      else if load32 m (p + 4 * (l - 2)) \<noteq> MAGIC_AFTER then mem_bug BAD_AFTER
      else if load32 m (p + 4 * (l - 1)) \<noteq> p then mem_bug BAD_ADDRESS
      else Inr (public_fREe D p (h, memset m p 0 (l * 4))))"

definition umem_free_nolength :: "'h dlmalloc \<Rightarrow> addr \<Rightarrow> 'h \<times> mem \<Rightarrow> ('h \<times> mem) uresult" where
  "umem_free_nolength D zone hm = umem_free D zone (load32 (snd hm) (zone - 8)) hm"

section \<open>Sizes\<close>

text \<open>The room of a block between its guards: its length rounded up to double words.\<close>

definition room4 :: "nat \<Rightarrow> nat" where
  "room4 n = 4 * ((n + 3) div 4)"

lemma room4_ge: "n \<le> room4 n" and room4_le: "room4 n \<le> n + 3"
  by (simp_all add: room4_def)

lemma mod_once: "b \<le> (a :: nat) \<Longrightarrow> a < 2 * b \<Longrightarrow> a mod b + b = a"
  by (simp add: le_mod_geq)

text \<open>The test of \<^verbatim>\<open>mem_alloc\<close> on its sizes excludes every wrap-around.\<close>

lemma block_words_fits:
  assumes "len < block_words len * 4"
  shows "unat (block_words len) = room4 (unat len) div 4 + 4" and "room4 (unat len) + 16 < 2 ^ 32"
proof -
  have n: "unat len < 2 ^ 32" using unsigned_less [of len, where 'a = nat] by simp
  have e: "block_words len = (len + 3) div 4 + 4" by (simp add: block_words_def add_diff_eq [symmetric])
  have u3: "unat (len + 3) = (unat len + 3) mod 2 ^ 32" by (simp add: unat_word_ariths)
  have ub: "unat (block_words len) = unat (len + 3) div 4 + 4"
    unfolding e using unsigned_less [of "len + 3", where 'a = nat] by (simp add: unat_word_ariths unat_div)
  have u4: "unat (block_words len * 4) = (4 * (unat (len + 3) div 4) + 16) mod 2 ^ 32"
    by (simp add: unat_word_ariths ub mult.commute)
  have lt: "unat len < unat (block_words len * 4)" using assms by (simp add: word_less_nat_alt)
  have nowrap: "unat len + 3 < 2 ^ 32"
  proof (rule ccontr)
    assume "\<not> unat len + 3 < 2 ^ 32"
    then have "unat (len + 3) = unat len + 3 - 2 ^ 32" using n unfolding u3 by (subst mod_if) simp
    then have "unat (len + 3) < 3" using n by linarith
    then have "unat (block_words len * 4) \<le> 16" using u4 by simp
    with lt \<open>\<not> unat len + 3 < 2 ^ 32\<close> show False by simp
  qed
  then have l3: "unat (len + 3) = unat len + 3" using u3 by simp
  show "unat (block_words len) = room4 (unat len) div 4 + 4" using ub l3 by (simp add: room4_def)
  show "room4 (unat len) + 16 < 2 ^ 32"
  proof (rule ccontr)
    assume "\<not> room4 (unat len) + 16 < 2 ^ 32"
    moreover have "unat (block_words len * 4) = (room4 (unat len) + 16) mod 2 ^ 32"
      using u4 by (simp add: l3 room4_def)
    moreover have "room4 (unat len) + 16 < 2 * 2 ^ 32" using room4_le [of "unat len"] n by simp
    ultimately have "unat (block_words len * 4) + 2 ^ 32 = room4 (unat len) + 16"
      using mod_once [of "2 ^ 32" "room4 (unat len) + 16"] by linarith
    with lt room4_le [of "unat len"] show False by simp
  qed
qed

lemma block_words_offsets:
  assumes "len < block_words len * 4"
  shows "4 * (block_words len - 2) = of_nat (room4 (unat len)) + 8"
    and "4 * (block_words len - 1) = of_nat (room4 (unat len)) + 12"
    and "block_words len * 4 = of_nat (room4 (unat len) + 16)"
proof -
  have "block_words len = of_nat (room4 (unat len) div 4 + 4)"
    by (simp add: block_words_fits(1) [OF assms, symmetric])
  then have "4 * block_words len = of_nat (4 * (room4 (unat len) div 4 + 4))" by simp
  also have "4 * (room4 (unat len) div 4 + 4) = room4 (unat len) + 16" by (simp add: room4_def)
  finally have e: "4 * block_words len = of_nat (room4 (unat len) + 16)" .
  show "4 * (block_words len - 2) = of_nat (room4 (unat len)) + 8"
    and "4 * (block_words len - 1) = of_nat (room4 (unat len)) + 12"
    and "block_words len * 4 = of_nat (room4 (unat len) + 16)"
    using e by (simp_all add: right_diff_distrib mult.commute)
qed

text \<open>Offsets from a common base.\<close>

lemma unat_offset_diff:
  fixes p :: u32
  assumes "i < 2 ^ 32" and "j < 2 ^ 32"
  shows "unat (p + of_nat i - (p + of_nat j)) = (if j \<le> i then i - j else 2 ^ 32 + i - j)"
proof (cases "j \<le> i")
  case True
  then have e: "p + of_nat i - (p + of_nat j) = of_nat (i - j)" by (simp add: of_nat_diff)
  have "unat (of_nat (i - j) :: u32) = i - j" using assms by (subst unat_of_nat) simp
  with True e show ?thesis by simp
next
  case False
  have "(of_nat (2 ^ 32 + i - j) :: u32) = of_nat (2 ^ 32) + of_nat i - of_nat j"
    using assms by (subst of_nat_diff) auto
  also have "(of_nat (2 ^ 32) :: u32) = 0" by simp
  finally have e: "p + of_nat i - (p + of_nat j) = of_nat (2 ^ 32 + i - j)" by simp
  have "unat (of_nat (2 ^ 32 + i - j) :: u32) = 2 ^ 32 + i - j" using assms False by (subst unat_of_nat) simp
  with False e show ?thesis by simp
qed

lemma apart4_offset:
  assumes "i + 4 \<le> j" and "j + 4 \<le> 2 ^ 32 + i" and "j < 2 ^ 32"
  shows "apart4 (p + of_nat i) (p + of_nat j)" and "apart4 (p + of_nat j) (p + of_nat i)"
proof -
  have "unat (p + of_nat i - (p + of_nat j)) = 2 ^ 32 + i - j" "unat (p + of_nat j - (p + of_nat i)) = j - i"
    using assms by (subst unat_offset_diff; simp)+
  then have "4 \<le> p + of_nat i - (p + of_nat j)" "4 \<le> p + of_nat j - (p + of_nat i)"
    using assms by (simp_all only: word_le_nat_alt) simp_all
  then show "apart4 (p + of_nat i) (p + of_nat j)" and "apart4 (p + of_nat j) (p + of_nat i)"
    unfolding apart4_def by blast+
qed

lemma load32_cong: "(\<And>i. i < 4 \<Longrightarrow> m' (a + of_nat i) = m (a + of_nat i)) \<Longrightarrow> load32 m' a = load32 m a"
proof -
  assume "\<And>i. i < 4 \<Longrightarrow> m' (a + of_nat i) = m (a + of_nat i)"
  from this [of 0] this [of 1] this [of 2] this [of 3] show ?thesis by (simp add: load32_def)
qed

lemma load32_eq_iff: "load32 m' a = load32 m a \<longleftrightarrow> (\<forall>i < 4. m' (a + of_nat i) = m (a + of_nat i))"
proof
  assume e: "load32 m' a = load32 m a"
  have "i = 0 \<or> i = 1 \<or> i = 2 \<or> i = 3" if "i < 4" for i :: nat using that by auto
  then show "\<forall>i < 4. m' (a + of_nat i) = m (a + of_nat i)"
    using load32_bytes [of m' a] load32_bytes [of m a] unfolding e by fastforce
qed (rule load32_cong, simp)

section \<open>Guards\<close>

text \<open>The zone \<open>z\<close> of \<open>n\<close> bytes has the four guard words that \<^verbatim>\<open>mem_alloc\<close> writes.\<close>

definition guarded :: "mem \<Rightarrow> addr \<Rightarrow> nat \<Rightarrow> bool" where
  "guarded m z n \<longleftrightarrow> load32 m (z - 8) = of_nat n \<and> load32 m (z - 4) = MAGIC_BEFORE
     \<and> load32 m (z + of_nat (room4 n)) = MAGIC_AFTER \<and> load32 m (z + of_nat (room4 n) + 4) = z - 8"

text \<open>The first double word at or after a byte offset, and what \<^verbatim>\<open>memset\<close> leaves of it.\<close>

lemma load32_memset_outside:
  assumes "unat (a - q) \<ge> unat n" and "unat (a - q) + 4 \<le> 2 ^ 32"
  shows "load32 (memset m q c n) a = load32 m a"
proof (rule load32_cong)
  fix i :: nat assume "i < 4"
  then have "unat (a + of_nat i - q) = unat (a - q) + i"
    using assms unat_add_offset [of "a - q" 4 i] by (simp add: algebra_simps)
  with assms show "memset m q c n (a + of_nat i) = m (a + of_nat i)" by (simp add: memset_fill)
qed

lemma umem_alloc_cases:
  assumes "umem_alloc D len hm = (z, h', m')" and "z \<noteq> 0"
  obtains p h m where "len \<noteq> 0" and "len < block_words len * 4"
    and "public_mALLOc D (block_words len * 4) hm = (p, h, m)" and "p \<noteq> 0" and "z = p + 8" and "h' = h"
    and "m' = memset (store32 (store32 (store32 (store32 m p len) (p + 4) MAGIC_BEFORE)
           (p + (of_nat (room4 (unat len)) + 8)) MAGIC_AFTER) (p + (of_nat (room4 (unat len)) + 12)) p)
           (p + 8) 0 (of_nat (room4 (unat len)))"
proof -
  have l: "len \<noteq> 0" "len < block_words len * 4"
    using assms by (auto simp: umem_alloc_def Let_def not_le split: if_splits)
  obtain p h m where "public_mALLOc D (block_words len * 4) hm = (p, h, m)" by (metis prod_cases3)
  with assms l block_words_offsets [OF l(2)] that show ?thesis
    by (auto simp: umem_alloc_def Let_def ac_simps split: if_splits)
qed

lemma umem_alloc_guarded:
  assumes "umem_alloc D len hm = (z, h', m')" and "z \<noteq> 0"
  shows "guarded m' z (unat len)" and "\<forall>i < room4 (unat len). m' (z + of_nat i) = 0"
    and "room4 (unat len) + 16 < 2 ^ 32" and "len \<noteq> 0"
proof -
  obtain p h m where c: "len \<noteq> 0" "len < block_words len * 4" "z = p + 8"
    "m' = memset (store32 (store32 (store32 (store32 m p len) (p + 4) MAGIC_BEFORE)
           (p + (of_nat (room4 (unat len)) + 8)) MAGIC_AFTER) (p + (of_nat (room4 (unat len)) + 12)) p)
           (p + 8) 0 (of_nat (room4 (unat len)))"
    using umem_alloc_cases [OF assms] by metis
  define r where "r = room4 (unat len)"
  have r: "r + 16 < 2 ^ 32" using block_words_fits(2) [OF c(2)] by (simp add: r_def)
  then show "room4 (unat len) + 16 < 2 ^ 32" by (simp add: r_def)
  show "len \<noteq> 0" by fact
  have ur: "unat (of_nat r :: u32) = r" using r by (simp add: unat_of_nat)
  show "\<forall>i < room4 (unat len). m' (z + of_nat i) = 0"
    using r unfolding c(3,4) r_def [symmetric] by (auto simp: memset_fill ur unat_of_nat)
  have ap: "apart4 (p + of_nat i) (p + of_nat j)" "apart4 (p + of_nat j) (p + of_nat i)"
    if "i + 4 \<le> j" "j \<le> r + 12" for i j
    using that r by (intro apart4_offset; simp)+
  note ap' = ap [of 0 4] ap [of 0 "r + 8"] ap [of 0 "r + 12"] ap [of 4 "r + 8"] ap [of 4 "r + 12"] ap [of "r + 8" "r + 12"]
  have "load32 (memset m q 0 (of_nat r)) a = load32 m a"
    if "q = p + of_nat 8" "a = p + of_nat j" "j + 4 \<le> 8 \<or> r + 8 \<le> j" "j \<le> r + 12" for m q a j
    using that r unat_offset_diff [of j 8 p] by (intro load32_memset_outside) (auto simp: ur)
  note out = this
  have o: "load32 (memset m (p + 8) 0 (of_nat r)) p = load32 m p"
    "load32 (memset m (p + 8) 0 (of_nat r)) (p + 4) = load32 m (p + 4)"
    "load32 (memset m (p + 8) 0 (of_nat r)) (p + (of_nat r + 8)) = load32 m (p + (of_nat r + 8))"
    "load32 (memset m (p + 8) 0 (of_nat r)) (p + (of_nat r + 12)) = load32 m (p + (of_nat r + 12))" for m
    using out [of _ p 0] out [of _ _ 4] out [of _ _ "r + 8"] out [of _ _ "r + 12"] by (simp_all add: add.commute)
  have "load32 m' p = len" "load32 m' (p + 4) = MAGIC_BEFORE" "load32 m' (p + (of_nat r + 8)) = MAGIC_AFTER"
    "load32 m' (p + (of_nat r + 12)) = p"
    unfolding c(4) r_def [symmetric] o using ap' by (simp_all add: load32_store32_apart add.commute [of 8] add.commute [of 12])
  then show "guarded m' z (unat len)"
    unfolding guarded_def c(3) r_def [symmetric] by (simp add: algebra_simps)
qed


section \<open>Freeing\<close>

text \<open>On a zone whose length did not wrap around, \<^verbatim>\<open>mem_free\<close> checks the four guard words.\<close>

lemma umem_free_checks:
  assumes "len \<noteq> 0" and "len < block_words len * 4"
  shows "umem_free D z len (h, m) =
    (if load32 m (z - 4) \<noteq> MAGIC_BEFORE then Inl (MemBug BAD_BEFORE)
     else if load32 m (z - 8) \<noteq> len then Inl (MemBug BAD_LENGTH)
     else if load32 m (z + of_nat (room4 (unat len))) \<noteq> MAGIC_AFTER then Inl (MemBug BAD_AFTER)
     else if load32 m (z + of_nat (room4 (unat len)) + 4) \<noteq> z - 8 then Inl (MemBug BAD_ADDRESS)
     else Inr (public_fREe D (z - 8) (h, memset m (z - 8) 0 (of_nat (room4 (unat len) + 16)))))"
proof -
  have a: "z - 8 + 4 * (block_words len - 2) = z + of_nat (room4 (unat len))"
    "z - 8 + 4 * (block_words len - 1) = z + of_nat (room4 (unat len)) + 4" "z - 8 + 4 = z - 4"
    unfolding block_words_offsets [OF assms(2)] by simp_all
  show ?thesis
    using assms(1) unfolding umem_free_def Let_def block_words_offsets(3) [OF assms(2)] mem_bug_def a by simp
qed

lemma umem_free_guarded:
  assumes "len \<noteq> 0" and "len < block_words len * 4"
  shows "(\<exists>r. umem_free D z len (h, m) = Inr r) \<longleftrightarrow> guarded m z (unat len)"
  unfolding umem_free_checks [OF assms] guarded_def by auto

text \<open>
  C32: \<^verbatim>\<open>mem_free\<close> finds every write outside a block. Whatever a program writes to memory after
  \<^verbatim>\<open>mem_alloc\<close> gave it the zone \<open>z\<close> (the memory becomes \<open>m2\<close>), \<^verbatim>\<open>mem_free\<close> with the same length accepts the
  zone exactly if the eight bytes before it and the eight bytes after its last double word are as
  \<^verbatim>\<open>mem_alloc\<close> left them; with another length that is not 0 it is refused, as long as the bytes before the zone are
  intact. A length of 0 is the exception: the call returns at once, whatever the zone, and frees nothing. The fresh
  zone is cleared.
\<close>

theorem mem_free_checks:
  assumes "umem_alloc D len hm = (z, h1, m1)" and "z \<noteq> 0"
  shows "((\<exists>r. umem_free D z len (h2, m2) = Inr r) \<longleftrightarrow>
      (\<forall>i < 8. m2 (z - 8 + of_nat i) = m1 (z - 8 + of_nat i)
        \<and> m2 (z + of_nat (room4 (unat len)) + of_nat i) = m1 (z + of_nat (room4 (unat len)) + of_nat i)))
    \<and> ((\<forall>i < 8. m2 (z - 8 + of_nat i) = m1 (z - 8 + of_nat i)) \<longrightarrow> len2 \<noteq> len \<longrightarrow>
        umem_free D z len2 (h2, m2) = (if len2 = 0 then Inr (h2, m2) else Inl (MemBug BAD_LENGTH)))
    \<and> umem_free D z' 0 (h2, m2) = Inr (h2, m2)
    \<and> (\<forall>i < room4 (unat len). m1 (z + of_nat i) = 0)"
proof -
  have len: "len \<noteq> 0" "len < block_words len * 4"
    using umem_alloc_cases [OF assms] by metis+
  note g = umem_alloc_guarded [OF assms]
  have g1: "load32 m1 (z - 8) = len" "load32 m1 (z - 4) = MAGIC_BEFORE"
    using g(1) by (simp_all add: guarded_def)
  have eight: "(\<forall>i < 8. m2 (a + of_nat i) = m1 (a + of_nat i)) \<longleftrightarrow>
      load32 m2 a = load32 m1 a \<and> load32 m2 (a + 4) = load32 m1 (a + 4)" for a
  proof -
    have "(\<forall>i < 8. P i) \<longleftrightarrow> (\<forall>i < 4. P i) \<and> (\<forall>i < 4. P (4 + i))" for P :: "nat \<Rightarrow> bool"
    proof (intro iffI allI impI conjI; (elim conjE)?)
      fix i :: nat assume "\<forall>i < 4. P i" "\<forall>i < 4. P (4 + i)" "i < 8"
      then show "P i" by (cases "i < 4") (auto dest: spec [of _ "i - 4"])
    qed auto
    from this [of "\<lambda>i. m2 (a + of_nat i) = m1 (a + of_nat i)"] show ?thesis
      by (simp add: load32_eq_iff add.assoc)
  qed
  have z4: "z - 8 + 4 = z - 4" by simp
  have "guarded m2 z (unat len) \<longleftrightarrow>
      (\<forall>i < 8. m2 (z - 8 + of_nat i) = m1 (z - 8 + of_nat i))
      \<and> (\<forall>i < 8. m2 (z + of_nat (room4 (unat len)) + of_nat i) = m1 (z + of_nat (room4 (unat len)) + of_nat i))"
    using g(1) unfolding eight z4 by (auto simp: guarded_def)
  moreover have "umem_free D z len2 (h2, m2) = (if len2 = 0 then Inr (h2, m2) else Inl (MemBug BAD_LENGTH))"
    if "\<forall>i < 8. m2 (z - 8 + of_nat i) = m1 (z - 8 + of_nat i)" "len2 \<noteq> len"
    using that g1 unfolding eight z4 by (simp add: umem_free_def Let_def mem_bug_def)
  moreover have "umem_free D z' 0 (h2, m2) = Inr (h2, m2)" by (simp add: umem_free_def)
  ultimately show ?thesis
    unfolding umem_free_guarded [OF len] using g(2) by blast
qed


text \<open>Five bytes, freed as six, as none, then as five.\<close>

definition one_block :: "unit dlmalloc" where
  "one_block = \<lparr>public_mALLOc = (\<lambda>n (h, m). (0x3000, h, m)), public_fREe = (\<lambda>p hm. hm)\<rparr>"

lemma mem_free_checks_witness:
  "umem_free one_block 0x3008 6 ((), snd (snd (umem_alloc one_block 5 ((), \<lambda>_. 0))))
      = Inl (MemBug ''allocator error : not the same length as when allocated'')
   \<and> umem_free one_block 0x3008 0 ((), \<lambda>_. 0) = Inr ((), \<lambda>_. 0)
   \<and> (\<exists>r. umem_free one_block 0x3008 5 ((), snd (snd (umem_alloc one_block 5 ((), \<lambda>_. 0)))) = Inr r)"
proof -
  have "block_words 5 = 6" by (simp add: block_words_def)
  then have a: "umem_alloc one_block 5 ((), \<lambda>_. 0) = (0x3008, (), snd (snd (umem_alloc one_block 5 ((), \<lambda>_. 0))))"
    by (simp add: umem_alloc_def one_block_def Let_def)
  from mem_free_checks [OF a, of "()" "\<lambda>_. 0" 6 "0x3008"] mem_free_checks [OF a, of "()" "snd (snd (umem_alloc one_block 5 ((), \<lambda>_. 0)))" 6]
  show ?thesis by simp
qed

section \<open>Blocks of the heap\<close>

text \<open>The addresses of a block and of a list of blocks, and blocks that do not meet.\<close>

definition span :: "addr \<Rightarrow> nat \<Rightarrow> addr set" where
  "span p n = {x. unat (x - p) < n}"

definition owned :: "(addr \<times> nat) list \<Rightarrow> addr set" where
  "owned bs = (\<Union>(p, n) \<in> set bs. span p n)"

fun sep :: "(addr \<times> nat) list \<Rightarrow> bool" where
  "sep [] \<longleftrightarrow> True"
| "sep ((p, n) # bs) \<longleftrightarrow> 0 < n \<and> span p n \<inter> owned bs = {} \<and> sep bs"

lemma owned_simps [simp]: "owned [] = {}" "owned ((p, n) # bs) = span p n \<union> owned bs"
  by (auto simp: owned_def)

lemma span_sub_owned: "(p, n) \<in> set bs \<Longrightarrow> span p n \<subseteq> owned bs"
  by (auto simp: owned_def)

lemma owned_remove1: "owned (remove1 b bs) \<subseteq> owned bs"
  by (auto simp: owned_def dest: set_remove1_subset [THEN subsetD])

lemma span_base: "0 < n \<Longrightarrow> p \<in> span p n"
  by (simp add: span_def)

lemma sep_pos: "sep bs \<Longrightarrow> (p, n) \<in> set bs \<Longrightarrow> 0 < n"
  by (induction bs rule: sep.induct) auto

lemma sep_remove1:
  "sep bs \<Longrightarrow> (p, n) \<in> set bs \<Longrightarrow> sep (remove1 (p, n) bs) \<and> span p n \<inter> owned (remove1 (p, n) bs) = {}"
proof (induction bs rule: sep.induct)
  case (2 q k bs)
  show ?case
  proof (cases "(q, k) = (p, n)")
    case False
    with 2 have m: "(p, n) \<in> set bs" by auto
    with 2 have "sep (remove1 (p, n) bs)" "span p n \<inter> owned (remove1 (p, n) bs) = {}" by auto
    moreover have "span q k \<inter> span p n = {}" using 2(2) span_sub_owned [OF m] by auto
    moreover have "span q k \<inter> owned (remove1 (p, n) bs) = {}" using 2(2) owned_remove1 [of "(p, n)" bs] by auto
    ultimately show ?thesis using False 2(2) by auto
  qed (use 2 in auto)
qed simp

lemma sep_distinct: "sep bs \<Longrightarrow> distinct bs"
proof (induction bs rule: sep.induct)
  case (2 p n bs)
  then have "(p, n) \<notin> set bs" using span_sub_owned [of p n bs] span_base [of n p] by auto
  with 2 show ?case by simp
qed simp

text \<open>Two blocks of a heap with a common address are the same block.\<close>

lemma sep_same: "sep bs \<Longrightarrow> (p, n) \<in> set bs \<Longrightarrow> (q, k) \<in> set bs \<Longrightarrow> span p n \<inter> span q k \<noteq> {} \<Longrightarrow> (p, n) = (q, k)"
  using sep_remove1 [of bs p n] span_sub_owned [of q k "remove1 (p, n) bs"] sep_distinct [of bs]
  by (auto simp: set_remove1_eq)

text \<open>
  What dlmalloc promises, for heap states with the blocks \<open>live h\<close> in use in the region \<open>H\<close>: a
  successful \<^verbatim>\<open>malloc\<close> returns a block of the region that meets no block in use, \<^verbatim>\<open>free\<close> gives a block in
  use back, and neither writes to blocks in use or outside the region. \<open>spare h\<close> is a number of small
  blocks (up to 128 bytes) for which the heap still has room.
\<close>

definition malloc_laws :: "'h dlmalloc \<Rightarrow> ('h \<Rightarrow> (addr \<times> nat) list) \<Rightarrow> ('h \<Rightarrow> nat) \<Rightarrow> addr set \<Rightarrow> bool" where
  "malloc_laws D live spare H \<longleftrightarrow>
     (\<forall>n h m p h' m'. public_mALLOc D n (h, m) = (p, h', m') \<and> p \<noteq> 0 \<longrightarrow>
        live h' = (p, unat n) # live h \<and> unat p + unat n \<le> 2 ^ 32
        \<and> span p (unat n) \<subseteq> H - owned (live h)
        \<and> (\<forall>x. x \<in> owned (live h) \<or> x \<notin> H \<longrightarrow> m' x = m x))
     \<and> (\<forall>n h m p h' m'. public_mALLOc D n (h, m) = (p, h', m') \<and> 0 < n \<and> n \<le> 128 \<and> 0 < spare h \<longrightarrow>
        p \<noteq> 0 \<and> spare h \<le> Suc (spare h'))
     \<and> (\<forall>p n h m h' m'. (p, n) \<in> set (live h) \<and> public_fREe D p (h, m) = (h', m') \<longrightarrow>
        live h' = remove1 (p, n) (live h) \<and> spare h \<le> spare h'
        \<and> (\<forall>x. x \<in> owned (live h') \<or> x \<notin> H \<longrightarrow> m' x = m x))"

text \<open>A write leaves what is outside the block it is in.\<close>

lemma outside_shift:
  fixes x p :: u32
  assumes "N \<le> unat (x - p)" and "j + k \<le> N"
  shows "k \<le> unat (x - (p + of_nat j))"
proof (rule ccontr)
  assume c: "\<not> k \<le> unat (x - (p + of_nat j))"
  have "N < 2 ^ 32" using assms(1) unsigned_less [of "x - p", where 'a = nat] by simp
  then have "unat (of_nat j + (x - (p + of_nat j))) = j + unat (x - (p + of_nat j))"
    using assms(2) c by (subst unat_word_ariths(1)) (simp add: unat_of_nat)
  moreover have "of_nat j + (x - (p + of_nat j)) = x - p" by simp
  ultimately show False using assms c by simp
qed

lemma store32_outside: "4 \<le> unat (x - a) \<Longrightarrow> store32 m a w x = m x"
  unfolding store32_bytes by (subst write_bytes_at) auto

lemma umem_alloc_frame:
  assumes "umem_alloc D len hm = (z, h', m')" and "z \<noteq> 0"
    and "public_mALLOc D (block_words len * 4) hm = (p, h, m)" and "x \<notin> span p (room4 (unat len) + 16)"
  shows "m' x = m x"
proof -
  define r where "r = room4 (unat len)"
  have m': "m' = memset (store32 (store32 (store32 (store32 m p len) (p + 4) MAGIC_BEFORE)
           (p + (of_nat r + 8)) MAGIC_AFTER) (p + (of_nat r + 12)) p) (p + 8) 0 (of_nat r)"
    using umem_alloc_cases [OF assms(1,2)] assms(3) unfolding r_def by (metis prod.inject)
  have x: "r + 16 \<le> unat (x - p)" using assms(4) by (simp add: span_def r_def)
  then have "unat (of_nat r :: u32) = r"
    using unsigned_less [of "x - p", where 'a = nat] by (simp add: unat_of_nat)
  moreover have "4 \<le> unat (x - p)" "4 \<le> unat (x - (p + 4))" "4 \<le> unat (x - (p + (of_nat r + 8)))"
    "4 \<le> unat (x - (p + (of_nat r + 12)))" "r \<le> unat (x - (p + 8))"
    using outside_shift [OF x, of 0 4] outside_shift [OF x, of 4 4] outside_shift [OF x, of "r + 8" 4]
      outside_shift [OF x, of "r + 12" 4] outside_shift [OF x, of 8 r] by (simp_all add: add.commute)
  ultimately show ?thesis unfolding m' by (simp add: memset_fill store32_outside)
qed

lemma block_words_small: "n \<le> 100 \<Longrightarrow> unat (block_words (of_nat n) * 4 :: u32) = room4 n + 16"
proof -
  assume n: "n \<le> 100"
  have "(of_nat n :: u32) + 4 - 1 = of_nat (n + 3)" by simp
  then have "block_words (of_nat n) = of_nat (n + 3) div 4 + 4" by (simp only: block_words_def)
  moreover have "unat (of_nat (n + 3) :: u32) = n + 3" using n by (subst unat_of_nat) simp
  ultimately have "unat (block_words (of_nat n)) = (n + 3) div 4 + 4"
    using n by (simp add: unat_word_ariths unat_div del: of_nat_add)
  then show ?thesis using n by (simp add: unat_word_ariths room4_def)
qed

text \<open>The block around a zone.\<close>

abbreviation block :: "addr \<Rightarrow> nat \<Rightarrow> addr \<times> nat" where
  "block z n \<equiv> (z - 8, room4 n + 16)"

lemma umem_alloc_laws:
  assumes laws: "malloc_laws D live spare H" and n: "0 < n" "n \<le> 100" and sp: "0 < spare h" and sep: "sep (live h)"
  obtains z h' m' where "umem_alloc D (of_nat n) (h, m) = (z, h', m')" and "z \<noteq> 0" and "guarded m' z n"
    and "\<forall>i < room4 n. m' (z + of_nat i) = 0" and "live h' = block z n # live h" and "sep (live h')"
    and "span (z - 8) (room4 n + 16) \<subseteq> H" and "spare h \<le> Suc (spare h')"
    and "\<forall>x. x \<in> owned (live h) \<or> x \<notin> H \<longrightarrow> m' x = m x"
proof -
  have un: "unat (of_nat n :: u32) = n" using n by (simp add: unat_of_nat)
  have r: "room4 n + 16 \<le> 119" "n < room4 n + 16" using n room4_le [of n] room4_ge [of n] by simp_all
  have l: "(of_nat n :: u32) < block_words (of_nat n) * 4" using block_words_small [OF n(2)] r(2) un by (simp add: word_less_nat_alt)
  obtain z h' m' where a: "umem_alloc D (of_nat n) (h, m) = (z, h', m')" by (metis prod_cases3)
  obtain p h1 m1 where mal: "public_mALLOc D (block_words (of_nat n) * 4) (h, m) = (p, h1, m1)" by (metis prod_cases3)
  have u4: "unat (block_words (of_nat n) * 4 :: u32) = room4 n + 16" using block_words_small [OF n(2)] .
  have pos: "0 < (block_words (of_nat n) * 4 :: u32)" "(block_words (of_nat n) * 4 :: u32) \<le> 128"
    using u4 r(1) by (simp_all add: word_less_nat_alt word_le_nat_alt)
  note law = laws [unfolded malloc_laws_def]
  have "p \<noteq> 0" "spare h \<le> Suc (spare h1)"
    using law mal pos sp by blast+
  then have lw: "live h1 = (p, room4 n + 16) # live h" "unat p + (room4 n + 16) \<le> 2 ^ 32"
    "span p (room4 n + 16) \<subseteq> H - owned (live h)" "\<forall>x. x \<in> owned (live h) \<or> x \<notin> H \<longrightarrow> m1 x = m x"
    using law mal unfolding u4 [symmetric] by blast+
  have nz: "(of_nat n :: u32) \<noteq> 0" using un n by (metis less_numeral_extra(3) unat_0)
  have zp: "z = p + 8" "h' = h1"
    using a mal \<open>p \<noteq> 0\<close> l nz unfolding umem_alloc_def Let_def by (auto simp: not_le [symmetric] simp del: not_le)
  have "z \<noteq> 0"
  proof
    assume "z = 0"
    then have "p = - 8" using zp by (simp add: eq_neg_iff_add_eq_0)
    then have "unat p = 2 ^ 32 - 8" by simp
    with lw(2) show False by simp
  qed
  have g: "guarded m' z n" "\<forall>i < room4 n. m' (z + of_nat i) = 0"
    using umem_alloc_guarded [OF a \<open>z \<noteq> 0\<close>] un by simp_all
  have "m' x = m1 x" if "x \<notin> span p (room4 n + 16)" for x
    using umem_alloc_frame [OF a \<open>z \<noteq> 0\<close> mal] that un zp by simp
  with lw have fr: "\<forall>x. x \<in> owned (live h) \<or> x \<notin> H \<longrightarrow> m' x = m x" by (metis DiffE subsetD)
  have s: "sep (live h')" using sep lw(1,3) zp(2) by auto
  show ?thesis
    using that [OF a \<open>z \<noteq> 0\<close> g _ s _ _ fr] lw(1,3) zp \<open>spare h \<le> Suc (spare h1)\<close> by auto
qed

text \<open>Freeing a guarded zone: its block is no longer in use, the other blocks keep their contents.\<close>

lemma umem_free_laws:
  assumes laws: "malloc_laws D live spare H" and n: "0 < n" "n \<le> 100" and sep: "sep (live h)"
    and g: "guarded m z n" and mem: "block z n \<in> set (live h)" and H: "owned (live h) \<subseteq> H"
  obtains h' m' where "umem_free D z (of_nat n) (h, m) = Inr (h', m')" and "live h' = remove1 (block z n) (live h)"
    and "sep (live h')" and "spare h \<le> spare h'" and "\<forall>x. x \<in> owned (live h') \<or> x \<notin> H \<longrightarrow> m' x = m x"
proof -
  have un: "unat (of_nat n :: u32) = n" using n by (simp add: unat_of_nat)
  have r: "room4 n + 16 \<le> 119" "n < room4 n + 16" using n room4_le [of n] room4_ge [of n] by simp_all
  have l: "(of_nat n :: u32) < block_words (of_nat n) * 4" using block_words_small [OF n(2)] r(2) un by (simp add: word_less_nat_alt)
  have nz: "(of_nat n :: u32) \<noteq> 0" using un n by (metis less_numeral_extra(3) unat_0)
  define m1 where "m1 = memset m (z - 8) 0 (of_nat (room4 n + 16))"
  obtain h' m' where f: "public_fREe D (z - 8) (h, m1) = (h', m')" by (metis surj_pair)
  have fr: "umem_free D z (of_nat n) (h, m) = Inr (h', m')"
    using g f unfolding umem_free_checks [OF nz l] un m1_def guarded_def by simp
  have lw: "live h' = remove1 (block z n) (live h)" "spare h \<le> spare h'"
    "\<forall>x. x \<in> owned (live h') \<or> x \<notin> H \<longrightarrow> m' x = m1 x"
    using laws [unfolded malloc_laws_def] mem f by blast+
  have s: "sep (live h')" "span (z - 8) (room4 n + 16) \<inter> owned (live h') = {}"
    using sep_remove1 [OF sep mem] lw(1) by simp_all
  have "unat (of_nat (room4 n + 16) :: u32) = room4 n + 16" using r(1) by (subst unat_of_nat) simp
  then have m1: "m1 x = m x" if "x \<notin> span (z - 8) (room4 n + 16)" for x
    using that by (simp add: m1_def memset_fill span_def)
  have "span (z - 8) (room4 n + 16) \<subseteq> H" using span_sub_owned [OF mem] H by blast
  then have "x \<notin> span (z - 8) (room4 n + 16)" if "x \<in> owned (live h') \<or> x \<notin> H" for x
    using that s(2) by auto
  with m1 lw(3) have "\<forall>x. x \<in> owned (live h') \<or> x \<notin> H \<longrightarrow> m' x = m x" by simp
  with fr lw(1) s(1) lw(2) show ?thesis by (rule that)
qed

end
