(* ===== verification/Shell_Parse.thy ===== *)
theory Shell_Parse
  imports Alloc
begin

text \<open>
  \<^verbatim>\<open>user/shell.c\<close>: the table of words \<^verbatim>\<open>cmd_line\<close>, its parser \<^verbatim>\<open>parse_cmd\<close> and its release
  \<^verbatim>\<open>free_cmd_line\<close>, on the byte memory and the user heap. The static array \<^verbatim>\<open>line\<close> is an address that the
  operations take as an argument; an index outside it, or outside the table of words, is a fault.
\<close>

section \<open>State and operations\<close>

record 'h shell =
  sh_heap :: 'h
  sh_mem :: mem
  cmd_line :: addr
  nb_words :: nat

abbreviation LINE_SIZE :: nat where "LINE_SIZE \<equiv> 100"
abbreviation WORD_SIZE :: nat where "WORD_SIZE \<equiv> 50"

text \<open>The calls of \<^verbatim>\<open>mem_alloc\<close> and \<^verbatim>\<open>mem_free\<close>, and the entries of a table of pointers.\<close>

definition sh_alloc :: "'h dlmalloc \<Rightarrow> u32 \<Rightarrow> ('h, 'z) shell_scheme \<Rightarrow> addr \<times> ('h, 'z) shell_scheme" where
  "sh_alloc D n s =
     (let (p, h, m) = umem_alloc D n (sh_heap s, sh_mem s) in (p, s\<lparr>sh_heap := h, sh_mem := m\<rparr>))"

definition sh_free :: "'h dlmalloc \<Rightarrow> addr \<Rightarrow> u32 \<Rightarrow> ('h, 'z) shell_scheme \<Rightarrow> ('h, 'z) shell_scheme uresult" where
  "sh_free D z n s =
     bnd (umem_free D z n (sh_heap s, sh_mem s)) (\<lambda>(h, m). Inr (s\<lparr>sh_heap := h, sh_mem := m\<rparr>))"

definition entry :: "addr \<Rightarrow> nat \<Rightarrow> addr" where
  "entry table i = table + of_nat (4 * i)"

definition sh_strlen :: "mem \<Rightarrow> addr \<Rightarrow> u32 uresult" where
  "sh_strlen m a = (case strlen m a of None \<Rightarrow> Inl (Fault Hang) | Some n \<Rightarrow> Inr n)"

text \<open>The loop of \<^verbatim>\<open>free_cmd_line\<close>, with the number of entries that are left in the table.\<close>

fun free_loop :: "'h dlmalloc \<Rightarrow> nat \<Rightarrow> nat \<Rightarrow> ('h, 'z) shell_scheme \<Rightarrow> ('h, 'z) shell_scheme uresult" where
  "free_loop D 0 i s = Inl (Fault OutOfBounds)"
| "free_loop D (Suc k) i s =
     (let cmd = load32 (sh_mem s) (entry (cmd_line s) i) in
      if cmd = 0 then Inr s
      else bnd (sh_strlen (sh_mem s) cmd) (\<lambda>n. bnd (sh_free D cmd (n + 1) s) (free_loop D k (i + 1))))"

definition free_cmd_line :: "'h dlmalloc \<Rightarrow> ('h, 'z) shell_scheme \<Rightarrow> ('h, 'z) shell_scheme uresult" where
  "free_cmd_line D s =
     bnd (free_loop D (nb_words s) 0 s) (\<lambda>s1. sh_free D (cmd_line s1) (of_nat (nb_words s1 * 4)) s1)"

text \<open>Skipping spaces from \<^verbatim>\<open>line[incr]\<close> on.\<close>

function skip_space :: "addr \<Rightarrow> nat \<Rightarrow> mem \<Rightarrow> nat uresult" where
  "skip_space line incr m =
     (if LINE_SIZE < incr then Inl (Fault OutOfBounds)
      else if m (line + of_nat incr) = 32 then skip_space line (incr + 1) m
      else Inr incr)"
  by auto

termination
  by (relation "measure (\<lambda>(line, incr, m). Suc LINE_SIZE - incr)") auto

declare skip_space.simps [simp del]

lemma skip_space_ge: "skip_space line incr m = Inr i \<Longrightarrow> incr \<le> i"
  by (induction line incr m rule: skip_space.induct) (auto simp: skip_space.simps split: if_splits)

text \<open>A word of \<open>nb\<close> characters with its separator, cut to \<^verbatim>\<open>WORD_SIZE\<close>, becomes entry \<open>index\<close>.\<close>

definition store_word :: "'h dlmalloc \<Rightarrow> nat \<Rightarrow> addr \<Rightarrow> nat \<Rightarrow> ('h, 'z) shell_scheme \<Rightarrow> ('h, 'z) shell_scheme uresult" where
  "store_word D index start nb s =
     (let n = min nb WORD_SIZE; (p, s1) = sh_alloc D (of_nat n) s in
      if cmd_line s1 = 0 \<or> p = 0 then Inl (Fault NullDeref)
      else
        (let m1 = store32 (sh_mem s1) (entry (cmd_line s1) index) p;
             m2 = strncpy m1 p start (of_nat n)
         in Inr (s1\<lparr>sh_mem := m2(p + (of_nat n - 1) := 0)\<rparr>)))"

text \<open>The larger table: every word is copied, then the old table and its words are freed.\<close>

fun copy_words :: "'h dlmalloc \<Rightarrow> nat \<Rightarrow> nat \<Rightarrow> addr \<Rightarrow> ('h, 'z) shell_scheme \<Rightarrow> ('h, 'z) shell_scheme uresult" where
  "copy_words D 0 i new_cmd_line s = Inl (Fault OutOfBounds)"
| "copy_words D (Suc k) i new_cmd_line s =
     (let cmd = load32 (sh_mem s) (entry (cmd_line s) i) in
      if cmd = 0 then Inr s
      else bnd (sh_strlen (sh_mem s) cmd) (\<lambda>n.
        let (p, s1) = sh_alloc D (n + 1) s in
        if new_cmd_line = 0 \<or> p = 0 then Inl (Fault NullDeref)
        else
          (let m1 = store32 (sh_mem s1) (entry new_cmd_line i) p;
               cmd1 = load32 m1 (entry (cmd_line s1) i)
           in bnd (sh_strlen m1 cmd1) (\<lambda>n1.
              copy_words D k (i + 1) new_cmd_line (s1\<lparr>sh_mem := strncpy m1 p cmd1 n1\<rparr>)))))"

definition grow :: "'h dlmalloc \<Rightarrow> ('h, 'z) shell_scheme \<Rightarrow> ('h, 'z) shell_scheme uresult" where
  "grow D s =
     (let s1 = s\<lparr>nb_words := nb_words s * 2\<rparr>;
          (new_cmd_line, s2) = sh_alloc D (of_nat (nb_words s1 * 4)) s1
      in bnd (copy_words D (nb_words s2) 0 new_cmd_line s2) (\<lambda>s3.
         bnd (free_cmd_line D s3) (\<lambda>s4. Inr (s4\<lparr>cmd_line := new_cmd_line\<rparr>))))"

text \<open>The loop over the characters.\<close>

function word_loop :: "'h dlmalloc \<Rightarrow> addr \<Rightarrow> nat \<Rightarrow> nat \<Rightarrow> nat \<Rightarrow> nat \<Rightarrow> ('h, 'z) shell_scheme
    \<Rightarrow> ('h, 'z) shell_scheme uresult" where
  "word_loop D line index start incr nb s =
     (if LINE_SIZE < incr then Inl (Fault OutOfBounds)
      else
        (let cur = sh_mem s (line + of_nat incr) in
         if cur = 0 then store_word D index (line + of_nat start) (nb + 1) s
         else if cur = 32 then
           bnd (store_word D index (line + of_nat start) (nb + 1) s) (\<lambda>s1.
           bnd (if index + 1 = nb_words s1 - 1 then grow D s1 else Inr s1) (\<lambda>s2.
           bnd (skip_space line (incr + 1) (sh_mem s2)) (\<lambda>i.
             word_loop D line (index + 1) i i 0 s2)))
         else word_loop D line index start (incr + 1) (nb + 1) s))"
  by pat_completeness auto

termination
  by (relation "measure (\<lambda>(D, line, index, start, incr, nb, s). Suc LINE_SIZE - incr)")
    (auto dest: skip_space_ge)

declare word_loop.simps [simp del]

definition parse_cmd :: "'h dlmalloc \<Rightarrow> addr \<Rightarrow> ('h, 'z) shell_scheme \<Rightarrow> ('h, 'z) shell_scheme uresult" where
  "parse_cmd D line s =
     bnd (skip_space line 0 (sh_mem s)) (\<lambda>incr.
       if sh_mem s (line + of_nat incr) = 0 then
         (let (p, s1) = sh_alloc D 1 s in
          if cmd_line s1 = 0 \<or> p = 0 then Inl (Fault NullDeref)
          else Inr (s1\<lparr>sh_mem := (store32 (sh_mem s1) (entry (cmd_line s1) 0) p)(p := 0)\<rparr>))
       else word_loop D line 0 incr (incr + 1) 1 s)"

text \<open>The start of a turn of \<^verbatim>\<open>start_shell\<close>: a table for four words.\<close>

definition new_cmd_line :: "'h dlmalloc \<Rightarrow> ('h, 'z) shell_scheme \<Rightarrow> ('h, 'z) shell_scheme" where
  "new_cmd_line D s =
     (let (p, s1) = sh_alloc D (of_nat (4 * 4)) (s\<lparr>nb_words := 4\<rparr>) in s1\<lparr>cmd_line := p\<rparr>)"

section \<open>The words of a line\<close>

text \<open>
  What the parser should find: the runs of characters between runs of spaces, without the leading
  spaces; spaces at the end are followed by an empty word.
\<close>

function cut_words :: "u8 list \<Rightarrow> u8 list list" where
  "cut_words cs =
     (case dropWhile (\<lambda>c. c \<noteq> 32) cs of
        [] \<Rightarrow> [cs]
      | _ # ds \<Rightarrow> takeWhile (\<lambda>c. c \<noteq> 32) cs # cut_words (dropWhile (\<lambda>c. c = 32) ds))"
  by auto

termination
proof (relation "measure length")
  fix cs c ds :: "u8 list" fix d
  assume "dropWhile (\<lambda>c. c \<noteq> 32) cs = d # ds"
  then have "length (d # ds) \<le> length cs" by (metis length_dropWhile_le)
  moreover have "length (dropWhile (\<lambda>c. c = 32) ds) \<le> length ds" by (rule length_dropWhile_le)
  ultimately show "(dropWhile (\<lambda>c. c = 32) ds, cs) \<in> measure length" by simp
qed simp

declare cut_words.simps [simp del]

text \<open>At most 49 characters of a word are kept.\<close>

definition line_words :: "u8 list \<Rightarrow> u8 list list" where
  "line_words cs = map (take (WORD_SIZE - 1)) (cut_words (dropWhile (\<lambda>c. c = 32) cs))"

section \<open>Addresses inside a block\<close>

lemma offset_in_span: "j < N \<Longrightarrow> N \<le> 2 ^ 32 \<Longrightarrow> p + of_nat j \<in> span p N"
  by (simp add: span_def unat_of_nat)

lemma zone_in_span: "i + 8 < N \<Longrightarrow> N \<le> 2 ^ 32 \<Longrightarrow> z + of_nat i \<in> span (z - 8) N"
  using offset_in_span [of "i + 8" N "z - 8"] by simp

lemma guarded_frame:
  assumes "guarded m z n" and "room4 n + 16 \<le> 2 ^ 32" and "\<forall>x \<in> span (z - 8) (room4 n + 16). m' x = m x"
  shows "guarded m' z n"
proof -
  have "load32 m' (z - 8 + of_nat j) = load32 m (z - 8 + of_nat j)" if "j + 4 \<le> room4 n + 16" for j
  proof (rule load32_cong)
    fix i :: nat assume "i < 4"
    then have "z - 8 + of_nat (j + i) \<in> span (z - 8) (room4 n + 16)"
      using that assms(2) by (intro offset_in_span) auto
    then show "m' (z - 8 + of_nat j + of_nat i) = m (z - 8 + of_nat j + of_nat i)"
      using assms(3) by (simp add: add.assoc)
  qed
  from this [of 0] this [of 4] this [of "room4 n + 8"] this [of "room4 n + 12"] show ?thesis
    using assms(1) by (simp add: guarded_def algebra_simps)
qed

lemma load32_frame:
  "i + 12 \<le> N \<Longrightarrow> N \<le> 2 ^ 32 \<Longrightarrow> \<forall>x \<in> span (z - 8) N. m' x = m x \<Longrightarrow> load32 m' (z + of_nat i) = load32 m (z + of_nat i)"
proof (rule load32_cong)
  fix k :: nat assume "i + 12 \<le> N" "N \<le> 2 ^ 32" "\<forall>x \<in> span (z - 8) N. m' x = m x" "k < 4"
  moreover from this have "z + of_nat (i + k) \<in> span (z - 8) N" by (intro zone_in_span) auto
  ultimately show "m' (z + of_nat i + of_nat k) = m (z + of_nat i + of_nat k)" by (simp add: add.assoc)
qed

lemma strncpy_outside: "n < 2 ^ 32 \<Longrightarrow> n \<le> unat (x - q) \<Longrightarrow> strncpy_loop m q p n x = m x"
proof (induction n arbitrary: m q p)
  case (Suc n)
  have "n \<le> unat (x - (q + 1))" using outside_shift [of "Suc n" x q 1 n] Suc.prems by simp
  moreover have "x \<noteq> q" using Suc.prems by auto
  ultimately show ?case using Suc by (simp add: Let_def memset_fill unat_of_nat)
qed (simp add: memset_fill)

lemma memset_0 [simp]: "memset m q c 0 = m"
  by (simp add: memset_fill)

lemma strncpy_copy:
  assumes "\<forall>i < k. m (p + of_nat i) \<noteq> 0" and "\<And>i j. i \<le> k \<Longrightarrow> j \<le> k \<Longrightarrow> q + of_nat j \<noteq> p + of_nat i"
  shows "strncpy_loop m q p (Suc k) = write_bytes m q (read_bytes m p (Suc k))"
  using assms
proof (induction k arbitrary: m q p)
  case (Suc k)
  have ne: "m p \<noteq> 0" using spec [OF Suc.prems(1), of 0] by simp
  have keep: "(m(q := m p)) (p + 1 + of_nat i) = m (p + 1 + of_nat i)" if "i \<le> k" for i
    using Suc.prems(2) [of "Suc i" 0] that by (simp add: add.assoc)
  have ne1: "\<forall>i < k. m (p + 1 + of_nat i) \<noteq> 0"
    using Suc.prems(1) by (metis Suc_less_eq add.assoc of_nat_Suc)
  have "strncpy_loop m q p (Suc (Suc k)) = strncpy_loop (m(q := m p)) (q + 1) (p + 1) (Suc k)"
    unfolding strncpy_loop.simps(2) [of m q p "Suc k"] Let_def using ne by (simp only: if_False)
  also have "\<dots> = write_bytes (m(q := m p)) (q + 1) (read_bytes (m(q := m p)) (p + 1) (Suc k))"
  proof (rule Suc.IH)
    show "\<forall>i < k. (m(q := m p)) (p + 1 + of_nat i) \<noteq> 0" using keep ne1 by (metis less_imp_le_nat)
    fix i j assume "i \<le> k" "j \<le> k"
    then show "q + 1 + of_nat j \<noteq> p + 1 + of_nat i" using Suc.prems(2) [of "Suc i" "Suc j"] by (simp add: add.assoc)
  qed
  also have "read_bytes (m(q := m p)) (p + 1) (Suc k) = read_bytes m (p + 1) (Suc k)"
    using keep by (intro read_bytes_cong) simp
  also have "write_bytes (m(q := m p)) (q + 1) (read_bytes m (p + 1) (Suc k)) = write_bytes m q (read_bytes m p (Suc (Suc k)))"
    by (simp only: read_bytes.simps(2) [of m p "Suc k"] write_bytes.simps(2))
  finally show ?case .
qed (simp add: Let_def)

section \<open>The table of words\<close>

text \<open>A word at \<open>z\<close> in a block of its own, and a table of four entries that starts with the words \<open>ws\<close>.\<close>

definition word_ok :: "(addr \<times> nat) list \<Rightarrow> mem \<Rightarrow> addr \<Rightarrow> u8 list \<Rightarrow> bool" where
  "word_ok bs m z w \<longleftrightarrow> z \<noteq> 0 \<and> length w \<le> 49 \<and> block z (Suc (length w)) \<in> set bs
     \<and> guarded m z (Suc (length w)) \<and> cstr m z w"

definition table_ok :: "(addr \<times> nat) list \<Rightarrow> mem \<Rightarrow> addr \<Rightarrow> addr list \<Rightarrow> u8 list list \<Rightarrow> bool" where
  "table_ok bs m c zs ws \<longleftrightarrow> c \<noteq> 0 \<and> block c 16 \<in> set bs \<and> guarded m c 16
     \<and> length ws = length zs \<and> length zs \<le> 3 \<and> distinct (c # zs)
     \<and> (\<forall>i < length zs. load32 m (entry c i) = zs ! i \<and> word_ok bs m (zs ! i) (ws ! i))
     \<and> (\<forall>i < 4. length zs \<le> i \<longrightarrow> load32 m (entry c i) = 0)"

lemma room4_small: "n \<le> 50 \<Longrightarrow> room4 n + 16 \<le> 2 ^ 32"
  using room4_le [of n] by simp

lemma word_ok_frame:
  assumes "word_ok bs m z w" and "\<forall>x \<in> span (z - 8) (room4 (Suc (length w)) + 16). m' x = m x" and "set bs \<subseteq> set bs'"
  shows "word_ok bs' m' z w"
proof -
  have n: "Suc (length w) \<le> 50" using assms(1) by (simp add: word_ok_def)
  have "cstr m' z w"
  proof (rule cstr_frame)
    fix i assume "i \<le> length w"
    then have "z + of_nat i \<in> span (z - 8) (room4 (Suc (length w)) + 16)"
      using room4_ge [of "Suc (length w)"] room4_small [OF n] by (intro zone_in_span) auto
    then show "m' (z + of_nat i) = m (z + of_nat i)" using assms(2) by blast
  qed (use assms(1) in \<open>simp add: word_ok_def\<close>)
  moreover have "guarded m' z (Suc (length w))"
    using assms(1) by (intro guarded_frame [OF _ room4_small [OF n] assms(2)]) (simp add: word_ok_def)
  moreover have "block z (Suc (length w)) \<in> set bs'" using assms(1,3) unfolding word_ok_def by blast
  ultimately show ?thesis using assms(1) unfolding word_ok_def by blast
qed

lemma entry_frame:
  "i < 4 \<Longrightarrow> \<forall>x \<in> span (c - 8) (room4 16 + 16). m' x = m x \<Longrightarrow> load32 m' (entry c i) = load32 m (entry c i)"
  unfolding entry_def by (rule load32_frame [where N = "room4 16 + 16"]) (auto simp: room4_def)

lemma table_ok_frame:
  assumes t: "table_ok bs m c zs ws" and eq: "\<forall>x \<in> owned bs. m' x = m x" and sub: "set bs \<subseteq> set bs'"
  shows "table_ok bs' m' c zs ws"
proof -
  have sp: "\<forall>x \<in> span p n. m' x = m x" if "(p, n) \<in> set bs" for p n
    using eq span_sub_owned [OF that] by blast
  have c: "\<forall>x \<in> span (c - 8) (room4 16 + 16). m' x = m x" using t by (intro sp) (simp add: table_ok_def)
  have "word_ok bs' m' (zs ! i) (ws ! i)" if "i < length zs" for i
  proof (rule word_ok_frame [OF _ _ sub])
    show w: "word_ok bs m (zs ! i) (ws ! i)" using t that by (simp add: table_ok_def)
    show "\<forall>x \<in> span (zs ! i - 8) (room4 (Suc (length (ws ! i))) + 16). m' x = m x"
      using w by (intro sp) (simp add: word_ok_def)
  qed
  moreover have "load32 m' (entry c i) = load32 m (entry c i)" if "i < 4" for i using entry_frame [OF that c] .
  moreover have g: "guarded m c 16" using t unfolding table_ok_def by blast
  have "guarded m' c 16" using guarded_frame [OF g _ c] by (simp add: room4_def)
  moreover have "block c 16 \<in> set bs'" using t sub unfolding table_ok_def by blast
  moreover have "i < 4" if "i < length zs" for i using t that unfolding table_ok_def by linarith
  ultimately show ?thesis using t unfolding table_ok_def by metis
qed


section \<open>Storing a word\<close>

lemma word_ok_sep:
  assumes "sep bs" and "word_ok bs m z w" and "block c n \<in> set bs" and "z \<noteq> c"
  shows "span (z - 8) (room4 (Suc (length w)) + 16) \<inter> span (c - 8) (room4 n + 16) = {}"
proof (rule ccontr)
  assume "\<not> ?thesis"
  then have "block z (Suc (length w)) = block c n"
    using assms(1-3) by (intro sep_same [of bs]) (auto simp: word_ok_def)
  with assms(4) show False by simp
qed

text \<open>Writing entry \<open>i\<close> of the table leaves the other entries and the guards.\<close>

lemma entry_apart: "i < 4 \<Longrightarrow> j < 4 \<Longrightarrow> i \<noteq> j \<Longrightarrow> apart4 (entry c i) (entry c j)"
proof -
  assume "i < 4" "j < 4" "i \<noteq> j"
  then consider "4 * i + 4 \<le> 4 * j" | "4 * j + 4 \<le> 4 * i" by linarith
  then show ?thesis
    using \<open>i < 4\<close> \<open>j < 4\<close> unfolding entry_def by cases (rule apart4_offset; simp)+
qed

lemma load32_store_entry:
  "i < 4 \<Longrightarrow> j < 4 \<Longrightarrow> load32 (store32 m (entry c i) v) (entry c j) = (if i = j then v else load32 m (entry c j))"
  by (simp add: load32_store32_apart entry_apart)

lemma guarded_store_entry:
  assumes "guarded m c 16" and "i < 4"
  shows "guarded (store32 m (entry c i) v) c 16"
proof -
  have "load32 (store32 m (entry c i) v) (c - 8 + of_nat j) = load32 m (c - 8 + of_nat j)"
    if "j + 4 \<le> 8 \<or> 24 \<le> j" "j + 4 \<le> 32" for j
  proof (rule load32_store32_apart)
    have e: "entry c i = c - 8 + of_nat (4 * i + 8)" by (simp add: entry_def)
    show "apart4 (entry c i) (c - 8 + of_nat j)"
      unfolding e using that assms(2) by (auto intro: apart4_offset simp del: of_nat_add)
  qed
  from this [of 0] this [of 4] this [of 24] this [of 28] assms(1) show ?thesis
    by (simp add: guarded_def room4_def algebra_simps)
qed

lemma store_entry_outside:
  assumes "x \<notin> span (c - 8) (room4 n + 16)" and "4 * i + 4 \<le> n"
  shows "store32 m (entry c i) v x = m x"
proof (rule store32_outside)
  have "room4 n + 16 \<le> unat (x - (c - 8))" using assms(1) by (simp add: span_def)
  from outside_shift [OF this, of "4 * i + 8" 4] assms(2) room4_ge [of n] show "4 \<le> unat (x - entry c i)"
    by (simp add: entry_def)
qed

lemma guarded_zone_write:
  assumes "guarded m z n" and "n \<le> 100" and "\<And>x. n \<le> unat (x - z) \<Longrightarrow> m' x = m x"
  shows "guarded m' z n"
proof -
  have r: "room4 n \<le> 103" "n \<le> room4 n" using assms(2) room4_le [of n] room4_ge [of n] by simp_all
  have "load32 m' (z - 8 + of_nat j) = load32 m (z - 8 + of_nat j)"
    if j: "j + 4 \<le> 8 \<or> room4 n + 8 \<le> j" "j + 4 \<le> room4 n + 16" for j
  proof (rule load32_cong)
    fix i :: nat assume i: "i < 4"
    have z: "z = z - 8 + of_nat 8" by simp
    have "n \<le> unat (z - 8 + of_nat (j + i) - (z - 8 + of_nat 8))"
      using j i r by (subst unat_offset_diff) auto
    then have "n \<le> unat (z - 8 + of_nat (j + i) - z)" by (simp only: z [symmetric])
    from assms(3) [OF this] show "m' (z - 8 + of_nat j + of_nat i) = m (z - 8 + of_nat j + of_nat i)"
      by (simp add: add.assoc)
  qed
  from this [of 0] this [of 4] this [of "room4 n + 8"] this [of "room4 n + 12"] show ?thesis
    using assms(1) by (simp add: guarded_def algebra_simps)
qed

text \<open>The copy of a word into its zone: its characters, cut, and a NUL.\<close>

lemma copy_word:
  assumes txt1: "\<forall>i < length w. m (start + of_nat i) = w ! i" and nz: "0 \<notin> set w" and v: "v = take 49 w"
    and apart: "\<And>i j. i \<le> length v \<Longrightarrow> j \<le> length v \<Longrightarrow> z + of_nat j \<noteq> start + of_nat i"
  shows "cstr ((strncpy m z start (of_nat (Suc (length v))))(z + (of_nat (Suc (length v)) - 1) := 0)) z v" (is "cstr ?m z v")
proof -
  have lv: "length v \<le> 49" "length v \<le> length w" using v by simp_all
  have un: "unat (of_nat (Suc (length v)) :: u32) = Suc (length v)" using lv by (subst unat_of_nat) simp
  have tx: "m (start + of_nat i) = v ! i" "v ! i \<noteq> 0" if "i < length v" for i
    using that txt1 nz v lv by (auto simp: in_set_conv_nth)
  have "strncpy m z start (of_nat (Suc (length v))) = write_bytes m z (read_bytes m start (Suc (length v)))"
    unfolding strncpy_def un using tx apart by (intro strncpy_copy) auto
  moreover have "write_bytes m z (read_bytes m start (Suc (length v))) (z + of_nat i) = v ! i" if "i < length v" for i
    using that lv tx(1)
    by (subst write_bytes_at) (simp_all add: unat_of_nat nth_read_bytes del: read_bytes.simps)
  ultimately have w: "strncpy m z start (of_nat (Suc (length v))) (z + of_nat i) = v ! i" if "i < length v" for i
    using that by (simp only:)
  have ne: "of_nat i \<noteq> (of_nat (length v) :: u32)" if "i < length v" for i
    using that lv by (simp add: word_unat_eq_iff unat_of_nat)
  have "cstr ?m z (v @ [])"
    unfolding cstr_append using tx(2) w ne by (auto simp: in_set_conv_nth)
  then show ?thesis by simp
qed

definition heap_ok :: "('h \<Rightarrow> (addr \<times> nat) list) \<Rightarrow> addr set \<Rightarrow> 'h \<Rightarrow> bool" where
  "heap_ok live H h \<longleftrightarrow> sep (live h) \<and> owned (live h) \<subseteq> H"

lemma table_ok_extend:
  assumes t: "table_ok bs m c zs ws" and k: "length zs \<le> 2" and sep: "sep (block z (Suc (length v)) # bs)"
    and g: "guarded m1 z (Suc (length v))" and z: "z \<noteq> 0" and v: "length v \<le> 49"
    and eq: "\<forall>x \<in> owned bs. m1 x = m x" and m2: "m2 = store32 m1 (entry c (length zs)) z"
    and m4: "\<And>x. Suc (length v) \<le> unat (x - z) \<Longrightarrow> m4 x = m2 x" and cs: "cstr m4 z v"
  shows "table_ok (block z (Suc (length v)) # bs) m4 c (zs @ [z]) (ws @ [v])"
proof -
  let ?b = "block z (Suc (length v))"
  have t1: "table_ok bs m1 c zs ws" using table_ok_frame [OF t eq] by simp
  have cb: "block c 16 \<in> set bs" using t by (simp add: table_ok_def)
  have N: "Suc (length v) \<le> room4 (Suc (length v))" "room4 (Suc (length v)) \<le> 53"
    using room4_ge [of "Suc (length v)"] room4_le [of "Suc (length v)"] v by simp_all
  have disj: "span (z - 8) (room4 (Suc (length v)) + 16) \<inter> owned bs = {}" using sep by simp
  have own: "m4 x = m2 x" if "x \<in> owned bs" for x
  proof (rule m4, rule ccontr)
    assume "\<not> Suc (length v) \<le> unat (x - z)"
    then have "z + of_nat (unat (x - z)) \<in> span (z - 8) (room4 (Suc (length v)) + 16)"
      using N by (intro zone_in_span) auto
    with disj that show False by auto
  qed
  have csp: "\<forall>x \<in> span (c - 8) (room4 16 + 16). m4 x = m2 x" using own span_sub_owned [OF cb] by blast
  have m2out: "m2 x = m1 x" if "x \<notin> span (c - 8) (room4 16 + 16)" for x
    unfolding m2 using that k by (intro store_entry_outside [where n = 16]) auto
  have ent: "load32 m4 (entry c i) = (if i = length zs then z else load32 m1 (entry c i))" if "i < 4" for i
    unfolding entry_frame [OF that csp] m2 using that k by (simp add: load32_store_entry)
  have "x \<notin> span (c - 8) (room4 16 + 16)" if "x \<in> span (z - 8) (room4 (Suc (length v)) + 16)" for x
    using that disj span_sub_owned [OF cb] by blast
  then have "\<forall>x \<in> span (z - 8) (room4 (Suc (length v)) + 16). m2 x = m1 x" using m2out by simp
  from guarded_frame [OF g room4_small this] v have "guarded m2 z (Suc (length v))" by simp
  then have g4: "guarded m4 z (Suc (length v))" by (rule guarded_zone_write) (use v m4 in simp_all)
  have "guarded m1 c 16" using t1 unfolding table_ok_def by blast
  moreover have "length zs < 4" using k by simp
  ultimately have "guarded m2 c 16" unfolding m2 by (rule guarded_store_entry)
  then have gc: "guarded m4 c 16" by (rule guarded_frame) (use csp in \<open>simp_all add: room4_def\<close>)
  have old: "word_ok (?b # bs) m4 (zs ! i) (ws ! i)" if i: "i < length zs" for i
  proof (rule word_ok_frame)
    show w: "word_ok bs m1 (zs ! i) (ws ! i)" using t1 i by (simp add: table_ok_def)
    have "zs ! i \<noteq> c" using t i by (auto simp: table_ok_def)
    from word_ok_sep [OF _ w cb this] sep
    have "span (zs ! i - 8) (room4 (Suc (length (ws ! i))) + 16) \<inter> span (c - 8) (room4 16 + 16) = {}" by simp
    moreover have "span (zs ! i - 8) (room4 (Suc (length (ws ! i))) + 16) \<subseteq> owned bs"
      using w by (intro span_sub_owned) (simp add: word_ok_def)
    ultimately have "x \<in> owned bs" "x \<notin> span (c - 8) (room4 16 + 16)"
      if "x \<in> span (zs ! i - 8) (room4 (Suc (length (ws ! i))) + 16)" for x using that by blast+
    with own m2out show "\<forall>x \<in> span (zs ! i - 8) (room4 (Suc (length (ws ! i))) + 16). m4 x = m1 x" by simp
  qed auto
  have new: "word_ok (?b # bs) m4 z v" using z v g4 cs by (simp add: word_ok_def)
  have "z \<notin> set (c # zs)"
  proof
    assume "z \<in> set (c # zs)"
    moreover have "\<exists>w. word_ok bs m z w" if "z \<in> set zs"
      using t that unfolding table_ok_def by (metis in_set_conv_nth)
    ultimately have "z = c \<or> (\<exists>w. word_ok bs m z w)" by auto
    then have "z - 8 \<in> owned bs"
    proof (elim disjE exE)
      assume "z = c"
      then show ?thesis using span_sub_owned [OF cb] span_base [of "room4 16 + 16" "c - 8"] by auto
    next
      fix w assume "word_ok bs m z w"
      then have b: "block z (Suc (length w)) \<in> set bs" by (simp add: word_ok_def)
      show ?thesis using span_sub_owned [OF b] span_base [of "room4 (Suc (length w)) + 16" "z - 8"] by auto
    qed
    with disj span_base [of "room4 (Suc (length v)) + 16" "z - 8"] show False by auto
  qed
  with t t1 k gc ent old new cb show ?thesis
    unfolding table_ok_def by (auto simp: nth_append less_Suc_eq)
qed


lemma store_word_ok:
  assumes laws: "malloc_laws D live spare H" and h: "heap_ok live H (sh_heap s)" "0 < spare (sh_heap s)"
    and t: "table_ok (live (sh_heap s)) (sh_mem s) (cmd_line s) zs ws" and k: "length zs \<le> 2"
    and w: "\<forall>i < length w. sh_mem s (start + of_nat i) = w ! i" "0 \<notin> set w"
    and out: "\<forall>i \<le> length w. start + of_nat i \<notin> H" and v: "v = take 49 w"
  obtains s' z where "store_word D (length zs) start (Suc (length w)) s = Inr s'" and "cmd_line s' = cmd_line s"
    and "nb_words s' = nb_words s" and "live (sh_heap s') = block z (Suc (length v)) # live (sh_heap s)"
    and "heap_ok live H (sh_heap s')" and "spare (sh_heap s) \<le> Suc (spare (sh_heap s'))"
    and "table_ok (live (sh_heap s')) (sh_mem s') (cmd_line s) (zs @ [z]) (ws @ [v])"
    and "\<forall>x. x \<notin> H \<longrightarrow> sh_mem s' x = sh_mem s x"
proof -
  define n where "n = Suc (length v)"
  have lv: "length v \<le> 49" "length v \<le> length w" and mn: "min (Suc (length w)) WORD_SIZE = n"
    using v by (simp_all add: n_def)
  have sep: "sep (live (sh_heap s))" "owned (live (sh_heap s)) \<subseteq> H" using h(1) by (simp_all add: heap_ok_def)
  have n: "0 < n" "n \<le> 100" using lv(1) by (simp_all add: n_def)
  obtain z h' m1 where al: "umem_alloc D (of_nat n) (sh_heap s, sh_mem s) = (z, h', m1)" "z \<noteq> 0" "guarded m1 z n"
    "live h' = block z n # live (sh_heap s)" "sep (live h')" "span (z - 8) (room4 n + 16) \<subseteq> H"
    "spare (sh_heap s) \<le> Suc (spare h')" "\<forall>x. x \<in> owned (live (sh_heap s)) \<or> x \<notin> H \<longrightarrow> m1 x = sh_mem s x"
    by (rule umem_alloc_laws [OF laws n h(2) sep(1), of "sh_mem s"])
  define m2 where "m2 = store32 m1 (entry (cmd_line s) (length zs)) z"
  define m4 where "m4 = (strncpy m2 z start (of_nat n))(z + (of_nat n - 1) := 0)"
  have c: "cmd_line s \<noteq> 0" "block (cmd_line s) 16 \<in> set (live (sh_heap s))" using t unfolding table_ok_def by blast+
  have cH: "span (cmd_line s - 8) (room4 16 + 16) \<subseteq> H" using span_sub_owned [OF c(2)] sep(2) by blast
  have m2: "m2 x = m1 x" if "x \<notin> H" for x
    unfolding m2_def using that cH k by (intro store_entry_outside [where n = 16]) auto
  have zn: "z + of_nat j \<in> H" if "j < n" for j
  proof -
    have "z + of_nat j \<in> span (z - 8) (room4 n + 16)"
      using that room4_ge [of n] room4_small [of n] lv(1) by (intro zone_in_span) (auto simp: n_def)
    then show ?thesis using al(6) by blast
  qed
  have un: "unat (of_nat n :: u32) = n" using lv(1) by (subst unat_of_nat) (simp add: n_def)
  have m4: "m4 x = m2 x" if "n \<le> unat (x - z)" for x
  proof -
    have "x \<noteq> z + of_nat (length v)" using that lv(1) by (auto simp: n_def unat_of_nat)
    moreover have "z + (of_nat n - 1) = z + of_nat (length v)" by (simp add: n_def)
    moreover have "strncpy_loop m2 z start n x = m2 x" using that n(2) by (intro strncpy_outside) auto
    ultimately show ?thesis unfolding m4_def strncpy_def un by simp
  qed
  have cs: "cstr m4 z v"
    unfolding m4_def n_def
  proof (rule copy_word [OF _ w(2) v])
    show "\<forall>i < length w. m2 (start + of_nat i) = w ! i" using w(1) out m2 al(8) by auto
    fix i j assume "i \<le> length v" "j \<le> length v"
    then show "z + of_nat j \<noteq> start + of_nat i" using zn [of j] out lv(2) by (auto simp: n_def)
  qed
  define s' where "s' = s\<lparr>sh_heap := h', sh_mem := m4\<rparr>"
  have st: "store_word D (length zs) start (Suc (length w)) s = Inr s'"
    using al(1,2) c(1) unfolding store_word_def mn by (simp add: sh_alloc_def s'_def m4_def m2_def Let_def)
  have tab: "table_ok (block z (Suc (length v)) # live (sh_heap s)) m4 (cmd_line s) (zs @ [z]) (ws @ [v])"
    using al m4 lv(1) unfolding n_def
    by (intro table_ok_extend [OF t k _ _ _ _ _ m2_def _ cs]) simp_all
  have fr: "m4 x = sh_mem s x" if "x \<notin> H" for x
  proof -
    have "n \<le> unat (x - z)" using zn [of "unat (x - z)"] that by (auto simp: not_le [symmetric])
    then show ?thesis using m4 m2 [OF that] al(8) that by simp
  qed
  have ho: "heap_ok live H h'" using al(4,5,6) sep(2) by (simp add: heap_ok_def)
  show ?thesis
    using that [OF st] ho al(4,7) tab fr by (simp add: s'_def n_def)
qed


section \<open>Releasing the table\<close>

text \<open>The blocks of words, and the part of a table from entry \<open>i\<close> on.\<close>

definition word_blocks :: "addr list \<Rightarrow> u8 list list \<Rightarrow> (addr \<times> nat) list" where
  "word_blocks zs ws = map2 (\<lambda>z w. block z (Suc (length w))) zs ws"

definition tail_ok :: "(addr \<times> nat) list \<Rightarrow> mem \<Rightarrow> addr \<Rightarrow> nat \<Rightarrow> addr list \<Rightarrow> u8 list list \<Rightarrow> bool" where
  "tail_ok bs m c i zs ws \<longleftrightarrow> block c 16 \<in> set bs \<and> distinct (c # zs) \<and> i + length zs < 4
     \<and> list_all2 (word_ok bs m) zs ws
     \<and> (\<forall>j < length zs. load32 m (entry c (i + j)) = zs ! j) \<and> load32 m (entry c (i + length zs)) = 0"

lemma tail_ok_table: "table_ok bs m c zs ws \<Longrightarrow> tail_ok bs m c 0 zs ws"
  unfolding table_ok_def tail_ok_def by (auto simp: list_all2_conv_all_nth)

lemma tail_ok_ConsD:
  assumes "tail_ok bs m c i (z # zs) ws"
  obtains w ws' where "ws = w # ws'" and "load32 m (entry c i) = z" and "word_ok bs m z w"
    and "z \<noteq> c" and "tail_ok bs m c (Suc i) zs ws'"
proof -
  obtain w ws' where ws: "ws = w # ws'" "word_ok bs m z w" "list_all2 (word_ok bs m) zs ws'"
    using assms unfolding tail_ok_def by (auto simp: list_all2_Cons1)
  have "load32 m (entry c (i + j)) = (z # zs) ! j" if "j < Suc (length zs)" for j
    using assms that by (simp add: tail_ok_def)
  from this [of 0] this [of "Suc _"] ws that show ?thesis
    using assms unfolding tail_ok_def by auto
qed

lemma tail_ok_frame:
  assumes t: "tail_ok bs m c i zs ws" and eq: "\<forall>x \<in> owned bs'. m' x = m x"
    and sub: "block c 16 \<in> set bs'" "\<And>z w. z \<in> set zs \<Longrightarrow> word_ok bs m z w \<Longrightarrow> block z (Suc (length w)) \<in> set bs'"
  shows "tail_ok bs' m' c i zs ws"
proof -
  have c: "\<forall>x \<in> span (c - 8) (room4 16 + 16). m' x = m x" using eq span_sub_owned [OF sub(1)] by blast
  have w: "word_ok bs' m' z w" if "z \<in> set zs" "word_ok bs m z w" for z w
  proof -
    note b = sub(2) [OF that]
    have "word_ok bs m' z w" using eq span_sub_owned [OF b] by (intro word_ok_frame [OF that(2)]) auto
    with b show ?thesis by (simp add: word_ok_def)
  qed
  have "list_all2 (word_ok bs' m') zs ws"
    using t w unfolding tail_ok_def by (auto simp: list_all2_conv_all_nth)
  moreover have "load32 m' (entry c (i + j)) = load32 m (entry c (i + j))" if "j \<le> length zs" for j
    using t that by (intro entry_frame [OF _ c]) (simp add: tail_ok_def)
  ultimately show ?thesis using t sub(1) unfolding tail_ok_def by simp
qed

lemma sh_free_ok:
  assumes laws: "malloc_laws D live spare H" and h: "heap_ok live H (sh_heap s)" and n: "0 < n" "n \<le> 100"
    and g: "guarded (sh_mem s) z n" "block z n \<in> set (live (sh_heap s))"
  obtains s' where "sh_free D z (of_nat n) s = Inr s'" and "cmd_line s' = cmd_line s" and "nb_words s' = nb_words s"
    and "live (sh_heap s') = remove1 (block z n) (live (sh_heap s))" and "heap_ok live H (sh_heap s')"
    and "spare (sh_heap s) \<le> spare (sh_heap s')"
    and "\<forall>x. x \<in> owned (live (sh_heap s')) \<or> x \<notin> H \<longrightarrow> sh_mem s' x = sh_mem s x"
proof -
  have sep: "sep (live (sh_heap s))" "owned (live (sh_heap s)) \<subseteq> H" using h by (simp_all add: heap_ok_def)
  obtain h' m' where f: "umem_free D z (of_nat n) (sh_heap s, sh_mem s) = Inr (h', m')"
    "live h' = remove1 (block z n) (live (sh_heap s))" "sep (live h')" "spare (sh_heap s) \<le> spare h'"
    "\<forall>x. x \<in> owned (live h') \<or> x \<notin> H \<longrightarrow> m' x = sh_mem s x"
    by (rule umem_free_laws [OF laws n sep(1) g sep(2)])
  have "heap_ok live H h'"
    using f(2,3) sep(2) owned_remove1 [of "block z n" "live (sh_heap s)"] by (auto simp: heap_ok_def)
  with f show ?thesis
    by (intro that [of "s\<lparr>sh_heap := h', sh_mem := m'\<rparr>"]) (simp_all add: sh_free_def)
qed

lemma free_loop_ok:
  assumes laws: "malloc_laws D live spare H" and h: "heap_ok live H (sh_heap s)"
    and t: "tail_ok (live (sh_heap s)) (sh_mem s) (cmd_line s) i zs ws"
  shows "\<exists>s'. free_loop D (Suc k + length zs) i s = Inr s' \<and> cmd_line s' = cmd_line s \<and> nb_words s' = nb_words s
    \<and> live (sh_heap s') = fold remove1 (word_blocks zs ws) (live (sh_heap s)) \<and> heap_ok live H (sh_heap s')
    \<and> block (cmd_line s) 16 \<in> set (live (sh_heap s'))
    \<and> (\<forall>x. x \<in> owned (live (sh_heap s')) \<or> x \<notin> H \<longrightarrow> sh_mem s' x = sh_mem s x)"
  using h t
proof (induction zs arbitrary: i s ws)
  case Nil
  then show ?case by (simp add: tail_ok_def word_blocks_def)
next
  case (Cons z zs)
  obtain w ws' where w: "ws = w # ws'" "load32 (sh_mem s) (entry (cmd_line s) i) = z"
    "word_ok (live (sh_heap s)) (sh_mem s) z w" "z \<noteq> cmd_line s"
    and t: "tail_ok (live (sh_heap s)) (sh_mem s) (cmd_line s) (Suc i) zs ws'"
    by (rule tail_ok_ConsD [OF Cons.prems(2)])
  have wk: "z \<noteq> 0" "length w \<le> 49" "guarded (sh_mem s) z (Suc (length w))" "cstr (sh_mem s) z w"
    "block z (Suc (length w)) \<in> set (live (sh_heap s))" using w(3) by (simp_all add: word_ok_def)
  have "0 < Suc (length w)" "Suc (length w) \<le> 100" using wk(2) by simp_all
  then obtain s1 where f: "sh_free D z (of_nat (Suc (length w))) s = Inr s1" "cmd_line s1 = cmd_line s"
    "nb_words s1 = nb_words s" "live (sh_heap s1) = remove1 (block z (Suc (length w))) (live (sh_heap s))"
    "heap_ok live H (sh_heap s1)"
    "\<forall>x. x \<in> owned (live (sh_heap s1)) \<or> x \<notin> H \<longrightarrow> sh_mem s1 x = sh_mem s x"
    by (rule sh_free_ok [OF laws Cons.prems(1) _ _ wk(3,5)])
  have z: "z \<notin> set zs" using Cons.prems(2) by (simp add: tail_ok_def)
  have keep: "(y - 8, n) \<in> set (live (sh_heap s1))" if "(y - 8, n) \<in> set (live (sh_heap s))" "y \<noteq> z" for y n
    using that f(4) by simp
  have "tail_ok (live (sh_heap s1)) (sh_mem s1) (cmd_line s) (Suc i) zs ws'"
  proof (rule tail_ok_frame [OF t])
    show "block (cmd_line s) 16 \<in> set (live (sh_heap s1))"
      using t w(4) by (intro keep) (auto simp: tail_ok_def)
    fix y v assume "y \<in> set zs" "word_ok (live (sh_heap s)) (sh_mem s) y v"
    then show "block y (Suc (length v)) \<in> set (live (sh_heap s1))" using z by (intro keep) (auto simp: word_ok_def)
  qed (use f(6) in simp)
  from Cons.IH [OF f(5) this [folded f(2)]] obtain s' where IH: "free_loop D (Suc k + length zs) (Suc i) s1 = Inr s'"
    "cmd_line s' = cmd_line s1" "nb_words s' = nb_words s1" "heap_ok live H (sh_heap s')"
    "live (sh_heap s') = fold remove1 (word_blocks zs ws') (live (sh_heap s1))"
    "block (cmd_line s1) 16 \<in> set (live (sh_heap s'))"
    "\<forall>x. x \<in> owned (live (sh_heap s')) \<or> x \<notin> H \<longrightarrow> sh_mem s' x = sh_mem s1 x" by blast
  have step: "free_loop D (Suc k + length (z # zs)) i s = Inr s'"
    using w(2) wk(1) f(1) IH(1) by (simp add: Let_def sh_strlen_def strlen_cstr [OF wk(4)] add.commute)
  have sub: "set (fold remove1 bs xs) \<subseteq> set xs" for bs xs :: "(addr \<times> nat) list"
  proof (induction bs arbitrary: xs)
    case (Cons b bs)
    from Cons.IH [of "remove1 b xs"] set_remove1_subset [of b xs] show ?case by simp
  qed simp
  have "owned (live (sh_heap s')) \<subseteq> owned (live (sh_heap s1))"
    unfolding IH(5) owned_def using sub by blast
  with IH f show ?case unfolding w(1) using step by (auto simp: word_blocks_def)
qed


text \<open>The table after the loop of \<^verbatim>\<open>free_cmd_line\<close>: its words are freed, its guards are as before.\<close>

lemma free_loop_table:
  assumes laws: "malloc_laws D live spare H" and h: "heap_ok live H (sh_heap s)"
    and t: "table_ok (live (sh_heap s)) (sh_mem s) (cmd_line s) zs ws" and n: "4 \<le> nb_words s"
  obtains s' where "free_loop D (nb_words s) 0 s = Inr s'" and "cmd_line s' = cmd_line s" and "nb_words s' = nb_words s"
    and "live (sh_heap s') = fold remove1 (word_blocks zs ws) (live (sh_heap s))" and "heap_ok live H (sh_heap s')"
    and "block (cmd_line s) 16 \<in> set (live (sh_heap s'))" and "guarded (sh_mem s') (cmd_line s) 16"
    and "\<forall>x. x \<notin> H \<longrightarrow> sh_mem s' x = sh_mem s x"
proof -
  have "length zs \<le> 3" and g: "guarded (sh_mem s) (cmd_line s) 16" using t unfolding table_ok_def by blast+
  then have k: "Suc (nb_words s - Suc (length zs)) + length zs = nb_words s" using n by simp
  from free_loop_ok [OF laws h tail_ok_table [OF t], of "nb_words s - Suc (length zs)"]
  obtain s' where f: "free_loop D (nb_words s) 0 s = Inr s'" "cmd_line s' = cmd_line s" "nb_words s' = nb_words s"
    "live (sh_heap s') = fold remove1 (word_blocks zs ws) (live (sh_heap s))" "heap_ok live H (sh_heap s')"
    "block (cmd_line s) 16 \<in> set (live (sh_heap s'))"
    "\<forall>x. x \<in> owned (live (sh_heap s')) \<or> x \<notin> H \<longrightarrow> sh_mem s' x = sh_mem s x"
    unfolding k by blast
  have sp: "\<forall>x \<in> span (cmd_line s - 8) (room4 16 + 16). sh_mem s' x = sh_mem s x"
    using f(7) span_sub_owned [OF f(6)] by blast
  have "guarded (sh_mem s') (cmd_line s) 16" using guarded_frame [OF g _ sp] by (simp add: room4_def)
  with f that show ?thesis by simp
qed

lemma free_cmd_line_ok:
  assumes laws: "malloc_laws D live spare H" and h: "heap_ok live H (sh_heap s)"
    and t: "table_ok (live (sh_heap s)) (sh_mem s) (cmd_line s) zs ws" and n: "nb_words s = 4"
  obtains s' where "free_cmd_line D s = Inr s'"
    and "live (sh_heap s') = remove1 (block (cmd_line s) 16) (fold remove1 (word_blocks zs ws) (live (sh_heap s)))"
    and "heap_ok live H (sh_heap s')" and "\<forall>x. x \<notin> H \<longrightarrow> sh_mem s' x = sh_mem s x"
proof -
  have "4 \<le> nb_words s" using n by simp
  then obtain s1 where f: "free_loop D (nb_words s) 0 s = Inr s1" "cmd_line s1 = cmd_line s" "nb_words s1 = nb_words s"
    "live (sh_heap s1) = fold remove1 (word_blocks zs ws) (live (sh_heap s))" "heap_ok live H (sh_heap s1)"
    "block (cmd_line s) 16 \<in> set (live (sh_heap s1))" "guarded (sh_mem s1) (cmd_line s) 16"
    "\<forall>x. x \<notin> H \<longrightarrow> sh_mem s1 x = sh_mem s x"
    by (rule free_loop_table [OF laws h t])
  have "0 < (16 :: nat)" "16 \<le> (100 :: nat)" by simp_all
  then obtain s' where g: "sh_free D (cmd_line s) (of_nat 16) s1 = Inr s'"
    "live (sh_heap s') = remove1 (block (cmd_line s) 16) (live (sh_heap s1))" "heap_ok live H (sh_heap s')"
    "\<forall>x. x \<in> owned (live (sh_heap s')) \<or> x \<notin> H \<longrightarrow> sh_mem s' x = sh_mem s1 x"
    by (rule sh_free_ok [OF laws f(5) _ _ f(7,6)])
  have "free_cmd_line D s = Inr s'" using f(1,2,3) g(1) n by (simp add: free_cmd_line_def)
  with g f(4,8) that show ?thesis by simp
qed

text \<open>With \<^verbatim>\<open>nb_words\<close> doubled, the length given back for the table is not the one it was allocated with.\<close>

lemma free_cmd_line_doubled:
  assumes laws: "malloc_laws D live spare H" and h: "heap_ok live H (sh_heap s)"
    and t: "table_ok (live (sh_heap s)) (sh_mem s) (cmd_line s) zs ws" and n: "nb_words s = 8"
  shows "free_cmd_line D s = Inl (MemBug BAD_LENGTH)"
proof -
  have "4 \<le> nb_words s" using n by simp
  then obtain s1 where f: "free_loop D (nb_words s) 0 s = Inr s1" "cmd_line s1 = cmd_line s" "nb_words s1 = nb_words s"
    "guarded (sh_mem s1) (cmd_line s) 16"
    by (rule free_loop_table [OF laws h t])
  have "sh_free D (cmd_line s) 32 s1 = Inl (MemBug BAD_LENGTH)"
    using f(4) by (simp add: guarded_def sh_free_def umem_free_def mem_bug_def Let_def)
  with f n show ?thesis by (simp add: free_cmd_line_def)
qed

section \<open>The larger table\<close>

lemma table_ok_blocks:
  assumes "table_ok bs m c zs ws"
  shows "table_ok (block c 16 # word_blocks zs ws) m c zs ws" and "set (block c 16 # word_blocks zs ws) \<subseteq> set bs"
proof -
  have l: "length ws = length zs" using assms unfolding table_ok_def by blast
  have w: "word_ok bs m (zs ! i) (ws ! i)" if "i < length zs" for i using assms that unfolding table_ok_def by blast
  have b: "word_blocks zs ws ! i = block (zs ! i) (Suc (length (ws ! i)))" if "i < length zs" for i
    using that l by (simp add: word_blocks_def)
  have "length (word_blocks zs ws) = length zs" using l by (simp add: word_blocks_def)
  then have "block (zs ! i) (Suc (length (ws ! i))) \<in> set (word_blocks zs ws)" if "i < length zs" for i
    using that b [OF that] by (metis nth_mem)
  then have "word_ok (block c 16 # word_blocks zs ws) m (zs ! i) (ws ! i)" if "i < length zs" for i
    using w [OF that] that by (simp add: word_ok_def)
  with assms show "table_ok (block c 16 # word_blocks zs ws) m c zs ws" unfolding table_ok_def by simp
  have "set (word_blocks zs ws) \<subseteq> set bs"
  proof
    fix x assume "x \<in> set (word_blocks zs ws)"
    then obtain i where "i < length zs" "x = word_blocks zs ws ! i"
      using \<open>length (word_blocks zs ws) = length zs\<close> by (auto simp: in_set_conv_nth)
    then show "x \<in> set bs" using b w by (simp add: word_ok_def)
  qed
  then show "set (block c 16 # word_blocks zs ws) \<subseteq> set bs" using assms unfolding table_ok_def by simp
qed

lemma sep_other:
  assumes "sep bs" and "set tb \<subseteq> set bs" and "(q, n) \<in> set bs" and "(q, n) \<notin> set tb"
  shows "span q n \<inter> owned tb = {}"
proof (rule ccontr)
  assume "span q n \<inter> owned tb \<noteq> {}"
  then obtain p k where "(p, k) \<in> set tb" "span q n \<inter> span p k \<noteq> {}" by (auto simp: owned_def)
  moreover from this assms have "(q, n) = (p, k)" by (intro sep_same [of bs]) auto
  ultimately show False using assms(4) by simp
qed


lemma sh_alloc_ok:
  assumes laws: "malloc_laws D live spare H" and h: "heap_ok live H (sh_heap s)" "0 < spare (sh_heap s)"
    and n: "0 < n" "n \<le> 100"
  obtains z s' where "sh_alloc D (of_nat n) s = (z, s')" and "z \<noteq> 0" and "guarded (sh_mem s') z n"
    and "\<forall>i < room4 n. sh_mem s' (z + of_nat i) = 0" and "live (sh_heap s') = block z n # live (sh_heap s)"
    and "heap_ok live H (sh_heap s')" and "spare (sh_heap s) \<le> Suc (spare (sh_heap s'))"
    and "cmd_line s' = cmd_line s" and "nb_words s' = nb_words s"
    and "\<forall>x. x \<in> owned (live (sh_heap s)) \<or> x \<notin> H \<longrightarrow> sh_mem s' x = sh_mem s x"
proof -
  have sep: "sep (live (sh_heap s))" "owned (live (sh_heap s)) \<subseteq> H" using h(1) by (simp_all add: heap_ok_def)
  obtain z h' m' where a: "umem_alloc D (of_nat n) (sh_heap s, sh_mem s) = (z, h', m')" "z \<noteq> 0" "guarded m' z n"
    "\<forall>i < room4 n. m' (z + of_nat i) = 0" "live h' = block z n # live (sh_heap s)" "sep (live h')"
    "span (z - 8) (room4 n + 16) \<subseteq> H" "spare (sh_heap s) \<le> Suc (spare h')"
    "\<forall>x. x \<in> owned (live (sh_heap s)) \<or> x \<notin> H \<longrightarrow> m' x = sh_mem s x"
    by (rule umem_alloc_laws [OF laws n h(2) sep(1), of "sh_mem s"])
  have "heap_ok live H h'" using a(5,6,7) sep(2) by (simp add: heap_ok_def)
  with a show ?thesis by (intro that [of z "s\<lparr>sh_heap := h', sh_mem := m'\<rparr>"]) (simp_all add: sh_alloc_def)
qed

text \<open>The copies go to fresh blocks: the old table and its words stay as they are.\<close>

lemma copy_words_ok:
  assumes laws: "malloc_laws D live spare H"
    and tb: "tb = block c 16 # word_blocks zs ws" and d: "d \<noteq> 0" "block d 32 \<notin> set tb"
    and h: "heap_ok live H (sh_heap s)" "length zs - i \<le> spare (sh_heap s)"
    and sub: "set (block d 32 # tb) \<subseteq> set (live (sh_heap s))"
    and t: "cmd_line s = c" "table_ok tb (sh_mem s) c zs ws" and k: "length zs < i + k" "i \<le> length zs"
  shows "\<exists>s'. copy_words D k i d s = Inr s' \<and> cmd_line s' = c \<and> nb_words s' = nb_words s
    \<and> heap_ok live H (sh_heap s') \<and> set tb \<subseteq> set (live (sh_heap s')) \<and> table_ok tb (sh_mem s') c zs ws"
  using h sub t k
proof (induction k arbitrary: i s)
  case (Suc k)
  have lz: "length zs \<le> 3" using Suc.prems(5) unfolding table_ok_def by blast
  show ?case
  proof (cases "i < length zs")
    case False
    then have "load32 (sh_mem s) (entry c i) = 0"
      using Suc.prems(5,7) lz unfolding table_ok_def by simp
    then show ?thesis using Suc.prems by auto
  next
    case True
    define z w where "z = zs ! i" and "w = ws ! i"
    have e: "load32 (sh_mem s) (entry c i) = z" and "word_ok tb (sh_mem s) z w"
      using Suc.prems(5) True unfolding table_ok_def z_def w_def by blast+
    then have wk: "z \<noteq> 0" "length w \<le> 49" "cstr (sh_mem s) z w" by (simp_all add: word_ok_def)
    have "0 < spare (sh_heap s)" "0 < Suc (length w)" "Suc (length w) \<le> 100"
      using Suc.prems(2) True wk(2) by simp_all
    then obtain p s1 where a: "sh_alloc D (of_nat (Suc (length w))) s = (p, s1)" "p \<noteq> 0"
      "live (sh_heap s1) = block p (Suc (length w)) # live (sh_heap s)" "heap_ok live H (sh_heap s1)"
      "spare (sh_heap s) \<le> Suc (spare (sh_heap s1))" "cmd_line s1 = cmd_line s" "nb_words s1 = nb_words s"
      "\<forall>x. x \<in> owned (live (sh_heap s)) \<or> x \<notin> H \<longrightarrow> sh_mem s1 x = sh_mem s x"
      by (rule sh_alloc_ok [OF laws Suc.prems(1)])
    have sep: "sep (live (sh_heap s1))" "sep (live (sh_heap s))" using a(3,4) by (simp_all add: heap_ok_def)
    have own: "owned tb \<subseteq> owned (live (sh_heap s))" using Suc.prems(3) by (auto simp: owned_def)
    define m1 where "m1 = store32 (sh_mem s1) (entry d i) p"
    have "span (d - 8) (room4 32 + 16) \<inter> owned tb = {}"
      using Suc.prems(3) d(2) by (intro sep_other [OF sep(2)]) auto
    then have m1: "m1 x = sh_mem s x" if "x \<in> owned tb" for x
      unfolding m1_def using that own a(8) lz True by (subst store_entry_outside [where n = 32]) auto
    have cs: "cstr m1 z w" and e1: "load32 m1 (entry c i) = z"
      using table_ok_frame [OF Suc.prems(5), of m1 tb] m1 True
      unfolding table_ok_def word_ok_def z_def w_def by blast+
    define m2 where "m2 = strncpy m1 p z (of_nat (length w))"
    have "m2 x = m1 x" if "x \<in> owned tb" for x
      unfolding m2_def strncpy_def
    proof (rule strncpy_outside, goal_cases)
      case 2
      show ?case
      proof (rule ccontr)
        assume "\<not> ?case"
        then have "unat (x - p) < length w" using wk(2) by (simp add: unat_of_nat)
        then have "p + of_nat (unat (x - p)) \<in> span (p - 8) (room4 (Suc (length w)) + 16)"
          using room4_ge [of "Suc (length w)"] room4_small [of "Suc (length w)"] wk(2) by (intro zone_in_span) auto
        with sep(1) a(3) own that show False by auto
      qed
    qed (use wk(2) in \<open>simp add: unat_of_nat\<close>)
    with m1 have "\<forall>x \<in> owned tb. m2 x = sh_mem s x" by simp
    with table_ok_frame [OF Suc.prems(5)] have t2: "table_ok tb m2 c zs ws" by blast
    have step: "copy_words D (Suc k) i d s = copy_words D k (Suc i) d (s1\<lparr>sh_mem := m2\<rparr>)"
      using e wk(1) a(1,2,6) d(1) Suc.prems(4) e1
      by (simp add: Let_def sh_strlen_def strlen_cstr [OF wk(3)] strlen_cstr [OF cs] add.commute m1_def [symmetric]
          m2_def)
    have "\<exists>s'. copy_words D k (Suc i) d (s1\<lparr>sh_mem := m2\<rparr>) = Inr s' \<and> cmd_line s' = c
      \<and> nb_words s' = nb_words (s1\<lparr>sh_mem := m2\<rparr>)
      \<and> heap_ok live H (sh_heap s') \<and> set tb \<subseteq> set (live (sh_heap s')) \<and> table_ok tb (sh_mem s') c zs ws"
      using a Suc.prems t2 True by (intro Suc.IH) auto
    then show ?thesis unfolding step using a(7) by simp
  qed
qed simp

text \<open>The parser fails when it needs a larger table.\<close>

lemma grow_fails:
  assumes laws: "malloc_laws D live spare H" and h: "heap_ok live H (sh_heap s)" "4 \<le> spare (sh_heap s)"
    and t: "table_ok (live (sh_heap s)) (sh_mem s) (cmd_line s) zs ws" and n: "nb_words s = 4"
  shows "grow D s = Inl (MemBug BAD_LENGTH)"
proof -
  define c where "c = cmd_line s"
  define tb where "tb = block c 16 # word_blocks zs ws"
  note tbs = table_ok_blocks [OF t, folded c_def, folded tb_def]
  have "heap_ok live H (sh_heap (s\<lparr>nb_words := 8\<rparr>))" "0 < spare (sh_heap (s\<lparr>nb_words := 8\<rparr>))"
    "0 < (32 :: nat)" "32 \<le> (100 :: nat)" using h by simp_all
  then obtain d s1 where a: "sh_alloc D (of_nat 32) (s\<lparr>nb_words := 8\<rparr>) = (d, s1)" "d \<noteq> 0"
    "live (sh_heap s1) = block d 32 # live (sh_heap (s\<lparr>nb_words := 8\<rparr>))" "heap_ok live H (sh_heap s1)"
    "spare (sh_heap (s\<lparr>nb_words := 8\<rparr>)) \<le> Suc (spare (sh_heap s1))" "cmd_line s1 = cmd_line (s\<lparr>nb_words := 8\<rparr>)"
    "nb_words s1 = nb_words (s\<lparr>nb_words := 8\<rparr>)"
    "\<forall>x. x \<in> owned (live (sh_heap (s\<lparr>nb_words := 8\<rparr>))) \<or> x \<notin> H \<longrightarrow> sh_mem s1 x = sh_mem (s\<lparr>nb_words := 8\<rparr>) x"
    by (rule sh_alloc_ok [OF laws])
  have own: "owned tb \<subseteq> owned (live (sh_heap s))" using tbs(2) by (auto simp: owned_def)
  have t1: "table_ok tb (sh_mem s1) c zs ws" using own a(8) by (intro table_ok_frame [OF tbs(1)]) auto
  have "sep (live (sh_heap s1))" using a(4) by (simp add: heap_ok_def)
  from sep_distinct [OF this] tbs(2) have nd: "block d 32 \<notin> set tb" unfolding a(3) by auto
  have lz: "length zs \<le> 3" using t unfolding table_ok_def by blast
  have "\<exists>s'. copy_words D 8 0 d s1 = Inr s' \<and> cmd_line s' = c \<and> nb_words s' = nb_words s1
    \<and> heap_ok live H (sh_heap s') \<and> set tb \<subseteq> set (live (sh_heap s')) \<and> table_ok tb (sh_mem s') c zs ws"
    using a tbs(2) h(2) lz t1 by (intro copy_words_ok [OF laws tb_def a(2) nd]) (auto simp: c_def)
  then obtain s2 where c2: "copy_words D 8 0 d s1 = Inr s2" "cmd_line s2 = c" "nb_words s2 = 8"
    "heap_ok live H (sh_heap s2)" "set tb \<subseteq> set (live (sh_heap s2))" "table_ok tb (sh_mem s2) c zs ws"
    using a(7) by auto
  have "table_ok (live (sh_heap s2)) (sh_mem s2) (cmd_line s2) zs ws"
    unfolding c2(2) using c2(5) by (intro table_ok_frame [OF c2(6)]) auto
  from free_cmd_line_doubled [OF laws c2(4) this c2(3)] show ?thesis
    using a(1,7) c2(1) n by (simp add: grow_def Let_def)
qed


section \<open>The parser\<close>

lemma skip_space_cstr:
  assumes "cstr m (line + of_nat i) r" and "i + length r \<le> 100"
  shows "skip_space line i m = Inr (i + length (takeWhile (\<lambda>c. c = 32) r))
    \<and> cstr m (line + of_nat (i + length (takeWhile (\<lambda>c. c = 32) r))) (dropWhile (\<lambda>c. c = 32) r)"
  using assms
proof (induction r arbitrary: i)
  case Nil
  then show ?case by (simp add: skip_space.simps)
next
  case (Cons c r)
  have "cstr m (line + of_nat (Suc i)) r" using Cons.prems(1) by (simp add: ac_simps)
  with Cons.IH [of "Suc i"] Cons.prems show ?case by (simp add: skip_space.simps [of line i] ac_simps)
qed

text \<open>The loop runs over the characters of a word.\<close>

lemma word_loop_run:
  assumes "cstr (sh_mem s) (line + of_nat i) (u @ v)" and "32 \<notin> set u" and "i + length (u @ v) \<le> 100"
  shows "word_loop D line index st i nb s = word_loop D line index st (i + length u) (nb + length u) s"
  using assms
proof (induction u arbitrary: i nb)
  case (Cons c u)
  have "cstr (sh_mem s) (line + of_nat (Suc i)) (u @ v)" using Cons.prems(1) by (simp add: add.commute add.left_commute)
  from Cons.IH [OF this, of "Suc nb"] Cons.prems show ?case
    by (subst word_loop.simps) (auto simp: Let_def)
qed simp

lemma cut_words_cases:
  obtains "32 \<notin> set r" "cut_words r = [r]"
  | w d where "r = w @ 32 # d" "32 \<notin> set w" "dropWhile (\<lambda>c. c \<noteq> 32) r = 32 # d" "cut_words r = w # cut_words (dropWhile (\<lambda>c. c = 32) d)"
proof (cases "dropWhile (\<lambda>c. c \<noteq> 32) r")
  case Nil
  then have "32 \<notin> set r" by (auto simp: dropWhile_eq_Nil_conv)
  moreover have "cut_words r = [r]" by (subst cut_words.simps) (simp only: Nil list.case)
  ultimately show ?thesis using that(1) by blast
next
  case (Cons c d)
  then have c: "c = 32" using hd_dropWhile [of "\<lambda>c. c \<noteq> 32" r] by simp
  have "r = takeWhile (\<lambda>c. c \<noteq> 32) r @ 32 # d" using Cons c takeWhile_dropWhile_id [of "\<lambda>c. c \<noteq> 32" r] by simp
  moreover have "32 \<notin> set (takeWhile (\<lambda>c. c \<noteq> 32) r)" by (auto dest: set_takeWhileD)
  moreover have "cut_words r = takeWhile (\<lambda>c. c \<noteq> 32) r # cut_words (dropWhile (\<lambda>c. c = 32) d)"
    by (subst cut_words.simps) (simp only: Cons list.case)
  ultimately show ?thesis using that(2) Cons c by blast
qed

lemma cut_words_nonempty: "0 < length (cut_words r)"
  by (cases r rule: cut_words_cases) auto

text \<open>Characters of the line and what follows them lie outside the heap.\<close>

lemma cstr_prefix:
  assumes "cstr m a (w @ r)"
  shows "\<forall>i < length w. m (a + of_nat i) = w ! i" and "0 \<notin> set w"
  using assms unfolding cstr_append by auto

lemma word_loop_words:
  assumes laws: "malloc_laws D live spare H" and out: "\<forall>i \<le> 100. line + of_nat i \<notin> H"
    and "heap_ok live H (sh_heap s)" and "7 \<le> spare (sh_heap s) + length zs"
    and "table_ok (live (sh_heap s)) (sh_mem s) (cmd_line s) zs ws" and "nb_words s = 4" and "length zs \<le> 2"
    and "cstr (sh_mem s) (line + of_nat st) r" and "st + length r \<le> 100"
  shows "(length zs + length (cut_words r) \<le> 3 \<longrightarrow>
      (\<exists>s' zs'. word_loop D line (length zs) st st 0 s = Inr s' \<and> cmd_line s' = cmd_line s \<and> nb_words s' = 4
        \<and> heap_ok live H (sh_heap s') \<and> length zs' = length (cut_words r)
        \<and> live (sh_heap s') = rev (word_blocks zs' (map (take 49) (cut_words r))) @ live (sh_heap s)
        \<and> table_ok (live (sh_heap s')) (sh_mem s') (cmd_line s) (zs @ zs') (ws @ map (take 49) (cut_words r))
        \<and> (\<forall>x. x \<notin> H \<longrightarrow> sh_mem s' x = sh_mem s x)))
    \<and> (4 \<le> length zs + length (cut_words r) \<longrightarrow> word_loop D line (length zs) st st 0 s = Inl (MemBug BAD_LENGTH))"
  using assms(3-)
proof (induction r arbitrary: s zs ws st rule: cut_words.induct)
  case (1 r)
  note prems = 1(2-)
  have pos: "0 < spare (sh_heap s)" using prems(2,5) by simp
  have outw: "\<forall>i \<le> n. line + of_nat st + of_nat i \<notin> H" if "st + n \<le> 100" for n
  proof (intro allI impI)
    fix i assume "i \<le> n"
    then have "st + i \<le> 100" using that by simp
    with out have "line + of_nat (st + i) \<notin> H" by blast
    then show "line + of_nat st + of_nat i \<notin> H" by (simp add: add.assoc)
  qed
  show ?case
  proof (cases r rule: cut_words_cases)
    case 1
    have run: "word_loop D line (length zs) st st 0 s = word_loop D line (length zs) st (st + length r) (length r) s"
      using word_loop_run [of s line st r "[]"] prems(6,7) 1(1) by simp
    have w: "\<forall>i < length r. sh_mem s (line + of_nat st + of_nat i) = r ! i" "0 \<notin> set r"
      using cstr_prefix [of "sh_mem s" "line + of_nat st" r "[]"] prems(6) by simp_all
    obtain s' z where st: "store_word D (length zs) (line + of_nat st) (Suc (length r)) s = Inr s'"
      "cmd_line s' = cmd_line s" "nb_words s' = nb_words s"
      "live (sh_heap s') = block z (Suc (length (take 49 r))) # live (sh_heap s)" "heap_ok live H (sh_heap s')"
      "spare (sh_heap s) \<le> Suc (spare (sh_heap s'))"
      "table_ok (live (sh_heap s')) (sh_mem s') (cmd_line s) (zs @ [z]) (ws @ [take 49 r])"
      "\<forall>x. x \<notin> H \<longrightarrow> sh_mem s' x = sh_mem s x"
      by (rule store_word_ok [OF laws prems(1) pos prems(3,5) w outw [of "length r"] refl]) (use prems(7) in simp)
    have "sh_mem s (line + of_nat (st + length r)) = 0"
      using prems(6) cstr_append [of "sh_mem s" "line + of_nat st" r "[]"] by (simp add: add.assoc)
    then have "word_loop D line (length zs) st st 0 s = Inr s'"
      unfolding run using st(1) prems(7) by (subst word_loop.simps) (simp add: Let_def)
    then show ?thesis
      unfolding 1(2) using st prems(4,5) by (auto intro!: exI [of _ s'] exI [of _ "[z]"] simp: word_blocks_def)
  next
    case (2 w d)
    have lr: "length r = length w + 1 + length d" using 2(1) by simp
    have cs: "cstr (sh_mem s) (line + of_nat st) (w @ 32 # d)" using prems(6) 2(1) by simp
    obtain s1 z where st: "store_word D (length zs) (line + of_nat st) (Suc (length w)) s = Inr s1"
      "cmd_line s1 = cmd_line s" "nb_words s1 = nb_words s"
      "live (sh_heap s1) = block z (Suc (length (take 49 w))) # live (sh_heap s)" "heap_ok live H (sh_heap s1)"
      "spare (sh_heap s) \<le> Suc (spare (sh_heap s1))"
      "table_ok (live (sh_heap s1)) (sh_mem s1) (cmd_line s) (zs @ [z]) (ws @ [take 49 w])"
      "\<forall>x. x \<notin> H \<longrightarrow> sh_mem s1 x = sh_mem s x"
      by (rule store_word_ok [OF laws prems(1) pos prems(3,5) cstr_prefix [OF cs] outw [of "length w"] refl])
        (use prems(7) lr in simp)
    have tail: "sh_mem s (line + of_nat (st + length w)) = 32" "cstr (sh_mem s) (line + of_nat (st + length w + 1)) d"
      using cs unfolding cstr_append by (simp_all add: algebra_simps)
    have "word_loop D line (length zs) st st 0 s = word_loop D line (length zs) st (st + length w) (length w) s"
      using word_loop_run [OF cs 2(2), of D "length zs" st 0] prems(7) lr by simp
    then have step: "word_loop D line (length zs) st st 0 s =
        bnd (if length zs + 1 = 3 then grow D s1 else Inr s1) (\<lambda>s2.
        bnd (skip_space line (st + length w + 1) (sh_mem s2)) (\<lambda>i. word_loop D line (length zs + 1) i i 0 s2))"
      using tail(1) st(1,3) prems(4,7) lr by (subst (asm) (2) word_loop.simps) (simp add: Let_def)
    show ?thesis
    proof (cases "length zs = 2")
      case True
      have "4 \<le> spare (sh_heap s1)" "nb_words s1 = 4" using st(3,6) prems(2,4) True by simp_all
      from grow_fails [OF laws st(5) this(1) st(7) [folded st(2)] this(2)] show ?thesis
        unfolding step 2(4) using True cut_words_nonempty [of "dropWhile (\<lambda>c. c = 32) d"] by simp
    next
      case False
      have "cstr (sh_mem s1) (line + of_nat (st + length w + 1)) d"
      proof (rule cstr_frame [OF tail(2)])
        fix i assume "i \<le> length d"
        then have "st + length w + 1 + i \<le> 100" using prems(7) lr by simp
        with out have "line + of_nat (st + length w + 1 + i) \<notin> H" by blast
        then show "sh_mem s1 (line + of_nat (st + length w + 1) + of_nat i) = sh_mem s (line + of_nat (st + length w + 1) + of_nat i)"
          using st(8) by (simp add: algebra_simps)
      qed
      moreover have len: "st + length w + 1 + length d \<le> 100" using prems(7) lr by simp
      ultimately have sk: "skip_space line (st + length w + 1) (sh_mem s1) = Inr (st + length w + 1 + length (takeWhile (\<lambda>c. c = 32) d))"
        "cstr (sh_mem s1) (line + of_nat (st + length w + 1 + length (takeWhile (\<lambda>c. c = 32) d))) (dropWhile (\<lambda>c. c = 32) d)"
        using conjunct1 [OF skip_space_cstr] conjunct2 [OF skip_space_cstr] len by blast+
      define st' where "st' = st + length w + 1 + length (takeWhile (\<lambda>c. c = 32) d)"
      define d' where "d' = dropWhile (\<lambda>c. c = 32) d"
      have ld: "length (takeWhile (\<lambda>c. c = 32) d) + length d' = length d"
        unfolding d'_def by (metis length_append takeWhile_dropWhile_id)
      have step': "word_loop D line (length zs) st st 0 s = word_loop D line (length (zs @ [z])) st' st' 0 s1"
        unfolding step using sk(1) False prems(5,7) lr by (simp add: st'_def)
      have IH: "(length (zs @ [z]) + length (cut_words d') \<le> 3 \<longrightarrow>
          (\<exists>s' zs'. word_loop D line (length (zs @ [z])) st' st' 0 s1 = Inr s' \<and> cmd_line s' = cmd_line s1 \<and> nb_words s' = 4
            \<and> heap_ok live H (sh_heap s') \<and> length zs' = length (cut_words d')
            \<and> live (sh_heap s') = rev (word_blocks zs' (map (take 49) (cut_words d'))) @ live (sh_heap s1)
            \<and> table_ok (live (sh_heap s')) (sh_mem s') (cmd_line s1) ((zs @ [z]) @ zs') ((ws @ [take 49 w]) @ map (take 49) (cut_words d'))
            \<and> (\<forall>x. x \<notin> H \<longrightarrow> sh_mem s' x = sh_mem s1 x)))
        \<and> (4 \<le> length (zs @ [z]) + length (cut_words d') \<longrightarrow> word_loop D line (length (zs @ [z])) st' st' 0 s1 = Inl (MemBug BAD_LENGTH))"
        unfolding d'_def
      proof (rule 1(1) [OF 2(3) st(5)])
        show "7 \<le> spare (sh_heap s1) + length (zs @ [z])" using prems(2) st(6) by simp
        show "table_ok (live (sh_heap s1)) (sh_mem s1) (cmd_line s1) (zs @ [z]) (ws @ [take 49 w])" unfolding st(2) by (rule st(7))
        show "cstr (sh_mem s1) (line + of_nat st') (dropWhile (\<lambda>c. c = 32) d)" unfolding st'_def using sk(2) prems(7) lr by simp
        show "st' + length (dropWhile (\<lambda>c. c = 32) d) \<le> 100" using ld prems(7) lr by (simp add: st'_def d'_def)
      qed (use st(3) prems(4,5) False in simp_all)
      have cw: "cut_words r = w # cut_words d'" unfolding d'_def by (rule 2(4))
      show ?thesis
      proof (intro conjI impI)
        assume "length zs + length (cut_words r) \<le> 3"
        then have "length (zs @ [z]) + length (cut_words d') \<le> 3" by (simp add: cw)
        with IH obtain s' zs' where "word_loop D line (length (zs @ [z])) st' st' 0 s1 = Inr s'" "cmd_line s' = cmd_line s1" "nb_words s' = 4"
            "heap_ok live H (sh_heap s')" "length zs' = length (cut_words d')"
            "live (sh_heap s') = rev (word_blocks zs' (map (take 49) (cut_words d'))) @ live (sh_heap s1)"
            "table_ok (live (sh_heap s')) (sh_mem s') (cmd_line s1) ((zs @ [z]) @ zs') ((ws @ [take 49 w]) @ map (take 49) (cut_words d'))"
            "\<forall>x. x \<notin> H \<longrightarrow> sh_mem s' x = sh_mem s1 x" by blast
        then show "\<exists>s' zs'. word_loop D line (length zs) st st 0 s = Inr s' \<and> cmd_line s' = cmd_line s \<and> nb_words s' = 4
          \<and> heap_ok live H (sh_heap s') \<and> length zs' = length (cut_words r)
          \<and> live (sh_heap s') = rev (word_blocks zs' (map (take 49) (cut_words r))) @ live (sh_heap s)
          \<and> table_ok (live (sh_heap s')) (sh_mem s') (cmd_line s) (zs @ zs') (ws @ map (take 49) (cut_words r))
          \<and> (\<forall>x. x \<notin> H \<longrightarrow> sh_mem s' x = sh_mem s x)"
          unfolding step' cw using st(2,4,8)
          by (intro exI [of _ s'] exI [of _ "z # zs'"]) (simp add: word_blocks_def)
      next
        assume "4 \<le> length zs + length (cut_words r)"
        then show "word_loop D line (length zs) st st 0 s = Inl (MemBug BAD_LENGTH)"
          unfolding step' using IH by (simp add: cw)
      qed
    qed
  qed
qed


text \<open>An empty line and the first character of a word are no special cases.\<close>

lemma parse_cmd_loop:
  assumes "cstr (sh_mem s) line cs" and "length cs \<le> 100" and "i = length (takeWhile (\<lambda>c. c = 32) cs)"
  shows "parse_cmd D line s = word_loop D line 0 i i 0 s"
    and "cstr (sh_mem s) (line + of_nat i) (dropWhile (\<lambda>c. c = 32) cs)"
    and "i + length (dropWhile (\<lambda>c. c = 32) cs) \<le> 100"
proof -
  have sk: "skip_space line 0 (sh_mem s) = Inr i" and cs: "cstr (sh_mem s) (line + of_nat i) (dropWhile (\<lambda>c. c = 32) cs)"
    using skip_space_cstr [of "sh_mem s" line 0 cs] assms by simp_all
  show "cstr (sh_mem s) (line + of_nat i) (dropWhile (\<lambda>c. c = 32) cs)" by (rule cs)
  have "length (takeWhile (\<lambda>c. c = 32) cs @ dropWhile (\<lambda>c. c = 32) cs) = length cs"
    by (simp only: takeWhile_dropWhile_id)
  then show len: "i + length (dropWhile (\<lambda>c. c = 32) cs) \<le> 100" using assms(2,3) unfolding length_append by linarith
  show "parse_cmd D line s = word_loop D line 0 i i 0 s"
  proof (cases "dropWhile (\<lambda>c. c = 32) cs")
    case Nil
    have z: "sh_mem s (line + of_nat i) = 0" using cs unfolding Nil by simp
    have "word_loop D line 0 i i 0 s = store_word D 0 (line + of_nat i) 1 s"
      using z len by (subst word_loop.simps) simp
    also have "\<dots> = parse_cmd D line s"
      using z sk by (simp add: store_word_def parse_cmd_def strncpy_def Let_def split: prod.split)
    finally show ?thesis by simp
  next
    case (Cons c r)
    then have c: "c \<noteq> 32" using hd_dropWhile [of "\<lambda>c. c = 32" cs] by auto
    have nz: "sh_mem s (line + of_nat i) \<noteq> 0" using cs Cons by simp
    have "cstr (sh_mem s) (line + of_nat i) ([c] @ r)" using cs Cons by simp
    from word_loop_run [OF this, of D 0 i 0] show ?thesis
      using c len Cons sk nz by (simp add: parse_cmd_def)
  qed
qed

lemma table_ok_empty:
  assumes "c \<noteq> 0" and "block c 16 \<in> set bs" and "guarded m c 16" and z: "\<forall>i < 16. m (c + of_nat i) = 0"
  shows "table_ok bs m c [] []"
proof -
  have "load32 m (entry c i) = load32 (\<lambda>_. 0) (entry c i)" if "i < 4" for i
  proof (rule load32_cong)
    fix j :: nat assume "j < 4"
    then have "4 * i + j < 16" using that by simp
    with z have "m (c + of_nat (4 * i + j)) = 0" by blast
    then show "m (entry c i + of_nat j) = 0" by (simp add: entry_def add.assoc)
  qed
  then show ?thesis using assms(1-3) by (simp add: table_ok_def load32_def)
qed

lemma new_cmd_line_ok:
  assumes laws: "malloc_laws D live spare H" and h: "heap_ok live H (sh_heap s)" "0 < spare (sh_heap s)"
    and s1: "s1 = (new_cmd_line D s)\<lparr>sh_mem := m1\<rparr>" "\<forall>x \<in> H. m1 x = sh_mem (new_cmd_line D s) x"
  shows "heap_ok live H (sh_heap s1) \<and> spare (sh_heap s) \<le> Suc (spare (sh_heap s1)) \<and> nb_words s1 = 4
    \<and> live (sh_heap s1) = block (cmd_line s1) 16 # live (sh_heap s)
    \<and> table_ok (live (sh_heap s1)) (sh_mem s1) (cmd_line s1) [] []"
proof -
  have "heap_ok live H (sh_heap (s\<lparr>nb_words := 4\<rparr>))" "0 < spare (sh_heap (s\<lparr>nb_words := 4\<rparr>))"
    "0 < (16 :: nat)" "16 \<le> (100 :: nat)" using h by simp_all
  then obtain z s' where a: "sh_alloc D (of_nat 16) (s\<lparr>nb_words := 4\<rparr>) = (z, s')" "z \<noteq> 0" "guarded (sh_mem s') z 16"
    "\<forall>i < room4 16. sh_mem s' (z + of_nat i) = 0" "live (sh_heap s') = block z 16 # live (sh_heap (s\<lparr>nb_words := 4\<rparr>))"
    "heap_ok live H (sh_heap s')" "spare (sh_heap (s\<lparr>nb_words := 4\<rparr>)) \<le> Suc (spare (sh_heap s'))"
    "nb_words s' = nb_words (s\<lparr>nb_words := 4\<rparr>)"
    by (rule sh_alloc_ok [OF laws])
  have n: "new_cmd_line D s = s'\<lparr>cmd_line := z\<rparr>" using a(1) by (simp add: new_cmd_line_def)
  have t: "table_ok (live (sh_heap s')) (sh_mem s') z [] []"
    using a(2-5) by (intro table_ok_empty) (auto simp: room4_def)
  have "\<forall>x \<in> owned (live (sh_heap s')). m1 x = sh_mem s' x" using s1(2) a(6) unfolding n by (auto simp: heap_ok_def)
  from table_ok_frame [OF t this subset_refl] show ?thesis using a n s1(1) by simp
qed

lemma fold_remove1_rev: "distinct (rev bs @ rest) \<Longrightarrow> fold remove1 bs (rev bs @ rest) = rest"
  by (induction bs) (auto simp: remove1_append)

end
