(* ===== verification/Shell_Contracts.thy ===== *)
theory Shell_Contracts
  imports Shell_Parse
begin

text \<open>
  What the shell's parser does with a line, and an allocator that keeps the promises of
  \<open>malloc_laws\<close>: it deals out slots of 128 bytes in order.
\<close>

section \<open>An allocator by slots\<close>

abbreviation SLOTS :: addr where "SLOTS \<equiv> 0x2000000"

definition slot :: "nat \<Rightarrow> addr" where
  "slot i = SLOTS + of_nat (128 * i)"

text \<open>The state: the sizes of the blocks in use, by slot, the last slot first.\<close>

fun slot_blocks :: "nat option list \<Rightarrow> (addr \<times> nat) list" where
  "slot_blocks [] = []"
| "slot_blocks (a # h) =
     (case a of Some n \<Rightarrow> if length h < 64 then (slot (length h), min n 128) # slot_blocks h else slot_blocks h
      | None \<Rightarrow> slot_blocks h)"

fun release :: "addr \<Rightarrow> nat option list \<Rightarrow> nat option list" where
  "release p [] = []"
| "release p (a # h) = (if length h < 64 \<and> p = slot (length h) then None # h else a # release p h)"

definition slot_malloc :: "nat option list dlmalloc" where
  "slot_malloc =
     \<lparr>public_mALLOc = (\<lambda>n (h, m). if length h < 64 \<and> 0 < n \<and> n \<le> 128 then (slot (length h), Some (unat n) # h, m) else (0, h, m)),
      public_fREe = (\<lambda>p (h, m). (release p h, m))\<rparr>"

definition slot_region :: "addr set" where
  "slot_region = {x. unat (x - SLOTS) < 8192}"

lemma slot_span: "x \<in> span (slot i) n \<Longrightarrow> n \<le> 128 \<Longrightarrow> i < 64 \<Longrightarrow> unat (x - SLOTS) div 128 = i"
proof -
  assume x: "x \<in> span (slot i) n" "n \<le> 128" "i < 64"
  have u: "unat (of_nat (128 * i) :: u32) = 128 * i" using x(3) by (subst unat_of_nat) simp
  have "x - SLOTS = of_nat (128 * i) + (x - slot i)" by (simp add: slot_def)
  also have "unat \<dots> = 128 * i + unat (x - slot i)"
    using x unfolding unat_word_ariths(1) u by (simp add: span_def)
  finally show ?thesis using x by (simp add: span_def)
qed

lemma slot_inj:
  assumes "i < 64" and "j < 64" and "slot i = slot j"
  shows "i = j"
proof -
  have d: "unat (slot k - SLOTS) div 128 = k" if "k < 64" for k
    using that by (intro slot_span [of _ _ 1]) (simp_all add: span_def)
  show ?thesis using d [OF assms(1)] d [OF assms(2)] unfolding assms(3) by simp
qed

lemma slot_blocks_in: "(p, n) \<in> set (slot_blocks h) \<Longrightarrow> \<exists>i. i < length h \<and> i < 64 \<and> p = slot i \<and> n \<le> 128"
proof (induction h)
  case (Cons a h)
  have "(p, n) \<in> set (slot_blocks h) \<or> length h < 64 \<and> p = slot (length h) \<and> n \<le> 128"
    using Cons.prems by (auto split: option.splits if_splits)
  then show ?case
  proof
    assume "(p, n) \<in> set (slot_blocks h)"
    from Cons.IH [OF this] show ?thesis by (metis length_Cons less_SucI)
  next
    assume "length h < 64 \<and> p = slot (length h) \<and> n \<le> 128"
    then show ?thesis by (intro exI [of _ "length h"]) simp
  qed
qed simp

lemma owned_slots: "x \<in> owned (slot_blocks h) \<Longrightarrow> unat (x - SLOTS) div 128 < length h"
proof -
  assume "x \<in> owned (slot_blocks h)"
  then obtain p n where p: "(p, n) \<in> set (slot_blocks h)" "x \<in> span p n" by (auto simp: owned_def)
  from slot_blocks_in [OF p(1)] obtain i where i: "i < length h" "i < 64" "p = slot i" "n \<le> 128" by blast
  from slot_span [OF p(2) [unfolded i(3)] i(4,2)] i(1) show ?thesis by simp
qed

lemma slot_blocks_release:
  "(p, n) \<in> set (slot_blocks h) \<Longrightarrow> slot_blocks (release p h) = remove1 (p, n) (slot_blocks h) \<and> length (release p h) = length h"
proof (induction h)
  case (Cons a h)
  show ?case
  proof (cases "length h < 64 \<and> p = slot (length h)")
    case True
    have "(p, n) \<notin> set (slot_blocks h)"
    proof
      assume "(p, n) \<in> set (slot_blocks h)"
      then obtain i where "i < length h" "i < 64" "p = slot i" using slot_blocks_in by blast
      with slot_inj [of i "length h"] True show False by simp
    qed
    with True Cons.prems show ?thesis by (auto split: option.splits)
  next
    case False
    with Cons.prems have "(p, n) \<in> set (slot_blocks h)" by (auto split: option.splits if_splits)
    from Cons.IH [OF this] False show ?thesis by (auto split: option.splits)
  qed
qed simp

lemma slot_laws: "malloc_laws slot_malloc slot_blocks (\<lambda>h. 64 - length h) slot_region"
  unfolding malloc_laws_def
proof (intro conjI allI impI; (elim conjE)?)
  fix n :: u32 and h m p h' m' x
  assume a: "public_mALLOc slot_malloc n (h, m) = (p, h', m')" "p \<noteq> 0"
  then have e: "length h < 64" "n \<le> 128" "p = slot (length h)" "h' = Some (unat n) # h" "m' = m"
    by (auto simp: slot_malloc_def split: if_splits)
  have n: "unat n \<le> 128" using e(2) by (simp add: word_le_nat_alt)
  show "slot_blocks h' = (p, unat n) # slot_blocks h" using e n by simp
  have "unat (slot (length h)) = 0x2000000 + 128 * length h"
    unfolding slot_def using e(1) by (simp add: unat_word_ariths unat_of_nat)
  then show "unat p + unat n \<le> 2 ^ 32" using e(1,3) n by simp
  show "span p (unat n) \<subseteq> slot_region - owned (slot_blocks h)"
  proof
    fix x assume "x \<in> span p (unat n)"
    then have "unat (x - SLOTS) div 128 = length h" using slot_span n e(1,3) by simp
    then show "x \<in> slot_region - owned (slot_blocks h)"
      using e(1) owned_slots [of x h] by (auto simp: slot_region_def)
  qed
  show "m' x = m x" using e(5) by simp
next
  fix n :: u32 and h m p h' m'
  assume a: "public_mALLOc slot_malloc n (h, m) = (p, h', m')" "0 < n" "n \<le> 128" "0 < 64 - length h"
  then have e: "p = slot (length h)" "h' = Some (unat n) # h" by (auto simp: slot_malloc_def split: if_splits)
  have "slot (length h) \<in> span (slot (length h)) 1" by (simp add: span_def)
  have "unat (slot (length h)) = 0x2000000 + 128 * length h"
    unfolding slot_def using a(4) by (simp add: unat_word_ariths unat_of_nat)
  then show "p \<noteq> 0" using e(1) by auto
  show "64 - length h \<le> Suc (64 - length h')" using e(2) by simp
next
  fix p n h m h' m' x
  assume a: "(p, n) \<in> set (slot_blocks h)" "public_fREe slot_malloc p (h, m) = (h', m')"
  then have e: "h' = release p h" "m' = m" by (auto simp: slot_malloc_def)
  show "slot_blocks h' = remove1 (p, n) (slot_blocks h)" "64 - length h \<le> 64 - length h'" "m' x = m x"
    using slot_blocks_release [OF a(1)] e by simp_all
qed


section \<open>Lines\<close>

lemma parse_line:
  assumes laws: "malloc_laws D live spare H" and h: "sep (live (sh_heap s))" "owned (live (sh_heap s)) \<subseteq> H" "8 \<le> spare (sh_heap s)"
    and out: "\<forall>i \<le> 100. line + of_nat i \<notin> H"
    and s1: "s1 = (new_cmd_line D s)\<lparr>sh_mem := m1\<rparr>" "\<forall>x \<in> H. m1 x = sh_mem (new_cmd_line D s) x"
    and cs: "cstr m1 line cs" "length cs \<le> 100"
  shows "heap_ok live H (sh_heap s1)" and "live (sh_heap s1) = block (cmd_line s1) 16 # live (sh_heap s)"
    and "(length (line_words cs) \<le> 3 \<longrightarrow>
      (\<exists>s' zs'. parse_cmd D line s1 = Inr s' \<and> cmd_line s' = cmd_line s1 \<and> nb_words s' = 4
        \<and> heap_ok live H (sh_heap s') \<and> live (sh_heap s') = rev (word_blocks zs' (line_words cs)) @ live (sh_heap s1)
        \<and> table_ok (live (sh_heap s')) (sh_mem s') (cmd_line s1) zs' (line_words cs)
        \<and> (\<forall>x. x \<notin> H \<longrightarrow> sh_mem s' x = m1 x)))
    \<and> (4 \<le> length (line_words cs) \<longrightarrow> parse_cmd D line s1 = Inl (MemBug BAD_LENGTH))"
proof -
  have ho: "heap_ok live H (sh_heap s)" and "0 < spare (sh_heap s)" using h by (simp_all add: heap_ok_def)
  from new_cmd_line_ok [OF laws this s1]
  have n: "heap_ok live H (sh_heap s1)" "spare (sh_heap s) \<le> Suc (spare (sh_heap s1))" "nb_words s1 = 4"
    "live (sh_heap s1) = block (cmd_line s1) 16 # live (sh_heap s)"
    "table_ok (live (sh_heap s1)) (sh_mem s1) (cmd_line s1) [] []" by blast+
  show "heap_ok live H (sh_heap s1)" "live (sh_heap s1) = block (cmd_line s1) 16 # live (sh_heap s)" by (fact n)+
  have m1: "sh_mem s1 = m1" using s1(1) by simp
  have sp: "7 \<le> spare (sh_heap s1) + length ([] :: addr list)" "length ([] :: addr list) \<le> 2" using n(2) h(3) by simp_all
  note p = parse_cmd_loop [OF cs(1) [folded m1] cs(2) refl]
  have l: "length (line_words cs) = length (cut_words (dropWhile (\<lambda>c. c = 32) cs))" by (simp add: line_words_def)
  have lw: "map (take 49) (cut_words (dropWhile (\<lambda>c. c = 32) cs)) = line_words cs" by (simp add: line_words_def)
  note w = word_loop_words [OF laws out n(1) sp(1) n(5,3) sp(2) p(2,3), unfolded l [symmetric] lw m1]
  show "(length (line_words cs) \<le> 3 \<longrightarrow>
      (\<exists>s' zs'. parse_cmd D line s1 = Inr s' \<and> cmd_line s' = cmd_line s1 \<and> nb_words s' = 4
        \<and> heap_ok live H (sh_heap s') \<and> live (sh_heap s') = rev (word_blocks zs' (line_words cs)) @ live (sh_heap s1)
        \<and> table_ok (live (sh_heap s')) (sh_mem s') (cmd_line s1) zs' (line_words cs)
        \<and> (\<forall>x. x \<notin> H \<longrightarrow> sh_mem s' x = m1 x)))
    \<and> (4 \<le> length (line_words cs) \<longrightarrow> parse_cmd D line s1 = Inl (MemBug BAD_LENGTH))"
  proof (intro conjI impI)
    assume "length (line_words cs) \<le> 3"
    with w show "\<exists>s' zs'. parse_cmd D line s1 = Inr s' \<and> cmd_line s' = cmd_line s1 \<and> nb_words s' = 4
        \<and> heap_ok live H (sh_heap s') \<and> live (sh_heap s') = rev (word_blocks zs' (line_words cs)) @ live (sh_heap s1)
        \<and> table_ok (live (sh_heap s')) (sh_mem s') (cmd_line s1) zs' (line_words cs)
        \<and> (\<forall>x. x \<notin> H \<longrightarrow> sh_mem s' x = m1 x)"
      unfolding p(1) by (metis append_Nil list.size(3) add_0)
  next
    assume "4 \<le> length (line_words cs)"
    with w show "parse_cmd D line s1 = Inl (MemBug BAD_LENGTH)" unfolding p(1) by simp
  qed
qed

text \<open>
  C30: the shell parses a line of up to three words. After a turn of the shell got its table of words
  and the line \<open>cs\<close> was read into \<^verbatim>\<open>line\<close> (the memory outside the heap is then \<open>m1\<close>), \<^verbatim>\<open>parse_cmd\<close> returns, the
  entries of \<^verbatim>\<open>cmd_line\<close> point to the words of the line, each cut to 49 characters and ended by a NUL, and
  a null pointer follows; \<^verbatim>\<open>free_cmd_line\<close> then gives back exactly the blocks that were taken, with no
  allocator error, and memory outside the heap is as it was.
\<close>

theorem parse_cmd_splits:
  assumes laws: "malloc_laws D live spare H" and h: "sep (live (sh_heap s))" "owned (live (sh_heap s)) \<subseteq> H" "8 \<le> spare (sh_heap s)"
    and out: "\<forall>i \<le> LINE_SIZE. line + of_nat i \<notin> H"
    and s1: "s1 = (new_cmd_line D s)\<lparr>sh_mem := m1\<rparr>" "\<forall>x \<in> H. m1 x = sh_mem (new_cmd_line D s) x"
    and cs: "cstr m1 line cs" "length cs \<le> LINE_SIZE" and words: "length (line_words cs) \<le> 3"
  shows "\<exists>s2 s3. parse_cmd D line s1 = Inr s2
    \<and> (\<forall>i < length (line_words cs). cstr (sh_mem s2) (load32 (sh_mem s2) (entry (cmd_line s2) i)) (line_words cs ! i))
    \<and> load32 (sh_mem s2) (entry (cmd_line s2) (length (line_words cs))) = 0
    \<and> free_cmd_line D s2 = Inr s3 \<and> live (sh_heap s3) = live (sh_heap s) \<and> (\<forall>x. x \<notin> H \<longrightarrow> sh_mem s3 x = m1 x)"
proof -
  note p = parse_line [OF laws h out s1 cs]
  obtain s2 zs where s2: "parse_cmd D line s1 = Inr s2" "cmd_line s2 = cmd_line s1" "nb_words s2 = 4"
    "heap_ok live H (sh_heap s2)" "live (sh_heap s2) = rev (word_blocks zs (line_words cs)) @ live (sh_heap s1)"
    "table_ok (live (sh_heap s2)) (sh_mem s2) (cmd_line s1) zs (line_words cs)" "\<forall>x. x \<notin> H \<longrightarrow> sh_mem s2 x = m1 x"
    using p(3) words by blast
  obtain s3 where s3: "free_cmd_line D s2 = Inr s3" "\<forall>x. x \<notin> H \<longrightarrow> sh_mem s3 x = sh_mem s2 x"
    "live (sh_heap s3) = remove1 (block (cmd_line s2) 16) (fold remove1 (word_blocks zs (line_words cs)) (live (sh_heap s2)))"
    by (rule free_cmd_line_ok [OF laws s2(4) s2(6) [folded s2(2)] s2(3)])
  have "distinct (live (sh_heap s2))" using s2(4) by (intro sep_distinct) (simp add: heap_ok_def)
  then have "live (sh_heap s3) = live (sh_heap s)"
    unfolding s3(3) s2(2,5) using fold_remove1_rev p(2) by (metis remove1.simps(2))
  moreover have "length (line_words cs) = length zs"
    "\<forall>i < length zs. load32 (sh_mem s2) (entry (cmd_line s2) i) = zs ! i \<and> cstr (sh_mem s2) (zs ! i) (line_words cs ! i)"
    "\<forall>i < 4. length zs \<le> i \<longrightarrow> load32 (sh_mem s2) (entry (cmd_line s2) i) = 0"
    using s2(6) unfolding table_ok_def word_ok_def s2(2) by blast+
  moreover from this(1) words have "length zs < 4" by simp
  ultimately show ?thesis using s2(1,7) s3(1,2) by (intro exI [of _ s2] exI [of _ s3]) simp
qed

text \<open>The line \<^verbatim>\<open>ps -a\<close> at address 0x1500000.\<close>

definition sample_line :: "addr \<Rightarrow> u8 list \<Rightarrow> nat option list shell" where
  "sample_line a bs = \<lparr>sh_heap = [], sh_mem = write_bytes (\<lambda>_. 0) a bs, cmd_line = 0, nb_words = 0\<rparr>"

definition sample_read :: "nat option list shell \<Rightarrow> mem" where
  "sample_read s = (\<lambda>x. if x \<in> slot_region then sh_mem (new_cmd_line slot_malloc s) x else sh_mem s x)"

lemma sample_outside: "i \<le> LINE_SIZE \<Longrightarrow> 0x1500000 + of_nat i \<notin> slot_region"
proof -
  assume "i \<le> LINE_SIZE"
  then have "(0x1500000 :: addr) + of_nat i - SLOTS = of_nat (0xFF500000 + i)" by simp
  moreover have "unat (of_nat (0xFF500000 + i) :: u32) = 0xFF500000 + i"
    using \<open>i \<le> LINE_SIZE\<close> by (subst unat_of_nat) simp
  ultimately show ?thesis by (simp add: slot_region_def del: of_nat_add)
qed

lemma parse_cmd_splits_witness:
  "\<exists>s2 s3. parse_cmd slot_malloc 0x1500000
      ((new_cmd_line slot_malloc (sample_line 0x1500000 [112, 115, 32, 45, 97]))\<lparr>sh_mem := sample_read (sample_line 0x1500000 [112, 115, 32, 45, 97])\<rparr>) = Inr s2
    \<and> cstr (sh_mem s2) (load32 (sh_mem s2) (entry (cmd_line s2) 1)) [45, 97]
    \<and> load32 (sh_mem s2) (entry (cmd_line s2) 2) = 0 \<and> free_cmd_line slot_malloc s2 = Inr s3"
proof -
  let ?s = "sample_line 0x1500000 [112, 115, 32, 45, 97]"
  have h: "sep (slot_blocks (sh_heap ?s))" "owned (slot_blocks (sh_heap ?s)) \<subseteq> slot_region" "8 \<le> 64 - length (sh_heap ?s)"
    by (simp_all add: sample_line_def)
  have out: "\<forall>i \<le> LINE_SIZE. (0x1500000 :: addr) + of_nat i \<notin> slot_region" using sample_outside by blast
  have rd: "\<forall>x \<in> slot_region. sample_read ?s x = sh_mem (new_cmd_line slot_malloc ?s) x" by (simp add: sample_read_def)
  have "sample_read ?s (0x1500000 + of_nat i) = sh_mem ?s (0x1500000 + of_nat i)" if "i \<le> 5" for i
    using sample_outside [of i] that by (simp add: sample_read_def)
  from this [of 0] this [of 1] this [of 2] this [of 3] this [of 4] this [of 5]
  have cs: "cstr (sample_read ?s) 0x1500000 [112, 115, 32, 45, 97]" "length [112, 115, 32, 45, 97 :: u8] \<le> LINE_SIZE"
    by (simp_all add: sample_line_def)
  have w: "line_words [112, 115, 32, 45, 97] = [[112, 115], [45, 97]]"
    by (simp add: line_words_def cut_words.simps)
  have "length (line_words [112, 115, 32, 45, 97]) \<le> 3" by (simp add: w)
  from parse_cmd_splits [OF slot_laws h out refl rd cs this, unfolded w] obtain s2 s3 where
    r: "parse_cmd slot_malloc 0x1500000 ((new_cmd_line slot_malloc ?s)\<lparr>sh_mem := sample_read ?s\<rparr>) = Inr s2"
      "\<forall>i < length [[112, 115], [45, 97 :: u8]]. cstr (sh_mem s2) (load32 (sh_mem s2) (entry (cmd_line s2) i)) ([[112, 115], [45, 97]] ! i)"
      "load32 (sh_mem s2) (entry (cmd_line s2) (length [[112, 115], [45, 97 :: u8]])) = 0" "free_cmd_line slot_malloc s2 = Inr s3"
    by blast
  have "cstr (sh_mem s2) (load32 (sh_mem s2) (entry (cmd_line s2) 1)) [45, 97]" using r(2) [rule_format, of 1] by simp
  moreover have "load32 (sh_mem s2) (entry (cmd_line s2) 2) = 0" using r(3) by (simp add: numeral_2_eq_2)
  ultimately show ?thesis using r(1,4) by blast
qed

text \<open>
  C31: the shell cannot take a fourth word. On a line of four words or more, \<^verbatim>\<open>parse_cmd\<close> doubles
  \<^verbatim>\<open>nb_words\<close> before \<^verbatim>\<open>free_cmd_line\<close> gives the old table back, so the length it passes to \<^verbatim>\<open>mem_free\<close> is twice the
  length the table was allocated with, and \<^verbatim>\<open>mem_free\<close> stops the shell with an allocator error.
\<close>

theorem fourth_word_stops_shell:
  assumes laws: "malloc_laws D live spare H" and h: "sep (live (sh_heap s))" "owned (live (sh_heap s)) \<subseteq> H" "8 \<le> spare (sh_heap s)"
    and out: "\<forall>i \<le> LINE_SIZE. line + of_nat i \<notin> H"
    and s1: "s1 = (new_cmd_line D s)\<lparr>sh_mem := m1\<rparr>" "\<forall>x \<in> H. m1 x = sh_mem (new_cmd_line D s) x"
    and cs: "cstr m1 line cs" "length cs \<le> LINE_SIZE" and words: "4 \<le> length (line_words cs)"
  shows "parse_cmd D line s1 = Inl (MemBug ''allocator error : not the same length as when allocated'')"
  using parse_line(3) [OF laws h out s1 cs] words by blast

text \<open>The line \<^verbatim>\<open>a b c d\<close>.\<close>

lemma fourth_word_stops_shell_witness:
  "parse_cmd slot_malloc 0x1500000
      ((new_cmd_line slot_malloc (sample_line 0x1500000 [97, 32, 98, 32, 99, 32, 100]))\<lparr>sh_mem := sample_read (sample_line 0x1500000 [97, 32, 98, 32, 99, 32, 100])\<rparr>)
    = Inl (MemBug ''allocator error : not the same length as when allocated'')"
proof -
  let ?s = "sample_line 0x1500000 [97, 32, 98, 32, 99, 32, 100]"
  have h: "sep (slot_blocks (sh_heap ?s))" "owned (slot_blocks (sh_heap ?s)) \<subseteq> slot_region" "8 \<le> 64 - length (sh_heap ?s)"
    by (simp_all add: sample_line_def)
  have out: "\<forall>i \<le> LINE_SIZE. (0x1500000 :: addr) + of_nat i \<notin> slot_region" using sample_outside by blast
  have rd: "\<forall>x \<in> slot_region. sample_read ?s x = sh_mem (new_cmd_line slot_malloc ?s) x" by (simp add: sample_read_def)
  have "sample_read ?s (0x1500000 + of_nat i) = sh_mem ?s (0x1500000 + of_nat i)" if "i \<le> 7" for i
    using sample_outside [of i] that by (simp add: sample_read_def)
  from this [of 0] this [of 1] this [of 2] this [of 3] this [of 4] this [of 5] this [of 6] this [of 7]
  have cs: "cstr (sample_read ?s) 0x1500000 [97, 32, 98, 32, 99, 32, 100]" "length [97, 32, 98, 32, 99, 32, 100 :: u8] \<le> LINE_SIZE"
    by (simp_all add: sample_line_def)
  have w: "4 \<le> length (line_words [97, 32, 98, 32, 99, 32, 100])" by (simp add: line_words_def cut_words.simps)
  show ?thesis by (rule fourth_word_stops_shell [OF slot_laws h out refl rd cs w])
qed

end
