(* ===== verification/Shell.thy ===== *)
theory Shell
  imports Shell_Contracts Userland
begin

text \<open>
  \<^verbatim>\<open>user/shell.c\<close>: a turn of \<^verbatim>\<open>start_shell\<close> on top of the parser and the system calls. Then the small programs
  of \<^verbatim>\<open>user/processes.c\<close> and \<^verbatim>\<open>kernel/kernel_processes.c\<close> and \<^verbatim>\<open>panic\<close>.
\<close>

section \<open>A turn of the shell\<close>

text \<open>The memory of the shell is that of the machine: it goes to the kernel and back with each call.\<close>

definition lift_fault :: "'a result \<Rightarrow> 'a uresult" where
  "lift_fault r = (case r of Inl e \<Rightarrow> Inl (Fault e) | Inr x \<Rightarrow> Inr x)"

text \<open>\<^verbatim>\<open>strcmp(s, "...") == 0\<close>.\<close>

definition str_is :: "mem \<Rightarrow> addr \<Rightarrow> string \<Rightarrow> bool" where
  "str_is m a w = cstr m a (map of_char w)"

text \<open>The prompt and the reading of the line; \<open>None\<close> if the shell has to wait for it.\<close>

definition shell_prompt :: "inputs \<Rightarrow> 'm env \<Rightarrow> 'h dlmalloc \<Rightarrow> addr \<Rightarrow> 'h shell \<times> ('m, 'z) kernel_scheme
    \<Rightarrow> (int option \<times> 'h shell \<times> ('m, 'z) kernel_scheme) uresult" where
  "shell_prompt inp E D line ts =
     (let (t, s) = ts; t1 = new_cmd_line D (t\<lparr>sh_mem := mem s\<rparr>) in
      bnd (lift_fault (user_print_prompt inp E (s\<lparr>mem := sh_mem t1\<rparr>))) (\<lambda>(_, s1).
      bnd (lift_fault (user_shell_cons_read inp E line (of_nat LINE_SIZE) s1)) (\<lambda>(r, s2).
        Inr (r, t1\<lparr>sh_mem := mem s2\<rparr>, s2))))"

text \<open>The command, by its first word.\<close>

definition shell_dispatch :: "inputs \<Rightarrow> 'm env \<Rightarrow> addr \<Rightarrow> ('m, 'z) call" where
  "shell_dispatch inp E cmd s =
     (if str_is (mem s) cmd ''echo'' then shell_echo inp E s
      else if str_is (mem s) cmd ''exit'' then shell_exit inp E s
      else if str_is (mem s) cmd ''ls'' then shell_ls inp E s
      else if str_is (mem s) cmd ''cd'' then shell_cd inp E s
      else if str_is (mem s) cmd ''ps'' then shell_ps inp E s
      else if str_is (mem s) cmd ''sinfo'' then shell_sinfo inp E s
      else if str_is (mem s) cmd ''clear'' then user_clear inp E s
      else if str_is (mem s) cmd '''' then Inr (Some 0, s)
      else case str_at (mem s) cmd of
        None \<Rightarrow> Inl Hang
      | Some w \<Rightarrow> bnd (kprintf (CHR 34 # ''%s'' @ [CHR 34] @ '' : commande introuvable'' @ [CHR 10]) [VStr (Some w)] s)
                    (\<lambda>s1. Inr (Some 0, s1)))"

text \<open>What follows the reading of the line.\<close>

definition shell_command :: "inputs \<Rightarrow> 'm env \<Rightarrow> 'h dlmalloc \<Rightarrow> addr \<Rightarrow> 'h shell \<times> ('m, 'z) kernel_scheme
    \<Rightarrow> (int option \<times> 'h shell \<times> ('m, 'z) kernel_scheme) uresult" where
  "shell_command inp E D line ts =
     (let (t, s) = ts in
      bnd (parse_cmd D line (t\<lparr>sh_mem := mem s\<rparr>)) (\<lambda>t1.
      bnd (lift_fault (shell_dispatch inp E (load32 (sh_mem t1) (entry (cmd_line t1) 0)) (s\<lparr>mem := sh_mem t1\<rparr>))) (\<lambda>(r, s1).
        case r of
          None \<Rightarrow> Inr (None, t1, s1)
        | Some _ \<Rightarrow> bnd (free_cmd_line D (t1\<lparr>sh_mem := mem s1\<rparr>)) (\<lambda>t2. Inr (Some 0, t2, s1\<lparr>mem := sh_mem t2\<rparr>)))))"

text \<open>Comparing with a literal by \<^verbatim>\<open>strcmp\<close>.\<close>

lemma strcmp_literal:
  assumes "cstr m b ds"
  shows "(strcmp m a b = Some 0) = cstr m a ds"
  using assms
proof (induction ds arbitrary: a b)
  case Nil
  then show ?case by (subst strcmp.simps) (auto simp: Let_def word_uint_eq_iff)
next
  case (Cons d ds)
  from Cons.prems have "m b = d" "d \<noteq> 0" "cstr m (b + 1) ds" by simp_all
  with Cons.IH [of "b + 1" "a + 1"] show ?case
    by (subst strcmp.simps) (auto simp: Let_def word_uint_eq_iff)
qed


text \<open>A parsed line goes to the command its first word names.\<close>

lemma shell_dispatch_word:
  assumes "cstr (mem s) cmd w" and "str_at (mem s) cmd = Some v"
  shows "shell_dispatch inp E cmd s =
    (if w = map of_char ''echo'' then shell_echo inp E s
     else if w = map of_char ''exit'' then shell_exit inp E s
     else if w = map of_char ''ls'' then shell_ls inp E s
     else if w = map of_char ''cd'' then shell_cd inp E s
     else if w = map of_char ''ps'' then shell_ps inp E s
     else if w = map of_char ''sinfo'' then shell_sinfo inp E s
     else if w = map of_char ''clear'' then user_clear inp E s
     else if w = [] then Inr (Some 0, s)
     else bnd (kprintf (CHR 34 # ''%s'' @ [CHR 34] @ '' : commande introuvable'' @ [CHR 10]) [VStr (Some v)] s)
            (\<lambda>s1. Inr (Some 0, s1)))"
proof -
  have e: "str_is (mem s) cmd lit = (w = map of_char lit)" for lit
    using assms(1) cstr_unique [OF assms(1)] unfolding str_is_def by metis
  show ?thesis unfolding shell_dispatch_def e assms(2) by simp
qed

section \<open>Programs\<close>

text \<open>\<^verbatim>\<open>panic\<close> prints, then writes to address 0.\<close>

definition panic :: "string \<Rightarrow> va list \<Rightarrow> 'z console_scheme \<Rightarrow> 'a result" where
  "panic fmt args s = bnd (kprintf ''PANIC: '' [] s) (\<lambda>s1. bnd (kprintf fmt args s1) (\<lambda>_. Inl NullDeref))"

text \<open>A turn of \<^verbatim>\<open>daemon_Zombieslayer\<close>; \<open>k\<close> is what it goes on with after the sleep.\<close>

definition daemon_Zombieslayer :: "'m env \<Rightarrow> cont \<Rightarrow> ('m, 'z) procs_scheme \<Rightarrow> (unit option \<times> ('m, 'z) procs_scheme) result" where
  "daemon_Zombieslayer E k s = bnd (check_zombies E s) (sleep 10 k)"

text \<open>The programs take the addresses of \<^verbatim>\<open>mario\<close>, of \<^verbatim>\<open>test_proc\<close> and of its name.\<close>

definition audio_program :: "inputs \<Rightarrow> 'm env \<Rightarrow> addr \<Rightarrow> ('m, 'z) call" where
  "audio_program inp E mario s = bnd (user_play_music inp E mario s) (\<lambda>(r, s1). Inr (map_option (\<lambda>_. 0) r, s1))"

definition tests :: "inputs \<Rightarrow> 'm env \<Rightarrow> addr \<Rightarrow> addr \<Rightarrow> ('m, 'z) call" where
  "tests inp E test_proc name = user_start inp E test_proc 0x1000 128 name 0"

end
