(* ===== verification/Spec2Isabelle.thy ===== *)
theory Spec2Isabelle
  imports Link_Queue CString Doprnt Numeric Console Timer Process_Ops Semaphore Sem_Contracts Userland Pci Descriptors Keyboard_Ops Kernel_Steps Debugger Interrupts Kbd_Path Shell
begin

text \<open>
  A verification development for a small kernel for the PC (C and assembly, \<^verbatim>\<open>src/kernel\<close>, \<^verbatim>\<open>src/shared\<close>,
  \<^verbatim>\<open>src/user\<close>): preemptive processes with priorities, semaphores, a console with a keyboard, a clock, and a user
  library on top of one software interrupt.

  \<^bold>\<open>The program.\<close> \<^verbatim>\<open>kernel_start\<close> (\<^verbatim>\<open>kernel/start.c\<close>) initialises screen, clock, interrupt table, process
  handling, semaphores, keyboard buffer and audio, starts the first user process and becomes \<^verbatim>\<open>idle\<close>. From then on
  the kernel runs only in handlers, with interrupts masked: the clock (\<^verbatim>\<open>it32\<close>), the keyboard (\<^verbatim>\<open>it33\<close>), the audio
  clock (\<^verbatim>\<open>it40\<close>), the system calls (\<^verbatim>\<open>it49\<close>, dispatched by number) and one exception (\<^verbatim>\<open>it13\<close>). A handler may call
  \<^verbatim>\<open>scheduler\<close>, which switches kernel stacks; the process left goes on in the middle of that handler when it is
  elected again. Processes and semaphores live in static tables of 100 entries; every entry is at any time in
  queues that thread through the entries (\<^verbatim>\<open>shared/queue.h\<close>).

  \<^bold>\<open>State.\<close> The static variables of the kernel are one record that each component extends: \<open>console\<close>
  (\<^verbatim>\<open>console.c\<close>), \<open>timer\<close> (\<^verbatim>\<open>timer.c\<close>), \<open>procs\<close> (\<^verbatim>\<open>process_handler.c\<close>, with the memory and the state of the
  allocators), \<open>sems\<close> (\<^verbatim>\<open>sem.c\<close>), \<open>kbd\<close> (\<^verbatim>\<open>kbd.c\<close>), \<open>audio\<close>, \<open>kernel\<close> (the static variables of the handlers). An
  operation of a component applies to every extension of its record. Links are a map from the places where the
  code has a \<^verbatim>\<open>link\<close> to their two pointers, so that aliasing of queues is explicit. Memory is a map from 32-bit
  addresses to bytes; that only 48 MB of it are mapped comes in with the system calls of \<open>Kernel_Steps\<close>. A run that the code cannot continue (failed \<^verbatim>\<open>assert\<close>, null pointer, endless loop, divide
  error) is an error \<open>Inl\<close>. A function that may switch takes what is left to do after the switch as a
  value of \<open>cont\<close>, which \<^verbatim>\<open>scheduler\<close> stores in \<open>resume_at\<close> for the process it leaves (the kernel stack of the
  code); the result \<open>None\<close> says that the processor went elsewhere, and \<open>resume\<close> runs what is left.

  \<^bold>\<open>Theories.\<close>
  \<^item> \<open>Kernel_Prelude\<close>: faults, sequencing, words and memory access. \<open>Link_Queue\<close>: \<^verbatim>\<open>shared/queue.h\<close>; the locale
    \<open>link_family\<close> states what a family of disjoint queues promises, once for all; it is interpreted for the state
    queues, the children, the garbage list, the semaphores and the keyboard buffer.
  \<^item> \<open>CString\<close>: \<^verbatim>\<open>shared/string.c\<close>, the functions on memory blocks and on strings. \<open>Doprnt\<close>: \<^verbatim>\<open>doprnt.c\<close>, \<^verbatim>\<open>printf.c\<close>,
    \<^verbatim>\<open>sprintf.c\<close>; the locale \<open>byte_sink\<close> is the interface of \<^verbatim>\<open>printf\<close> to what it writes to. \<open>Numeric\<close>: \<^verbatim>\<open>strtol.c\<close>,
    \<^verbatim>\<open>strtoul.c\<close>, \<^verbatim>\<open>div64.c\<close>.
  \<^item> \<open>Console\<close>: \<^verbatim>\<open>console.c\<close>, \<^verbatim>\<open>console_putbytes.c\<close>. \<open>Timer\<close>: \<^verbatim>\<open>timer.c\<close>.
  \<^item> \<open>Process\<close>, \<open>Semaphore\<close>, \<open>Lifecycle\<close>: the operations of \<^verbatim>\<open>process_handler.c\<close> and \<^verbatim>\<open>sem.c\<close>. \<open>Process_Inv\<close>,
    \<open>Process_Ops\<close>: the invariant \<open>running\<close> of table and queues and what the scheduler, \<^verbatim>\<open>chprio\<close>, \<^verbatim>\<open>wait_clock\<close> and
    \<^verbatim>\<open>start\<close> do to it. \<open>Sem_Ops\<close>, \<open>Sem_Contracts\<close>: the invariant \<open>sem_inv\<close>, which balances the value of a semaphore
    against the processes blocked on it, and the contract of every operation. \<open>Family\<close>, \<open>Family_Contracts\<close>: the
    invariant \<open>family\<close> of the tree of processes and the contracts of \<^verbatim>\<open>exit\<close>, \<^verbatim>\<open>waitpid\<close>, \<^verbatim>\<open>kill\<close> and the collector.
  \<^item> \<open>Keyboard\<close>, \<open>Keyboard_Ops\<close>: \<^verbatim>\<open>kbd.c\<close> and the blocked readers of \<^verbatim>\<open>process_handler.c\<close>; the buffer refines a
    bounded queue of characters.
  \<^item> \<open>Scancode\<close>, \<open>Keymap\<close>, \<open>Kbd_Driver\<close>: the keyboard driver (\<^verbatim>\<open>kbd_linux\<close>, \<^verbatim>\<open>keyboard-glue.c\<close>), a record of its own whose
    calls into the kernel are recorded in order. \<open>Kbd_Bounds\<close>: the locale \<open>key_layout\<close>, what a key map owes the driver for
    its accesses to stay in bounds; \<open>Kbd_Typing\<close>: the locale \<open>typing_layout\<close> extends it to what typing delivers; both are
    interpreted for the key map the kernel is linked with. \<open>Kbd_Path\<close>: from the scan codes to the waiting reader.
  \<^item> \<open>Devices\<close>: \<^verbatim>\<open>interruptions/interruption.c\<close>, \<^verbatim>\<open>audio\<close>. \<open>Descriptors\<close>: \<^verbatim>\<open>processor_structs.c\<close>. \<open>Pci\<close>: \<^verbatim>\<open>kernel/pci\<close>.
    What a port gives when it is read is a parameter \<open>inp\<close>, what is written to ports is recorded. The bits that the
    processor itself sets in a descriptor when it is loaded are part of the tables.
  \<^item> \<open>System\<close>: the handlers, the dispatch of the system calls, \<^verbatim>\<open>kernel_start\<close> and \<open>resume\<close>. \<open>Userland\<close>: the user library.
  \<^item> \<open>Alloc\<close>: the defensive wrapper of the allocator (\<^verbatim>\<open>mem_alloc\<close>, \<^verbatim>\<open>mem_free\<close> of \<^verbatim>\<open>shared/malloc.c.h\<close>), with dlmalloc as
    a parameter and its promises as \<open>malloc_laws\<close>. \<open>Shell_Parse\<close>, \<open>Shell_Contracts\<close>: the parser of \<^verbatim>\<open>user/shell.c\<close>, which no process
    starts, on top of it. \<open>Shell\<close>: a turn of the shell, \<^verbatim>\<open>panic\<close>, the small programs.
  \<^item> \<open>Interrupts\<close>: what the interrupt table and the interrupt controller hold after the start.
  \<^item> \<open>Gdb\<close>, \<open>Gdb_Proofs\<close>: \<^verbatim>\<open>serial.c\<close>, \<^verbatim>\<open>gdb_serial.c\<close>, \<^verbatim>\<open>gdb_serial_support.c\<close>, the remote debugger: packets, commands,
    access to memory through the page tables. \<open>Debugger\<close>: \<^verbatim>\<open>debugger.c\<close> and the exception handlers, which leave the
    interrupted task as it was.
  \<^item> \<open>Boot\<close>: from the static initialisers to the first process. \<open>Kernel_Steps\<close>: the kernel as a transition system;
    all the invariants together hold in every reachable state and no step fails. Processes write their own memory
    between their calls, pointers outside the mapped memory are page faults, and the allocators may stop the machine.

  \<^bold>\<open>What is shown.\<close> Contracts of single operations say, on every branch, what the result is, what changes in the
  table and the queues, that the invariant holds again and that there is no fault; \<open>Kernel_Steps\<close> composes them. The
  contracts show where the code does not do what it means to: \<^verbatim>\<open>wait_clock\<close> fails an assertion for times beyond
  the signed range, \<^verbatim>\<open>start\<close> loses an identifier when memory is short, \<^verbatim>\<open>kill\<close> of a blocked process wakes another one,
  orphans stay in the list of a dead father, pointers of user code are not compared with the end of the mapped memory,
  the shell gives its table of words back with a wrong length. The transition system excludes those cases
  in which the kernel would fail (\<open>permitted\<close>), and the system calls that read from the keyboard, list the state or play music.

  \<^bold>\<open>Bounds.\<close> A loop over a queue is given as many turns as there are links: 413 for the processes (\<open>NB_LINKS\<close>: 101
  entries with four links and the heads), 103 for the semaphores (\<open>NB_SLINKS\<close>) and for the keyboard
  (\<open>NB_KLINKS\<close>). A traversal that needs more never ends, because it visits a link twice; the contracts
  show that the bound is not reached under the invariants. Loops over strings end at the NUL, which is a hypothesis
  (\<open>cstr\<close>) or a result \<open>None\<close>; loops with a count are structural. Words have their widths: \<^verbatim>\<open>int\<close> values of the
  process table are integers that the code keeps small, 32-bit arithmetic that can wrap is on words.

  \<^bold>\<open>Not modelled.\<close> \<^verbatim>\<open>kernel/lwip\<close> (a vendored network stack that the kernel does not start), the vendored dlmalloc in
  \<^verbatim>\<open>shared/malloc.c.h\<close> (a parameter: \<open>env\<close> for the kernel, used through success or failure and whether it has stopped the
  machine, and \<open>dlmalloc\<close> for the user instance; that the blocks the kernel gets are mapped and apart from its variables is
  taken for granted), the assembly files (they save and restore registers), \<^verbatim>\<open>idle\<close>, \<^verbatim>\<open>banner\<close> and \<^verbatim>\<open>user_start\<close>, test programs and
  tables of sound samples.
\<close>

end
